(* ===== verification/Prelude.thy ===== *)
theory Prelude
  imports Complex_Main "HOL-Library.AList" "HOL-Library.Multiset"
begin

text \<open>
  Shared material of the development.

  \<^item> JavaScript objects, \<^verbatim>\<open>Map\<close>s and \<^verbatim>\<open>Set\<close>s keep insertion order. An object or a
    \<^verbatim>\<open>Map\<close> is an association list in iteration order: \<^verbatim>\<open>o[k] = v\<close> is \<^verbatim>\<open>AList.update\<close>
    (in place, or appended), \<^verbatim>\<open>delete o[k]\<close> is \<^verbatim>\<open>AList.delete\<close>, \<^verbatim>\<open>o[k]\<close> is \<^verbatim>\<open>map_of\<close>.
    A \<^verbatim>\<open>Set\<close> is a list without duplicates, with \<^verbatim>\<open>sadd\<close> for \<^verbatim>\<open>add\<close> and \<^verbatim>\<open>sdel\<close> for
    \<^verbatim>\<open>delete\<close>.  Keys of the prototype chain (\<^verbatim>\<open>constructor\<close>, \<^verbatim>\<open>toString\<close>) and the
    integer-like keys, which JavaScript iterates first, are outside the model.
  \<^item> An interface (locale) for such maps, one for the successor relation of a graph, and
    one for state machines with an invariant; each is interpreted where it is provided.
  \<^item> Errors: an exception is the left summand of \<^verbatim>\<open>error + 'a\<close>.
\<close>

named_theorems wf_intros \<open>preservation lemmas of the well-formedness invariants\<close>
named_theorems frame_simps \<open>fields an operation leaves unchanged\<close>

section \<open>Insertion ordered sets and maps\<close>

type_synonym ('k, 'v) omap = "('k \<times> 'v) list"

definition sadd :: "'a \<Rightarrow> 'a list \<Rightarrow> 'a list" where
  "sadd x xs = (if x \<in> set xs then xs else xs @ [x])"

definition sdel :: "'a \<Rightarrow> 'a list \<Rightarrow> 'a list" where
  "sdel x xs = filter (\<lambda>y. y \<noteq> x) xs"

definition set_of_list :: "'a list \<Rightarrow> 'a list" where
  "set_of_list xs = fold sadd xs []"

lemma set_sadd [simp]: "set (sadd x xs) = insert x (set xs)"
  by (auto simp: sadd_def)

lemma distinct_sadd [simp]: "distinct (sadd x xs) = distinct xs"
  by (auto simp: sadd_def)

lemma set_sdel [simp]: "set (sdel x xs) = set xs - {x}"
  by (auto simp: sdel_def)

lemma distinct_sdel [simp]: "distinct xs \<Longrightarrow> distinct (sdel x xs)"
  by (simp add: sdel_def)

lemma set_fold_sadd [simp]: "set (fold sadd xs ys) = set xs \<union> set ys"
  by (induction xs arbitrary: ys) auto

lemma distinct_fold_sadd [simp]: "distinct (fold sadd xs ys) = distinct ys"
  by (induction xs arbitrary: ys) auto

lemma set_set_of_list [simp]: "set (set_of_list xs) = set xs"
  by (simp add: set_of_list_def)

lemma distinct_set_of_list [simp]: "distinct (set_of_list xs)"
  by (simp add: set_of_list_def)

lemma set_fold_sdel [simp]: "set (fold sdel xs ys) = set ys - set xs"
  by (induction xs arbitrary: ys) auto

lemma distinct_fold_sdel [simp]: "distinct ys \<Longrightarrow> distinct (fold sdel xs ys)"
  by (induction xs arbitrary: ys) auto

text \<open>\<^verbatim>\<open>Object.keys\<close>, \<^verbatim>\<open>Object.values\<close>, \<^verbatim>\<open>Object.hasOwn\<close>.\<close>

abbreviation okeys :: "('k, 'v) omap \<Rightarrow> 'k list" where
  "okeys m \<equiv> map fst m"

abbreviation ovals :: "('k, 'v) omap \<Rightarrow> 'v list" where
  "ovals m \<equiv> map snd m"

definition has_key :: "('k, 'v) omap \<Rightarrow> 'k \<Rightarrow> bool" where
  "has_key m k = (map_of m k \<noteq> None)"

lemma has_key_iff: "has_key m k \<longleftrightarrow> k \<in> set (okeys m)"
  by (auto simp: has_key_def map_of_eq_None_iff)

lemma has_key_Some: "map_of m k = Some v \<Longrightarrow> has_key m k"
  by (simp add: has_key_def)

lemma map_of_update [simp]: "map_of (AList.update k v m) = (map_of m)(k \<mapsto> v)"
  by (rule update_conv')

lemma map_of_delete [simp]: "map_of (AList.delete k m) = (map_of m)(k := None)"
  by (rule delete_conv')

lemma okeys_update: "okeys (AList.update k v m) = sadd k (okeys m)"
  by (induction m) (auto simp: sadd_def)

lemma okeys_delete: "okeys (AList.delete k m) = sdel k (okeys m)"
  by (induction m) (auto simp: sdel_def)

lemma map_of_in_vals: "map_of m k = Some v \<Longrightarrow> v \<in> set (ovals m)"
  by (force dest: map_of_SomeD)

lemma set_vals_update: "set (ovals (AList.update k v m)) \<subseteq> insert v (set (ovals m))"
  by (induction m) auto

lemma set_vals_delete: "set (ovals (AList.delete k m)) \<subseteq> set (ovals m)"
  by (induction m) auto

lemma set_update_distinct:
  "distinct (okeys m) \<Longrightarrow> set (AList.update k v m) = insert (k, v) {e \<in> set m. fst e \<noteq> k}"
  by (induction m) (auto simp: image_iff)

lemma set_delete: "set (AList.delete k m) = {e \<in> set m. fst e \<noteq> k}"
  by (auto simp: AList.delete_eq)

lemma distinct_keys_update [simp]:
  "distinct (okeys (AList.update k v m)) = distinct (okeys m)"
  by (simp add: okeys_update)

lemma distinct_keys_delete [simp]: "distinct (okeys m) \<Longrightarrow> distinct (okeys (AList.delete k m))"
  by (simp add: okeys_delete)

text \<open>
  The contract of a keyed store, as the code uses one, and of one that also remembers the
  order of insertion.  The client's lemmas are about storing or deleting a whole list of
  entries, which is what every import and every clean-up function does.
\<close>

locale js_map =
  fixes get :: "'m \<Rightarrow> 'k \<Rightarrow> 'v option"
    and put :: "'k \<Rightarrow> 'v \<Rightarrow> 'm \<Rightarrow> 'm"
    and del :: "'k \<Rightarrow> 'm \<Rightarrow> 'm"
  assumes get_put: "get (put k v m) = (get m)(k \<mapsto> v)"
    and get_del: "get (del k m) = (get m)(k := None)"
begin

lemma get_put_all_notin:
  "k \<notin> key ` set xs \<Longrightarrow> get (fold (\<lambda>x. put (key x) (val x)) xs m) k = get m k"
  by (induction xs arbitrary: m) (auto simp: get_put)

lemma get_put_all_in:
  "k \<in> key ` set xs \<Longrightarrow>
   \<exists>x \<in> set xs. key x = k \<and> get (fold (\<lambda>x. put (key x) (val x)) xs m) k = Some (val x)"
proof (induction xs arbitrary: m)
  case (Cons x xs)
  show ?case
  proof (cases "k \<in> key ` set xs")
    case True
    then show ?thesis using Cons.IH [of "put (key x) (val x) m"] by auto
  next
    case False
    with Cons.prems have "key x = k" by auto
    with False show ?thesis by (auto simp: get_put_all_notin get_put)
  qed
qed simp

lemma get_del_all: "get (fold del ks m) k = (if k \<in> set ks then None else get m k)"
  by (induction ks arbitrary: m) (auto simp: get_del)

end

locale ordered_map = js_map get put del
  for get :: "'m \<Rightarrow> 'k \<Rightarrow> 'v option" and put :: "'k \<Rightarrow> 'v \<Rightarrow> 'm \<Rightarrow> 'm" and del :: "'k \<Rightarrow> 'm \<Rightarrow> 'm" +
  fixes keys :: "'m \<Rightarrow> 'k list"
  assumes keys_put: "keys (put k v m) = sadd k (keys m)"
    and keys_del: "keys (del k m) = sdel k (keys m)"
begin

lemma keys_put_all: "keys (fold (\<lambda>x. put (key x) (val x)) xs m) = fold sadd (map key xs) (keys m)"
  by (induction xs arbitrary: m) (auto simp: keys_put)

lemma keys_del_all: "keys (fold del ks m) = fold sdel ks (keys m)"
  by (induction ks arbitrary: m) (auto simp: keys_del)

end

interpretation omap: ordered_map map_of AList.update AList.delete "map fst"
  by unfold_locales (simp_all add: okeys_update okeys_delete del: fun_upd_apply)

text \<open>
  Objects with integer keys (the run indexes of waiting executions) are iterated in
  ascending order of the keys, whatever the order of insertion.
\<close>

fun nput :: "nat \<Rightarrow> 'v \<Rightarrow> (nat, 'v) omap \<Rightarrow> (nat, 'v) omap" where
  "nput k v [] = [(k, v)]"
| "nput k v ((k', v') # m) =
     (if k < k' then (k, v) # (k', v') # m
      else if k = k' then (k, v) # m
      else (k', v') # nput k v m)"

lemma fst_set_nput [simp]: "fst ` set (nput k v m) = insert k (fst ` set m)"
  by (induction k v m rule: nput.induct) auto

lemma map_of_nput [simp]: "sorted_wrt (<) (okeys m) \<Longrightarrow> map_of (nput k v m) = (map_of m)(k \<mapsto> v)"
  by (induction k v m rule: nput.induct) (auto simp: fun_eq_iff)

lemma sorted_nput [simp]: "sorted_wrt (<) (okeys m) \<Longrightarrow> sorted_wrt (<) (okeys (nput k v m))"
  by (induction k v m rule: nput.induct) auto

lemma sorted_ndelete [simp]:
  "sorted_wrt (<) (okeys m) \<Longrightarrow> sorted_wrt (<) (okeys (AList.delete k m))"
  by (simp add: okeys_delete sdel_def sorted_wrt_filter)

text \<open>\<^verbatim>\<open>x ?? d\<close>\<close>

abbreviation or_else :: "'a option \<Rightarrow> 'a \<Rightarrow> 'a" where
  "or_else x d \<equiv> (case x of Some y \<Rightarrow> y | None \<Rightarrow> d)"

section \<open>Reachability over a successor function\<close>

definition edges_of :: "('n \<Rightarrow> 'n list) \<Rightarrow> ('n \<times> 'n) set" where
  "edges_of succ = {(u, v). v \<in> set (succ u)}"

lemma edges_of_iff [simp]: "(u, v) \<in> edges_of succ \<longleftrightarrow> v \<in> set (succ u)"
  by (simp add: edges_of_def)

lemma closed_rtrancl:
  assumes "u \<in> S" and "\<And>x. x \<in> S \<Longrightarrow> R `` {x} \<subseteq> S" and "(u, v) \<in> R\<^sup>*"
  shows "v \<in> S"
  using assms(3,1,2) by (induction rule: rtrancl_induct) auto

text \<open>A path as the list of the nodes after its first; where there is a way there is a simple one.\<close>

fun node_path :: "('n \<times> 'n) set \<Rightarrow> 'n \<Rightarrow> 'n list \<Rightarrow> 'n \<Rightarrow> bool" where
  "node_path R u [] v = (u = v)"
| "node_path R u (w # ws) v = ((u, w) \<in> R \<and> node_path R w ws v)"

lemma node_path_suffix: "node_path R w (xs @ u # ys) v \<Longrightarrow> node_path R u ys v"
  by (induction xs arbitrary: w) auto

lemma simple_path:
  assumes "(u, v) \<in> R\<^sup>*"
  shows "\<exists>ws. node_path R u ws v \<and> distinct (u # ws)"
  using assms
proof (induction rule: converse_rtrancl_induct)
  case base
  then show ?case by (auto intro: exI [of _ "[]"])
next
  case (step u w)
  then obtain ws where ws: "node_path R w ws v" "distinct (w # ws)" by blast
  show ?case
  proof (cases "u \<in> set (w # ws)")
    case False
    with ws step.hyps(1) show ?thesis by (intro exI [of _ "w # ws"]) simp
  next
    case True
    then consider "u = w" | xs ys where "ws = xs @ u # ys" by (auto dest: split_list)
    then show ?thesis
    proof cases
      case 2
      with ws show ?thesis by (intro exI [of _ ys]) (auto dest: node_path_suffix)
    qed (use ws in blast)
  qed
qed

text \<open>
  The contract of a search that collects nodes: whatever it returns for a start node is
  reachable, and what it returns is closed under successors up to nodes of the start set.
  Two searches that meet it return the same set of nodes.
\<close>

locale graph_search =
  fixes succ :: "'n \<Rightarrow> 'n list" and search :: "'n \<Rightarrow> 'n set"
  assumes search_sound: "v \<in> search u \<Longrightarrow> (u, v) \<in> (edges_of succ)\<^sup>+"
    and search_start: "v \<in> set (succ u) \<Longrightarrow> v \<noteq> u \<Longrightarrow> v \<in> search u"
    and search_closed: "x \<in> search u \<Longrightarrow> v \<in> set (succ x) \<Longrightarrow> v \<noteq> u \<Longrightarrow> v \<in> search u"
begin

lemma search_reaches:
  assumes "(u, v) \<in> (edges_of succ)\<^sup>*" and "v \<noteq> u"
  shows "v \<in> search u"
proof -
  have "v \<in> insert u (search u)"
    using _ _ assms(1)
    by (rule closed_rtrancl) (auto intro: search_start search_closed)
  with assms(2) show ?thesis by simp
qed

lemma search_reachable: "v \<in> search u \<Longrightarrow> (u, v) \<in> (edges_of succ)\<^sup>*"
  by (rule trancl_into_rtrancl [OF search_sound])

lemma search_eq: "v \<in> search u \<and> v \<noteq> u \<longleftrightarrow> (u, v) \<in> (edges_of succ)\<^sup>* \<and> v \<noteq> u"
  by (iprover intro: search_reaches search_reachable)

end

section \<open>State machines with an invariant\<close>

text \<open>
  A component whose operations are labelled steps that may be refused (\<^verbatim>\<open>None\<close>).  What
  is proved once: an invariant of every step holds after every run.
\<close>

fun run_steps :: "('e \<Rightarrow> 's \<Rightarrow> 's option) \<Rightarrow> 'e list \<Rightarrow> 's \<Rightarrow> 's option" where
  "run_steps step [] s = Some s"
| "run_steps step (e # es) s =
     (case step e s of None \<Rightarrow> None | Some s' \<Rightarrow> run_steps step es s')"

lemma run_steps_append:
  "run_steps step (es @ es') s = (case run_steps step es s of None \<Rightarrow> None | Some s' \<Rightarrow> run_steps step es' s')"
  by (induction es arbitrary: s) (auto split: option.splits)

locale invariant_machine =
  fixes step :: "'e \<Rightarrow> 's \<Rightarrow> 's option" and inv :: "'s \<Rightarrow> bool"
  assumes inv_step: "inv s \<Longrightarrow> step e s = Some s' \<Longrightarrow> inv s'"
begin

lemma inv_run: "inv s \<Longrightarrow> run_steps step es s = Some s' \<Longrightarrow> inv s'"
  by (induction es arbitrary: s) (auto split: option.splits intro: inv_step)

end

section \<open>Errors\<close>

text \<open>
  An exception carries the name of its class, its message and, for the errors that have
  one, a description.  The abbreviations are the classes the modelled code throws.
\<close>

datatype js_error = JsError (err_name: string) (err_message: string) (err_description: "string option")

abbreviation AssertionError :: "string \<Rightarrow> js_error" where
  "AssertionError m \<equiv> JsError ''AssertionError'' m None"

abbreviation TypeError :: "string \<Rightarrow> js_error" where
  "TypeError m \<equiv> JsError ''TypeError'' m None"

abbreviation UserError :: "string \<Rightarrow> js_error" where
  "UserError m \<equiv> JsError ''UserError'' m None"

abbreviation UnexpectedError :: "string \<Rightarrow> js_error" where
  "UnexpectedError m \<equiv> JsError ''UnexpectedError'' m None"

abbreviation OperationalError :: "string \<Rightarrow> js_error" where
  "OperationalError m \<equiv> JsError ''OperationalError'' m None"

type_synonym 'a res = "js_error + 'a"

fun bind_res :: "'a res \<Rightarrow> ('a \<Rightarrow> 'b res) \<Rightarrow> 'b res" where
  "bind_res (Inl e) f = Inl e"
| "bind_res (Inr x) f = f x"

lemma bind_res_Inr [simp]: "bind_res m f = Inr y \<longleftrightarrow> (\<exists>x. m = Inr x \<and> f x = Inr y)"
  by (cases m) auto

lemma bind_res_cong [fundef_cong]:
  "m = m' \<Longrightarrow> (\<And>x. m' = Inr x \<Longrightarrow> f x = f' x) \<Longrightarrow> bind_res m f = bind_res m' f'"
  by (cases m') auto

text \<open>A \<^verbatim>\<open>for\<close> loop whose body may throw, threading a state.\<close>

fun fold_res :: "('a \<Rightarrow> 's \<Rightarrow> 's res) \<Rightarrow> 'a list \<Rightarrow> 's \<Rightarrow> 's res" where
  "fold_res f [] s = Inr s"
| "fold_res f (x # xs) s = bind_res (f x s) (fold_res f xs)"

lemma fold_res_append: "fold_res f (xs @ ys) s = bind_res (fold_res f xs s) (fold_res f ys)"
proof (induction xs arbitrary: s)
  case (Cons x xs)
  then show ?case by (cases "f x s") auto
qed simp

lemma fold_res_invariant:
  assumes "fold_res f xs s = Inr s'" and "P s"
    and "\<And>x s s'. x \<in> set xs \<Longrightarrow> P s \<Longrightarrow> f x s = Inr s' \<Longrightarrow> P s'"
  shows "P s'"
  using assms by (induction xs arbitrary: s) auto

lemma fold_res_cong [fundef_cong]:
  "xs = ys \<Longrightarrow> s = t \<Longrightarrow> (\<And>x s. x \<in> set ys \<Longrightarrow> f x s = g x s) \<Longrightarrow> fold_res f xs s = fold_res g ys t"
proof (induction xs arbitrary: ys s t)
  case (Cons x xs)
  then have "f x t = g x t" and "fold_res f xs = fold_res g xs" by (auto intro!: ext)
  with Cons.prems show ?case by auto
qed auto

text \<open>A loop whose body succeeds, keeps a property and only moves up in a preorder.\<close>

lemma fold_res_total:
  assumes "P s" and refl: "\<And>s. R s s" and trans: "\<And>s t u. R s t \<Longrightarrow> R t u \<Longrightarrow> R s u"
    and step: "\<And>x s. x \<in> set xs \<Longrightarrow> P s \<Longrightarrow> \<exists>s'. f x s = Inr s' \<and> P s' \<and> R s s'"
  shows "\<exists>s'. fold_res f xs s = Inr s' \<and> P s' \<and> R s s'
    \<and> (\<forall>x \<in> set xs. \<exists>s1 s2. P s1 \<and> R s s1 \<and> f x s1 = Inr s2 \<and> R s2 s')"
  using assms(1) step
proof (induction xs arbitrary: s)
  case Nil
  then show ?case using refl by auto
next
  case (Cons x xs)
  from Cons.prems obtain t where t: "f x s = Inr t" "P t" "R s t" by fastforce
  from Cons.IH [OF t(2)] Cons.prems(2) obtain s' where s': "fold_res f xs t = Inr s'" "P s'" "R t s'"
    and rest: "\<forall>x \<in> set xs. \<exists>s1 s2. P s1 \<and> R t s1 \<and> f x s1 = Inr s2 \<and> R s2 s'" by auto
  have "\<exists>s1 s2. P s1 \<and> R s s1 \<and> f y s1 = Inr s2 \<and> R s2 s'" if "y \<in> set (x # xs)" for y
  proof (cases "y = x")
    case True
    then show ?thesis using Cons.prems(1) refl t s' by blast
  next
    case False
    with that rest obtain s1 s2 where "P s1" "R t s1" "f y s1 = Inr s2" "R s2 s'" by auto
    then show ?thesis using trans [OF t(3)] by blast
  qed
  then show ?case using t s' trans [OF t(3) s'(3)] by auto
qed

text \<open>A loop whose body may run out of fuel.\<close>

fun fold_opt :: "('a \<Rightarrow> 's \<Rightarrow> 's option) \<Rightarrow> 'a list \<Rightarrow> 's \<Rightarrow> 's option" where
  "fold_opt f [] s = Some s"
| "fold_opt f (x # xs) s = (case f x s of None \<Rightarrow> None | Some s' \<Rightarrow> fold_opt f xs s')"

lemma fold_opt_total:
  assumes "P s" and "\<And>x s. x \<in> set xs \<Longrightarrow> P s \<Longrightarrow> \<exists>s'. f x s = Some s' \<and> P s'"
  shows "\<exists>s'. fold_opt f xs s = Some s' \<and> P s'"
  using assms
proof (induction xs arbitrary: s)
  case (Cons x xs)
  from Cons.prems(2) [of x s] Cons.prems(1) obtain s' where "f x s = Some s'" "P s'" by auto
  with Cons.IH [of s'] Cons.prems(2) show ?case by auto
qed simp

text \<open>A fold that collects: each element adds its share to a property of the state.\<close>

lemma fold_collect:
  assumes "\<And>x s. x \<in> set xs \<Longrightarrow> P (f x s) \<longleftrightarrow> P s \<or> Q x"
  shows "P (fold f xs s) \<longleftrightarrow> P s \<or> (\<exists>x \<in> set xs. Q x)"
  using assms by (induction xs arbitrary: s) auto

lemma fold_invariant_set:
  assumes "P s" and "\<And>x s. x \<in> set xs \<Longrightarrow> P s \<Longrightarrow> P (f x s)"
  shows "P (fold f xs s)"
  using assms by (induction xs arbitrary: s) auto

text \<open>
  Code that changes the state before it may throw: the state as far as it got, and the
  exception if there was one.
\<close>

type_synonym 's run = "'s \<times> js_error option"

abbreviation normal :: "'s \<Rightarrow> 's run" where
  "normal s \<equiv> (s, None)"

abbreviation raised :: "js_error \<Rightarrow> 's \<Rightarrow> 's run" where
  "raised e s \<equiv> (s, Some e)"

fun and_then :: "'s run \<Rightarrow> ('s \<Rightarrow> 's run) \<Rightarrow> 's run" where
  "and_then (s, None) f = f s"
| "and_then (s, Some e) f = (s, Some e)"

fun fold_run :: "('a \<Rightarrow> 's \<Rightarrow> 's run) \<Rightarrow> 'a list \<Rightarrow> 's \<Rightarrow> 's run" where
  "fold_run f [] s = normal s"
| "fold_run f (x # xs) s = and_then (f x s) (fold_run f xs)"

lemma and_then_normal: "and_then r f = (s', None) \<longleftrightarrow> (\<exists>s. r = (s, None) \<and> f s = (s', None))"
  by (cases "(r, f)" rule: and_then.cases) auto

lemma and_then_invariant:
  "P (fst r) \<Longrightarrow> (\<And>s. P s \<Longrightarrow> P (fst (f s))) \<Longrightarrow> P (fst (and_then r f))"
  by (cases "(r, f)" rule: and_then.cases) auto

lemma fold_run_invariant:
  assumes "P s" and "\<And>x s. x \<in> set xs \<Longrightarrow> P s \<Longrightarrow> P (fst (f x s))"
  shows "P (fst (fold_run f xs s))"
  using assms
proof (induction xs arbitrary: s)
  case (Cons x xs)
  have "P (fst (fold_run f xs t))" if "P t" for t using Cons.IH [OF that] Cons.prems(2) by simp
  then show ?case using Cons.prems by (auto intro: and_then_invariant)
qed simp

section \<open>Lists\<close>

text \<open>Assigning \<^verbatim>\<open>a[i] = v\<close> to an array: inside it replaces, past the end it fills up.\<close>

definition array_set :: "'a \<Rightarrow> 'a list \<Rightarrow> nat \<Rightarrow> 'a \<Rightarrow> 'a list" where
  "array_set hole xs i v =
     (if i < length xs then xs[i := v] else xs @ replicate (i - length xs) hole @ [v])"

lemma length_array_set [simp]: "length (array_set hole xs i v) = max (length xs) (Suc i)"
  by (auto simp: array_set_def)

lemma nth_array_set_eq [simp]: "array_set hole xs i v ! i = v"
  by (auto simp: array_set_def nth_append)

lemma nth_array_set_neq [simp]: "j < length xs \<Longrightarrow> j \<noteq> i \<Longrightarrow> array_set hole xs i v ! j = xs ! j"
  by (auto simp: array_set_def nth_append)

text \<open>Reading \<^verbatim>\<open>a[i]\<close>: past the end JavaScript answers \<^verbatim>\<open>undefined\<close>, here \<^verbatim>\<open>None\<close>.\<close>

definition array_get :: "'a list \<Rightarrow> nat \<Rightarrow> 'a option" where
  "array_get xs i = (if i < length xs then Some (xs ! i) else None)"

text \<open>
  An array entry where the code tells \<^verbatim>\<open>undefined\<close> (or a hole) from \<^verbatim>\<open>null\<close>.
\<close>

datatype 'a js = Undef | Null | Val 'a

definition js_get :: "'a js list \<Rightarrow> nat \<Rightarrow> 'a js" where
  "js_get xs i = (if i < length xs then xs ! i else Undef)"

text \<open>\<^verbatim>\<open>a?.length\<close> in a condition: there and not empty.\<close>

fun js_nonempty :: "'a list js \<Rightarrow> bool" where
  "js_nonempty (Val xs) = (xs \<noteq> [])"
| "js_nonempty _ = False"

fun js_list :: "'a list js \<Rightarrow> 'a list" where
  "js_list (Val xs) = xs"
| "js_list _ = []"

fun map_js :: "('a \<Rightarrow> 'b) \<Rightarrow> 'a js \<Rightarrow> 'b js" where
  "map_js f (Val x) = Val (f x)"
| "map_js f Null = Null"
| "map_js f Undef = Undef"

text \<open>\<^verbatim>\<open>a.at(i)\<close> with a possibly negative index.\<close>

definition array_at :: "'a list \<Rightarrow> int \<Rightarrow> 'a option" where
  "array_at xs i =
     (let j = (if i < 0 then int (length xs) + i else i)
      in if 0 \<le> j \<and> j < int (length xs) then Some (xs ! nat j) else None)"

lemma array_get_Some: "array_get xs i = Some x \<longleftrightarrow> i < length xs \<and> x = xs ! i"
  by (auto simp: array_get_def)

lemma array_get_in_set: "array_get xs i = Some x \<Longrightarrow> x \<in> set xs"
  by (auto simp: array_get_def split: if_splits)

lemma find_in_set: "List.find P xs = Some x \<Longrightarrow> x \<in> set xs \<and> P x"
  by (induction xs) (auto split: if_splits)

lemma find_Some_ex: "\<exists>x \<in> set xs. P x \<Longrightarrow> \<exists>x. List.find P xs = Some x"
  by (induction xs) auto

text \<open>
  \<^verbatim>\<open>Array.prototype.sort\<close> with a comparator is stable; for a comparator that is a
  preorder the result is the stable insertion sort.
\<close>

fun insert_cmp :: "('a \<Rightarrow> 'a \<Rightarrow> int) \<Rightarrow> 'a \<Rightarrow> 'a list \<Rightarrow> 'a list" where
  "insert_cmp cmp x [] = [x]"
| "insert_cmp cmp x (y # ys) = (if cmp x y \<le> 0 then x # y # ys else y # insert_cmp cmp x ys)"

definition sort_cmp :: "('a \<Rightarrow> 'a \<Rightarrow> int) \<Rightarrow> 'a list \<Rightarrow> 'a list" where
  "sort_cmp cmp xs = foldr (insert_cmp cmp) xs []"

lemma mset_insert_cmp [simp]: "mset (insert_cmp cmp x xs) = add_mset x (mset xs)"
  by (induction xs) auto

lemma mset_sort_cmp [simp]: "mset (sort_cmp cmp xs) = mset xs"
  by (induction xs) (auto simp: sort_cmp_def)

lemma set_sort_cmp [simp]: "set (sort_cmp cmp xs) = set xs"
  using mset_sort_cmp [of cmp xs] by (metis set_mset_mset)

lemma length_sort_cmp [simp]: "length (sort_cmp cmp xs) = length xs"
  using mset_sort_cmp [of cmp xs] by (metis size_mset)

text \<open>Counting in a list of which one element changes.\<close>

lemma count_update:
  "i < length xs \<Longrightarrow> length (filter P (xs[i := x])) + of_bool (P (xs ! i)) = length (filter P xs) + of_bool (P x)"
proof (induction xs arbitrary: i)
  case (Cons y ys)
  then show ?case using Cons.IH [of "i - 1"] by (cases i) auto
qed simp

text \<open>Decimal rendering of a natural number, as a template string does it.\<close>

fun show_nat :: "nat \<Rightarrow> string" where
  "show_nat n =
     (if n < 10 then [char_of (48 + n)] else show_nat (n div 10) @ [char_of (48 + n mod 10)])"

declare show_nat.simps [simp del]

text \<open>\<^verbatim>\<open>s.startsWith(p)\<close> and \<^verbatim>\<open>s.endsWith(p)\<close>.\<close>

definition starts_with :: "string \<Rightarrow> string \<Rightarrow> bool" where
  "starts_with p s = (take (length p) s = p)"

definition ends_with :: "string \<Rightarrow> string \<Rightarrow> bool" where
  "ends_with p s = starts_with (rev p) (rev s)"

end
