(* ===== verification/Interfaces.thy ===== *)
theory Interfaces
  imports Prelude
begin

text \<open>
  The data model, from \<^verbatim>\<open>packages/workflow/src/interfaces.ts\<close> and
  \<^verbatim>\<open>run-execution-data/run-execution-data.v1.ts\<close>: connections, nodes, items, task data,
  execution data.  Fields keep the source's names behind a short prefix per record.
  An optional field is an \<^verbatim>\<open>option\<close>, \<^verbatim>\<open>None\<close> for \<^verbatim>\<open>null\<close> and \<^verbatim>\<open>undefined\<close>; the data of
  inputs and outputs, where the code tells the two apart, has entries of type \<^verbatim>\<open>js\<close>.  A field that no modelled code reads (notes, credentials,
  webhook ids, telemetry tags) is left out.

  A node is an object with an identity: the field \<^verbatim>\<open>n_ref\<close> stands for it, so that two
  distinct objects are distinct values even if all their data agree, and \<^verbatim>\<open>===\<close> on nodes is
  equality of the records.
\<close>

section \<open>Connections\<close>

record iconnection =
  c_node :: string
  c_type :: string
  c_index :: nat

type_synonym node_input_connections = "iconnection list option list"

type_synonym inode_connections = "(string, node_input_connections) omap"

type_synonym iconnections = "(string, inode_connections) omap"

abbreviation Main_t :: string where "Main_t \<equiv> ''main''"

abbreviation AiTool_t :: string where "AiTool_t \<equiv> ''ai_tool''"

section \<open>JSON values and nodes\<close>

datatype jval =
    JNull
  | JBool bool
  | JNum rat
  | JStr string
  | JArr "jval list"
  | JObj "(string \<times> jval) list"

type_synonym data_object = "(string, jval) omap"

datatype on_error = ContinueErrorOutput | ContinueRegularOutput | StopWorkflow

record inode =
  n_ref :: nat
  n_id :: string
  n_name :: string
  n_type :: string
  n_typeVersion :: rat
  n_position :: "rat \<times> rat"
  n_disabled :: "bool option"
  n_retryOnFail :: "bool option"
  n_maxTries :: "nat option"
  n_waitBetweenTries :: "nat option"
  n_alwaysOutputData :: "bool option"
  n_executeOnce :: "bool option"
  n_onError :: "on_error option"
  n_continueOnFail :: "bool option"
  n_parameters :: data_object
  n_rewireOutputLogTo :: "string option"
  n_forceCustomOperation :: "(string \<times> string) option"

text \<open>\<^verbatim>\<open>node.disabled\<close> in a condition: only \<^verbatim>\<open>true\<close> is truthy.\<close>

abbreviation is_disabled :: "inode \<Rightarrow> bool" where
  "is_disabled n \<equiv> n_disabled n = Some True"

type_synonym inodes = "(string, inode) omap"

text \<open>A node with only a name and a type, for the concrete instances of the theorems.\<close>

definition plain_node :: "nat \<Rightarrow> string \<Rightarrow> string \<Rightarrow> inode" where
  "plain_node ref name ty = \<lparr>n_ref = ref, n_id = name, n_name = name, n_type = ty, n_typeVersion = 1,
     n_position = (0, 0), n_disabled = None, n_retryOnFail = None, n_maxTries = None,
     n_waitBetweenTries = None, n_alwaysOutputData = None, n_executeOnce = None, n_onError = None,
     n_continueOnFail = None, n_parameters = [], n_rewireOutputLogTo = None,
     n_forceCustomOperation = None\<rparr>"

section \<open>Node types\<close>

text \<open>
  The part of a node type's description and of its optional methods that the engine looks
  at.  The methods themselves are code of the node packages and parameters of the engine's
  definitions; here only their presence is recorded.
\<close>

datatype required_inputs = Req_expr string | Req_list "nat list" | Req_count nat

text \<open>
  Inputs and outputs are listed, as type names or as configurations with a type, or given
  by an expression string, whose \<^verbatim>\<open>length\<close> is the number of its characters.
\<close>

datatype node_io = Io_type string | Io_config string

datatype io_spec = Io_list "node_io list" | Io_expr string

definition io_length :: "io_spec \<Rightarrow> nat" where
  "io_length s = (case s of Io_list ios \<Rightarrow> length ios | Io_expr e \<Rightarrow> length e)"

record node_type =
  nt_name :: string
  nt_group :: "string list"
  nt_inputs :: io_spec
  nt_outputs :: io_spec
  nt_requiredInputs :: "required_inputs option"
  nt_requestDefaults :: bool
  nt_execute :: bool
  nt_poll :: bool
  nt_trigger :: bool
  nt_webhook :: bool
  nt_supplyData :: bool
  nt_customOperations :: "(string \<times> string) list option"

type_synonym node_types = "string \<Rightarrow> rat \<Rightarrow> node_type option"

definition plain_type :: "string \<Rightarrow> string list \<Rightarrow> node_type" where
  "plain_type name groups = \<lparr>nt_name = name, nt_group = groups, nt_inputs = Io_list [Io_type Main_t],
     nt_outputs = Io_list [Io_type Main_t], nt_requiredInputs = None, nt_requestDefaults = False,
     nt_execute = True, nt_poll = False, nt_trigger = False, nt_webhook = False, nt_supplyData = False,
     nt_customOperations = None\<rparr>"

section \<open>Items, sources and task data\<close>

record source_data =
  sd_previousNode :: string
  sd_previousNodeOutput :: "nat option"
  sd_previousNodeRun :: "int option"

record paired_item =
  pi_item :: int
  pi_input :: "nat option"
  pi_sourceOverwrite :: "source_data option"

datatype paired = Paired_one paired_item | Paired_many "paired_item list" | Paired_num nat

record item =
  i_json :: data_object
  i_error :: "jval option"
  i_pairedItem :: "paired option"
  i_other :: data_object

type_synonym items = "item list"

type_synonym task_data_connections = "(string, items js list) omap"

type_synonym source_connections = "(string, source_data option list) omap"

type_synonym pin_data = "(string, items) omap"

record engine_action =
  a_nodeName :: string
  a_input :: data_object
  a_type :: string
  a_id :: string
  a_parentNodeName :: "string option"
  a_itemIndex :: "nat option"

record engine_request =
  rq_actions :: "engine_action list"
  rq_metadata :: jval

record sub_node_action =
  sa_nodeName :: string
  sa_runIndex :: nat
  sa_action :: engine_action

record sub_node_execution_data =
  se_actions :: "sub_node_action list"
  se_metadata :: jval

record task_metadata =
  md_subNodeExecutionData :: "sub_node_execution_data option"
  md_preserveSourceOverwrite :: "bool option"
  md_preservedSourceOverwrite :: "source_data option"
  md_nodeWasResumed :: "bool option"
  md_resumeError :: "js_error option"
  md_subExecution :: "jval option"
  md_other :: data_object

definition no_metadata :: task_metadata where
  "no_metadata = \<lparr>md_subNodeExecutionData = None, md_preserveSourceOverwrite = None,
     md_preservedSourceOverwrite = None, md_nodeWasResumed = None, md_resumeError = None,
     md_subExecution = None, md_other = []\<rparr>"

datatype execution_status =
    Canceled | Crashed | Error_status | New | Running | Success | Unknown | Waiting

record task_data =
  td_startTime :: int
  td_executionIndex :: "nat option"
  td_source :: "source_data option list"
  td_hints :: "string list"
  td_executionTime :: int
  td_executionStatus :: "execution_status option"
  td_data :: "task_data_connections option"
  td_inputOverride :: "task_data_connections option"
  td_error :: "js_error option"
  td_metadata :: "task_metadata option"
  td_usedDynamicCredentials :: "bool option"
  td_attemptedDynamicCredentials :: "bool option"

type_synonym run_data = "(string, task_data list) omap"

record execute_data =
  ed_data :: task_data_connections
  ed_metadata :: "task_metadata option"
  ed_node :: inode
  ed_source :: "source_connections option"
  ed_runIndex :: "nat option"

type_synonym waiting_execution = "(string, (nat, task_data_connections) omap) omap"

type_synonym waiting_execution_source = "(string, (nat, source_connections) omap) omap"

datatype destination_mode = Inclusive | Exclusive

record destination_node =
  d_nodeName :: string
  d_mode :: destination_mode

text \<open>The item \<^verbatim>\<open>{ json: {} }\<close> that starts a run.\<close>

definition empty_item :: item where
  "empty_item = \<lparr>i_json = [], i_error = None, i_pairedItem = None, i_other = []\<rparr>"

text \<open>\<^verbatim>\<open>data?.main\<close> and \<^verbatim>\<open>connections[name]?.main ?? []\<close>.\<close>

definition main_of :: "(string, 'a list) omap \<Rightarrow> 'a list" where
  "main_of m = (case map_of m Main_t of None \<Rightarrow> [] | Some xs \<Rightarrow> xs)"

definition typed_inputs :: "iconnections \<Rightarrow> string \<Rightarrow> string \<Rightarrow> node_input_connections" where
  "typed_inputs conns name ty =
     (case map_of conns name of None \<Rightarrow> []
      | Some nc \<Rightarrow> (case map_of nc ty of None \<Rightarrow> [] | Some groups \<Rightarrow> groups))"

text \<open>\<^verbatim>\<open>groups[i] ?? []\<close>.\<close>

definition group_at :: "node_input_connections \<Rightarrow> nat \<Rightarrow> iconnection list" where
  "group_at groups i =
     (case array_get groups i of Some (Some cs) \<Rightarrow> cs | _ \<Rightarrow> [])"

lemma group_at_nth: "i < length gs \<Longrightarrow> group_at gs i = (case gs ! i of None \<Rightarrow> [] | Some cs \<Rightarrow> cs)"
  by (auto simp: group_at_def array_get_def split: option.splits)

lemma group_at_beyond: "length gs \<le> i \<Longrightarrow> group_at gs i = []"
  by (auto simp: group_at_def array_get_def)

end
