(* ===== verification/Connections.thy ===== *)
theory Connections
  imports Interfaces
begin

text \<open>
  \<^verbatim>\<open>packages/workflow/src/common\<close>: searching the connections of a workflow by name and
  turning them around.

  \<^item> \<^verbatim>\<open>getConnectedNodes\<close> is a memoised depth first collection.  \<^verbatim>\<open>currentPath\<close>, which the code
    adds to and deletes from around its loop, is an argument here; the memo is threaded.
    The loops over connection types, outputs and connections have no effect of their own,
    so they are the list \<^verbatim>\<open>follow\<close> of the connections they visit, in their order.
  \<^item> A missing group (\<^verbatim>\<open>null\<close>, or a hole of the array) is \<^verbatim>\<open>None\<close>.
\<close>

section \<open>Definitions\<close>

datatype ctype_filter = Of_type string | All_types | All_non_main

definition selected_types :: "inode_connections \<Rightarrow> ctype_filter \<Rightarrow> string list" where
  "selected_types nc f =
     (case f of
        All_types \<Rightarrow> okeys nc
      | All_non_main \<Rightarrow> filter (\<lambda>t. t \<noteq> Main_t) (okeys nc)
      | Of_type t \<Rightarrow> [t])"

definition connections_of_groups :: "node_input_connections \<Rightarrow> iconnection list" where
  "connections_of_groups groups = concat (map (\<lambda>g. case g of None \<Rightarrow> [] | Some cs \<Rightarrow> cs) groups)"

definition follow :: "iconnections \<Rightarrow> ctype_filter \<Rightarrow> string \<Rightarrow> iconnection list" where
  "follow conns f name =
     (case map_of conns name of
        None \<Rightarrow> []
      | Some nc \<Rightarrow> concat (map (\<lambda>t. case map_of nc t of None \<Rightarrow> []
                                      | Some groups \<Rightarrow> connections_of_groups groups)
                              (selected_types nc f)))"

text \<open>\<^verbatim>\<open>splice\<close> out an earlier occurrence, then \<^verbatim>\<open>unshift\<close>.\<close>

definition bring_front :: "'a \<Rightarrow> 'a list \<Rightarrow> 'a list" where
  "bring_front x xs = x # remove1 x xs"

type_synonym memo = "(int \<times> string, string list) omap"

definition next_depth :: "int \<Rightarrow> int" where
  "next_depth depth = (if depth = -1 then depth else depth - 1)"

text \<open>
  Termination: a node is only entered while it is not on the path, so the number of source
  nodes off the path shrinks with every two calls.
\<close>

definition off_path :: "iconnections \<Rightarrow> string list \<Rightarrow> nat" where
  "off_path conns path = card (set (okeys conns) - set path)"

lemma off_path_Cons:
  "has_key conns n \<Longrightarrow> n \<notin> set path \<Longrightarrow> off_path conns (n # path) < off_path conns path"
  unfolding off_path_def has_key_iff by (rule psubset_card_mono) auto

function (sequential) collectConnectedNodes ::
    "iconnections \<Rightarrow> ctype_filter \<Rightarrow> string \<Rightarrow> int \<Rightarrow> string list \<Rightarrow> memo \<Rightarrow> string list \<times> memo"
  and collect_loop ::
    "iconnections \<Rightarrow> ctype_filter \<Rightarrow> int \<Rightarrow> string list \<Rightarrow> iconnection list \<Rightarrow> string list \<Rightarrow> memo
       \<Rightarrow> string list \<times> memo"
where
  "collectConnectedNodes conns f nodeName depth currentPath memo =
     (if depth = 0 then ([], memo)
      else if \<not> has_key conns nodeName then ([], memo)
      else case map_of memo (depth, nodeName) of
        Some cached \<Rightarrow> (cached, memo)
      | None \<Rightarrow>
          (case collect_loop conns f (next_depth depth) (nodeName # currentPath)
                  (follow conns f nodeName) [] memo of
             (returnNodes, memo') \<Rightarrow>
               (returnNodes, AList.update (depth, nodeName) returnNodes memo')))"
| "collect_loop conns f depth currentPath [] returnNodes memo = (returnNodes, memo)"
| "collect_loop conns f depth currentPath (c # cs) returnNodes memo =
     (if c_node c \<in> set currentPath then collect_loop conns f depth currentPath cs returnNodes memo
      else case collectConnectedNodes conns f (c_node c) depth currentPath memo of
             (addNodes, memo') \<Rightarrow>
               collect_loop conns f depth currentPath cs
                 (foldr bring_front addNodes (bring_front (c_node c) returnNodes)) memo')"
  by pat_completeness auto
termination
  by (relation "measures
       [\<lambda>x. case x of
           Inl (conns, f, n, d, path, memo) \<Rightarrow>
             if has_key conns n then Suc (2 * off_path conns (n # path)) else 2 * off_path conns path
         | Inr (conns, f, d, path, cs, ret, memo) \<Rightarrow> 2 * off_path conns path,
        \<lambda>x. case x of Inl _ \<Rightarrow> 0 | Inr (conns, f, d, path, cs, ret, memo) \<Rightarrow> length cs]")
    (auto dest!: off_path_Cons)

declare collectConnectedNodes.simps [simp del]

definition getConnectedNodes :: "iconnections \<Rightarrow> string \<Rightarrow> ctype_filter \<Rightarrow> int \<Rightarrow> string list" where
  "getConnectedNodes conns nodeName f depth =
     fst (collectConnectedNodes conns f nodeName depth [] [])"

definition getChildNodes :: "iconnections \<Rightarrow> string \<Rightarrow> ctype_filter \<Rightarrow> int \<Rightarrow> string list" where
  "getChildNodes connectionsBySourceNode nodeName f depth =
     getConnectedNodes connectionsBySourceNode nodeName f depth"

definition getParentNodes :: "iconnections \<Rightarrow> string \<Rightarrow> ctype_filter \<Rightarrow> int \<Rightarrow> string list" where
  "getParentNodes connectionsByDestinationNode nodeName f depth =
     getConnectedNodes connectionsByDestinationNode nodeName f depth"

definition getNodeByName_list :: "inode list \<Rightarrow> string \<Rightarrow> inode option" where
  "getNodeByName_list nodes name = List.find (\<lambda>n. n_name n = name) nodes"

definition getNodeByName_obj :: "inodes \<Rightarrow> string \<Rightarrow> inode option" where
  "getNodeByName_obj nodes name = map_of nodes name"

text \<open>\<^verbatim>\<open>mapConnectionsByDestination\<close>: one step per connection, in the order of the loops.\<close>

definition pad_groups :: "node_input_connections \<Rightarrow> nat \<Rightarrow> node_input_connections" where
  "pad_groups groups index = groups @ replicate (Suc index - length groups) (Some [])"

definition push_group :: "node_input_connections \<Rightarrow> nat \<Rightarrow> iconnection \<Rightarrow> node_input_connections" where
  "push_group groups i c = groups[i := map_option (\<lambda>cs. cs @ [c]) (groups ! i)]"

definition add_by_destination ::
    "string \<Rightarrow> string \<Rightarrow> nat \<Rightarrow> iconnection \<Rightarrow> iconnections \<Rightarrow> iconnections" where
  "add_by_destination sourceNode ty inputIndex info ret =
     (let nc = (case map_of ret (c_node info) of None \<Rightarrow> [] | Some nc \<Rightarrow> nc);
          groups = (case map_of nc (c_type info) of None \<Rightarrow> [] | Some gs \<Rightarrow> gs);
          groups' = push_group (pad_groups groups (c_index info)) (c_index info)
                      \<lparr>c_node = sourceNode, c_type = ty, c_index = inputIndex\<rparr>
      in AList.update (c_node info) (AList.update (c_type info) groups' nc) ret)"

definition entries_of :: "iconnections \<Rightarrow> (string \<times> string \<times> nat \<times> iconnection) list" where
  "entries_of conns =
     concat (map (\<lambda>(src, nc). concat (map (\<lambda>(ty, groups).
       concat (map (\<lambda>i. map (\<lambda>c. (src, ty, i, c)) (group_at groups i)) [0..<length groups])) nc)) conns)"

definition mapConnectionsByDestination :: "iconnections \<Rightarrow> iconnections" where
  "mapConnectionsByDestination conns =
     fold (\<lambda>(src, ty, i, c). add_by_destination src ty i c) (entries_of conns) []"

text \<open>
  \<^verbatim>\<open>findAiRootNodeNames\<close> takes untyped JSON.  An array is not a record here, as
  \<^verbatim>\<open>Object.values\<close> of an array would list its elements: the two readings are \<^verbatim>\<open>fields_of\<close>.
\<close>

definition fields_of :: "jval \<Rightarrow> (string \<times> jval) list option" where
  "fields_of v =
     (case v of
        JObj fs \<Rightarrow> Some fs
      | JArr vs \<Rightarrow> Some (map (\<lambda>(i, x). (show_nat i, x)) (enumerate 0 vs))
      | _ \<Rightarrow> None)"

definition elements_of :: "jval \<Rightarrow> jval list option" where
  "elements_of v = (case v of JArr vs \<Rightarrow> Some vs | _ \<Rightarrow> None)"

definition conn_target :: "jval \<Rightarrow> string option" where
  "conn_target conn =
     (case fields_of conn of None \<Rightarrow> None
      | Some fs \<Rightarrow> (case map_of fs ''node'' of Some (JStr n) \<Rightarrow> Some n | _ \<Rightarrow> None))"

definition targets_of_outputs :: "jval list \<Rightarrow> string list" where
  "targets_of_outputs outputs =
     concat (map (\<lambda>g. case elements_of g of None \<Rightarrow> [] | Some conns \<Rightarrow> List.map_filter conn_target conns)
       outputs)"

definition findAiRootNodeNames :: "jval \<Rightarrow> string list" where
  "findAiRootNodeNames connections =
     (case fields_of connections of None \<Rightarrow> []
      | Some cs \<Rightarrow>
          fold (\<lambda>(_, nodeConns) roots.
            case fields_of nodeConns of None \<Rightarrow> roots
            | Some tys \<Rightarrow>
                fold (\<lambda>(connType, outputs) roots.
                  if \<not> starts_with ''ai_'' connType then roots
                  else case elements_of outputs of None \<Rightarrow> roots
                       | Some groups \<Rightarrow> fold sadd (targets_of_outputs groups) roots)
                tys roots)
          cs [])"

section \<open>The nodes that are collected\<close>

lemma set_bring_front [simp]: "set (bring_front x xs) = insert x (set xs)"
proof (rule set_eqI)
  fix y show "y \<in> set (bring_front x xs) \<longleftrightarrow> y \<in> insert x (set xs)"
    by (cases "y = x") (auto simp: bring_front_def in_set_remove1)
qed

lemma distinct_bring_front [simp]: "distinct xs \<Longrightarrow> distinct (bring_front x xs)"
  by (simp add: bring_front_def distinct_remove1)

lemma set_foldr_bring_front [simp]: "set (foldr bring_front ys xs) = set ys \<union> set xs"
  by (induction ys) auto

lemma distinct_foldr_bring_front [simp]: "distinct xs \<Longrightarrow> distinct (foldr bring_front ys xs)"
  by (induction ys) auto

abbreviation succ_names :: "iconnections \<Rightarrow> ctype_filter \<Rightarrow> string \<Rightarrow> string list" where
  "succ_names conns f n \<equiv> map c_node (follow conns f n)"

lemma follow_no_key: "\<not> has_key conns n \<Longrightarrow> follow conns f n = []"
  by (simp add: follow_def has_key_def)

text \<open>
  What a memo may hold: for unlimited depth, a cached list names nodes reachable from its
  node, never the root of the search, and only nodes that are expanded already (or have no
  connections).
\<close>

definition memo_ok :: "iconnections \<Rightarrow> ctype_filter \<Rightarrow> string \<Rightarrow> memo \<Rightarrow> bool" where
  "memo_ok conns f rt m =
     (\<forall>d n r. map_of m (d, n) = Some r \<longrightarrow>
        d = -1 \<and> rt \<notin> set r \<and> (\<forall>x \<in> set r. (n, x) \<in> (edges_of (succ_names conns f))\<^sup>+)
        \<and> (\<forall>x \<in> set r. has_key conns x \<longrightarrow> has_key m (-1, x)))"

definition memo_le :: "memo \<Rightarrow> memo \<Rightarrow> bool" where
  "memo_le m m' = (map_of m \<subseteq>\<^sub>m map_of m')"

lemma memo_le_refl [simp]: "memo_le m m"
  by (simp add: memo_le_def)

lemma memo_le_trans: "memo_le a b \<Longrightarrow> memo_le b c \<Longrightarrow> memo_le a c"
  unfolding memo_le_def by (rule map_le_trans)

lemma memo_le_has_key: "memo_le m m' \<Longrightarrow> has_key m k \<Longrightarrow> has_key m' k"
  by (force simp: memo_le_def has_key_def map_le_def)

lemma memo_okD:
  assumes "memo_ok conns f rt m" and "map_of m (d, n) = Some r"
  shows "rt \<notin> set r" and "\<And>x. x \<in> set r \<Longrightarrow> (n, x) \<in> (edges_of (succ_names conns f))\<^sup>+"
    and "\<And>x. x \<in> set r \<Longrightarrow> has_key conns x \<Longrightarrow> has_key m (-1, x)" and "d = -1"
  using assms unfolding memo_ok_def by blast+

lemma memo_ok_update:
  assumes "memo_ok conns f rt m" and "rt \<notin> set r"
    and "\<And>x. x \<in> set r \<Longrightarrow> (n, x) \<in> (edges_of (succ_names conns f))\<^sup>+"
    and "\<And>x. x \<in> set r \<Longrightarrow> has_key conns x \<Longrightarrow> has_key m (-1, x)"
  shows "memo_ok conns f rt (AList.update (-1, n) r m)"
proof -
  have grow: "has_key m k \<Longrightarrow> has_key (AList.update (-1, n) r m) k" for k
    by (simp add: has_key_def)
  show ?thesis
    unfolding memo_ok_def
  proof (intro allI impI)
    fix d n' r'
    assume "map_of (AList.update (- 1, n) r m) (d, n') = Some r'"
    then have "d = -1 \<and> n' = n \<and> r' = r \<or> map_of m (d, n') = Some r'"
      by (auto split: if_splits)
    then show "d = -1 \<and> rt \<notin> set r' \<and> (\<forall>x\<in>set r'. (n', x) \<in> (edges_of (succ_names conns f))\<^sup>+) \<and>
        (\<forall>x\<in>set r'. has_key conns x \<longrightarrow> has_key (AList.update (- 1, n) r m) (-1, x))"
    proof
      assume "d = -1 \<and> n' = n \<and> r' = r"
      then show ?thesis using assms(2-4) grow by blast
    next
      assume r': "map_of m (d, n') = Some r'"
      show ?thesis using memo_okD [OF assms(1) r'] grow by blast
    qed
  qed
qed

text \<open>
  What one call of the collection, and one run of its loop, leave behind.  A node counts as
  expanded once the memo has an entry for it; the successors of every node expanded during
  the call are on the path or in the result.
\<close>

definition expanded :: "memo \<Rightarrow> string set" where
  "expanded m = {x. has_key m (-1, x)}"

lemma expanded_mono: "memo_le m m' \<Longrightarrow> expanded m \<subseteq> expanded m'"
  by (auto simp: expanded_def intro: memo_le_has_key)

lemma expanded_update: "expanded (AList.update (-1, n) r m) = insert n (expanded m)"
  by (auto simp: expanded_def has_key_def)

definition known :: "iconnections \<Rightarrow> memo \<Rightarrow> string set" where
  "known conns m = {x. has_key conns x \<longrightarrow> has_key m (-1, x)}"

lemma known_mono: "memo_le m m' \<Longrightarrow> known conns m \<subseteq> known conns m'"
  by (auto simp: known_def intro: memo_le_has_key)

lemma known_update: "known conns (AList.update (-1, n) r m) \<supseteq> insert n (known conns m)"
  by (auto simp: known_def has_key_def)

definition collect_post ::
    "iconnections \<Rightarrow> ctype_filter \<Rightarrow> string \<Rightarrow> string list \<Rightarrow> string \<Rightarrow> memo \<Rightarrow> string list \<Rightarrow> memo \<Rightarrow> bool" where
  "collect_post conns f rt path n m r m' \<longleftrightarrow>
     memo_le m m' \<and> memo_ok conns f rt m' \<and> rt \<notin> set r
     \<and> (\<forall>x \<in> set r. (n, x) \<in> (edges_of (succ_names conns f))\<^sup>+)
     \<and> set r \<subseteq> known conns m' \<and> n \<in> known conns m'
     \<and> (\<forall>x \<in> expanded m' - expanded m. set (succ_names conns f x) \<subseteq> insert n (set path) \<union> set r)"

definition loop_post ::
    "iconnections \<Rightarrow> ctype_filter \<Rightarrow> string \<Rightarrow> string list \<Rightarrow> iconnection list \<Rightarrow> string list \<Rightarrow> memo
       \<Rightarrow> string list \<Rightarrow> memo \<Rightarrow> bool" where
  "loop_post conns f rt path cs ret m r m' \<longleftrightarrow>
     memo_le m m' \<and> memo_ok conns f rt m' \<and> (rt \<notin> set ret \<longrightarrow> rt \<notin> set r) \<and> set ret \<subseteq> set r
     \<and> (\<forall>x \<in> set r - set ret. x \<in> known conns m' \<and>
           (\<exists>c \<in> set cs. (c_node c, x) \<in> (edges_of (succ_names conns f))\<^sup>*))
     \<and> c_node ` set cs \<subseteq> set path \<union> set r
     \<and> (\<forall>x \<in> expanded m' - expanded m. set (succ_names conns f x) \<subseteq> set path \<union> set r)"

lemma loop_post_Nil: "memo_ok conns f rt m \<Longrightarrow> loop_post conns f rt path [] ret m ret m"
  by (simp add: loop_post_def)

lemma loop_post_skip:
  "c_node c \<in> set path \<Longrightarrow> loop_post conns f rt path cs ret m r m' \<Longrightarrow>
   loop_post conns f rt path (c # cs) ret m r m'"
  unfolding loop_post_def by auto

lemma loop_post_visit:
  assumes c: "collect_post conns f rt path (c_node c) m add m1"
    and l: "loop_post conns f rt path cs (foldr bring_front add (bring_front (c_node c) ret)) m1 r m'"
    and rt: "rt \<in> set path" and off: "c_node c \<notin> set path"
  shows "loop_post conns f rt path (c # cs) ret m r m'"
proof -
  let ?R = "edges_of (succ_names conns f)"
  have ret1: "insert (c_node c) (set add \<union> set ret) \<subseteq> set r"
    using l by (auto simp: loop_post_def)
  have le: "memo_le m1 m'" "memo_le m m1" using c l by (auto simp: loop_post_def collect_post_def)
  have new: "x \<in> known conns m' \<and> (\<exists>c' \<in> set (c # cs). (c_node c', x) \<in> ?R\<^sup>*)"
    if x: "x \<in> set r - set ret" for x
  proof (cases "x \<in> insert (c_node c) (set add)")
    case True
    then have "x \<in> known conns m1" and "(c_node c, x) \<in> ?R\<^sup>*"
      using c by (auto simp: collect_post_def dest: trancl_into_rtrancl)
    then show ?thesis using known_mono [OF le(1)] by auto
  next
    case False
    with x l show ?thesis by (auto simp: loop_post_def)
  qed
  have exp: "set (succ_names conns f x) \<subseteq> set path \<union> set r" if x: "x \<in> expanded m' - expanded m" for x
  proof (cases "x \<in> expanded m1")
    case True
    with x c have "set (succ_names conns f x) \<subseteq> insert (c_node c) (set path) \<union> set add"
      unfolding collect_post_def by blast
    with ret1 show ?thesis by blast
  next
    case False
    with x l show ?thesis unfolding loop_post_def by blast
  qed
  have "rt \<noteq> c_node c" "rt \<notin> set add" using off rt c by (auto simp: collect_post_def)
  with l have "rt \<notin> set ret \<longrightarrow> rt \<notin> set r" by (auto simp: loop_post_def)
  moreover have "memo_le m m'" using le by (blast intro: memo_le_trans)
  moreover have "c_node ` set (c # cs) \<subseteq> set path \<union> set r"
    using l ret1 by (auto simp: loop_post_def)
  moreover have "memo_ok conns f rt m'" using l by (simp add: loop_post_def)
  ultimately show ?thesis
    unfolding loop_post_def using new exp ret1 by (intro conjI ballI) simp_all
qed

lemma collect_post_expand:
  assumes l: "loop_post conns f rt (n # path) (follow conns f n) [] m r m1"
    and fresh: "map_of m (-1, n) = None"
  shows "collect_post conns f rt path n m r (AList.update (-1, n) r m1)"
proof -
  let ?R = "edges_of (succ_names conns f)"
  have reach: "(n, x) \<in> ?R\<^sup>+" if "x \<in> set r" for x
  proof -
    from l that obtain c where "c \<in> set (follow conns f n)" "(c_node c, x) \<in> ?R\<^sup>*"
      by (auto simp: loop_post_def)
    then show ?thesis by (auto intro!: rtrancl_into_trancl2)
  qed
  have kn: "set r \<subseteq> known conns m1" and rt: "rt \<notin> set r" and ok: "memo_ok conns f rt m1"
    and le: "memo_le m m1"
    using l by (auto simp: loop_post_def)
  have "memo_ok conns f rt (AList.update (-1, n) r m1)"
    using ok rt reach kn by (intro memo_ok_update) (auto simp: known_def)
  moreover have "memo_le m (AList.update (-1, n) r m1)"
    using le fresh by (auto simp: memo_le_def map_le_def dom_def)
  moreover have "\<forall>x \<in> expanded (AList.update (-1, n) r m1) - expanded m.
      set (succ_names conns f x) \<subseteq> insert n (set path) \<union> set r"
  proof
    fix x assume "x \<in> expanded (AList.update (-1, n) r m1) - expanded m"
    then consider "x = n" | "x \<in> expanded m1 - expanded m" by (auto simp: expanded_update)
    then show "set (succ_names conns f x) \<subseteq> insert n (set path) \<union> set r"
      by cases (use l in \<open>unfold loop_post_def, fastforce+\<close>)
  qed
  ultimately show ?thesis
    using reach rt kn known_update [of n conns m1 r] by (auto simp: collect_post_def)
qed

lemma collect_post_cached:
  assumes "map_of m (-1, n) = Some r" and "memo_ok conns f rt m"
  shows "collect_post conns f rt path n m r m"
  unfolding collect_post_def known_def
  using memo_okD(1-3) [OF assms(2,1)] assms by (simp add: subset_iff has_key_Some)

lemma collect_ok:
  "depth = -1 \<Longrightarrow> memo_ok conns f rt memo \<Longrightarrow> rt \<in> set (nodeName # currentPath) \<Longrightarrow>
   collectConnectedNodes conns f nodeName depth currentPath memo = (r, m') \<Longrightarrow>
   collect_post conns f rt currentPath nodeName memo r m'"
  "depth = -1 \<Longrightarrow> memo_ok conns f rt memo \<Longrightarrow> rt \<in> set currentPath \<Longrightarrow>
   collect_loop conns f depth currentPath cs returnNodes memo = (r, m') \<Longrightarrow>
   loop_post conns f rt currentPath cs returnNodes memo r m'"
proof (induction conns f nodeName depth currentPath memo and conns f depth currentPath cs returnNodes memo
    arbitrary: r m' and r m' rule: collectConnectedNodes_collect_loop.induct)
  case (1 conns f nodeName depth currentPath memo)
  show ?case
  proof (cases "has_key conns nodeName")
    case False
    with "1.prems" have "r = []" "m' = memo" by (auto simp: collectConnectedNodes.simps [of conns])
    with False "1.prems" show ?thesis by (auto simp: collect_post_def known_def)
  next
    case True
    show ?thesis
    proof (cases "map_of memo (depth, nodeName)")
      case None
      obtain r1 m1 where l: "collect_loop conns f (next_depth depth) (nodeName # currentPath)
          (follow conns f nodeName) [] memo = (r1, m1)" by fastforce
      have nd: "next_depth depth = -1" using "1.prems" by (simp add: next_depth_def)
      have "loop_post conns f rt (nodeName # currentPath) (follow conns f nodeName) [] memo r1 m1"
        using True None "1.prems" nd by (intro "1.IH" [OF _ _ _ _ _ _ l]) auto
      moreover have "r = r1" "m' = AList.update (depth, nodeName) r1 m1"
        using True None "1.prems" l by (auto simp: collectConnectedNodes.simps [of conns])
      ultimately show ?thesis using None "1.prems" by (auto intro: collect_post_expand)
    next
      case (Some cached)
      with True "1.prems" have "r = cached" "m' = memo"
        by (auto simp: collectConnectedNodes.simps [of conns])
      with Some "1.prems" show ?thesis by (auto intro: collect_post_cached)
    qed
  qed
next
  case (2 conns f depth currentPath returnNodes memo)
  then show ?case by (auto intro: loop_post_Nil)
next
  case (3 conns f depth currentPath c cs returnNodes memo)
  show ?case
  proof (cases "c_node c \<in> set currentPath")
    case True
    with "3.prems" show ?thesis by (auto intro!: loop_post_skip "3.IH"(1))
  next
    case False
    obtain add m1 where c: "collectConnectedNodes conns f (c_node c) depth currentPath memo = (add, m1)"
      by fastforce
    have p1: "collect_post conns f rt currentPath (c_node c) memo add m1"
      using False "3.prems" by (intro "3.IH"(2) [OF _ _ _ _ c]) auto
    have ok1: "memo_ok conns f rt m1" using p1 by (simp add: collect_post_def)
    have "loop_post conns f rt currentPath cs
        (foldr bring_front add (bring_front (c_node c) returnNodes)) m1 r m'"
      using False "3.prems" c ok1 by (intro "3.IH"(3) [OF False c [symmetric]]) auto
    with p1 "3.prems"(3) False show ?thesis by (intro loop_post_visit) auto
  qed
qed

text \<open>The collection meets the contract of a graph search.\<close>

lemma getConnectedNodes_post:
  "collect_post conns f n [] n [] (getConnectedNodes conns n f (-1))
     (snd (collectConnectedNodes conns f n (-1) [] []))"
  by (rule collect_ok(1)) (auto simp: getConnectedNodes_def memo_ok_def)

interpretation connected: graph_search "succ_names conns f"
    "\<lambda>n. set (getConnectedNodes conns n f (-1))" for conns f
proof unfold_locales
  fix u v
  note post = getConnectedNodes_post [of conns f u]
  let ?m = "snd (collectConnectedNodes conns f u (-1) [] [])"
  show "(u, v) \<in> (edges_of (succ_names conns f))\<^sup>+"
    if "v \<in> set (getConnectedNodes conns u f (-1))"
    using post that by (auto simp: collect_post_def)
  have closed: "w \<in> insert u (set (getConnectedNodes conns u f (-1)))"
    if x: "x \<in> insert u (set (getConnectedNodes conns u f (-1)))" and w: "w \<in> set (succ_names conns f x)"
    for x w
  proof -
    have "has_key conns x" using w follow_no_key [of conns x f] by (cases "has_key conns x") auto
    moreover have "x \<in> known conns ?m" using x post by (auto simp: collect_post_def)
    ultimately have "x \<in> expanded ?m - expanded []" by (auto simp: known_def expanded_def has_key_def)
    then show ?thesis using w post unfolding collect_post_def by fastforce
  qed
  show "v \<in> set (getConnectedNodes conns u f (-1))"
    if "v \<in> set (succ_names conns f u)" "v \<noteq> u"
    using closed [of u v] that by auto
  show "v \<in> set (getConnectedNodes conns u f (-1))"
    if "x \<in> set (getConnectedNodes conns u f (-1))" "v \<in> set (succ_names conns f x)" "v \<noteq> u" for x
    using closed [of x v] that by auto
qed

lemma collect_loop_distinct: "distinct ret \<Longrightarrow> distinct (fst (collect_loop conns f d path cs ret m))"
  by (induction cs arbitrary: ret m) (auto split: prod.split)

section \<open>Turning the connections around\<close>

definition conn_at :: "iconnections \<Rightarrow> string \<Rightarrow> string \<Rightarrow> nat \<Rightarrow> iconnection list" where
  "conn_at conns n t k = group_at (typed_inputs conns n t) k"

text \<open>Object keys are unique; and the type under which a connection is filed is its own.\<close>

definition proper_keys :: "iconnections \<Rightarrow> bool" where
  "proper_keys conns \<longleftrightarrow> distinct (okeys conns) \<and> list_all (\<lambda>(n, nc). distinct (okeys nc)) conns"

definition types_agree :: "iconnections \<Rightarrow> bool" where
  "types_agree conns \<longleftrightarrow> list_all (\<lambda>(src, ty, i, c). c_type c = ty) (entries_of conns)"

definition no_null_group :: "iconnections \<Rightarrow> bool" where
  "no_null_group conns \<longleftrightarrow> (\<forall>n t. None \<notin> set (typed_inputs conns n t))"

lemma typed_inputs_add:
  "typed_inputs (add_by_destination src ty i info ret) n t =
     (if n = c_node info \<and> t = c_type info
      then push_group (pad_groups (typed_inputs ret n t) (c_index info)) (c_index info)
             \<lparr>c_node = src, c_type = ty, c_index = i\<rparr>
      else typed_inputs ret n t)"
  by (auto simp: add_by_destination_def typed_inputs_def Let_def split: option.split)

lemma no_null_push: "None \<notin> set groups \<Longrightarrow> None \<notin> set (push_group (pad_groups groups k) k c)"
  by (auto simp: push_group_def pad_groups_def nth_append split: if_splits
      dest!: set_update_subset_insert [THEN subsetD])
    (metis nth_mem)+

lemma group_at_push:
  assumes "None \<notin> set groups"
  shows "group_at (push_group (pad_groups groups k) k c) j =
           group_at groups j @ (if j = k then [c] else [])"
proof (cases "j < length groups")
  case True
  then have "groups ! j \<noteq> None" using assms nth_mem by metis
  with True show ?thesis
    by (auto simp: push_group_def pad_groups_def group_at_nth nth_append nth_list_update)
next
  case False
  then show ?thesis
    by (auto simp: push_group_def pad_groups_def group_at_def array_get_def nth_append nth_list_update
        split: option.split)
qed

lemma conn_at_fold_add:
  "no_null_group ret \<Longrightarrow>
   conn_at (fold (\<lambda>(src, ty, i, c). add_by_destination src ty i c) es ret) n t k =
     conn_at ret n t k @
     map (\<lambda>(src, ty, i, c). \<lparr>c_node = src, c_type = ty, c_index = i\<rparr>)
       (filter (\<lambda>(src, ty, i, c). c_node c = n \<and> c_type c = t \<and> c_index c = k) es)"
proof (induction es arbitrary: ret)
  case (Cons e es)
  obtain src ty i c where e: "e = (src, ty, i, c)" by (cases e)
  have "no_null_group (add_by_destination src ty i c ret)"
    using Cons.prems by (auto simp: no_null_group_def typed_inputs_add no_null_push)
  moreover have "conn_at (add_by_destination src ty i c ret) n t k = conn_at ret n t k @
      (if c_node c = n \<and> c_type c = t \<and> c_index c = k
       then [\<lparr>c_node = src, c_type = ty, c_index = i\<rparr>] else [])"
    using Cons.prems by (auto simp: conn_at_def typed_inputs_add no_null_group_def group_at_push)
  ultimately show ?case using Cons.IH by (simp add: e)
qed simp

lemma conn_at_mapConnectionsByDestination:
  "conn_at (mapConnectionsByDestination conns) n t k =
     map (\<lambda>(src, ty, i, c). \<lparr>c_node = src, c_type = ty, c_index = i\<rparr>)
       (filter (\<lambda>(src, ty, i, c). c_node c = n \<and> c_type c = t \<and> c_index c = k) (entries_of conns))"
  unfolding mapConnectionsByDestination_def
  by (subst conn_at_fold_add) (auto simp: no_null_group_def typed_inputs_def conn_at_def group_at_def array_get_def)

text \<open>Membership of an entry, and of a followed connection, through \<^verbatim>\<open>conn_at\<close>.\<close>

lemma group_at_in: "c \<in> set (group_at groups i) \<Longrightarrow> i < length groups"
  by (auto simp: group_at_def array_get_def split: option.splits if_splits)

lemma set_connections_of_groups: "c \<in> set (connections_of_groups gs) \<longleftrightarrow> (\<exists>i. c \<in> set (group_at gs i))"
proof
  assume "c \<in> set (connections_of_groups gs)"
  then obtain g where g: "g \<in> set gs" "c \<in> set (case g of None \<Rightarrow> [] | Some cs \<Rightarrow> cs)"
    by (auto simp: connections_of_groups_def)
  then obtain i where "i < length gs" "gs ! i = g" by (auto simp: in_set_conv_nth)
  with g have "c \<in> set (group_at gs i)" by (simp add: group_at_nth)
  then show "\<exists>i. c \<in> set (group_at gs i)" ..
next
  assume "\<exists>i. c \<in> set (group_at gs i)"
  then obtain i where i: "c \<in> set (group_at gs i)" ..
  with group_at_in [OF i] show "c \<in> set (connections_of_groups gs)"
    by (auto simp: connections_of_groups_def group_at_nth intro!: bexI [of _ "gs ! i"])
qed

lemma set_follow_Of_type: "c \<in> set (follow conns (Of_type t) n) \<longleftrightarrow> (\<exists>i. c \<in> set (conn_at conns n t i))"
  by (auto simp: follow_def selected_types_def conn_at_def typed_inputs_def set_connections_of_groups
      group_at_beyond split: option.splits)

lemma iconnection_eta [simp]: "\<lparr>c_node = c_node c, c_type = c_type c, c_index = c_index c\<rparr> = c"
  for c :: iconnection
  by (cases c) simp

lemma succ_names_iff:
  "v \<in> set (succ_names conns (Of_type t) n) \<longleftrightarrow>
     (\<exists>ty i k. \<lparr>c_node = v, c_type = ty, c_index = i\<rparr> \<in> set (conn_at conns n t k))" (is "?l = ?r")
proof
  assume ?l
  then obtain c k where "c_node c = v" "c \<in> set (conn_at conns n t k)"
    by (auto simp: set_follow_Of_type)
  then show ?r by (intro exI [of _ "c_type c"] exI [of _ "c_index c"] exI [of _ k]) auto
next
  assume ?r
  then obtain ty i where "\<lparr>c_node = v, c_type = ty, c_index = i\<rparr> \<in> set (follow conns (Of_type t) n)"
    by (auto simp: set_follow_Of_type)
  then show ?l by (force simp: image_iff)
qed

lemma set_entries_of:
  assumes "proper_keys conns"
  shows "(src, ty, i, c) \<in> set (entries_of conns) \<longleftrightarrow> c \<in> set (conn_at conns src ty i)"
proof
  assume "(src, ty, i, c) \<in> set (entries_of conns)"
  then obtain nc gs where "(src, nc) \<in> set conns" "(ty, gs) \<in> set nc" "c \<in> set (group_at gs i)"
    by (auto simp: entries_of_def)
  with assms show "c \<in> set (conn_at conns src ty i)"
    by (auto simp: proper_keys_def conn_at_def typed_inputs_def list_all_iff)
next
  assume c: "c \<in> set (conn_at conns src ty i)"
  then obtain nc gs where "map_of conns src = Some nc" "map_of nc ty = Some gs"
      and g: "c \<in> set (group_at gs i)"
    by (auto simp: conn_at_def typed_inputs_def group_at_beyond split: option.splits)
  then show "(src, ty, i, c) \<in> set (entries_of conns)"
    using group_at_in [OF g] by (fastforce simp: entries_of_def dest!: map_of_SomeD)
qed

lemma mem_destination_iff:
  assumes "proper_keys conns"
  shows "\<lparr>c_node = src, c_type = ty, c_index = i\<rparr> \<in> set (conn_at (mapConnectionsByDestination conns) n t k)
     \<longleftrightarrow> \<lparr>c_node = n, c_type = t, c_index = k\<rparr> \<in> set (conn_at conns src ty i)"
proof -
  have "(\<exists>c. (src, ty, i, c) \<in> set (entries_of conns) \<and> c_node c = n \<and> c_type c = t \<and> c_index c = k)
      \<longleftrightarrow> (src, ty, i, \<lparr>c_node = n, c_type = t, c_index = k\<rparr>) \<in> set (entries_of conns)"
    by (metis (full_types) iconnection.surjective old.unit.exhaust iconnection.select_convs)
  then show ?thesis
    by (auto simp: conn_at_mapConnectionsByDestination set_entries_of [OF assms] image_iff)
qed

lemma succ_destination_iff:
  assumes "proper_keys conns" and "types_agree conns"
  shows "v \<in> set (succ_names (mapConnectionsByDestination conns) (Of_type t) n)
     \<longleftrightarrow> n \<in> set (succ_names conns (Of_type t) v)"
proof -
  have agree: "c \<in> set (conn_at conns src ty i) \<Longrightarrow> c_type c = ty" for src ty i c
    using assms(2) set_entries_of [OF assms(1), of src ty i c] unfolding types_agree_def list_all_iff
    by auto
  have "v \<in> set (succ_names (mapConnectionsByDestination conns) (Of_type t) n)
      \<longleftrightarrow> (\<exists>ty i k. \<lparr>c_node = v, c_type = ty, c_index = i\<rparr> \<in>
            set (conn_at (mapConnectionsByDestination conns) n t k))"
    by (rule succ_names_iff)
  also have "\<dots> \<longleftrightarrow> (\<exists>ty i k. \<lparr>c_node = n, c_type = t, c_index = k\<rparr> \<in> set (conn_at conns v ty i))"
    by (simp add: mem_destination_iff [OF assms(1)])
  also have "\<dots> \<longleftrightarrow> (\<exists>ty i k. \<lparr>c_node = n, c_type = ty, c_index = i\<rparr> \<in> set (conn_at conns v t k))"
    by (metis agree iconnection.select_convs(2))
  also have "\<dots> \<longleftrightarrow> n \<in> set (succ_names conns (Of_type t) v)"
    by (rule succ_names_iff [symmetric])
  finally show ?thesis .
qed

section \<open>Properties\<close>

text \<open>
  C31. Without a depth limit, \<^verbatim>\<open>getConnectedNodes\<close> lists, without duplicates, exactly the nodes
  reachable from the start node over connections of the asked types, and never the start node
  itself, cycles and shared sub-graphs included: caching an expansion loses nothing.
\<close>

theorem getConnectedNodes_reachable:
  "distinct (getConnectedNodes conns n f (-1)) \<and>
   set (getConnectedNodes conns n f (-1)) =
     {v. (n, v) \<in> (edges_of (succ_names conns f))\<^sup>* \<and> v \<noteq> n}"
proof
  show "distinct (getConnectedNodes conns n f (-1))"
    using collect_loop_distinct [of "[]" conns f "-1" "[n]" "follow conns f n" "[]"]
    by (auto simp: getConnectedNodes_def collectConnectedNodes.simps [of conns f n]
        next_depth_def split: prod.split)
  have "n \<notin> set (getConnectedNodes conns n f (-1))"
    using getConnectedNodes_post [of conns f n] by (simp add: collect_post_def)
  then show "set (getConnectedNodes conns n f (-1)) =
      {v. (n, v) \<in> (edges_of (succ_names conns f))\<^sup>* \<and> v \<noteq> n}"
    using connected.search_eq [of _ conns n f] by blast
qed

text \<open>
  Turning the connections around neither loses nor invents one: a connection from output
  \<^verbatim>\<open>i\<close> of type \<^verbatim>\<open>ty\<close> of \<^verbatim>\<open>src\<close> to input \<^verbatim>\<open>k\<close> of type \<^verbatim>\<open>t\<close> of \<^verbatim>\<open>n\<close> is filed under \<^verbatim>\<open>n\<close>, \<^verbatim>\<open>t\<close>, \<^verbatim>\<open>k\<close>
  in the result exactly if it is filed under \<^verbatim>\<open>src\<close>, \<^verbatim>\<open>ty\<close>, \<^verbatim>\<open>i\<close> in the argument.
\<close>

theorem mapConnectionsByDestination_inverts:
  assumes "proper_keys conns"
  shows "\<lparr>c_node = src, c_type = ty, c_index = i\<rparr>
           \<in> set (group_at (typed_inputs (mapConnectionsByDestination conns) n t) k)
     \<longleftrightarrow> \<lparr>c_node = n, c_type = t, c_index = k\<rparr> \<in> set (group_at (typed_inputs conns src ty) i)"
  using mem_destination_iff [OF assms] by (simp add: conn_at_def)

text \<open>
  Parents and children agree: \<^verbatim>\<open>p\<close> is listed among the parents of \<^verbatim>\<open>n\<close> (found in the
  connections by destination) exactly if \<^verbatim>\<open>n\<close> is listed among the children of \<^verbatim>\<open>p\<close> (found in
  the connections by source), for every connection type under which connections are filed
  consistently.
\<close>

theorem parents_are_children:
  assumes "proper_keys conns" and "types_agree conns"
  shows "p \<in> set (getParentNodes (mapConnectionsByDestination conns) n (Of_type t) (-1))
     \<longleftrightarrow> n \<in> set (getChildNodes conns p (Of_type t) (-1))"
proof -
  have "edges_of (succ_names (mapConnectionsByDestination conns) (Of_type t)) =
      (edges_of (succ_names conns (Of_type t)))\<inverse>"
    using succ_destination_iff [OF assms] by (auto simp: edges_of_def simp del: set_map)
  then show ?thesis
    using getConnectedNodes_reachable
    by (auto simp: getParentNodes_def getChildNodes_def rtrancl_converse)
qed

text \<open>A diamond with a cycle: Trigger to A and B, A to Merge, B to Merge, Merge back to A.\<close>

definition main_conn :: "string \<Rightarrow> nat \<Rightarrow> iconnection" where
  "main_conn n i = \<lparr>c_node = n, c_type = Main_t, c_index = i\<rparr>"

definition sample_connections :: iconnections where
  "sample_connections =
     [(''T'', [(Main_t, [Some [main_conn ''A'' 0, main_conn ''B'' 0]])]),
      (''A'', [(Main_t, [Some [main_conn ''M'' 0]])]),
      (''B'', [(Main_t, [None, Some [main_conn ''M'' 1]])]),
      (''M'', [(Main_t, [Some [main_conn ''A'' 0]])])]"

lemma sample_proper: "proper_keys sample_connections" "types_agree sample_connections"
  by code_simp+

theorem mapConnectionsByDestination_inverts_witness:
  "\<lparr>c_node = ''B'', c_type = Main_t, c_index = 1\<rparr>
     \<in> set (group_at (typed_inputs (mapConnectionsByDestination sample_connections) ''M'' Main_t) 1)"
  by (subst mapConnectionsByDestination_inverts [OF sample_proper(1)]) code_simp

theorem parents_are_children_witness:
  "''T'' \<in> set (getParentNodes (mapConnectionsByDestination sample_connections) ''M'' (Of_type Main_t) (-1))"
  by (subst parents_are_children [OF sample_proper]) code_simp

end
