(* ===== verification/GraphUtils.thy ===== *)
theory GraphUtils
  imports Connections
begin

text \<open>
  \<^verbatim>\<open>packages/workflow/src/graph/graph-utils.ts\<close>: which selections of nodes can be extracted
  into a sub-workflow.

  An adjacency list is a \<^verbatim>\<open>Map\<close> from node names to \<^verbatim>\<open>Set\<close>s of connection objects.  The
  elements of a set are compared by identity and every connection of a workflow is an object
  of its own, so a set of connections is the list of all of them; sets of names have no
  duplicates.  The stack of \<^verbatim>\<open>hasPath\<close> is a list with its top at the head.
\<close>

section \<open>Definitions\<close>

datatype extract_error =
    Multiple_Input_Nodes "string list"
  | Multiple_Output_Nodes "string list"
  | Input_Edge_To_Non_Root_Node string
  | Output_Edge_From_Non_Leaf_Node string
  | No_Continuous_Path string string

type_synonym adjacency = "(string, iconnection list) omap"

definition adj_get :: "adjacency \<Rightarrow> string \<Rightarrow> iconnection list" where
  "adj_get adj n = (case map_of adj n of None \<Rightarrow> [] | Some cs \<Rightarrow> cs)"

definition getInputEdges :: "string list \<Rightarrow> adjacency \<Rightarrow> (string \<times> iconnection) list" where
  "getInputEdges graphIds adj =
     concat (map (\<lambda>(from, tos).
       if from \<in> set graphIds then []
       else map (Pair from) (filter (\<lambda>to. c_node to \<in> set graphIds) tos)) adj)"

definition getOutputEdges :: "string list \<Rightarrow> adjacency \<Rightarrow> (string \<times> iconnection) list" where
  "getOutputEdges graphIds adj =
     concat (map (\<lambda>(from, tos).
       if from \<notin> set graphIds then []
       else map (Pair from) (filter (\<lambda>to. c_node to \<notin> set graphIds) tos)) adj)"

definition intersection :: "'a list \<Rightarrow> 'a list \<Rightarrow> 'a list" where
  "intersection a b = filter (\<lambda>x. x \<in> set b) a"

definition union_sets :: "'a list \<Rightarrow> 'a list \<Rightarrow> 'a list" where
  "union_sets a b = fold sadd b (fold sadd a [])"

definition difference :: "'a list \<Rightarrow> 'a list \<Rightarrow> 'a list" where
  "difference minuend subtrahend = fold sdel subtrahend (set_of_list minuend)"

text \<open>\<^verbatim>\<open>new Set([...(adj.get(id) ?? [])].filter(main and not id).map(node))\<close>\<close>

definition main_targets :: "adjacency \<Rightarrow> string \<Rightarrow> string list" where
  "main_targets adj n = set_of_list (map c_node (filter (\<lambda>x. c_type x = Main_t) (adj_get adj n)))"

definition other_main_targets :: "adjacency \<Rightarrow> string \<Rightarrow> string list" where
  "other_main_targets adj n =
     set_of_list (map c_node (filter (\<lambda>x. c_type x = Main_t \<and> c_node x \<noteq> n) (adj_get adj n)))"

definition getRootNodes :: "string list \<Rightarrow> adjacency \<Rightarrow> string list" where
  "getRootNodes graphIds adj =
     (let innerNodes = fold (\<lambda>nodeId inner. union_sets inner (other_main_targets adj nodeId)) graphIds []
      in difference graphIds innerNodes)"

definition getLeafNodes :: "string list \<Rightarrow> adjacency \<Rightarrow> string list" where
  "getLeafNodes graphIds adj =
     fold (\<lambda>nodeId result.
       if length (intersection (other_main_targets adj nodeId) graphIds) = 0
       then sadd nodeId result else result) graphIds []"

text \<open>The names a search can meet: keys, targets and what is on the stack.\<close>

definition adj_universe :: "adjacency \<Rightarrow> string list \<Rightarrow> string set" where
  "adj_universe adj paths = set (okeys adj) \<union> c_node ` (\<Union>n. set (adj_get adj n)) \<union> set paths"

lemma adj_get_empty: "n \<notin> set (okeys adj) \<Longrightarrow> adj_get adj n = []"
  by (simp add: adj_get_def map_of_eq_None_iff [THEN iffD2])

lemma finite_adj_universe [simp]: "finite (adj_universe adj paths)"
proof -
  have "(\<Union>n. set (adj_get adj n)) \<subseteq> (\<Union>n \<in> set (okeys adj). set (adj_get adj n))"
    using adj_get_empty by fastforce
  then have "finite (\<Union>n. set (adj_get adj n))" by (rule finite_subset) auto
  then show ?thesis by (simp add: adj_universe_def)
qed

lemma set_difference [simp]: "set (difference a b) = set a - set b"
  by (simp add: difference_def)

lemma distinct_difference [simp]: "distinct (difference a b)"
  by (simp add: difference_def)

lemma set_main_targets: "set (main_targets adj n) = {c_node c |c. c \<in> set (adj_get adj n) \<and> c_type c = Main_t}"
  by (auto simp: main_targets_def)

definition top_unseen :: "string list \<Rightarrow> string list \<Rightarrow> bool" where
  "top_unseen seen paths = (case paths of [] \<Rightarrow> False | p # _ \<Rightarrow> p \<notin> set seen)"

lemma hasPath_decreases:
  fixes adj :: adjacency and cur :: string and seen paths :: "string list"
  defines "pushed \<equiv> rev (difference (main_targets adj cur) (sadd cur seen))"
  shows "card (adj_universe adj (pushed @ paths) - set (sadd cur seen))
           < card (adj_universe adj (cur # paths) - set seen)
     \<or> card (adj_universe adj (pushed @ paths) - set (sadd cur seen))
           \<le> card (adj_universe adj (cur # paths) - set seen) \<and> cur \<in> set seen
       \<and> (pushed = [] \<or> top_unseen (sadd cur seen) (pushed @ paths))"
proof -
  have sub: "adj_universe adj (pushed @ paths) - set (sadd cur seen)
      \<subseteq> adj_universe adj (cur # paths) - set seen - {cur}"
    by (auto simp: adj_universe_def pushed_def set_main_targets)
  show ?thesis
  proof (cases "cur \<in> set seen")
    case False
    have "card (adj_universe adj (pushed @ paths) - set (sadd cur seen))
        < card (adj_universe adj (cur # paths) - set seen)"
    proof (rule psubset_card_mono)
      have "cur \<in> adj_universe adj (cur # paths) - set seen"
        using False by (simp add: adj_universe_def)
      with sub show "adj_universe adj (pushed @ paths) - set (sadd cur seen)
          \<subset> adj_universe adj (cur # paths) - set seen" by blast
    qed simp
    then show ?thesis ..
  next
    case True
    have "pushed = [] \<or> top_unseen (sadd cur seen) (pushed @ paths)"
    proof (cases pushed)
      case (Cons p ps)
      then have "p \<in> set pushed" by simp
      then have "p \<notin> set (sadd cur seen)" by (simp add: pushed_def)
      with Cons show ?thesis by (simp add: top_unseen_def)
    qed simp
    moreover have "card (adj_universe adj (pushed @ paths) - set (sadd cur seen))
        \<le> card (adj_universe adj (cur # paths) - set seen)"
      using sub by (intro card_mono) auto
    ultimately show ?thesis using True by blast
  qed
qed

function hasPath_loop :: "adjacency \<Rightarrow> string \<Rightarrow> string list \<Rightarrow> string list \<Rightarrow> bool" where
  "hasPath_loop adj goal seen [] = False"
| "hasPath_loop adj goal seen (cur # paths) =
     (if cur = goal then True
      else let seen' = sadd cur seen
           in hasPath_loop adj goal seen' (rev (difference (main_targets adj cur) seen') @ paths))"
  by pat_completeness auto
termination
proof (relation "measures
    [\<lambda>(adj, goal, seen, paths). card (adj_universe adj paths - set seen),
     \<lambda>(adj, goal, seen, paths). if top_unseen seen paths then 0 else length paths]")
  fix adj :: adjacency and goal cur :: string and seen paths seen' :: "string list"
  assume "seen' = sadd cur seen"
  then show "((adj, goal, seen', rev (difference (main_targets adj cur) seen') @ paths),
         (adj, goal, seen, cur # paths)) \<in> measures
    [\<lambda>(adj, goal, seen, paths). card (adj_universe adj paths - set seen),
     \<lambda>(adj, goal, seen, paths). if top_unseen seen paths then 0 else length paths]"
    using hasPath_decreases [where adj = adj and cur = cur and seen = seen and paths = paths]
    by (auto simp: top_unseen_def le_less split: list.splits)
qed simp

definition hasPath :: "string \<Rightarrow> string \<Rightarrow> adjacency \<Rightarrow> bool" where
  "hasPath start goal adj = hasPath_loop adj goal [] [start]"

definition buildAdjacencyList :: "iconnections \<Rightarrow> adjacency" where
  "buildAdjacencyList conns =
     fold (\<lambda>(src, ty, i, c) result. AList.update src (adj_get result src @ [c]) result) (entries_of conns) []"

definition truthy :: "string option \<Rightarrow> bool" where
  "truthy s = (s \<noteq> None \<and> s \<noteq> Some [])"

definition first_of :: "'a list \<Rightarrow> 'a option" where
  "first_of xs = (case xs of [] \<Rightarrow> None | x # _ \<Rightarrow> Some x)"

definition parseExtractableSubgraphSelection ::
    "string list \<Rightarrow> adjacency \<Rightarrow> extract_error list + string option \<times> string option" where
  "parseExtractableSubgraphSelection graphIds adj =
     (let inputEdges = getInputEdges graphIds adj;
          inputNodes = set_of_list (map (\<lambda>x. c_node (snd x)) (filter (\<lambda>x. c_type (snd x) = Main_t) inputEdges));
          rootNodes0 = getRootNodes graphIds adj;
          rootNodes = (if length rootNodes0 = 0 \<and> length inputNodes = 1 then inputNodes else rootNodes0);
          errors1 = map Input_Edge_To_Non_Root_Node (difference inputNodes rootNodes);
          rootInputNodes = intersection rootNodes inputNodes;
          errors2 = (if length rootInputNodes > 1 then [Multiple_Input_Nodes rootInputNodes] else []);
          outputEdges = getOutputEdges graphIds adj;
          outputNodes = set_of_list (map fst (filter (\<lambda>x. c_type (snd x) = Main_t) outputEdges));
          leafNodes0 = getLeafNodes graphIds adj;
          leafNodes = (if length leafNodes0 = 0 \<and> length outputNodes = 1 then outputNodes else leafNodes0);
          errors3 = map Output_Edge_From_Non_Leaf_Node (difference outputNodes leafNodes);
          leafOutputNodes = intersection leafNodes outputNodes;
          errors4 = (if length leafOutputNodes > 1 then [Multiple_Output_Nodes leafOutputNodes] else []);
          start = first_of rootInputNodes;
          end = first_of leafOutputNodes;
          errors5 = (if truthy start \<and> truthy end \<and> \<not> hasPath (the start) (the end) adj
                     then [No_Continuous_Path (the start) (the end)] else []);
          errors = errors1 @ errors2 @ errors3 @ errors4 @ errors5
      in if length errors > 0 then Inl errors else Inr (start, end))"

section \<open>Paths\<close>

definition main_edges :: "adjacency \<Rightarrow> (string \<times> string) set" where
  "main_edges adj = {(u, v). \<exists>c \<in> set (adj_get adj u). c_type c = Main_t \<and> c_node c = v}"

lemma main_edges_iff: "(u, v) \<in> main_edges adj \<longleftrightarrow> v \<in> set (main_targets adj u)"
  by (auto simp: main_edges_def set_main_targets)

lemma hasPath_loop_sound:
  "hasPath_loop adj goal seen paths \<Longrightarrow> \<exists>p \<in> set paths. (p, goal) \<in> (main_edges adj)\<^sup>*"
proof (induction adj goal seen paths rule: hasPath_loop.induct)
  case (2 adj goal seen cur paths)
  show ?case
  proof (cases "cur = goal")
    case False
    with "2.prems" have "hasPath_loop adj goal (sadd cur seen)
        (rev (difference (main_targets adj cur) (sadd cur seen)) @ paths)" by (simp add: Let_def)
    from "2.IH" [OF False refl this]
    obtain p where p: "p \<in> set (difference (main_targets adj cur) (sadd cur seen)) \<union> set paths"
        "(p, goal) \<in> (main_edges adj)\<^sup>*" by auto
    then show ?thesis
      by (auto simp flip: main_edges_iff intro: converse_rtrancl_into_rtrancl)
  qed auto
qed simp

text \<open>
  When the search fails, what it has seen and what waits on the stack is closed under main
  connections, so the goal is not reachable from it.
\<close>

lemma hasPath_loop_complete:
  "\<not> hasPath_loop adj goal seen paths \<Longrightarrow> goal \<notin> set seen \<Longrightarrow>
   main_edges adj `` set seen \<subseteq> set seen \<union> set paths \<Longrightarrow>
   \<exists>S. set seen \<union> set paths \<subseteq> S \<and> main_edges adj `` S \<subseteq> S \<and> goal \<notin> S"
proof (induction adj goal seen paths rule: hasPath_loop.induct)
  case (1 adj goal seen)
  then show ?case by auto
next
  case (2 adj goal seen cur paths)
  let ?pushed = "rev (difference (main_targets adj cur) (sadd cur seen))"
  have ne: "cur \<noteq> goal" and fail: "\<not> hasPath_loop adj goal (sadd cur seen) (?pushed @ paths)"
    using "2.prems"(1) by (auto simp: Let_def split: if_splits)
  have "main_edges adj `` set (sadd cur seen) \<subseteq> set (sadd cur seen) \<union> set (?pushed @ paths)"
    using "2.prems"(3) by (auto simp: main_edges_iff)
  then obtain S where "set (sadd cur seen) \<union> set (?pushed @ paths) \<subseteq> S"
      "main_edges adj `` S \<subseteq> S" "goal \<notin> S"
    using "2.IH" [OF ne refl fail] ne "2.prems"(2) by auto
  then show ?case by auto
qed

text \<open>
  \<^verbatim>\<open>hasPath\<close> ends on every adjacency list, cyclic ones included, and answers whether the
  goal can be reached from the start over main connections.
\<close>

theorem hasPath_correct: "hasPath start goal adj \<longleftrightarrow> (start, goal) \<in> (main_edges adj)\<^sup>*"
proof
  assume "hasPath start goal adj"
  then show "(start, goal) \<in> (main_edges adj)\<^sup>*"
    using hasPath_loop_sound [of adj goal "[]" "[start]"] by (auto simp: hasPath_def)
next
  assume r: "(start, goal) \<in> (main_edges adj)\<^sup>*"
  show "hasPath start goal adj"
  proof (rule ccontr)
    assume "\<not> hasPath start goal adj"
    then obtain S where S: "start \<in> S" "main_edges adj `` S \<subseteq> S" "goal \<notin> S"
      using hasPath_loop_complete [of adj goal "[]" "[start]"] by (auto simp: hasPath_def)
    have "goal \<in> S" using S r by (intro closed_rtrancl [OF _ _ r]) auto
    with S show False by simp
  qed
qed

section \<open>Extractable selections\<close>

lemma adj_get_in: "distinct (okeys adj) \<Longrightarrow> (u, cs) \<in> set adj \<Longrightarrow> adj_get adj u = cs"
  by (simp add: adj_get_def)

lemma adj_get_mem: "c \<in> set (adj_get adj u) \<Longrightarrow> (u, adj_get adj u) \<in> set adj"
  by (auto simp: adj_get_def split: option.splits dest: map_of_SomeD)

lemma set_getInputEdges:
  "distinct (okeys adj) \<Longrightarrow> (u, c) \<in> set (getInputEdges ids adj) \<longleftrightarrow>
     u \<notin> set ids \<and> c \<in> set (adj_get adj u) \<and> c_node c \<in> set ids"
  by (force simp: getInputEdges_def adj_get_in dest: adj_get_mem)

lemma set_getOutputEdges:
  "distinct (okeys adj) \<Longrightarrow> (u, c) \<in> set (getOutputEdges ids adj) \<longleftrightarrow>
     u \<in> set ids \<and> c \<in> set (adj_get adj u) \<and> c_node c \<notin> set ids"
  by (force simp: getOutputEdges_def adj_get_in dest: adj_get_mem)

lemma buildAdjacencyList_get:
  "adj_get (buildAdjacencyList conns) n = map (\<lambda>(src, ty, i, c). c) (filter (\<lambda>e. fst e = n) (entries_of conns))"
proof -
  have "adj_get (fold (\<lambda>(src, ty, i, c) result. AList.update src (adj_get result src @ [c]) result) es r) n =
      adj_get r n @ map (\<lambda>(src, ty, i, c). c) (filter (\<lambda>e. fst e = n) es)" for es r
    by (induction es arbitrary: r) (auto simp: adj_get_def)
  from this [of "entries_of conns" "[]"] show ?thesis
    by (simp add: buildAdjacencyList_def adj_get_def)
qed

lemma buildAdjacencyList_keys: "distinct (okeys (buildAdjacencyList conns))"
proof -
  have "distinct (okeys r) \<Longrightarrow> distinct (okeys
      (fold (\<lambda>(src, ty, i, c) result. AList.update src (adj_get result src @ [c]) result) es r))" for es r
    by (induction es arbitrary: r) (auto simp del: set_map)
  from this [of "[]"] show ?thesis by (simp add: buildAdjacencyList_def)
qed

lemma singleton_cover:
  "set (difference a b) = {} \<Longrightarrow> length (intersection b a) \<le> 1 \<Longrightarrow> distinct b \<Longrightarrow> x \<in> set a \<Longrightarrow>
   first_of (intersection b a) = Some x"
proof -
  assume "set (difference a b) = {}" and "length (intersection b a) \<le> 1" and "x \<in> set a"
  then have "x \<in> set (intersection b a)" by (auto simp: intersection_def)
  with \<open>length (intersection b a) \<le> 1\<close> show "first_of (intersection b a) = Some x"
    by (cases "intersection b a") (auto simp: first_of_def)
qed

lemma distinct_getRootNodes: "distinct (getRootNodes ids adj)"
  by (simp add: getRootNodes_def)

lemma distinct_getLeafNodes: "distinct (getLeafNodes ids adj)"
proof -
  have "distinct r \<Longrightarrow> distinct (fold (\<lambda>nodeId result.
      if length (intersection (other_main_targets adj nodeId) ids) = 0 then sadd nodeId result else result) xs r)"
    for xs r by (induction xs arbitrary: r) auto
  then show ?thesis by (simp add: getLeafNodes_def)
qed

text \<open>
  A selection that is accepted has one way in and one way out: every main connection from
  outside leads to the reported start node, every main connection to the outside leaves from
  the reported end node, and the end can be reached from the start.
\<close>

theorem extractable_selection_boundary:
  assumes "parseExtractableSubgraphSelection ids adj = Inr (start, leaf)"
    and "distinct (okeys adj)" and "c \<in> set (adj_get adj u)" and "c_type c = Main_t"
  shows "(u \<notin> set ids \<longrightarrow> c_node c \<in> set ids \<longrightarrow> start = Some (c_node c))
     \<and> (u \<in> set ids \<longrightarrow> c_node c \<notin> set ids \<longrightarrow> leaf = Some u)
     \<and> (truthy start \<longrightarrow> truthy leaf \<longrightarrow> (the start, the leaf) \<in> (main_edges adj)\<^sup>*)"
proof (intro conjI impI)
  define ins where "ins = set_of_list (map (\<lambda>x. c_node (snd x))
      (filter (\<lambda>x. c_type (snd x) = Main_t) (getInputEdges ids adj)))"
  define roots where "roots = (if length (getRootNodes ids adj) = 0 \<and> length ins = 1 then ins
      else getRootNodes ids adj)"
  define outs where "outs = set_of_list (map fst
      (filter (\<lambda>x. c_type (snd x) = Main_t) (getOutputEdges ids adj)))"
  define leaves where "leaves = (if length (getLeafNodes ids adj) = 0 \<and> length outs = 1 then outs
      else getLeafNodes ids adj)"
  note defs = ins_def [symmetric] roots_def [symmetric] outs_def [symmetric] leaves_def [symmetric]
  have in_ok: "set (difference ins roots) = {}" "length (intersection roots ins) \<le> 1"
      "start = first_of (intersection roots ins)"
    and out_ok: "set (difference outs leaves) = {}" "length (intersection leaves outs) \<le> 1"
      "leaf = first_of (intersection leaves outs)"
    and path: "truthy start \<and> truthy leaf \<longrightarrow> hasPath (the start) (the leaf) adj"
    using assms(1)
    unfolding parseExtractableSubgraphSelection_def Let_def defs
    by (auto split: if_splits simp del: set_difference)
  have d: "distinct roots" "distinct leaves"
    by (simp_all add: roots_def leaves_def ins_def outs_def distinct_getRootNodes distinct_getLeafNodes)
  show "start = Some (c_node c)" if "u \<notin> set ids" "c_node c \<in> set ids"
  proof -
    have "(u, c) \<in> set (getInputEdges ids adj)" using that assms by (simp add: set_getInputEdges)
    with assms(4) have "c_node c \<in> set ins" by (force simp: ins_def)
    then show ?thesis using singleton_cover [OF in_ok(1,2) d(1)] in_ok(3) by simp
  qed
  show "leaf = Some u" if "u \<in> set ids" "c_node c \<notin> set ids"
  proof -
    have "(u, c) \<in> set (getOutputEdges ids adj)" using that assms by (simp add: set_getOutputEdges)
    with assms(4) have "u \<in> set outs" by (force simp: outs_def)
    then show ?thesis using singleton_cover [OF out_ok(1,2) d(2)] out_ok(3) by simp
  qed
  show "(the start, the leaf) \<in> (main_edges adj)\<^sup>*" if "truthy start" "truthy leaf"
    using path that by (simp add: hasPath_correct)
qed

theorem extractable_selection_boundary_witness:
  "parseExtractableSubgraphSelection [''A'', ''B'', ''M''] (buildAdjacencyList
      [(''T'', [(Main_t, [Some [main_conn ''A'' 0]])]), (''A'', [(Main_t, [Some [main_conn ''B'' 0]])]),
       (''B'', [(Main_t, [Some [main_conn ''M'' 0]])]), (''M'', [(Main_t, [Some [main_conn ''Z'' 0]])])])
    = Inr (Some ''A'', Some ''M'')"
  (is "parseExtractableSubgraphSelection ?ids ?adj = _")
proof -
  have r: "parseExtractableSubgraphSelection ?ids ?adj = Inr (Some ''A'', Some ''M'')" by code_simp
  have "main_conn ''A'' 0 \<in> set (adj_get ?adj ''T'')" by code_simp
  moreover have "c_type (main_conn ''A'' 0) = Main_t" by (simp add: main_conn_def)
  ultimately show ?thesis
    using extractable_selection_boundary [OF r buildAdjacencyList_keys] r by blast
qed

end
