(* ===== verification/NodeGrouping.thy ===== *)
theory NodeGrouping
  imports GraphUtils
begin

text \<open>
  \<^verbatim>\<open>packages/workflow/src/node-grouping-validation.ts\<close>: which selections of nodes may be
  grouped or extracted.  \<^verbatim>\<open>getNodeType\<close> and the optional \<^verbatim>\<open>getNodeInputs\<close>/\<^verbatim>\<open>getNodeOutputs\<close> are
  functions of the caller and arguments here, as in the code.
\<close>

section \<open>Definitions\<close>

record grouping_input =
  gi_nodes :: "inode list"
  gi_connections :: iconnections
  gi_getNodeType :: "inode \<Rightarrow> node_type option"
  gi_groups :: "(string \<times> string list) list"
  gi_getNodeInputs :: "(inode \<Rightarrow> node_type \<Rightarrow> node_io list) option"
  gi_getNodeOutputs :: "(inode \<Rightarrow> node_type \<Rightarrow> node_io list) option"

datatype grouping_error =
    Trigger_selected "string list"
  | Invalid_subgraph "extract_error list"
  | Multiple_input_branches string
  | Multiple_output_branches string
  | Node_already_grouped "string list"
  | Non_main_boundary string string string

type_synonym grouping_result =
  "grouping_error + inode list \<times> string option \<times> string option"

definition isTriggerNode :: "node_type \<Rightarrow> bool" where
  "isTriggerNode nt \<longleftrightarrow> ''trigger'' \<in> set (nt_group nt)"

definition findAlreadyGroupedNodeIds :: "string list \<Rightarrow> (string \<times> string list) list \<Rightarrow> string list" where
  "findAlreadyGroupedNodeIds ids groups =
     (let grouped = set_of_list (concat (map snd groups)) in filter (\<lambda>i. i \<in> set grouped) ids)"

definition isMainIo :: "node_io \<Rightarrow> bool" where
  "isMainIo io = (case io of Io_type t \<Rightarrow> t = Main_t | Io_config t \<Rightarrow> t = Main_t)"

definition hasSingleMainIO ::
    "string \<Rightarrow> (string, inode) omap \<Rightarrow> (inode \<Rightarrow> node_type option)
       \<Rightarrow> (inode \<Rightarrow> node_type \<Rightarrow> node_io list) option \<Rightarrow> (node_type \<Rightarrow> io_spec) \<Rightarrow> bool" where
  "hasSingleMainIO nodeName nodesByName getNodeType getIos typeIos =
     (case map_of nodesByName nodeName of None \<Rightarrow> True
      | Some node \<Rightarrow>
         (case getNodeType node of None \<Rightarrow> True
          | Some nodeType \<Rightarrow>
             (case (case getIos of Some g \<Rightarrow> Io_list (g node nodeType) | None \<Rightarrow> typeIos nodeType) of
                Io_expr _ \<Rightarrow> True
              | Io_list ios \<Rightarrow> length (filter isMainIo ios) \<le> 1)))"

text \<open>
  The undirected neighbourhoods of the selected nodes, and the breadth first search over them.
\<close>

definition add_neighbor :: "string \<Rightarrow> string \<Rightarrow> (string, string list) omap \<Rightarrow> (string, string list) omap" where
  "add_neighbor n m nb = (case map_of nb n of None \<Rightarrow> nb | Some ns \<Rightarrow> AList.update n (sadd m ns) nb)"

definition neighbors_of :: "(string, string list) omap \<Rightarrow> string \<Rightarrow> string list" where
  "neighbors_of nb n = (case map_of nb n of None \<Rightarrow> [] | Some ns \<Rightarrow> ns)"

definition neighborsByNodeName :: "string list \<Rightarrow> adjacency \<Rightarrow> (string, string list) omap" where
  "neighborsByNodeName nodeNames adj =
     fold (\<lambda>(source, connections) nb.
       if source \<notin> set nodeNames then nb
       else fold (\<lambda>c nb.
              if c_node c \<notin> set nodeNames \<or> c_node c = source then nb
              else add_neighbor (c_node c) source (add_neighbor source (c_node c) nb)) connections nb)
       adj (map (\<lambda>n. (n, [])) nodeNames)"

definition visit_neighbors :: "string list \<Rightarrow> string list \<Rightarrow> string list \<Rightarrow> string list \<times> string list" where
  "visit_neighbors ns visited queue =
     fold (\<lambda>n (visited, queue). if n \<in> set visited then (visited, queue) else (sadd n visited, queue @ [n]))
       ns (visited, queue)"

definition neighbor_universe :: "(string, string list) omap \<Rightarrow> string set" where
  "neighbor_universe nb = (\<Union>n. set (neighbors_of nb n))"

lemma finite_neighbor_universe [simp]: "finite (neighbor_universe nb)"
proof -
  have "neighbors_of nb n = []" if "n \<notin> set (okeys nb)" for n
    using that by (simp add: neighbors_of_def map_of_eq_None_iff [THEN iffD2])
  then have "neighbor_universe nb \<subseteq> (\<Union>n \<in> set (okeys nb). set (neighbors_of nb n))"
    by (fastforce simp: neighbor_universe_def)
  then show ?thesis by (rule finite_subset) simp
qed

lemma visit_neighbors_spec:
  "visit_neighbors ns visited queue = (visited', queue') \<Longrightarrow>
   set visited' = set visited \<union> set ns
   \<and> (\<exists>new. queue' = queue @ new \<and> distinct new \<and> set new = set ns - set visited)
   \<and> (distinct visited \<longrightarrow> distinct visited')"
proof (induction ns arbitrary: visited queue visited' queue')
  case Nil
  then show ?case by (simp add: visit_neighbors_def)
next
  case (Cons n ns)
  show ?case
  proof (cases "n \<in> set visited")
    case True
    with Cons.prems have "visit_neighbors ns visited queue = (visited', queue')"
      by (simp add: visit_neighbors_def)
    from Cons.IH [OF this] True show ?thesis by auto
  next
    case False
    with Cons.prems have "visit_neighbors ns (sadd n visited) (queue @ [n]) = (visited', queue')"
      by (simp add: visit_neighbors_def)
    from Cons.IH [OF this] obtain new where "queue' = queue @ [n] @ new" "distinct new"
        "set new = set ns - set (sadd n visited)" "set visited' = set (sadd n visited) \<union> set ns"
        "distinct visited \<longrightarrow> distinct visited'" by auto
    with False show ?thesis by (intro conjI exI [of _ "n # new"]) auto
  qed
qed

lemma bfs_decreases:
  assumes "visit_neighbors (neighbors_of nb cur) visited queue = (visited', queue')"
  shows "card (neighbor_universe nb - set visited') < card (neighbor_universe nb - set visited)
     \<or> set visited' = set visited \<and> queue' = queue"
proof (cases "set (neighbors_of nb cur) \<subseteq> set visited")
  case True
  then have "set (neighbors_of nb cur) - set visited = {}" by simp
  with True visit_neighbors_spec [OF assms] show ?thesis by auto
next
  case False
  then obtain n where "n \<in> set (neighbors_of nb cur)" "n \<notin> set visited" by auto
  moreover from this have "n \<in> neighbor_universe nb" by (auto simp: neighbor_universe_def)
  moreover have "set visited' = set visited \<union> set (neighbors_of nb cur)"
    using visit_neighbors_spec [OF assms] by blast
  ultimately have "neighbor_universe nb - set visited' \<subset> neighbor_universe nb - set visited" by blast
  then have "card (neighbor_universe nb - set visited') < card (neighbor_universe nb - set visited)"
    by (intro psubset_card_mono) auto
  then show ?thesis ..
qed

function bfs_neighbors :: "(string, string list) omap \<Rightarrow> string list \<Rightarrow> string list \<Rightarrow> string list" where
  "bfs_neighbors nb visited [] = visited"
| "bfs_neighbors nb visited (cur # queue) =
     (if cur = [] then bfs_neighbors nb visited queue
      else case visit_neighbors (neighbors_of nb cur) visited queue of
             (visited', queue') \<Rightarrow> bfs_neighbors nb visited' queue')"
  by pat_completeness auto
termination
  by (relation "measures [\<lambda>(nb, visited, queue). card (neighbor_universe nb - set visited),
                          \<lambda>(nb, visited, queue). length queue]")
    (auto split: prod.split dest!: bfs_decreases)

definition findDisconnectedSelectionError :: "string list \<Rightarrow> adjacency \<Rightarrow> extract_error option" where
  "findDisconnectedSelectionError nodeNames adj =
     (if length nodeNames \<le> 1 then None
      else if hd nodeNames = [] then None
      else let visited = bfs_neighbors (neighborsByNodeName nodeNames adj) [hd nodeNames] [hd nodeNames]
           in if length visited = length nodeNames then None
              else case List.find (\<lambda>n. n \<notin> set visited) nodeNames of
                     None \<Rightarrow> None
                   | Some disconnected \<Rightarrow>
                       if disconnected = [] then None
                       else Some (No_Continuous_Path (hd nodeNames) disconnected))"

definition findNonMainBoundaryConnection ::
    "string list \<Rightarrow> iconnections \<Rightarrow> (string \<times> string \<times> string) option" where
  "findNonMainBoundaryConnection nodeNames conns =
     (case List.find (\<lambda>(src, ty, i, c). ty \<noteq> Main_t
               \<and> (src \<in> set nodeNames) \<noteq> (c_node c \<in> set nodeNames)) (entries_of conns) of
        None \<Rightarrow> None
      | Some (src, ty, i, c) \<Rightarrow> Some (src, c_node c, ty))"

definition validateNodeSelectionSubgraph :: "grouping_input \<Rightarrow> grouping_result" where
  "validateNodeSelectionSubgraph gi =
     (let nodes = gi_nodes gi;
          triggers = filter (\<lambda>n. case gi_getNodeType gi n of Some nt \<Rightarrow> isTriggerNode nt | None \<Rightarrow> False) nodes
      in if length triggers > 0 then Inl (Trigger_selected (map n_name triggers))
         else let adj = buildAdjacencyList (gi_connections gi);
                  selected = set_of_list (map n_name nodes)
              in case parseExtractableSubgraphSelection selected adj of
                   Inl errors \<Rightarrow> Inl (Invalid_subgraph errors)
                 | Inr selection \<Rightarrow>
                     (case findDisconnectedSelectionError selected adj of
                        Some e \<Rightarrow> Inl (Invalid_subgraph [e])
                      | None \<Rightarrow> Inr (nodes, selection)))"

definition validateNodeSelectionForExtraction :: "grouping_input \<Rightarrow> grouping_result" where
  "validateNodeSelectionForExtraction gi =
     (case validateNodeSelectionSubgraph gi of
        Inl e \<Rightarrow> Inl e
      | Inr (nodes, start, leaf) \<Rightarrow>
          (let nodesByName = fold (\<lambda>n. AList.update (n_name n) n) (gi_nodes gi) []
           in if truthy start \<and> \<not> hasSingleMainIO (the start) nodesByName (gi_getNodeType gi)
                                      (gi_getNodeInputs gi) nt_inputs
              then Inl (Multiple_input_branches (the start))
              else if truthy leaf \<and> \<not> hasSingleMainIO (the leaf) nodesByName (gi_getNodeType gi)
                                      (gi_getNodeOutputs gi) nt_outputs
              then Inl (Multiple_output_branches (the leaf))
              else Inr (nodes, start, leaf)))"

definition validateNodeSelectionForGrouping :: "grouping_input \<Rightarrow> grouping_result" where
  "validateNodeSelectionForGrouping gi =
     (let already = findAlreadyGroupedNodeIds (map n_id (gi_nodes gi)) (gi_groups gi)
      in if length already > 0 then Inl (Node_already_grouped already)
         else case validateNodeSelectionSubgraph gi of
           Inl e \<Rightarrow> Inl e
         | Inr (nodes, sel) \<Rightarrow>
             (case findNonMainBoundaryConnection (set_of_list (map n_name nodes)) (gi_connections gi) of
                Some (source, target, ty) \<Rightarrow> Inl (Non_main_boundary source target ty)
              | None \<Rightarrow> Inr (nodes, sel)))"

section \<open>Accepted groups\<close>

text \<open>Connections between two different selected nodes, in either direction.\<close>

definition linked :: "string list \<Rightarrow> adjacency \<Rightarrow> (string \<times> string) set" where
  "linked names adj = {(a, b). a \<in> set names \<and> b \<in> set names \<and> a \<noteq> b \<and>
     ((\<exists>cs. (a, cs) \<in> set adj \<and> b \<in> c_node ` set cs) \<or> (\<exists>cs. (b, cs) \<in> set adj \<and> a \<in> c_node ` set cs))}"

lemma linked_sym: "(a, b) \<in> linked names adj \<Longrightarrow> (b, a) \<in> linked names adj"
  by (auto simp: linked_def)

definition neighbors_ok :: "(string \<times> string) set \<Rightarrow> (string, string list) omap \<Rightarrow> bool" where
  "neighbors_ok R nb \<longleftrightarrow> (\<forall>n m. m \<in> set (neighbors_of nb n) \<longrightarrow> (n, m) \<in> R)"

lemma neighbors_ok_add: "neighbors_ok R nb \<Longrightarrow> (n, m) \<in> R \<Longrightarrow> neighbors_ok R (add_neighbor n m nb)"
  by (auto simp: neighbors_ok_def add_neighbor_def neighbors_of_def split: option.splits if_splits)

lemma neighbors_ok_all: "neighbors_ok (linked names adj) (neighborsByNodeName names adj)"
  unfolding neighborsByNodeName_def
proof (rule fold_invariant_set, goal_cases)
  case 1
  have "neighbors_of (map (\<lambda>n. (n, [])) names) n = []" for n
    by (induction names) (auto simp: neighbors_of_def)
  then show ?case by (simp add: neighbors_ok_def)
next
  case (2 x nb)
  obtain source cs where x: "x = (source, cs)" by (cases x)
  show ?case
  proof (cases "source \<in> set names")
    case True
    have "neighbors_ok (linked names adj) (fold (\<lambda>c nb.
        if c_node c \<notin> set names \<or> c_node c = source then nb
        else add_neighbor (c_node c) source (add_neighbor source (c_node c) nb)) cs nb)"
    proof (rule fold_invariant_set)
      fix c s assume "c \<in> set cs" and ok: "neighbors_ok (linked names adj) s"
      then have "c_node c \<in> set names \<Longrightarrow> c_node c \<noteq> source \<Longrightarrow> (source, c_node c) \<in> linked names adj"
        using True 2(1) by (auto simp: linked_def x)
      then show "neighbors_ok (linked names adj)
          (if c_node c \<notin> set names \<or> c_node c = source then s
           else add_neighbor (c_node c) source (add_neighbor source (c_node c) s))"
        using ok linked_sym by (auto intro!: neighbors_ok_add)
    qed (use 2 in simp)
    with True show ?thesis by (simp add: x)
  qed (use 2 x in simp)
qed

lemma bfs_neighbors_reach:
  "neighbors_ok R nb \<Longrightarrow> \<forall>v \<in> set visited \<union> set queue. (s, v) \<in> R\<^sup>* \<Longrightarrow> distinct visited \<Longrightarrow>
   (\<forall>v \<in> set (bfs_neighbors nb visited queue). (s, v) \<in> R\<^sup>*) \<and> distinct (bfs_neighbors nb visited queue)"
proof (induction nb visited queue rule: bfs_neighbors.induct)
  case (2 nb visited cur queue)
  show ?case
  proof (cases "cur = []")
    case False
    obtain visited' queue' where v: "visit_neighbors (neighbors_of nb cur) visited queue = (visited', queue')"
      by fastforce
    have "(s, m) \<in> R\<^sup>*" if "m \<in> set (neighbors_of nb cur)" for m
      using that "2.prems" by (auto simp: neighbors_ok_def intro: rtrancl_into_rtrancl)
    moreover obtain new where "queue' = queue @ new" "set new \<subseteq> set (neighbors_of nb cur)"
        "set visited' = set visited \<union> set (neighbors_of nb cur)" "distinct visited'"
      using visit_neighbors_spec [OF v] "2.prems"(3) by auto
    ultimately have "\<forall>v \<in> set visited' \<union> set queue'. (s, v) \<in> R\<^sup>*" using "2.prems"(2) by auto
    with False v \<open>distinct visited'\<close> show ?thesis using "2.IH"(2) [OF False v [symmetric]] "2.prems" by simp
  qed (use 2 in simp)
qed simp

lemma findDisconnected_None:
  assumes "findDisconnectedSelectionError names adj = None" and "distinct names" and "[] \<notin> set names"
    and "a \<in> set names" and "b \<in> set names"
  shows "(a, b) \<in> (linked names adj)\<^sup>*"
proof -
  let ?R = "linked names adj"
  have sym: "(u, v) \<in> ?R\<^sup>* \<Longrightarrow> (v, u) \<in> ?R\<^sup>*" for u v
    by (rule symD [OF sym_rtrancl]) (auto intro: symI linked_sym)
  have "(hd names, n) \<in> ?R\<^sup>*" if n: "n \<in> set names" for n
  proof (cases "length names \<le> 1")
    case True
    with n have "names = [n]" by (cases names) auto
    then show ?thesis by simp
  next
    case False
    let ?V = "bfs_neighbors (neighborsByNodeName names adj) [hd names] [hd names]"
    have hd: "hd names \<in> set names" using False by (cases names) auto
    have V: "\<forall>v \<in> set ?V. (hd names, v) \<in> ?R\<^sup>*" "distinct ?V"
      using bfs_neighbors_reach [OF neighbors_ok_all, of "[hd names]" "[hd names]" "hd names"] by auto
    have sub: "set ?V \<subseteq> set names"
    proof
      fix v assume "v \<in> set ?V"
      with V have "(hd names, v) \<in> ?R\<^sup>*" by blast
      then show "v \<in> set names" using hd by (cases rule: rtranclE) (auto simp: linked_def)
    qed
    have "n \<in> set ?V"
    proof (cases "length ?V = length names")
      case True
      then have "set ?V = set names"
        using sub V(2) assms(2) by (intro card_subset_eq) (auto simp: distinct_card)
      with n show ?thesis by simp
    next
      case no: False
      show ?thesis
      proof (rule ccontr)
        assume "n \<notin> set ?V"
        then obtain m where m: "List.find (\<lambda>n. n \<notin> set ?V) names = Some m"
          using n find_Some_ex [of names "\<lambda>n. n \<notin> set ?V"] by blast
        then have "m \<noteq> []" using find_in_set [OF m] assms(3) by auto
        moreover have "hd names \<noteq> []" using hd assms(3) by auto
        ultimately show False using m no False assms(1)
          by (auto simp: findDisconnectedSelectionError_def Let_def simp del: bfs_neighbors.simps)
      qed
    qed
    with V show ?thesis by blast
  qed
  with assms(4,5) show ?thesis using sym by (blast intro: rtrancl_trans)
qed

text \<open>
  C32. An accepted group holds no trigger and no node of another group, is not cut out of the
  workflow through a non-main connection, and is connected: any two of its nodes are linked
  by connections between its nodes.
\<close>

theorem accepted_group_ok:
  assumes "validateNodeSelectionForGrouping gi = Inr (nodes, sel)"
    and "[] \<notin> set (map n_name (gi_nodes gi))"
  shows "nodes = gi_nodes gi
    \<and> (\<forall>n \<in> set nodes. \<forall>nt. gi_getNodeType gi n = Some nt \<longrightarrow> \<not> isTriggerNode nt)
    \<and> (\<forall>n \<in> set nodes. \<forall>(gid, ids) \<in> set (gi_groups gi). n_id n \<notin> set ids)
    \<and> (\<forall>(src, ty, i, c) \<in> set (entries_of (gi_connections gi)). ty \<noteq> Main_t \<longrightarrow>
          (src \<in> n_name ` set nodes \<longleftrightarrow> c_node c \<in> n_name ` set nodes))
    \<and> (\<forall>a \<in> set nodes. \<forall>b \<in> set nodes. (n_name a, n_name b) \<in>
          (linked (set_of_list (map n_name nodes)) (buildAdjacencyList (gi_connections gi)))\<^sup>*)"
proof -
  let ?names = "set_of_list (map n_name (gi_nodes gi))"
  have already: "findAlreadyGroupedNodeIds (map n_id (gi_nodes gi)) (gi_groups gi) = []"
    and sub: "validateNodeSelectionSubgraph gi = Inr (nodes, sel)"
    using assms(1) by (auto simp: validateNodeSelectionForGrouping_def Let_def split: if_splits sum.splits option.splits)
  have n: "nodes = gi_nodes gi" and disc: "findDisconnectedSelectionError ?names (buildAdjacencyList (gi_connections gi)) = None"
    and trig: "filter (\<lambda>n. case gi_getNodeType gi n of Some nt \<Rightarrow> isTriggerNode nt | None \<Rightarrow> False) (gi_nodes gi) = []"
    using sub by (auto simp: validateNodeSelectionSubgraph_def Let_def split: if_splits sum.splits option.splits)
  have "List.find (\<lambda>(src, ty, i, c). ty \<noteq> Main_t
      \<and> (src \<in> set ?names) \<noteq> (c_node c \<in> set ?names)) (entries_of (gi_connections gi)) = None"
    using assms(1) already sub n
    by (auto simp: validateNodeSelectionForGrouping_def findNonMainBoundaryConnection_def split: option.splits)
  then have main: "\<forall>(src, ty, i, c) \<in> set (entries_of (gi_connections gi)). ty \<noteq> Main_t \<longrightarrow>
      (src \<in> n_name ` set nodes \<longleftrightarrow> c_node c \<in> n_name ` set nodes)"
    unfolding find_None_iff n set_set_of_list set_map by blast
  moreover have "\<forall>n \<in> set nodes. \<forall>nt. gi_getNodeType gi n = Some nt \<longrightarrow> \<not> isTriggerNode nt"
    using trig by (auto simp: filter_empty_conv n)
  moreover have "\<forall>n \<in> set nodes. \<forall>(gid, ids) \<in> set (gi_groups gi). n_id n \<notin> set ids"
    using already by (fastforce simp: findAlreadyGroupedNodeIds_def Let_def filter_empty_conv n)
  moreover have "\<forall>a \<in> set nodes. \<forall>b \<in> set nodes.
      (n_name a, n_name b) \<in> (linked ?names (buildAdjacencyList (gi_connections gi)))\<^sup>*"
    using findDisconnected_None [OF disc] assms(2) by (auto simp: n)
  ultimately show ?thesis using n by simp
qed

definition sample_group :: grouping_input where
  "sample_group = \<lparr>gi_nodes = [plain_node 1 ''A'' ''set'', plain_node 2 ''B'' ''set''],
     gi_connections = [(''T'', [(Main_t, [Some [main_conn ''A'' 0]])]),
                       (''A'', [(Main_t, [Some [main_conn ''B'' 0]])])],
     gi_getNodeType = (\<lambda>n. Some (plain_type ''set'' [''transform''])),
     gi_groups = [(''g'', [''X'', ''Y''])], gi_getNodeInputs = None, gi_getNodeOutputs = None\<rparr>"

theorem accepted_group_ok_witness:
  "validateNodeSelectionForGrouping sample_group = Inr (gi_nodes sample_group, Some ''A'', None)
   \<and> (''A'', ''B'') \<in> (linked [''A'', ''B''] (buildAdjacencyList (gi_connections sample_group)))\<^sup>*"
proof -
  have r: "validateNodeSelectionForGrouping sample_group = Inr (gi_nodes sample_group, Some ''A'', None)"
    by code_simp
  have n: "[] \<notin> set (map n_name (gi_nodes sample_group))"
    "set_of_list (map n_name (gi_nodes sample_group)) = [''A'', ''B'']" by code_simp+
  have "plain_node 1 ''A'' ''set'' \<in> set (gi_nodes sample_group)"
    "plain_node 2 ''B'' ''set'' \<in> set (gi_nodes sample_group)" by (simp_all add: sample_group_def)
  with accepted_group_ok [OF r n(1)] have
    "(n_name (plain_node 1 ''A'' ''set''), n_name (plain_node 2 ''B'' ''set'')) \<in>
       (linked (set_of_list (map n_name (gi_nodes sample_group)))
         (buildAdjacencyList (gi_connections sample_group)))\<^sup>*" by blast
  with r n show ?thesis by (simp add: plain_node_def)
qed

end
