(* ===== verification/ConnectionsDiff.thy ===== *)
theory ConnectionsDiff
  imports Connections
begin

text \<open>
  \<^verbatim>\<open>packages/workflow/src/connections-diff.ts\<close>: what two versions of a workflow's connections
  add and remove.  Connections are compared by their JSON text; every connection object has
  the fields \<^verbatim>\<open>node\<close>, \<^verbatim>\<open>type\<close>, \<^verbatim>\<open>index\<close>, so equal texts are equal records here.
\<close>

record connection_entry =
  ce_sourceIndex :: nat
  ce_value :: "(nat \<times> iconnection) option"

type_synonym connections_diff_side = "(string, (string, connection_entry list) omap) omap"

definition conn_map :: "iconnection list \<Rightarrow> (iconnection, nat \<times> iconnection) omap" where
  "conn_map cs = fold (\<lambda>(idx, conn). AList.update conn (idx, conn)) (enumerate 0 cs) []"

definition entries_at :: "connections_diff_side \<Rightarrow> string \<Rightarrow> string \<Rightarrow> connection_entry list" where
  "entries_at d nodeName inputName =
     (case map_of d nodeName of None \<Rightarrow> []
      | Some nd \<Rightarrow> (case map_of nd inputName of None \<Rightarrow> [] | Some es \<Rightarrow> es))"

definition push_entry ::
    "string \<Rightarrow> string \<Rightarrow> connection_entry \<Rightarrow> connections_diff_side \<Rightarrow> connections_diff_side" where
  "push_entry nodeName inputName e d =
     (let nd = (case map_of d nodeName of None \<Rightarrow> [] | Some nd \<Rightarrow> nd)
      in AList.update nodeName (AList.update inputName (entries_at d nodeName inputName @ [e]) nd) d)"

definition push_missing ::
    "string \<Rightarrow> string \<Rightarrow> nat \<Rightarrow> (iconnection, nat \<times> iconnection) omap \<Rightarrow> (iconnection, nat \<times> iconnection) omap
       \<Rightarrow> connections_diff_side \<Rightarrow> connections_diff_side" where
  "push_missing nodeName inputName sourceIndex candidates other d =
     fold (\<lambda>(key, v) d. if has_key other key then d
             else push_entry nodeName inputName \<lparr>ce_sourceIndex = sourceIndex, ce_value = Some v\<rparr> d)
       candidates d"

definition compare_group ::
    "iconnections \<Rightarrow> iconnections \<Rightarrow> string \<Rightarrow> string \<Rightarrow> nat
       \<Rightarrow> connections_diff_side \<times> connections_diff_side \<Rightarrow> connections_diff_side \<times> connections_diff_side" where
  "compare_group prev new nodeName inputName sourceIndex =
     (\<lambda>(added, removed).
       let prevMap = conn_map (group_at (typed_inputs prev nodeName inputName) sourceIndex);
           nextMap = conn_map (group_at (typed_inputs new nodeName inputName) sourceIndex)
       in (push_missing nodeName inputName sourceIndex nextMap prevMap added,
           push_missing nodeName inputName sourceIndex prevMap nextMap removed))"

definition input_names :: "iconnections \<Rightarrow> string \<Rightarrow> string list" where
  "input_names conns nodeName = (case map_of conns nodeName of None \<Rightarrow> [] | Some nc \<Rightarrow> okeys nc)"

definition compareConnections ::
    "iconnections \<Rightarrow> iconnections \<Rightarrow> connections_diff_side \<times> connections_diff_side" where
  "compareConnections prev new =
     fold (\<lambda>nodeName.
       fold (\<lambda>inputName.
         fold (compare_group prev new nodeName inputName)
           [0..<max (length (typed_inputs prev nodeName inputName)) (length (typed_inputs new nodeName inputName))])
         (set_of_list (input_names prev nodeName @ input_names new nodeName)))
       (set_of_list (okeys prev @ okeys new)) ([], [])"

section \<open>The difference is exact\<close>

definition in_diff :: "connections_diff_side \<Rightarrow> string \<Rightarrow> string \<Rightarrow> nat \<Rightarrow> iconnection \<Rightarrow> bool" where
  "in_diff d n t i c \<longleftrightarrow> (\<exists>e \<in> set (entries_at d n t). ce_sourceIndex e = i \<and> (\<exists>k. ce_value e = Some (k, c)))"

lemma entries_at_push:
  "entries_at (push_entry n t e d) n' t' = entries_at d n' t' @ (if n' = n \<and> t' = t then [e] else [])"
  by (auto simp: entries_at_def push_entry_def Let_def split: option.splits)

lemma in_diff_push:
  "in_diff (push_entry n t \<lparr>ce_sourceIndex = i, ce_value = Some (k, c)\<rparr> d) n' t' i' c'
     \<longleftrightarrow> in_diff d n' t' i' c' \<or> (n' = n \<and> t' = t \<and> i' = i \<and> c' = c)"
  by (auto simp: in_diff_def entries_at_push)

lemma conn_map_fold:
  assumes "\<forall>(key, v) \<in> set m. snd v = key"
  shows "(\<forall>(key, v) \<in> set (fold (\<lambda>(idx, conn). AList.update conn (idx, conn)) ps m). snd v = key)
    \<and> fst ` set (fold (\<lambda>(idx, conn). AList.update conn (idx, conn)) ps m) = fst ` set m \<union> snd ` set ps"
  using assms
proof (induction ps arbitrary: m)
  case (Cons p ps)
  obtain idx conn where p: "p = (idx, conn)" by (cases p)
  have "(key, v) \<in> set (AList.update conn (idx, conn) m) \<Longrightarrow> snd v = key" for key v
    using Cons.prems by (induction m) (auto split: if_splits)
  then have "\<forall>(key, v) \<in> set (AList.update conn (idx, conn) m). snd v = key" by auto
  from Cons.IH [OF this] show ?case by (auto simp: p dom_update)
qed simp

lemma conn_map_values: "(key, v) \<in> set (conn_map cs) \<Longrightarrow> snd v = key"
  using conn_map_fold [of "[]" "enumerate 0 cs"] by (auto simp: conn_map_def)

lemma conn_map_keys: "fst ` set (conn_map cs) = set cs"
proof -
  have "snd ` set (enumerate 0 cs) = set cs" by (metis list.set_map map_snd_enumerate)
  then show ?thesis using conn_map_fold [of "[]" "enumerate 0 cs"] by (simp add: conn_map_def)
qed

lemma in_diff_push_missing:
  "in_diff (push_missing n t i (conn_map cs) (conn_map ds) d) n' t' i' c'
     \<longleftrightarrow> in_diff d n' t' i' c' \<or> (n' = n \<and> t' = t \<and> i' = i \<and> c' \<in> set cs \<and> c' \<notin> set ds)"
proof -
  have "in_diff (push_missing n t i (conn_map cs) (conn_map ds) d) n' t' i' c' \<longleftrightarrow>
      in_diff d n' t' i' c' \<or> (\<exists>x \<in> set (conn_map cs). n' = n \<and> t' = t \<and> i' = i \<and> c' = fst x \<and> fst x \<notin> set ds)"
    unfolding push_missing_def
    by (rule fold_collect)
      (auto simp: has_key_iff conn_map_keys in_diff_push dest: conn_map_values split: prod.splits)
  also have "(\<exists>x \<in> set (conn_map cs). n' = n \<and> t' = t \<and> i' = i \<and> c' = fst x \<and> fst x \<notin> set ds)
      \<longleftrightarrow> n' = n \<and> t' = t \<and> i' = i \<and> c' \<in> fst ` set (conn_map cs) \<and> c' \<notin> set ds" by auto
  finally show ?thesis by (simp only: conn_map_keys)
qed

definition at_group :: "iconnections \<Rightarrow> string \<Rightarrow> string \<Rightarrow> nat \<Rightarrow> iconnection set" where
  "at_group conns n t i = set (group_at (typed_inputs conns n t) i)"

lemma at_group_bounds:
  "c \<in> at_group conns n t i \<Longrightarrow>
     n \<in> set (okeys conns) \<and> t \<in> set (input_names conns n) \<and> i < length (typed_inputs conns n t)"
proof -
  assume c: "c \<in> at_group conns n t i"
  then have len: "i < length (typed_inputs conns n t)"
    by (auto simp: at_group_def group_at_def array_get_def split: option.splits if_splits)
  then obtain nc where nc: "map_of conns n = Some nc" "has_key nc t"
    by (auto simp: typed_inputs_def has_key_def split: option.splits)
  then show ?thesis using len by (auto simp: input_names_def has_key_iff dest: map_of_SomeD intro: rev_image_eqI)
qed

lemma compare_group_added:
  "in_diff (fst (compare_group prev new n t i s)) n' t' i' c'
     \<longleftrightarrow> in_diff (fst s) n' t' i' c' \<or> (n' = n \<and> t' = t \<and> i' = i \<and> c' \<in> at_group new n t i - at_group prev n t i)"
  by (cases s) (simp add: compare_group_def Let_def in_diff_push_missing at_group_def)

lemma compare_group_removed:
  "in_diff (snd (compare_group prev new n t i s)) n' t' i' c'
     \<longleftrightarrow> in_diff (snd s) n' t' i' c' \<or> (n' = n \<and> t' = t \<and> i' = i \<and> c' \<in> at_group prev n t i - at_group new n t i)"
  by (cases s) (simp add: compare_group_def Let_def in_diff_push_missing at_group_def)

lemma in_diff_empty [simp]: "\<not> in_diff [] n t i c"
  by (simp add: in_diff_def entries_at_def)

lemma diff_added:
  "in_diff (fst (compareConnections prev new)) n t i c \<longleftrightarrow> c \<in> at_group new n t i - at_group prev n t i"
proof -
  let ?len = "\<lambda>n t. max (length (typed_inputs prev n t)) (length (typed_inputs new n t))"
  have "in_diff (fst (compareConnections prev new)) n t i c \<longleftrightarrow>
      (\<exists>n' \<in> set (okeys prev @ okeys new). \<exists>t' \<in> set (input_names prev n' @ input_names new n').
        \<exists>i' \<in> set [0..<?len n' t'].
          n = n' \<and> t = t' \<and> i = i' \<and> c \<in> at_group new n' t' i' - at_group prev n' t' i')"
    unfolding compareConnections_def
    by (subst fold_collect [where P = "\<lambda>s. in_diff (fst s) n t i c"],
        rule fold_collect [where P = "\<lambda>s. in_diff (fst s) n t i c"],
        rule fold_collect [where P = "\<lambda>s. in_diff (fst s) n t i c"], rule compare_group_added)
      simp
  also have "\<dots> \<longleftrightarrow> c \<in> at_group new n t i - at_group prev n t i"
    using at_group_bounds [of c new n t i] by auto
  finally show ?thesis .
qed

lemma diff_removed:
  "in_diff (snd (compareConnections prev new)) n t i c \<longleftrightarrow> c \<in> at_group prev n t i - at_group new n t i"
proof -
  let ?len = "\<lambda>n t. max (length (typed_inputs prev n t)) (length (typed_inputs new n t))"
  have "in_diff (snd (compareConnections prev new)) n t i c \<longleftrightarrow>
      (\<exists>n' \<in> set (okeys prev @ okeys new). \<exists>t' \<in> set (input_names prev n' @ input_names new n').
        \<exists>i' \<in> set [0..<?len n' t'].
          n = n' \<and> t = t' \<and> i = i' \<and> c \<in> at_group prev n' t' i' - at_group new n' t' i')"
    unfolding compareConnections_def
    by (subst fold_collect [where P = "\<lambda>s. in_diff (snd s) n t i c"],
        rule fold_collect [where P = "\<lambda>s. in_diff (snd s) n t i c"],
        rule fold_collect [where P = "\<lambda>s. in_diff (snd s) n t i c"], rule compare_group_removed)
      simp
  also have "\<dots> \<longleftrightarrow> c \<in> at_group prev n t i - at_group new n t i"
    using at_group_bounds [of c prev n t i] by auto
  finally show ?thesis .
qed

text \<open>
  \<^verbatim>\<open>compareConnections\<close> is exact: a connection is reported as added at a node, type and
  output exactly if it is there in the new version and not in the old one, and as removed
  exactly if it is there in the old version and not in the new one.
\<close>

theorem compareConnections_exact:
  "(in_diff (fst (compareConnections prev new)) n t i c
     \<longleftrightarrow> c \<in> set (group_at (typed_inputs new n t) i) \<and> c \<notin> set (group_at (typed_inputs prev n t) i))
   \<and> (in_diff (snd (compareConnections prev new)) n t i c
     \<longleftrightarrow> c \<in> set (group_at (typed_inputs prev n t) i) \<and> c \<notin> set (group_at (typed_inputs new n t) i))"
  by (simp add: diff_added diff_removed at_group_def)

text \<open>A table has no difference to itself, not even an empty entry.\<close>

lemma fold_same: "(\<And>x s. x \<in> set xs \<Longrightarrow> f x s = s) \<Longrightarrow> fold f xs s = s"
  by (induction xs) auto

lemma push_missing_same [simp]: "push_missing n t i m m d = d"
  unfolding push_missing_def by (intro fold_same) (force simp: has_key_iff)

lemma compareConnections_same: "compareConnections c c = ([], [])"
proof -
  have "compare_group c c n t i s = s" for n t i s by (cases s) (simp add: compare_group_def)
  then show ?thesis unfolding compareConnections_def by (intro fold_same)
qed

end
