(* ===== verification/WorkflowDiff.thy ===== *)
theory WorkflowDiff
  imports ConnectionsDiff "HOL-Library.Sublist"
begin

text \<open>
  \<^verbatim>\<open>packages/workflow/src/workflow-diff.ts\<close>: how two versions of a workflow differ, and which
  versions of its history can be dropped because a later one adds to them only.  Strings are
  lists of UTF-16 code units; \<^verbatim>\<open>isEqual\<close> of lodash compares objects without regard to the order
  of their keys.
\<close>

section \<open>Equality of JSON values\<close>

definition map_equal :: "('v \<Rightarrow> 'v \<Rightarrow> bool) \<Rightarrow> ('k, 'v) omap \<Rightarrow> ('k, 'v) omap \<Rightarrow> bool" where
  "map_equal eq m m' \<longleftrightarrow> length m = length m' \<and>
     list_all (\<lambda>(k, v). case map_of m' k of None \<Rightarrow> False | Some v' \<Rightarrow> eq v v') m"

lemma map_equal_cong [fundef_cong]:
  assumes "m1 = m2" and "m1' = m2'" and "\<And>v v'. v \<in> set (ovals m2) \<Longrightarrow> eq1 v v' = eq2 v v'"
  shows "map_equal eq1 m1 m1' = map_equal eq2 m2 m2'"
  using assms by (fastforce simp: map_equal_def list_all_iff split: option.splits)

lemma json_size_arr [termination_simp]: "x \<in> set xs \<Longrightarrow> size x < Suc (size_list size xs)"
  by (induction xs) auto

lemma json_size_obj [termination_simp]:
  "v \<in> snd ` set m \<Longrightarrow> size v < Suc (size_list (size_prod (\<lambda>_. 0) size) m)"
proof (induction m)
  case (Cons e m)
  then consider "v = snd e" | "v \<in> snd ` set m" by auto
  then show ?case
  proof cases
    case 2
    with Cons.IH show ?thesis by simp
  qed (cases e, simp)
qed simp

fun json_equal :: "jval \<Rightarrow> jval \<Rightarrow> bool" where
  "json_equal (JArr xs) (JArr ys) \<longleftrightarrow> list_all2 json_equal xs ys"
| "json_equal (JObj m) (JObj m') \<longleftrightarrow> map_equal json_equal m m'"
| "json_equal x y \<longleftrightarrow> x = y"

section \<open>Nodes\<close>

text \<open>The fields that only the comparison reads are added to those of a node.\<close>

record credential =
  cr_id :: "string option"
  cr_name :: string
  cr_aiGatewayManaged :: "bool option"

type_synonym credentials = "(string, credential) omap"

record version_node = inode +
  n_webhookId :: "string option"
  n_credentials :: "credentials option"

fun option_equal :: "('a \<Rightarrow> 'a \<Rightarrow> bool) \<Rightarrow> 'a option \<Rightarrow> 'a option \<Rightarrow> bool" where
  "option_equal eq (Some x) (Some y) \<longleftrightarrow> eq x y"
| "option_equal eq None None \<longleftrightarrow> True"
| "option_equal eq _ _ \<longleftrightarrow> False"

definition same_properties :: "version_node \<Rightarrow> version_node \<Rightarrow> bool" where
  "same_properties b t \<longleftrightarrow> n_name b = n_name t \<and> n_type b = n_type t \<and> n_typeVersion b = n_typeVersion t
     \<and> n_webhookId b = n_webhookId t
     \<and> option_equal (map_equal (=)) (n_credentials b) (n_credentials t)
     \<and> json_equal (JObj (n_parameters b)) (JObj (n_parameters t))"

definition compareNodes :: "version_node option \<Rightarrow> version_node option \<Rightarrow> bool" where
  "compareNodes = option_equal same_properties"

datatype node_diff_status = Eq | Modified | Added | Deleted

type_synonym workflow_diff = "(string, node_diff_status \<times> version_node) omap"

definition nodes_by_id :: "version_node list \<Rightarrow> (string, version_node) omap" where
  "nodes_by_id nodes = fold (\<lambda>node. AList.update (n_id node) node) nodes []"

definition diff_base ::
    "(version_node option \<Rightarrow> version_node option \<Rightarrow> bool) \<Rightarrow> (string, version_node) omap \<Rightarrow>
     (string, version_node) omap \<Rightarrow> string \<times> version_node \<Rightarrow> workflow_diff \<Rightarrow> workflow_diff" where
  "diff_base nodesEqual baseNodes targetNodes = (\<lambda>(i, node).
     AList.update i
       (if \<not> has_key targetNodes i then Deleted
        else if \<not> nodesEqual (map_of baseNodes i) (map_of targetNodes i) then Modified
        else Eq, node))"

definition diff_target ::
    "(string, version_node) omap \<Rightarrow> string \<times> version_node \<Rightarrow> workflow_diff \<Rightarrow> workflow_diff" where
  "diff_target baseNodes = (\<lambda>(i, node) diff.
     if \<not> has_key baseNodes i then AList.update i (Added, node) diff else diff)"

definition compareWorkflowsNodes ::
    "(version_node option \<Rightarrow> version_node option \<Rightarrow> bool) \<Rightarrow> version_node list \<Rightarrow> version_node list \<Rightarrow> workflow_diff" where
  "compareWorkflowsNodes nodesEqual base target =
     (let baseNodes = nodes_by_id base; targetNodes = nodes_by_id target
      in fold (diff_target baseNodes) targetNodes (fold (diff_base nodesEqual baseNodes targetNodes) baseNodes []))"

section \<open>Versions of a workflow\<close>

record workflow_group =
  wg_id :: string
  wg_name :: string
  wg_nodeIds :: "string list"

text \<open>\<^verbatim>\<open>dw_ref\<close> is the identity of the object; \<^verbatim>\<open>dw_createdAt\<close> the time in milliseconds.\<close>

record diffable_workflow =
  dw_ref :: nat
  dw_nodes :: "version_node list"
  dw_connections :: iconnections
  dw_createdAt :: int
  dw_authors :: "string option"
  dw_nodeGroups :: "workflow_group list option"

record change_set =
  wc_nodes :: workflow_diff
  wc_connections :: "connections_diff_side \<times> connections_diff_side"

definition WorkflowChangeSet :: "diffable_workflow \<Rightarrow> diffable_workflow \<Rightarrow> change_set" where
  "WorkflowChangeSet old new =
     (if old = new
      then \<lparr>wc_nodes = fold (\<lambda>node. AList.update (n_id node) (Eq, node)) (dw_nodes old) [],
            wc_connections = ([], [])\<rparr>
      else \<lparr>wc_nodes = compareWorkflowsNodes compareNodes (dw_nodes old) (dw_nodes new),
            wc_connections = compareConnections (dw_connections old) (dw_connections new)\<rparr>)"

section \<open>Additive changes\<close>

fun contains_loop :: "string \<Rightarrow> nat \<Rightarrow> nat \<Rightarrow> nat \<Rightarrow> string \<Rightarrow> bool" where
  "contains_loop substr diffSize i marker [] \<longleftrightarrow> marker \<ge> length substr"
| "contains_loop substr diffSize i marker (c # cs) \<longleftrightarrow>
     (let marker = (if array_get substr marker = Some c then Suc marker else marker)
      in if int i - int marker > int diffSize then False
         else contains_loop substr diffSize (Suc i) marker cs)"

definition stringContainsParts :: "string \<Rightarrow> string \<Rightarrow> bool" where
  "stringContainsParts s substr \<longleftrightarrow>
     (if length substr > length s then False
      else contains_loop substr (length s - length substr) 0 0 s)"

text \<open>The own keys of an object or array; an array's keys are its indexes.\<close>

fun json_entries :: "jval \<Rightarrow> (string, jval) omap" where
  "json_entries (JObj m) = m"
| "json_entries (JArr xs) = zip (map show_nat [0..<length xs]) xs"
| "json_entries _ = []"

fun parametersAreSuperset :: "jval \<Rightarrow> jval \<Rightarrow> bool" where
  "parametersAreSuperset (JStr p) (JStr n) \<longleftrightarrow> stringContainsParts n p"
| "parametersAreSuperset (JArr ps) (JArr ns) \<longleftrightarrow> list_all2 parametersAreSuperset ps ns"
| "parametersAreSuperset (JObj ps) (JObj ns) \<longleftrightarrow> map_equal parametersAreSuperset ps ns"
| "parametersAreSuperset (JObj ps) (JArr ns) \<longleftrightarrow>
     map_equal parametersAreSuperset ps (json_entries (JArr ns))"
| "parametersAreSuperset p n \<longleftrightarrow> p = n"

definition nodeIsSuperset :: "version_node \<Rightarrow> version_node \<Rightarrow> bool" where
  "nodeIsSuperset prevNode nextNode \<longleftrightarrow>
     (if \<not> compareNodes (Some (prevNode\<lparr>n_parameters := []\<rparr>)) (Some (nextNode\<lparr>n_parameters := []\<rparr>)) then False
      else parametersAreSuperset (JObj (n_parameters prevNode)) (JObj (n_parameters nextNode)))"

fun groups_additive :: "(string, workflow_group) omap \<Rightarrow> workflow_group list \<Rightarrow> bool" where
  "groups_additive nextGroupsById [] \<longleftrightarrow> True"
| "groups_additive nextGroupsById (prevGroup # groups) \<longleftrightarrow>
     (case map_of nextGroupsById (wg_id prevGroup) of
        None \<Rightarrow> False
      | Some nextGroup \<Rightarrow>
          if wg_name nextGroup \<noteq> wg_name prevGroup then False
          else if \<not> list_all (\<lambda>i. i \<in> set (wg_nodeIds nextGroup)) (wg_nodeIds prevGroup) then False
          else groups_additive nextGroupsById groups)"

definition nodeGroupChangesAreAdditive :: "diffable_workflow \<Rightarrow> diffable_workflow \<Rightarrow> bool" where
  "nodeGroupChangesAreAdditive prev new =
     groups_additive (fold (\<lambda>g. AList.update (wg_id g) g) (or_else (dw_nodeGroups new) []) [])
       (or_else (dw_nodeGroups prev) [])"

fun additive_nodes :: "version_node list \<Rightarrow> (node_diff_status \<times> version_node) list \<Rightarrow> bool res" where
  "additive_nodes nextNodes [] = Inr True"
| "additive_nodes nextNodes ((status, node) # ds) =
     (if status = Deleted then Inr False
      else if status = Added then additive_nodes nextNodes ds
      else case List.find (\<lambda>x. n_id x = n_id node) nextNodes of
          None \<Rightarrow> Inl (JsError ''Error'' ''invariant broken - no next node'' None)
        | Some nextNode \<Rightarrow>
            if status = Modified \<and> \<not> nodeIsSuperset node nextNode then Inr False
            else additive_nodes nextNodes ds)"

definition mergeAdditiveChanges :: "diffable_workflow \<Rightarrow> diffable_workflow \<Rightarrow> change_set \<Rightarrow> bool res" where
  "mergeAdditiveChanges prev new diff =
     bind_res (additive_nodes (dw_nodes new) (ovals (wc_nodes diff))) (\<lambda>ok.
       if \<not> ok then Inr False
       else if snd (wc_connections diff) \<noteq> [] then Inr False
       else if \<not> nodeGroupChangesAreAdditive prev new then Inr False
       else Inr True)"

section \<open>Rules\<close>

type_synonym diff_rule = "diffable_workflow \<Rightarrow> diffable_workflow \<Rightarrow> change_set \<Rightarrow> nat option \<Rightarrow> bool res"

definition makeSkipTimeDifference :: "int \<Rightarrow> diffable_workflow \<Rightarrow> diffable_workflow \<Rightarrow> bool" where
  "makeSkipTimeDifference timeDiffMs prev new \<longleftrightarrow> \<bar>dw_createdAt new - dw_createdAt prev\<bar> > timeDiffMs"

definition makeMergeShortTimeSpan :: "int \<Rightarrow> diffable_workflow \<Rightarrow> diffable_workflow \<Rightarrow> bool" where
  "makeMergeShortTimeSpan timeDiffMs prev new \<longleftrightarrow> \<bar>dw_createdAt new - dw_createdAt prev\<bar> < timeDiffMs"

definition size_pairs :: "(nat, int) omap \<Rightarrow> (nat \<times> int) list" where
  "size_pairs mapping = sort_cmp (\<lambda>a b. int (fst b) - int (fst a)) mapping"

definition makeMergeDependingOnSizeRule :: "(nat, int) omap \<Rightarrow> diff_rule" where
  "makeMergeDependingOnSizeRule mapping prev new diff workflowSizeScore =
     (case workflowSizeScore of
        None \<Rightarrow> Inr False
      | Some score \<Rightarrow> (case List.find (\<lambda>(minSize, time). score > minSize) (size_pairs mapping) of
          None \<Rightarrow> Inr False
        | Some (minSize, time) \<Rightarrow> Inr (makeMergeShortTimeSpan time prev new)))"

definition skipDifferentUsers :: "diffable_workflow \<Rightarrow> diffable_workflow \<Rightarrow> bool" where
  "skipDifferentUsers prev new \<longleftrightarrow> dw_authors new \<noteq> dw_authors prev"

fun determineNodeSize :: "jval \<Rightarrow> nat" where
  "determineNodeSize (JStr s) = (if s = [] then 1 else length s)"
| "determineNodeSize (JArr xs) = 1 + sum_list (map determineNodeSize xs)"
| "determineNodeSize (JObj m) = 1 + sum_list (map (\<lambda>v. determineNodeSize v) (ovals m))"
| "determineNodeSize _ = 1"

definition determineNodeParametersSize :: "diffable_workflow \<Rightarrow> nat" where
  "determineNodeParametersSize w = sum_list (map (\<lambda>n. determineNodeSize (JObj (n_parameters n))) (dw_nodes w))"

section \<open>Grouping versions\<close>

fun any_rule :: "diff_rule list \<Rightarrow> diffable_workflow \<Rightarrow> diffable_workflow \<Rightarrow> change_set \<Rightarrow> nat option \<Rightarrow> bool res" where
  "any_rule [] prev new wcs metaData = Inr False"
| "any_rule (rule # rules) prev new wcs metaData =
     bind_res (rule prev new wcs metaData) (\<lambda>hit. if hit then Inr True else any_rule rules prev new wcs metaData)"

text \<open>The rounds from \<^verbatim>\<open>i = n - 1\<close> down to 1, with the versions that remain and those removed.\<close>

fun diff_loop ::
    "diff_rule list \<Rightarrow> diff_rule list \<Rightarrow> nat option \<Rightarrow> nat \<Rightarrow> diffable_workflow list \<times> diffable_workflow list \<Rightarrow>
     (diffable_workflow list \<times> diffable_workflow list) res" where
  "diff_loop rules skipRules metaData 0 s = Inr s"
| "diff_loop rules skipRules metaData (Suc j) (remaining, removed) =
     (let prev = remaining ! j; new = remaining ! Suc j; wcs = WorkflowChangeSet prev new
      in bind_res (any_rule skipRules prev new wcs metaData) (\<lambda>skip.
           if skip then diff_loop rules skipRules metaData j (remaining, removed)
           else bind_res (any_rule rules prev new wcs metaData) (\<lambda>shouldMerge.
             diff_loop rules skipRules metaData j
               (if shouldMerge then (take j remaining @ drop (Suc j) remaining, removed @ [prev])
                else (remaining, removed)))))"

definition size_score :: "bool \<Rightarrow> diffable_workflow list \<Rightarrow> nat option" where
  "size_score wanted workflows =
     (if wanted
      then Some (max (determineNodeParametersSize (workflows ! (length workflows div 2)))
                     (determineNodeParametersSize (workflows ! (length workflows - 1))))
      else None)"

definition groupWorkflows ::
    "diff_rule list \<Rightarrow> diff_rule list \<Rightarrow> bool \<Rightarrow> diffable_workflow list \<Rightarrow>
     (diffable_workflow list \<times> diffable_workflow list) res" where
  "groupWorkflows rules skipRules wantsSize workflows =
     (if length workflows = 0 then Inr ([], [])
      else if length workflows = 1 then Inr (workflows, [])
      else diff_loop rules skipRules (size_score wantsSize workflows) (length workflows - 1) (workflows, []))"

section \<open>Changes that matter\<close>

definition connections_equal :: "iconnections \<Rightarrow> iconnections \<Rightarrow> bool" where
  "connections_equal = map_equal (map_equal (=))"

definition hasNonPositionalChanges ::
    "version_node list \<Rightarrow> version_node list \<Rightarrow> iconnections \<Rightarrow> iconnections \<Rightarrow> bool" where
  "hasNonPositionalChanges oldNodes newNodes oldConnections newConnections \<longleftrightarrow>
     (if list_ex (\<lambda>(status, node). status \<noteq> Eq) (ovals (compareWorkflowsNodes compareNodes oldNodes newNodes)) then True
      else \<not> connections_equal oldConnections newConnections)"

definition credentials_differ :: "credentials \<Rightarrow> credentials \<Rightarrow> bool" where
  "credentials_differ oldCreds newCreds \<longleftrightarrow>
     list_ex (\<lambda>credType. case map_of newCreds credType of
         None \<Rightarrow> True
       | Some c \<Rightarrow> map_option cr_id (map_of oldCreds credType) \<noteq> Some (cr_id c)) (okeys oldCreds)
     \<or> list_ex (\<lambda>credType. \<not> has_key oldCreds credType) (okeys newCreds)"

definition hasCredentialChanges :: "version_node list \<Rightarrow> version_node list \<Rightarrow> bool" where
  "hasCredentialChanges oldNodes newNodes \<longleftrightarrow>
     (let newNodesMap = nodes_by_id newNodes
      in list_ex (\<lambda>oldNode. case map_of newNodesMap (n_id oldNode) of
             None \<Rightarrow> False
           | Some newNode \<Rightarrow> credentials_differ (or_else (n_credentials oldNode) []) (or_else (n_credentials newNode) []))
           oldNodes)"

section \<open>Strings that contain the parts of another\<close>

lemma contains_loop_subseq:
  assumes "marker \<le> i" and "marker \<le> length substr" and "i + length cs = len" and "length substr \<le> len"
  shows "contains_loop substr (len - length substr) i marker cs \<longleftrightarrow> subseq (drop marker substr) cs"
  using assms
proof (induction cs arbitrary: i marker)
  case (Cons c cs)
  show ?case
  proof (cases "marker < length substr")
    case True
    have step: "contains_loop substr (len - length substr) i marker (c # cs) \<longleftrightarrow>
        int i - int m \<le> int (len - length substr) \<and> contains_loop substr (len - length substr) (Suc i) m cs"
      if "m = (if substr ! marker = c then Suc marker else marker)" for m
      using True that by (auto simp: array_get_def Let_def)
    let ?m = "if substr ! marker = c then Suc marker else marker"
    have "subseq (drop ?m substr) cs \<Longrightarrow> int i - int ?m \<le> int (len - length substr)"
      using Cons.prems True by (auto dest!: list_emb_length)
    moreover have "contains_loop substr (len - length substr) (Suc i) ?m cs \<longleftrightarrow> subseq (drop ?m substr) cs"
      by (rule Cons.IH) (use Cons.prems True in auto)
    ultimately have "contains_loop substr (len - length substr) i marker (c # cs) \<longleftrightarrow> subseq (drop ?m substr) cs"
      using step [OF refl] by blast
    also have "\<dots> \<longleftrightarrow> subseq (substr ! marker # drop (Suc marker) substr) (c # cs)"
      using Cons_nth_drop_Suc [OF True, symmetric] by (simp del: Cons_nth_drop_Suc)
    finally show ?thesis using True by (simp only: Cons_nth_drop_Suc)
  next
    case False
    with Cons show ?thesis by (auto simp: array_get_def Let_def)
  qed
qed (auto dest: list_emb_length)

text \<open>
  \<^verbatim>\<open>stringContainsParts\<close> decides, in one pass that may stop early, whether one string has
  all the characters of the other in their order.
\<close>

theorem stringContainsParts_subseq: "stringContainsParts s substr \<longleftrightarrow> subseq substr s"
  using contains_loop_subseq [of 0 0 substr s "length s"]
  by (auto simp: stringContainsParts_def dest: list_emb_length)

lemma contains_subseq: "stringContainsParts s substr \<Longrightarrow> subseq substr s"
  using contains_loop_subseq [of 0 0 substr s "length s"] by (auto simp: stringContainsParts_def split: if_splits)

lemma contains_self: "stringContainsParts s s"
  using contains_loop_subseq [of 0 0 s s "length s"] by (simp add: stringContainsParts_def)

text \<open>
  The comment in the source gives \<^verbatim>\<open>abcd\<close> as not contained in \<^verbatim>\<open>abcde\<close>.  An object counts as the
  part of an array with the same keys.
\<close>

lemma abcd_in_abcde: "stringContainsParts ''abcde'' ''abcd''"
  by code_simp

lemma object_becomes_array: "parametersAreSuperset (JObj [(''0'', JNum 1)]) (JArr [JNum 1])"
  by code_simp

section \<open>What an additive change keeps\<close>

text \<open>The value at a path of keys; an array's keys are its indexes.\<close>

fun json_at :: "jval \<Rightarrow> string list \<Rightarrow> jval option" where
  "json_at v [] = Some v"
| "json_at v (k # path) = (case map_of (json_entries v) k of None \<Rightarrow> None | Some w \<Rightarrow> json_at w path)"

text \<open>The same value, or a string that has the characters of the other in their order.\<close>

fun keeps_value :: "jval \<Rightarrow> jval \<Rightarrow> bool" where
  "keeps_value (JStr s) n \<longleftrightarrow> (\<exists>t. n = JStr t \<and> subseq s t)"
| "keeps_value (JArr xs) n \<longleftrightarrow> length (json_entries n) = length xs"
| "keeps_value (JObj m) n \<longleftrightarrow> length (json_entries n) = length m"
| "keeps_value v n \<longleftrightarrow> n = v"

definition keeps_leaves :: "jval \<Rightarrow> jval \<Rightarrow> bool" where
  "keeps_leaves p n \<longleftrightarrow> (\<forall>path v. json_at p path = Some v \<longrightarrow> (\<exists>w. json_at n path = Some w \<and> keeps_value v w))"

lemma superset_keeps_value: "parametersAreSuperset p n \<Longrightarrow> keeps_value p n"
  by (induction p n rule: parametersAreSuperset.induct)
    (auto dest: contains_subseq list_all2_lengthD simp: map_equal_def)

lemma zip_superset:
  assumes "list_all2 R xs ys" and "map_of (zip ks xs) k = Some v"
  shows "\<exists>w. map_of (zip ks ys) k = Some w \<and> R v w"
  using assms
proof (induction xs ys arbitrary: ks rule: list_all2_induct)
  case (Cons x xs y ys)
  then show ?case by (cases ks) (auto split: if_splits)
qed simp

lemma map_equal_entry:
  assumes "map_equal R m m'" and "map_of m k = Some v"
  shows "\<exists>w. map_of m' k = Some w \<and> R v w"
  using assms by (fastforce simp: map_equal_def list_all_iff dest: map_of_SomeD split: option.splits)

lemma superset_entry:
  assumes "parametersAreSuperset p n" and "map_of (json_entries p) k = Some v"
  shows "\<exists>w. map_of (json_entries n) k = Some w \<and> parametersAreSuperset v w"
proof (cases p)
  case (JArr ps)
  with assms obtain ns where n: "n = JArr ns" by (cases n) auto
  with JArr assms(1) have all: "list_all2 parametersAreSuperset ps ns" by simp
  from zip_superset [OF this] list_all2_lengthD [OF all] assms(2) show ?thesis by (simp add: JArr n)
next
  case (JObj ps)
  with assms have "map_equal parametersAreSuperset ps (json_entries n)" by (cases n) auto
  from map_equal_entry [OF this] assms(2) show ?thesis by (simp add: JObj)
qed (use assms(2) in auto)

lemma superset_keeps_leaves: "parametersAreSuperset p n \<Longrightarrow> keeps_leaves p n"
proof -
  have "\<exists>w. json_at n path = Some w \<and> keeps_value v w"
    if "parametersAreSuperset p n" and "json_at p path = Some v" for p n path v
    using that
  proof (induction path arbitrary: p n)
    case (Cons k path)
    then show ?case by (fastforce dest: superset_entry split: option.splits)
  qed (auto intro: superset_keeps_value)
  then show "parametersAreSuperset p n \<Longrightarrow> keeps_leaves p n" by (auto simp: keeps_leaves_def)
qed

lemma map_equal_mono:
  "map_equal R m m' \<Longrightarrow> (\<And>v v'. v \<in> set (ovals m) \<Longrightarrow> R v v' \<Longrightarrow> S v v') \<Longrightarrow> map_equal S m m'"
  by (fastforce simp: map_equal_def list_all_iff split: option.splits)

lemma equal_superset: "json_equal p n \<Longrightarrow> parametersAreSuperset p n"
proof (induction p n rule: json_equal.induct)
  case (1 xs ys)
  then show ?case by (auto simp: list_all2_conv_all_nth)
next
  case (2 m m')
  then show ?case by (auto intro: map_equal_mono)
qed (auto simp: contains_self)

section \<open>The comparison of the nodes\<close>

lemma nodes_by_id_fold:
  "map_of (fold (\<lambda>node. AList.update (n_id node) node) nodes m) i
     = (case List.find (\<lambda>node. n_id node = i) (rev nodes) of Some n \<Rightarrow> Some n | None \<Rightarrow> map_of m i)"
proof (induction nodes arbitrary: m rule: rev_induct)
  case (snoc n nodes)
  then show ?case by simp
qed simp

lemma nodes_by_id_map: "map_of (nodes_by_id nodes) i = List.find (\<lambda>node. n_id node = i) (rev nodes)"
  by (simp add: nodes_by_id_def nodes_by_id_fold split: option.split)

lemma nodes_by_id_keys: "distinct (okeys (nodes_by_id nodes))"
  unfolding nodes_by_id_def by (simp add: omap.keys_put_all [where val = id, simplified])

lemma find_unique:
  "distinct (map f xs) \<Longrightarrow> x \<in> set xs \<Longrightarrow> List.find (\<lambda>y. f y = f x) xs = Some x"
  by (induction xs) auto

lemma nodes_by_id_member:
  assumes "distinct (map n_id nodes)" and "node \<in> set nodes"
  shows "map_of (nodes_by_id nodes) (n_id node) = Some node"
  using find_unique [of n_id "rev nodes" node] assms by (simp add: nodes_by_id_map rev_map [symmetric])

lemma nodes_by_id_Some:
  "map_of (nodes_by_id nodes) i = Some n \<Longrightarrow> n \<in> set nodes \<and> n_id n = i"
  by (auto simp: nodes_by_id_map dest: find_in_set)

definition node_status ::
    "(version_node option \<Rightarrow> version_node option \<Rightarrow> bool) \<Rightarrow> version_node option \<Rightarrow> version_node option \<Rightarrow>
     (node_diff_status \<times> version_node) option" where
  "node_status eq b t =
     (case b of
        Some n \<Rightarrow> Some (if t = None then Deleted else if eq b t then Eq else Modified, n)
      | None \<Rightarrow> map_option (Pair Added) t)"

lemma fold_diff_base:
  assumes "distinct (okeys ps)" and "set ps \<subseteq> set baseNodes" and "distinct (okeys baseNodes)"
  shows "map_of (fold (diff_base eq baseNodes targetNodes) ps diff) i
    = (if i \<in> set (okeys ps) then node_status eq (map_of baseNodes i) (map_of targetNodes i) else map_of diff i)"
  using assms(1,2)
proof (induction ps arbitrary: diff)
  case (Cons p ps)
  obtain k n where p: "p = (k, n)" by (cases p)
  have "map_of baseNodes k = Some n" using Cons.prems(2) assms(3) by (simp add: p)
  with Cons show ?case by (auto simp: p diff_base_def node_status_def has_key_def)
qed simp

lemma fold_diff_target:
  assumes "distinct (okeys ps)"
  shows "map_of (fold (diff_target baseNodes) ps diff) i
    = (case map_of ps i of Some n \<Rightarrow> if has_key baseNodes i then map_of diff i else Some (Added, n)
       | None \<Rightarrow> map_of diff i)"
  using assms
proof (induction ps arbitrary: diff)
  case (Cons p ps)
  obtain k n where p: "p = (k, n)" by (cases p)
  have "map_of ps k = None" using Cons.prems by (force simp: p map_of_eq_None_iff)
  with Cons show ?case by (auto simp: p diff_target_def split: option.splits)
qed simp

lemma diff_map: "map_of (compareWorkflowsNodes eq base target) i
    = node_status eq (map_of (nodes_by_id base) i) (map_of (nodes_by_id target) i)"
proof -
  have "i \<in> set (okeys (nodes_by_id base)) \<longleftrightarrow> map_of (nodes_by_id base) i \<noteq> None"
    by (simp add: map_of_eq_None_iff)
  then show ?thesis
    by (simp add: compareWorkflowsNodes_def Let_def fold_diff_target [OF nodes_by_id_keys] has_key_def
        fold_diff_base [OF nodes_by_id_keys subset_refl nodes_by_id_keys] node_status_def split: option.split)
qed

text \<open>
  The comparison of two lists of nodes is exact: a node id is reported as deleted if only
  the old list has it, as added if only the new one has it, and otherwise as equal or modified
  as the nodes compare, with the node of the old list.
\<close>

theorem compareWorkflowsNodes_exact:
  "map_of (compareWorkflowsNodes eq base target) i
     = (case (List.find (\<lambda>n. n_id n = i) (rev base), List.find (\<lambda>n. n_id n = i) (rev target)) of
          (Some n, None) \<Rightarrow> Some (Deleted, n)
        | (Some n, Some n') \<Rightarrow> Some (if eq (Some n) (Some n') then Eq else Modified, n)
        | (None, Some n') \<Rightarrow> Some (Added, n')
        | (None, None) \<Rightarrow> None)"
  by (simp add: diff_map nodes_by_id_map node_status_def split: option.split)

section \<open>Additive changes lose nothing\<close>

definition node_kept :: "version_node \<Rightarrow> version_node \<Rightarrow> bool" where
  "node_kept p n \<longleftrightarrow> n_id n = n_id p \<and> n_name n = n_name p \<and> n_type n = n_type p
     \<and> n_typeVersion n = n_typeVersion p \<and> n_webhookId n = n_webhookId p
     \<and> map_of (or_else (n_credentials p) []) \<subseteq>\<^sub>m map_of (or_else (n_credentials n) [])
     \<and> keeps_leaves (JObj (n_parameters p)) (JObj (n_parameters n))"

definition group_kept :: "workflow_group \<Rightarrow> workflow_group \<Rightarrow> bool" where
  "group_kept g g' \<longleftrightarrow> wg_id g' = wg_id g \<and> wg_name g' = wg_name g \<and> set (wg_nodeIds g) \<subseteq> set (wg_nodeIds g')"

definition extends :: "diffable_workflow \<Rightarrow> diffable_workflow \<Rightarrow> bool" where
  "extends prev new \<longleftrightarrow>
     (\<forall>p \<in> set (dw_nodes prev). \<exists>n \<in> set (dw_nodes new). node_kept p n)
   \<and> (\<forall>n t i. at_group (dw_connections prev) n t i \<subseteq> at_group (dw_connections new) n t i)
   \<and> (\<forall>g \<in> set (or_else (dw_nodeGroups prev) []). \<exists>g' \<in> set (or_else (dw_nodeGroups new) []). group_kept g g')"

lemma same_credentials:
  "option_equal (map_equal (=)) c c' \<Longrightarrow> map_of (or_else c []) \<subseteq>\<^sub>m map_of (or_else c' [])"
  by (cases c; cases c') (auto simp: map_le_def dom_def dest: map_equal_entry)

lemma same_kept: "same_properties p n \<Longrightarrow> n_id n = n_id p \<Longrightarrow> node_kept p n"
  by (auto simp: same_properties_def node_kept_def simp del: json_equal.simps
      intro!: superset_keeps_leaves equal_superset same_credentials)

lemma superset_kept: "nodeIsSuperset p n \<Longrightarrow> n_id n = n_id p \<Longrightarrow> node_kept p n"
  by (auto simp: nodeIsSuperset_def compareNodes_def same_properties_def node_kept_def
      simp del: parametersAreSuperset.simps intro!: superset_keeps_leaves same_credentials split: if_splits)

lemma keeps_leaves_refl: "keeps_leaves v v"
proof -
  have "keeps_value w w" for w by (cases w) auto
  then show ?thesis by (auto simp: keeps_leaves_def)
qed

lemma additive_nodes_kept:
  assumes "additive_nodes ns ds = Inr True" and "(status, node) \<in> set ds" and "status \<noteq> Added"
  shows "\<exists>n. List.find (\<lambda>x. n_id x = n_id node) ns = Some n \<and> (status = Eq \<or> nodeIsSuperset node n)"
  using assms
proof (induction ns ds rule: additive_nodes.induct)
  case (2 ns st nd ds)
  then show ?case by (cases st) (auto split: if_splits option.splits)
qed simp

lemma groups_additive_kept:
  assumes "groups_additive byId gs" and "g \<in> set gs"
  shows "\<exists>g'. map_of byId (wg_id g) = Some g' \<and> wg_name g' = wg_name g \<and> set (wg_nodeIds g) \<subseteq> set (wg_nodeIds g')"
  using assms
  by (induction byId gs rule: groups_additive.induct) (auto simp: list_all_iff split: option.splits if_splits)

lemma groups_by_id:
  assumes "map_of (fold (\<lambda>g. AList.update (wg_id g) g) gs []) i = Some g'"
  shows "g' \<in> set gs \<and> wg_id g' = i"
proof -
  have "i \<in> wg_id ` set gs"
    using assms omap.get_put_all_notin [of i wg_id gs id "[]"] by force
  from omap.get_put_all_in [OF this, of id "[]"] assms show ?thesis by auto
qed

lemma additive_groups_kept:
  assumes "nodeGroupChangesAreAdditive prev new" and "g \<in> set (or_else (dw_nodeGroups prev) [])"
  shows "\<exists>g' \<in> set (or_else (dw_nodeGroups new) []). group_kept g g'"
  using groups_additive_kept [OF assms [unfolded nodeGroupChangesAreAdditive_def]] groups_by_id
  by (fastforce simp: group_kept_def)

lemma no_removed_connection:
  "snd (compareConnections c c') = [] \<Longrightarrow> at_group c n t i \<subseteq> at_group c' n t i"
  using diff_removed [of c c' n t i] by auto

lemma additive_merge_extends:
  assumes "mergeAdditiveChanges prev new (WorkflowChangeSet prev new) = Inr True"
    and "distinct (map n_id (dw_nodes prev))"
  shows "extends prev new"
proof (cases "prev = new")
  case True
  then show ?thesis
    by (auto simp: extends_def node_kept_def group_kept_def keeps_leaves_refl intro!: bexI)
next
  case False
  let ?diff = "compareWorkflowsNodes compareNodes (dw_nodes prev) (dw_nodes new)"
  from False assms(1) have ok: "additive_nodes (dw_nodes new) (ovals ?diff) = Inr True"
      "snd (compareConnections (dw_connections prev) (dw_connections new)) = []"
      "nodeGroupChangesAreAdditive prev new"
    by (auto simp: mergeAdditiveChanges_def WorkflowChangeSet_def split: if_splits)
  have nodes: "\<exists>n \<in> set (dw_nodes new). node_kept p n" if p: "p \<in> set (dw_nodes prev)" for p
  proof -
    let ?t = "map_of (nodes_by_id (dw_nodes new)) (n_id p)"
    define status where
      "status = (if ?t = None then Deleted else if compareNodes (Some p) ?t then Eq else Modified)"
    have d: "map_of ?diff (n_id p) = Some (status, p)"
      by (simp add: diff_map nodes_by_id_member [OF assms(2) p] node_status_def status_def)
    have "status \<noteq> Added" by (simp add: status_def)
    from additive_nodes_kept [OF ok(1) map_of_in_vals [OF d] this]
    obtain n where n: "List.find (\<lambda>x. n_id x = n_id p) (dw_nodes new) = Some n"
        "?t \<noteq> None \<and> compareNodes (Some p) ?t \<or> nodeIsSuperset p n"
      by (auto simp: status_def split: if_splits)
    from n(2) show ?thesis
    proof
      assume "?t \<noteq> None \<and> compareNodes (Some p) ?t"
      then obtain n' where n': "?t = Some n'" "same_properties p n'" by (auto simp: compareNodes_def)
      with nodes_by_id_Some [OF n'(1)] show ?thesis by (auto intro!: bexI same_kept)
    next
      assume "nodeIsSuperset p n"
      with find_in_set [OF n(1)] show ?thesis by (auto intro!: bexI superset_kept)
    qed
  qed
  show ?thesis
    unfolding extends_def
    using nodes no_removed_connection [OF ok(2)] additive_groups_kept [OF ok(3)] by blast
qed

section \<open>Grouping versions\<close>

definition absorbed ::
    "diff_rule list \<Rightarrow> diff_rule list \<Rightarrow> nat option \<Rightarrow> diffable_workflow \<Rightarrow> diffable_workflow \<Rightarrow> bool" where
  "absorbed rules skipRules metaData prev new \<longleftrightarrow>
     any_rule skipRules prev new (WorkflowChangeSet prev new) metaData = Inr False
   \<and> any_rule rules prev new (WorkflowChangeSet prev new) metaData = Inr True"

lemma subseq_adjacent:
  assumes "Suc j < length xs"
  shows "subseq [xs ! j, xs ! Suc j] xs"
proof -
  have "drop j xs = xs ! j # xs ! Suc j # drop (Suc (Suc j)) xs"
    using assms by (simp add: Cons_nth_drop_Suc)
  then have "subseq [xs ! j, xs ! Suc j] (take j xs @ drop j xs)" by (intro list_emb_append2) simp
  then show ?thesis by simp
qed

lemma diff_loop_absorbs:
  assumes "diff_loop rules skipRules metaData j (remaining, removed) = Inr (remaining', removed')"
    and "j < length remaining" and "subseq remaining all"
  shows "\<exists>kept gone. remaining' = kept @ drop j remaining \<and> removed' = removed @ gone
    \<and> subseq kept (take j remaining) \<and> mset (take j remaining) = mset kept + mset gone
    \<and> (\<forall>w \<in> set gone. \<exists>w' \<in> set remaining'. absorbed rules skipRules metaData w w' \<and> subseq [w, w'] all)"
  using assms
proof (induction j arbitrary: remaining removed)
  case (Suc j)
  let ?prev = "remaining ! j" and ?new = "remaining ! Suc j"
  have len: "Suc j < length remaining" "j < length remaining" using Suc.prems(2) by auto
  have drop: "drop j remaining = ?prev # drop (Suc j) remaining" using len(2) by (simp add: Cons_nth_drop_Suc)
  have take: "take (Suc j) remaining = take j remaining @ [?prev]" using len(2) by (simp add: take_Suc_conv_app_nth)
  from Suc.prems(1) consider
      (Keep) "diff_loop rules skipRules metaData j (remaining, removed) = Inr (remaining', removed')"
    | (Merge) "absorbed rules skipRules metaData ?prev ?new"
        "diff_loop rules skipRules metaData j
           (take j remaining @ drop (Suc j) remaining, removed @ [?prev]) = Inr (remaining', removed')"
    by (auto simp: Let_def absorbed_def split: if_splits)
  then show ?case
  proof cases
    case Keep
    from Suc.IH [OF Keep len(2) Suc.prems(3)] obtain kept gone where
      "remaining' = kept @ drop j remaining" "removed' = removed @ gone" "subseq kept (take j remaining)"
      "mset (take j remaining) = mset kept + mset gone"
      "\<forall>w \<in> set gone. \<exists>w' \<in> set remaining'. absorbed rules skipRules metaData w w' \<and> subseq [w, w'] all"
      by blast
    then show ?thesis
      by (intro exI [of _ "kept @ [?prev]"] exI [of _ gone]) (simp add: drop take list_emb_append_mono)
  next
    case Merge
    let ?rest = "take j remaining @ drop (Suc j) remaining"
    have shape: "drop j ?rest = drop (Suc j) remaining" "take j ?rest = take j remaining" "j < length ?rest"
      using len by auto
    have "subseq ?rest (take j remaining @ drop j remaining)"
      unfolding drop by (intro list_emb_append_mono subseq_order.order_refl list_emb_Cons)
    then have "subseq ?rest remaining" by simp
    then have "subseq ?rest all" using Suc.prems(3) by (rule subseq_order.trans)
    from Suc.IH [OF Merge(2) shape(3) this] obtain kept gone where
      ih: "remaining' = kept @ drop (Suc j) remaining" "removed' = (removed @ [?prev]) @ gone"
        "subseq kept (take j remaining)" "mset (take j remaining) = mset kept + mset gone"
        "\<forall>w \<in> set gone. \<exists>w' \<in> set remaining'. absorbed rules skipRules metaData w w' \<and> subseq [w, w'] all"
      unfolding shape by blast
    have "drop (Suc j) remaining = ?new # drop (Suc (Suc j)) remaining" using len(1) by (simp add: Cons_nth_drop_Suc)
    then have "?new \<in> set remaining'" by (simp add: ih(1))
    moreover have "subseq [?prev, ?new] all"
      using subseq_adjacent [OF len(1)] Suc.prems(3) by (rule subseq_order.trans)
    ultimately show ?thesis using Merge(1) ih
      by (intro exI [of _ kept] exI [of _ "?prev # gone"]) (auto simp: take intro: list_emb_append2)
  qed
qed auto

definition additive_rule :: diff_rule where
  "additive_rule prev new diff metaData = mergeAdditiveChanges prev new diff"

lemma absorbed_additive: "absorbed [additive_rule] skipRules metaData w w' \<Longrightarrow>
    mergeAdditiveChanges w w' (WorkflowChangeSet w w') = Inr True"
  by (auto simp: absorbed_def additive_rule_def split: if_splits)

lemma grouping_absorbs:
  assumes "groupWorkflows rules skipRules wantsSize versions = Inr (remaining, removed)"
  shows "subseq remaining versions \<and> mset versions = mset remaining + mset removed
    \<and> (versions \<noteq> [] \<longrightarrow> remaining \<noteq> [] \<and> last remaining = last versions)
    \<and> (\<forall>w \<in> set removed. \<exists>w' \<in> set remaining.
         absorbed rules skipRules (size_score wantsSize versions) w w' \<and> subseq [w, w'] versions)"
proof (cases "length versions \<le> 1")
  case True
  then show ?thesis using assms by (auto simp: groupWorkflows_def le_Suc_eq split: if_splits)
next
  case False
  then obtain front newest where versions: "versions = front @ [newest]" by (cases versions rule: rev_cases) auto
  from False assms have
    "diff_loop rules skipRules (size_score wantsSize versions) (length front) (versions, []) = Inr (remaining, removed)"
    by (simp add: groupWorkflows_def versions split: if_splits)
  from diff_loop_absorbs [OF this, of versions] obtain kept gone where
    "remaining = kept @ [newest]" "removed = gone" "subseq kept front" "mset front = mset kept + mset gone"
    "\<forall>w \<in> set gone. \<exists>w' \<in> set remaining.
       absorbed rules skipRules (size_score wantsSize versions) w w' \<and> subseq [w, w'] versions"
    by (auto simp: versions)
  then show ?thesis by (auto simp: versions list_emb_append_mono)
qed

text \<open>
  Grouping the versions of a workflow splits them into those that remain, in their order
  and with the latest among them, and those removed; each removed version is followed by a
  remaining one into which a rule merged it and for which no rule said to skip.
\<close>

theorem groupWorkflows_absorbs:
  assumes "groupWorkflows rules skipRules wantsSize versions = Inr (remaining, removed)"
  shows "subseq remaining versions \<and> mset versions = mset remaining + mset removed
    \<and> (versions \<noteq> [] \<longrightarrow> remaining \<noteq> [] \<and> last remaining = last versions)
    \<and> (\<forall>w \<in> set removed. \<exists>w' \<in> set remaining.
         absorbed rules skipRules (size_score wantsSize versions) w w' \<and> subseq [w, w'] versions)"
  using assms by (rule grouping_absorbs)

text \<open>
  C29. With the rule for additive changes nothing is lost by grouping: each removed version is
  followed by a remaining one that has all its nodes, with their names, types and credentials
  and with parameters that keep all its values, or strings with all characters of its strings;
  all its connections; and all its groups with their members.
\<close>

theorem grouping_loses_nothing:
  assumes "groupWorkflows [additive_rule] skipRules wantsSize versions = Inr (remaining, removed)"
    and "list_all (\<lambda>w. distinct (map n_id (dw_nodes w))) versions"
  shows "\<forall>w \<in> set removed. \<exists>w' \<in> set remaining. extends w w' \<and> subseq [w, w'] versions"
proof
  fix w
  assume w: "w \<in> set removed"
  with grouping_absorbs [OF assms(1)] obtain w' where w': "w' \<in> set remaining" "subseq [w, w'] versions"
      "absorbed [additive_rule] skipRules (size_score wantsSize versions) w w'" by blast
  have "mset versions = mset remaining + mset removed" using grouping_absorbs [OF assms(1)] by blast
  then have "w \<in> set versions" using w by (metis set_mset_mset set_mset_union UnI2)
  with assms(2) have "distinct (map n_id (dw_nodes w))" by (simp add: list_all_iff)
  with absorbed_additive [OF w'(3)] have "extends w w'" by (rule additive_merge_extends)
  with w' show "\<exists>w' \<in> set remaining. extends w w' \<and> subseq [w, w'] versions" by blast
qed

definition version :: "nat \<Rightarrow> (string \<times> string) list \<Rightarrow> diffable_workflow" where
  "version ref nodes = \<lparr>dw_ref = ref,
     dw_nodes = map (\<lambda>(name, txt). \<lparr>n_ref = 0, n_id = name, n_name = name, n_type = ''set'', n_typeVersion = 1,
        n_position = (0, 0), n_disabled = None, n_retryOnFail = None, n_maxTries = None,
        n_waitBetweenTries = None, n_alwaysOutputData = None, n_executeOnce = None, n_onError = None,
        n_continueOnFail = None, n_parameters = [(''text'', JStr txt)], n_rewireOutputLogTo = None,
        n_forceCustomOperation = None, n_webhookId = None, n_credentials = None\<rparr>) nodes,
     dw_connections = [], dw_createdAt = int ref, dw_authors = None, dw_nodeGroups = None\<rparr>"

definition history :: "diffable_workflow list" where
  "history = [version 1 [(''a'', ''hi'')], version 2 [(''a'', ''hi you''), (''b'', [])], version 3 [(''b'', ''x'')]]"

lemma groupWorkflows_absorbs_witness:
  "groupWorkflows [additive_rule] [] True history = Inr (drop 1 history, take 1 history)
   \<and> subseq (drop 1 history) history"
proof -
  have "groupWorkflows [additive_rule] [] True history = Inr (drop 1 history, take 1 history)" by code_simp
  with groupWorkflows_absorbs [OF this] show ?thesis by simp
qed

lemma grouping_loses_nothing_witness:
  "groupWorkflows [additive_rule] [] False history = Inr (drop 1 history, take 1 history)
   \<and> (\<exists>w' \<in> set (drop 1 history). extends (version 1 [(''a'', ''hi'')]) w')"
proof -
  have "groupWorkflows [additive_rule] [] False history = Inr (drop 1 history, take 1 history)" by code_simp
  moreover have "list_all (\<lambda>w. distinct (map n_id (dw_nodes w))) history" by code_simp
  moreover have "version 1 [(''a'', ''hi'')] \<in> set (take 1 history)" by (simp add: history_def)
  ultimately show ?thesis using grouping_loses_nothing by blast
qed

end
