(* ===== verification/ScheduledTasks.thy ===== *)
theory ScheduledTasks
  imports Interfaces
begin

text \<open>
  \<^verbatim>\<open>packages/core/src/execution-engine/scheduled-task-manager.ts\<close>: the crons of this instance, by
  the type and the id of their group and by a key that identifies a cron.  A \<^verbatim>\<open>CronJob\<close> is a
  timer of the library \<^verbatim>\<open>cron\<close>: \<^verbatim>\<open>sm_jobs\<close> lists all jobs ever made, with whether they still
  run; the library's calculation of times and its check of expressions are parameters.
\<close>

section \<open>State\<close>

datatype recurrence = Not_activated | Activated nat nat string

record task_group =
  tg_type :: string
  tg_id :: string

record task_context =
  tc_group :: task_group
  tc_targetId :: string
  tc_timezone :: string
  tc_expression :: string
  tc_recurrence :: "recurrence option"

text \<open>
  The key is the JSON text of the context with sorted fields.  The text determines the fields and
  is determined by them, so the key is kept as the record of the fields in that order.
\<close>

record cron_key =
  ck_expression :: string
  ck_groupId :: string
  ck_groupType :: string
  ck_recurrence :: "recurrence option"
  ck_targetId :: string
  ck_timezone :: string

definition toCronKey :: "task_context \<Rightarrow> cron_key" where
  "toCronKey ctx = \<lparr>ck_expression = tc_expression ctx, ck_groupId = tg_id (tc_group ctx),
     ck_groupType = tg_type (tc_group ctx), ck_recurrence = tc_recurrence ctx,
     ck_targetId = tc_targetId ctx, ck_timezone = tc_timezone ctx\<rparr>"

record registered_cron =
  rc_job :: nat
  rc_summary :: string
  rc_ctx :: task_context

type_synonym group_crons = "(cron_key, registered_cron) omap"

type_synonym crons_by_group = "(string, group_crons) omap"

record cron_job =
  jb_expression :: string
  jb_timezone :: string
  jb_scheduledTime :: int
  jb_running :: bool

text \<open>\<^verbatim>\<open>sm_fired\<close> is the trace of the calls of \<^verbatim>\<open>onTick\<close>: the job and the time it gets.\<close>

record scheduler =
  sm_isLeader :: bool
  sm_crons :: "(string, crons_by_group) omap"
  sm_jobs :: "cron_job list"
  sm_fired :: "(nat \<times> int) list"

definition new_scheduler :: "bool \<Rightarrow> scheduler" where
  "new_scheduler leader = \<lparr>sm_isLeader = leader, sm_crons = [], sm_jobs = [], sm_fired = []\<rparr>"

record cron_library =
  cl_check :: "string \<Rightarrow> string \<Rightarrow> js_error option"
  cl_sendAt :: "string \<Rightarrow> string \<Rightarrow> int \<Rightarrow> int"

section \<open>The nested maps\<close>

definition getGroupCrons :: "scheduler \<Rightarrow> task_group \<Rightarrow> group_crons option" where
  "getGroupCrons s grp =
     (case map_of (sm_crons s) (tg_type grp) of None \<Rightarrow> None | Some byGroup \<Rightarrow> map_of byGroup (tg_id grp))"

definition deleteGroupCrons :: "task_group \<Rightarrow> scheduler \<Rightarrow> scheduler" where
  "deleteGroupCrons grp s =
     (case map_of (sm_crons s) (tg_type grp) of
        None \<Rightarrow> s
      | Some byGroup \<Rightarrow>
          (let byGroup = AList.delete (tg_id grp) byGroup
           in s\<lparr>sm_crons := (if length byGroup = 0 then AList.delete (tg_type grp) (sm_crons s)
                             else AList.update (tg_type grp) byGroup (sm_crons s))\<rparr>))"

text \<open>The map of a group after it was changed in place.\<close>

definition put_group :: "task_group \<Rightarrow> group_crons \<Rightarrow> scheduler \<Rightarrow> scheduler" where
  "put_group grp crons s =
     s\<lparr>sm_crons := AList.update (tg_type grp)
         (AList.update (tg_id grp) crons (or_else (map_of (sm_crons s) (tg_type grp)) [])) (sm_crons s)\<rparr>"

definition setCron :: "task_group \<Rightarrow> cron_key \<Rightarrow> registered_cron \<Rightarrow> scheduler \<Rightarrow> scheduler" where
  "setCron grp key cron s =
     (case getGroupCrons s grp of
        None \<Rightarrow> put_group grp [(key, cron)] s
      | Some groupCrons \<Rightarrow> put_group grp (AList.update key cron groupCrons) s)"

section \<open>Registration\<close>

definition cron_summary :: "task_context \<Rightarrow> string" where
  "cron_summary ctx =
     (case tc_recurrence ctx of
        Some (Activated _ intervalSize typeInterval) \<Rightarrow>
          tc_expression ctx @ '' (every '' @ show_nat intervalSize @ '' '' @ typeInterval @ '')''
      | _ \<Rightarrow> tc_expression ctx)"

definition start_job :: "cron_library \<Rightarrow> int \<Rightarrow> task_context \<Rightarrow> cron_job" where
  "start_job lib now ctx = \<lparr>jb_expression = tc_expression ctx, jb_timezone = tc_timezone ctx,
     jb_scheduledTime = cl_sendAt lib (tc_expression ctx) (tc_timezone ctx) now, jb_running = True\<rparr>"

definition register :: "cron_library \<Rightarrow> int \<Rightarrow> task_context \<Rightarrow> scheduler \<Rightarrow> scheduler \<times> bool res" where
  "register lib now ctx s =
     (let grp = tc_group ctx; key = toCronKey ctx
      in if \<not> sm_isLeader s then (s, Inr False)
         else if (case getGroupCrons s grp of None \<Rightarrow> False | Some crons \<Rightarrow> has_key crons key) then (s, Inr False)
         else case cl_check lib (tc_expression ctx) (tc_timezone ctx) of
             Some e \<Rightarrow> (s, Inl e)
           | None \<Rightarrow>
               (setCron grp key \<lparr>rc_job = length (sm_jobs s), rc_summary = cron_summary ctx, rc_ctx = ctx\<rparr>
                  (s\<lparr>sm_jobs := sm_jobs s @ [start_job lib now ctx]\<rparr>), Inr True))"

definition handleTick :: "cron_library \<Rightarrow> int \<Rightarrow> nat \<Rightarrow> scheduler \<Rightarrow> scheduler" where
  "handleTick lib now j s =
     (if \<not> sm_isLeader s then s
      else let job = sm_jobs s ! j; firedFor = jb_scheduledTime job
           in s\<lparr>sm_jobs := (sm_jobs s)[j := job\<lparr>jb_scheduledTime :=
                   cl_sendAt lib (jb_expression job) (jb_timezone job) now\<rparr>],
                sm_fired := sm_fired s @ [(j, firedFor)]\<rparr>)"

section \<open>Deregistration\<close>

definition stop_job :: "nat \<Rightarrow> scheduler \<Rightarrow> scheduler" where
  "stop_job j s = s\<lparr>sm_jobs := (sm_jobs s)[j := (sm_jobs s ! j)\<lparr>jb_running := False\<rparr>]\<rparr>"

definition deregisterGroup :: "task_group \<Rightarrow> scheduler \<Rightarrow> scheduler \<times> bool" where
  "deregisterGroup grp s =
     (case getGroupCrons s grp of
        None \<Rightarrow> (s, False)
      | Some crons \<Rightarrow>
          if length crons = 0 then (s, False)
          else (deleteGroupCrons grp (fold (\<lambda>cron. stop_job (rc_job cron)) (ovals crons) s), True))"

definition getGroupIds :: "scheduler \<Rightarrow> string \<Rightarrow> string list" where
  "getGroupIds s groupType = okeys (or_else (map_of (sm_crons s) groupType) [])"

definition getTargetIds :: "scheduler \<Rightarrow> task_group \<Rightarrow> string list" where
  "getTargetIds s grp =
     (case getGroupCrons s grp of
        None \<Rightarrow> []
      | Some crons \<Rightarrow> set_of_list (map (\<lambda>cron. tc_targetId (rc_ctx cron)) (ovals crons)))"

definition deregister_cron :: "string \<Rightarrow> cron_key \<times> registered_cron \<Rightarrow> scheduler \<times> group_crons \<Rightarrow> scheduler \<times> group_crons" where
  "deregister_cron targetId = (\<lambda>(key, cron) (s, crons).
     if tc_targetId (rc_ctx cron) \<noteq> targetId then (s, crons)
     else (stop_job (rc_job cron) s, AList.delete key crons))"

definition deregisterTarget :: "task_group \<Rightarrow> string \<Rightarrow> scheduler \<Rightarrow> scheduler" where
  "deregisterTarget grp targetId s =
     (case getGroupCrons s grp of
        None \<Rightarrow> s
      | Some crons \<Rightarrow>
          if length crons = 0 then s
          else (case fold (deregister_cron targetId) crons (s, crons) of (s, crons) \<Rightarrow>
            let s = put_group grp crons s
            in if length crons = 0 then deleteGroupCrons grp s else s))"

definition hasGroup :: "scheduler \<Rightarrow> task_group \<Rightarrow> bool" where
  "hasGroup s grp = (case getGroupCrons s grp of None \<Rightarrow> False | Some crons \<Rightarrow> length crons > 0)"

definition hasTarget :: "scheduler \<Rightarrow> task_group \<Rightarrow> string \<Rightarrow> bool" where
  "hasTarget s grp targetId \<longleftrightarrow> targetId \<in> set (getTargetIds s grp)"

definition deregisterGroups :: "string \<Rightarrow> scheduler \<Rightarrow> scheduler" where
  "deregisterGroups groupType s =
     fold (\<lambda>i s. fst (deregisterGroup \<lparr>tg_type = groupType, tg_id = i\<rparr> s)) (getGroupIds s groupType) s"

text \<open>What the periodic log shows.\<close>

definition loggableCrons :: "scheduler \<Rightarrow> (string, string list) omap" where
  "loggableCrons s =
     fold (\<lambda>(groupType, byGroup). fold (\<lambda>(groupId, crons).
         AList.update (groupType @ ''GroupId-'' @ groupId) (map rc_summary (ovals crons))) byGroup)
       (sm_crons s) []"

section \<open>Sequences of operations\<close>

text \<open>
  What can happen to the manager.  A timer fires only while its job runs, and not before the
  time it was set for.
\<close>

datatype scheduler_op =
    Register int task_context
  | Tick int nat
  | Deregister_group task_group
  | Deregister_target task_group string
  | Deregister_groups string
  | Set_leader bool

fun scheduler_step :: "cron_library \<Rightarrow> scheduler_op \<Rightarrow> scheduler \<Rightarrow> scheduler option" where
  "scheduler_step lib (Register now ctx) s = Some (fst (register lib now ctx s))"
| "scheduler_step lib (Tick now j) s =
     (if j < length (sm_jobs s) \<and> jb_running (sm_jobs s ! j) \<and> jb_scheduledTime (sm_jobs s ! j) \<le> now
      then Some (handleTick lib now j s) else None)"
| "scheduler_step lib (Deregister_group grp) s = Some (fst (deregisterGroup grp s))"
| "scheduler_step lib (Deregister_target grp targetId) s = Some (deregisterTarget grp targetId s)"
| "scheduler_step lib (Deregister_groups groupType) s = Some (deregisterGroups groupType s)"
| "scheduler_step lib (Set_leader leader) s = Some (s\<lparr>sm_isLeader := leader\<rparr>)"

section \<open>Reading the nested maps back\<close>

lemma task_group_eq: "tg_type g = tg_type g' \<Longrightarrow> tg_id g = tg_id g' \<Longrightarrow> g = (g' :: task_group)"
  by simp

lemma getGroupCrons_put [simp]:
  "getGroupCrons (put_group g m s) g' = (if g' = g then Some m else getGroupCrons s g')"
  by (auto simp: getGroupCrons_def put_group_def split: option.split dest: task_group_eq)

lemma delete_to_empty: "AList.delete k m = [] \<Longrightarrow> k' \<noteq> k \<Longrightarrow> map_of m k' = None"
  using map_of_delete [of k m] by (metis fun_upd_other map_of.simps(1))

lemma getGroupCrons_delete [simp]:
  "getGroupCrons (deleteGroupCrons g s) g' = (if g' = g then None else getGroupCrons s g')"
  by (auto simp: getGroupCrons_def deleteGroupCrons_def Let_def delete_to_empty split: option.split dest: task_group_eq)

lemma getGroupCrons_set:
  "getGroupCrons (setCron g k c s) g'
     = (if g' = g then Some (AList.update k c (or_else (getGroupCrons s g) [])) else getGroupCrons s g')"
  by (auto simp: setCron_def split: option.split)

lemma getGroupCrons_jobs [simp]: "getGroupCrons (s\<lparr>sm_jobs := js\<rparr>) g = getGroupCrons s g"
  by (simp add: getGroupCrons_def)

lemma nested_frame [frame_simps, simp]:
  "sm_jobs (put_group g m s) = sm_jobs s" "sm_fired (put_group g m s) = sm_fired s"
  "sm_jobs (deleteGroupCrons g s) = sm_jobs s" "sm_fired (deleteGroupCrons g s) = sm_fired s"
  "sm_jobs (setCron g k c s) = sm_jobs s" "sm_fired (setCron g k c s) = sm_fired s"
  by (simp_all add: put_group_def deleteGroupCrons_def setCron_def Let_def split: option.split)

lemma stop_job_frame [frame_simps, simp]:
  "sm_crons (stop_job j s) = sm_crons s" "sm_fired (stop_job j s) = sm_fired s"
  "length (sm_jobs (stop_job j s)) = length (sm_jobs s)"
  "getGroupCrons (stop_job j s) g = getGroupCrons s g"
  by (simp_all add: stop_job_def getGroupCrons_def)

definition stopped :: "cron_job \<Rightarrow> cron_job" where
  "stopped job = job\<lparr>jb_running := False\<rparr>"

lemma stop_jobs:
  "sm_crons (fold (\<lambda>c. stop_job (rc_job c)) cs s) = sm_crons s"
  "sm_fired (fold (\<lambda>c. stop_job (rc_job c)) cs s) = sm_fired s"
  "length (sm_jobs (fold (\<lambda>c. stop_job (rc_job c)) cs s)) = length (sm_jobs s)"
  "getGroupCrons (fold (\<lambda>c. stop_job (rc_job c)) cs s) g = getGroupCrons s g"
  by (induction cs arbitrary: s) auto

lemma stop_jobs_nth:
  assumes "j < length (sm_jobs s)"
  shows "sm_jobs (fold (\<lambda>c. stop_job (rc_job c)) cs s) ! j
    = (if j \<in> rc_job ` set cs then stopped (sm_jobs s ! j) else sm_jobs s ! j)"
  using assms
proof (induction cs arbitrary: s)
  case (Cons c cs)
  then show ?case by (cases "j = rc_job c") (auto simp: stop_job_def stopped_def)
qed simp

section \<open>The invariant\<close>

definition cron_at :: "scheduler \<Rightarrow> task_group \<Rightarrow> cron_key \<Rightarrow> registered_cron \<Rightarrow> bool" where
  "cron_at s g k c \<longleftrightarrow> (\<exists>m. getGroupCrons s g = Some m \<and> map_of m k = Some c)"

text \<open>The registered crons are filed under their group and key, and their jobs are those that run.\<close>

definition scheduler_ok :: "scheduler \<Rightarrow> bool" where
  "scheduler_ok s \<longleftrightarrow>
     (\<forall>g m. getGroupCrons s g = Some m \<longrightarrow> m \<noteq> [] \<and> distinct (okeys m))
   \<and> (\<forall>g k c. cron_at s g k c \<longrightarrow> tc_group (rc_ctx c) = g \<and> toCronKey (rc_ctx c) = k
        \<and> rc_job c < length (sm_jobs s) \<and> jb_running (sm_jobs s ! rc_job c))
   \<and> (\<forall>g k c g' k' c'. cron_at s g k c \<and> cron_at s g' k' c' \<and> rc_job c = rc_job c' \<longrightarrow> k = k')
   \<and> (\<forall>j < length (sm_jobs s). jb_running (sm_jobs s ! j) \<longrightarrow> (\<exists>g k c. cron_at s g k c \<and> rc_job c = j))"

lemma scheduler_okD:
  assumes "scheduler_ok s"
  shows "getGroupCrons s g = Some m \<Longrightarrow> m \<noteq> [] \<and> distinct (okeys m)"
    and "cron_at s g k c \<Longrightarrow> tc_group (rc_ctx c) = g \<and> toCronKey (rc_ctx c) = k
        \<and> rc_job c < length (sm_jobs s) \<and> jb_running (sm_jobs s ! rc_job c)"
    and "cron_at s g k c \<Longrightarrow> cron_at s g' k' c' \<Longrightarrow> rc_job c = rc_job c' \<Longrightarrow> k = k'"
    and "j < length (sm_jobs s) \<Longrightarrow> jb_running (sm_jobs s ! j) \<Longrightarrow> \<exists>g k c. cron_at s g k c \<and> rc_job c = j"
  using assms unfolding scheduler_ok_def by blast+

lemma key_group: "toCronKey ctx = toCronKey ctx' \<Longrightarrow> tc_group ctx = tc_group ctx'"
  by (auto simp: toCronKey_def intro: task_group_eq)

lemma same_job_same_cron:
  assumes "scheduler_ok s" and "cron_at s g k c" and "cron_at s g' k' c'" and "rc_job c = rc_job c'"
  shows "g = g' \<and> k = k' \<and> c = c'"
proof -
  have "k = k'" using scheduler_okD(3) [OF assms] .
  moreover have "g = g'"
    using scheduler_okD(2) [OF assms(1,2)] scheduler_okD(2) [OF assms(1,3)] \<open>k = k'\<close> key_group by metis
  ultimately show ?thesis using assms(2,3) by (auto simp: cron_at_def)
qed

subsection \<open>Registering\<close>

lemma register_cases:
  obtains (Refused) "fst (register lib now ctx s) = s"
  | (Registered) "sm_isLeader s" "\<And>c. \<not> cron_at s (tc_group ctx) (toCronKey ctx) c"
      "fst (register lib now ctx s) = setCron (tc_group ctx) (toCronKey ctx)
         \<lparr>rc_job = length (sm_jobs s), rc_summary = cron_summary ctx, rc_ctx = ctx\<rparr>
         (s\<lparr>sm_jobs := sm_jobs s @ [start_job lib now ctx]\<rparr>)"
  by (cases "fst (register lib now ctx s) = s")
    (auto simp: register_def Let_def cron_at_def has_key_def split: option.splits if_splits)

lemma cron_at_set:
  assumes "\<And>c. \<not> cron_at s g k c"
  shows "cron_at (setCron g k c (s\<lparr>sm_jobs := js\<rparr>)) g' k' c' \<longleftrightarrow> g' = g \<and> k' = k \<and> c' = c \<or> cron_at s g' k' c'"
  using assms by (auto simp: cron_at_def getGroupCrons_set split: option.splits)

lemma start_job_runs [simp]: "jb_running (start_job lib now ctx)"
  by (simp add: start_job_def)

lemma update_nonempty: "AList.update k v m \<noteq> []"
  by (cases m) auto

lemma register_ok:
  assumes "scheduler_ok s"
  shows "scheduler_ok (fst (register lib now ctx s))"
proof (cases rule: register_cases [of lib now ctx s])
  case Registered
  let ?c = "\<lparr>rc_job = length (sm_jobs s), rc_summary = cron_summary ctx, rc_ctx = ctx\<rparr>"
  let ?s = "setCron (tc_group ctx) (toCronKey ctx) ?c (s\<lparr>sm_jobs := sm_jobs s @ [start_job lib now ctx]\<rparr>)"
  note at = cron_at_set [OF Registered(2), of ?c "sm_jobs s @ [start_job lib now ctx]"]
  have "m \<noteq> [] \<and> distinct (okeys m)" if "getGroupCrons ?s g = Some m" for g m
  proof (cases "g = tc_group ctx")
    case True
    have "distinct (okeys (or_else (getGroupCrons s (tc_group ctx)) []))"
      using scheduler_okD(1) [OF assms] by (auto split: option.split)
    moreover have "m = AList.update (toCronKey ctx) ?c (or_else (getGroupCrons s (tc_group ctx)) [])"
      using that True by (simp add: getGroupCrons_set)
    ultimately show ?thesis by (simp only: distinct_keys_update update_nonempty simp_thms)
  qed (use that scheduler_okD(1) [OF assms] in \<open>auto simp: getGroupCrons_set\<close>)
  moreover have old: "rc_job c < length (sm_jobs s) \<and> jb_running (sm_jobs s ! rc_job c)
      \<and> tc_group (rc_ctx c) = g \<and> toCronKey (rc_ctx c) = k" if "cron_at s g k c" for g k c
    using scheduler_okD(2) [OF assms that] by simp
  have "tc_group (rc_ctx c) = g \<and> toCronKey (rc_ctx c) = k \<and> rc_job c < length (sm_jobs ?s)
      \<and> jb_running (sm_jobs ?s ! rc_job c)" if "cron_at ?s g k c" for g k c
    using that old by (auto simp: at nth_append less_SucI)
  moreover have "k = k'" if "cron_at ?s g k c" "cron_at ?s g' k' c'" "rc_job c = rc_job c'" for g k c g' k' c'
    using that old [of g k c] old [of g' k' c'] scheduler_okD(3) [OF assms, of g k c g' k' c'] by (auto simp: at)
  moreover have "\<exists>g k c. cron_at ?s g k c \<and> rc_job c = j"
    if "j < length (sm_jobs ?s)" "jb_running (sm_jobs ?s ! j)" for j
  proof (cases "j = length (sm_jobs s)")
    case True
    then show ?thesis by (intro exI [of _ "tc_group ctx"] exI [of _ "toCronKey ctx"] exI [of _ ?c]) (simp add: at)
  next
    case False
    with that scheduler_okD(4) [OF assms, of j] show ?thesis by (auto simp: at nth_append)
  qed
  ultimately have "scheduler_ok ?s" unfolding scheduler_ok_def by blast
  with Registered(3) show ?thesis by simp
qed (simp add: assms)

subsection \<open>Deregistering\<close>

text \<open>
  The crons of one group that meet a condition are gone and their jobs stopped; everything else
  is as before.
\<close>

definition removes :: "task_group \<Rightarrow> (registered_cron \<Rightarrow> bool) \<Rightarrow> scheduler \<Rightarrow> scheduler \<Rightarrow> bool" where
  "removes g P s s' \<longleftrightarrow>
     (\<forall>g' m. getGroupCrons s' g' = Some m \<longrightarrow> m \<noteq> [] \<and> distinct (okeys m))
   \<and> (\<forall>g' k c. cron_at s' g' k c \<longleftrightarrow> cron_at s g' k c \<and> \<not> (g' = g \<and> P c))
   \<and> length (sm_jobs s') = length (sm_jobs s)
   \<and> (\<forall>j < length (sm_jobs s). sm_jobs s' ! j
        = (if \<exists>k c. cron_at s g k c \<and> P c \<and> rc_job c = j then stopped (sm_jobs s ! j) else sm_jobs s ! j))
   \<and> sm_fired s' = sm_fired s"

lemma removesD:
  assumes "removes g P s s'"
  shows "getGroupCrons s' g' = Some m \<Longrightarrow> m \<noteq> [] \<and> distinct (okeys m)"
    and "cron_at s' g' k c \<longleftrightarrow> cron_at s g' k c \<and> \<not> (g' = g \<and> P c)"
    and "length (sm_jobs s') = length (sm_jobs s)"
    and "j < length (sm_jobs s) \<Longrightarrow> sm_jobs s' ! j
        = (if \<exists>k c. cron_at s g k c \<and> P c \<and> rc_job c = j then stopped (sm_jobs s ! j) else sm_jobs s ! j)"
    and "sm_fired s' = sm_fired s"
  using assms unfolding removes_def by blast+

lemma removes_ok:
  assumes ok: "scheduler_ok s" and rem: "removes g P s s'"
  shows "scheduler_ok s'"
proof -
  have "tc_group (rc_ctx c) = g' \<and> toCronKey (rc_ctx c) = k \<and> rc_job c < length (sm_jobs s')
      \<and> jb_running (sm_jobs s' ! rc_job c)" if "cron_at s' g' k c" for g' k c
  proof -
    from that have at: "cron_at s g' k c" "\<not> (g' = g \<and> P c)" by (simp_all add: removesD(2) [OF rem])
    note old = scheduler_okD(2) [OF ok at(1)]
    have "\<not> (\<exists>k' c'. cron_at s g k' c' \<and> P c' \<and> rc_job c' = rc_job c)"
      using same_job_same_cron [OF ok _ at(1)] at(2) by blast
    then have "sm_jobs s' ! rc_job c = sm_jobs s ! rc_job c" using old by (auto simp: removesD(4) [OF rem])
    with old show ?thesis by (simp add: removesD(3) [OF rem])
  qed
  moreover have "\<exists>g' k c. cron_at s' g' k c \<and> rc_job c = j" if "j < length (sm_jobs s')" "jb_running (sm_jobs s' ! j)" for j
  proof -
    from that have j: "j < length (sm_jobs s)" by (simp add: removesD(3) [OF rem])
    with that have gone: "\<not> (\<exists>k c. cron_at s g k c \<and> P c \<and> rc_job c = j)" and "jb_running (sm_jobs s ! j)"
      by (auto simp: removesD(4) [OF rem] stopped_def split: if_splits)
    with scheduler_okD(4) [OF ok j] obtain g' k c where "cron_at s g' k c" "rc_job c = j" by blast
    with gone show ?thesis unfolding removesD(2) [OF rem] by blast
  qed
  moreover have "k = k'" if "cron_at s' g k c" "cron_at s' g' k' c'" "rc_job c = rc_job c'" for g k c g' k' c'
    using that scheduler_okD(3) [OF ok] unfolding removesD(2) [OF rem] by blast
  ultimately show ?thesis
    unfolding scheduler_ok_def using removesD(1) [OF rem] by blast
qed

lemma jobs_of_crons:
  assumes "getGroupCrons s g = Some m" and "distinct (okeys m)"
  shows "rc_job ` set (filter P (ovals m)) = {j. \<exists>k c. cron_at s g k c \<and> P c \<and> rc_job c = j}"
proof (intro set_eqI iffI)
  fix j
  assume "j \<in> rc_job ` set (filter P (ovals m))"
  then obtain k c where "(k, c) \<in> set m" "P c" "j = rc_job c" by auto
  moreover from this(1) have "cron_at s g k c" using assms by (simp add: cron_at_def)
  ultimately show "j \<in> {j. \<exists>k c. cron_at s g k c \<and> P c \<and> rc_job c = j}" by blast
next
  fix j
  assume "j \<in> {j. \<exists>k c. cron_at s g k c \<and> P c \<and> rc_job c = j}"
  then show "j \<in> rc_job ` set (filter P (ovals m))"
    using assms(1) by (auto simp: cron_at_def intro!: imageI dest: map_of_in_vals)
qed

lemma deregisterGroup_removes:
  assumes "scheduler_ok s"
  shows "removes g (\<lambda>_. True) s (fst (deregisterGroup g s))"
proof (cases "getGroupCrons s g")
  case None
  then show ?thesis
    using scheduler_okD(1) [OF assms] by (auto simp: removes_def deregisterGroup_def cron_at_def)
next
  case (Some m)
  note m = scheduler_okD(1) [OF assms Some]
  have "rc_job ` set (ovals m) = {j. \<exists>k c. cron_at s g k c \<and> rc_job c = j}"
    using jobs_of_crons [OF Some, of "\<lambda>_. True"] m by simp
  then show ?thesis
    using Some m scheduler_okD(1) [OF assms]
    by (auto simp: removes_def deregisterGroup_def stop_jobs stop_jobs_nth cron_at_def split: if_splits)
qed

lemma deregister_crons:
  assumes "distinct (okeys ps)"
  shows "fold (deregister_cron t) ps (s, m)
    = (fold (\<lambda>c. stop_job (rc_job c)) (filter (\<lambda>c. tc_targetId (rc_ctx c) = t) (ovals ps)) s,
       fold AList.delete (okeys (filter (\<lambda>(k, c). tc_targetId (rc_ctx c) = t) ps)) m)"
  using assms by (induction ps arbitrary: s m) (auto simp: deregister_cron_def)

lemma fold_delete:
  "fold AList.delete ks m = filter (\<lambda>(k, c). k \<notin> set ks) m"
proof (induction ks arbitrary: m)
  case (Cons k ks)
  then show ?case by (auto simp: AList.delete_eq intro: filter_cong)
qed simp

lemma deregisterTarget_removes:
  assumes "scheduler_ok s"
  shows "removes g (\<lambda>c. tc_targetId (rc_ctx c) = t) s (deregisterTarget g t s)"
proof (cases "getGroupCrons s g")
  case None
  then show ?thesis
    using scheduler_okD(1) [OF assms] by (auto simp: removes_def deregisterTarget_def cron_at_def)
next
  case (Some m)
  note m = scheduler_okD(1) [OF assms Some]
  let ?stop = "filter (\<lambda>c. tc_targetId (rc_ctx c) = t) (ovals m)"
  define kept where "kept = filter (\<lambda>(k, c). tc_targetId (rc_ctx c) \<noteq> t) m"
  have "filter (\<lambda>(k, c). k \<notin> set (okeys (filter (\<lambda>(k, c). tc_targetId (rc_ctx c) = t) m))) m = kept"
    unfolding kept_def by (intro filter_cong refl)
      (auto dest: eq_key_imp_eq_value [OF conjunct2 [OF m]] intro: rev_image_eqI)
  then have result: "deregisterTarget g t s =
      (let s' = put_group g kept (fold (\<lambda>c. stop_job (rc_job c)) ?stop s)
       in if kept = [] then deleteGroupCrons g s' else s')"
    using Some m by (simp add: deregisterTarget_def deregister_crons fold_delete Let_def)
  let ?s' = "put_group g kept (fold (\<lambda>c. stop_job (rc_job c)) ?stop s)"
  have jobs: "rc_job ` set ?stop = {j. \<exists>k c. cron_at s g k c \<and> tc_targetId (rc_ctx c) = t \<and> rc_job c = j}"
    by (rule jobs_of_crons [OF Some conjunct2 [OF m]])
  have keep: "map_of kept k = Some c \<longleftrightarrow> map_of m k = Some c \<and> tc_targetId (rc_ctx c) \<noteq> t" for k c
    using m by (auto simp: kept_def distinct_map_filter)
  have groups: "getGroupCrons (deregisterTarget g t s) g'
      = (if g' = g then if kept = [] then None else Some kept else getGroupCrons s g')" for g'
    by (simp add: result Let_def stop_jobs)
  have frame: "sm_jobs (deregisterTarget g t s) = sm_jobs ?s'" "sm_fired (deregisterTarget g t s) = sm_fired s"
    by (simp_all add: result Let_def stop_jobs)
  have "cron_at (deregisterTarget g t s) g' k c \<longleftrightarrow> cron_at s g' k c \<and> \<not> (g' = g \<and> tc_targetId (rc_ctx c) = t)" for g' k c
    using keep [of k c] Some by (cases "kept = []") (auto simp: cron_at_def groups)
  moreover have "m' \<noteq> [] \<and> distinct (okeys m')" if "getGroupCrons (deregisterTarget g t s) g' = Some m'" for g' m'
    using that m scheduler_okD(1) [OF assms, of g' m'] by (auto simp: groups kept_def distinct_map_filter split: if_splits)
  moreover have "sm_jobs ?s' ! j = (if \<exists>k c. cron_at s g k c \<and> tc_targetId (rc_ctx c) = t \<and> rc_job c = j
      then stopped (sm_jobs s ! j) else sm_jobs s ! j)" if "j < length (sm_jobs s)" for j
    using stop_jobs_nth [OF that, of ?stop] unfolding jobs by simp
  ultimately show ?thesis
    unfolding removes_def frame by (simp add: stop_jobs)
qed

lemma deregisterGroups_ok: "scheduler_ok s \<Longrightarrow> scheduler_ok (deregisterGroups ty s)"
  unfolding deregisterGroups_def
  by (rule fold_invariant_set) (auto intro: removes_ok deregisterGroup_removes)

lemma deregisterGroups_fired: "scheduler_ok s \<Longrightarrow> sm_fired (deregisterGroups ty s) = sm_fired s"
proof -
  assume "scheduler_ok s"
  then have "scheduler_ok (deregisterGroups ty s) \<and> sm_fired (deregisterGroups ty s) = sm_fired s"
    unfolding deregisterGroups_def
    by (intro fold_invariant_set [where P = "\<lambda>s'. scheduler_ok s' \<and> sm_fired s' = sm_fired s"])
      (auto intro: removes_ok deregisterGroup_removes simp: removesD(5) [OF deregisterGroup_removes])
  then show ?thesis by blast
qed

subsection \<open>Ticks\<close>

lemma same_jobs_ok:
  assumes "scheduler_ok s" and "sm_crons s' = sm_crons s" and "length (sm_jobs s') = length (sm_jobs s)"
    and "\<And>j. j < length (sm_jobs s) \<Longrightarrow> jb_running (sm_jobs s' ! j) = jb_running (sm_jobs s ! j)"
  shows "scheduler_ok s'"
proof -
  have groups: "getGroupCrons s' = getGroupCrons s" using assms(2) by (simp add: getGroupCrons_def fun_eq_iff)
  then have crons: "cron_at s' = cron_at s" by (simp add: cron_at_def fun_eq_iff)
  have "rc_job c < length (sm_jobs s) \<and> jb_running (sm_jobs s' ! rc_job c)" if "cron_at s g k c" for g k c
    using scheduler_okD(2) [OF assms(1) that] assms(4) by simp
  then show ?thesis
    unfolding scheduler_ok_def groups crons assms(3)
    using scheduler_okD [OF assms(1)] assms(4) by (intro conjI allI impI) (simp_all, blast+)
qed

lemma handleTick_ok:
  assumes "scheduler_ok s" and "j < length (sm_jobs s)"
  shows "scheduler_ok (handleTick lib now j s)"
  using assms(1)
proof (rule same_jobs_ok)
  show "jb_running (sm_jobs (handleTick lib now j s) ! i) = jb_running (sm_jobs s ! i)" if "i < length (sm_jobs s)" for i
    using that by (cases "i = j") (simp_all add: handleTick_def Let_def)
qed (simp_all add: handleTick_def Let_def)

lemma scheduler_step_ok: "scheduler_ok s \<Longrightarrow> scheduler_step lib op s = Some s' \<Longrightarrow> scheduler_ok s'"
  by (cases op) (auto intro: register_ok handleTick_ok removes_ok deregisterGroup_removes
      deregisterTarget_removes deregisterGroups_ok same_jobs_ok split: if_splits)

interpretation scheduling: invariant_machine "scheduler_step lib" scheduler_ok for lib
  by unfold_locales (rule scheduler_step_ok)

lemma new_scheduler_ok: "scheduler_ok (new_scheduler leader)"
  by (simp add: scheduler_ok_def new_scheduler_def cron_at_def getGroupCrons_def)

section \<open>The times of a cron\<close>

text \<open>The library answers with times after the present.\<close>

definition later_times :: "cron_library \<Rightarrow> bool" where
  "later_times lib \<longleftrightarrow> (\<forall>e tz now. now < cl_sendAt lib e tz now)"

definition times_of :: "scheduler \<Rightarrow> nat \<Rightarrow> int list" where
  "times_of s j = map snd (filter (\<lambda>(i, t). i = j) (sm_fired s))"

definition times_ok :: "scheduler \<Rightarrow> bool" where
  "times_ok s \<longleftrightarrow> (\<forall>j. sorted_wrt (<) (times_of s j))
     \<and> (\<forall>(j, t) \<in> set (sm_fired s). j < length (sm_jobs s) \<and> t < jb_scheduledTime (sm_jobs s ! j))"

lemma same_times_ok:
  assumes "times_ok s" and "sm_fired s' = sm_fired s" and "length (sm_jobs s) \<le> length (sm_jobs s')"
    and "\<And>j. j < length (sm_jobs s) \<Longrightarrow> jb_scheduledTime (sm_jobs s' ! j) = jb_scheduledTime (sm_jobs s ! j)"
  shows "times_ok s'"
proof -
  have "j < length (sm_jobs s') \<and> t < jb_scheduledTime (sm_jobs s' ! j)" if "(j, t) \<in> set (sm_fired s)" for j t
    using that assms(1,3) assms(4) [of j] by (auto simp: times_ok_def)
  with assms(1,2) show ?thesis by (auto simp: times_ok_def times_of_def)
qed

lemma register_times:
  "times_ok s \<Longrightarrow> times_ok (fst (register lib now ctx s))"
  by (cases rule: register_cases [of lib now ctx s]) (auto intro!: same_times_ok [of s] simp: nth_append)

lemma removes_times:
  assumes "removes g P s s'" and "times_ok s"
  shows "times_ok s'"
  using assms(2)
  by (rule same_times_ok) (simp_all add: removesD [OF assms(1)] stopped_def)

lemma handleTick_times:
  assumes "later_times lib" and "times_ok s" and "j < length (sm_jobs s)" and "jb_scheduledTime (sm_jobs s ! j) \<le> now"
  shows "times_ok (handleTick lib now j s)"
proof (cases "sm_isLeader s")
  case True
  let ?job = "sm_jobs s ! j"
  have later: "now < cl_sendAt lib (jb_expression ?job) (jb_timezone ?job) now"
    using assms(1) by (simp add: later_times_def)
  have "sorted_wrt (<) (times_of (handleTick lib now j s) i)" for i
    using True assms(2) by (auto simp: handleTick_def Let_def times_of_def times_ok_def sorted_wrt_append)
  with True later assms show ?thesis
    by (force simp: times_ok_def handleTick_def Let_def nth_list_update)
qed (use assms(2) in \<open>simp add: handleTick_def\<close>)

lemma deregisterGroups_times:
  assumes "scheduler_ok s" and "times_ok s"
  shows "times_ok (deregisterGroups ty s)"
proof -
  have "times_ok (deregisterGroups ty s) \<and> scheduler_ok (deregisterGroups ty s)"
    unfolding deregisterGroups_def
    by (rule fold_invariant_set [where P = "\<lambda>s. times_ok s \<and> scheduler_ok s"])
      (use assms in \<open>auto intro: removes_times removes_ok deregisterGroup_removes\<close>)
  then show ?thesis ..
qed

lemma scheduler_step_times:
  assumes "later_times lib" and "scheduler_ok s" and "times_ok s" and "scheduler_step lib op s = Some s'"
  shows "times_ok s'"
proof (cases op)
  case (Tick now j)
  with assms show ?thesis by (auto intro: handleTick_times split: if_splits)
next
  case (Deregister_groups ty)
  with assms(2-4) show ?thesis by (auto intro: deregisterGroups_times)
next
  case (Set_leader leader)
  with assms show ?thesis by (auto intro!: same_times_ok [of s])
qed (use assms in \<open>auto intro: register_times removes_times deregisterGroup_removes deregisterTarget_removes\<close>)

definition scheduler_times_ok :: "cron_library \<Rightarrow> scheduler \<Rightarrow> bool" where
  "scheduler_times_ok lib s \<longleftrightarrow> scheduler_ok s \<and> (later_times lib \<longrightarrow> times_ok s)"

interpretation timing: invariant_machine "scheduler_step lib" "scheduler_times_ok lib" for lib
  by unfold_locales (auto simp: scheduler_times_ok_def intro: scheduler_step_ok scheduler_step_times)

lemma new_scheduler_times: "scheduler_times_ok lib (new_scheduler leader)"
  by (simp add: scheduler_times_ok_def new_scheduler_ok) (simp add: times_ok_def times_of_def new_scheduler_def)

section \<open>Properties\<close>

text \<open>
  C30. After any sequence of registrations, ticks, deregistrations and changes of leadership,
  a timer runs exactly if it belongs to a registered cron, and to one only; and each registered
  cron is filed under its group and its key.
\<close>

theorem scheduler_leaks_no_job:
  assumes "run_steps (scheduler_step lib) ops (new_scheduler leader) = Some s"
  shows "(j < length (sm_jobs s) \<and> jb_running (sm_jobs s ! j) \<longleftrightarrow> (\<exists>!(g, k, c). cron_at s g k c \<and> rc_job c = j))
    \<and> (cron_at s g k c \<longrightarrow> tc_group (rc_ctx c) = g \<and> toCronKey (rc_ctx c) = k)"
proof -
  have ok: "scheduler_ok s" using scheduling.inv_run [OF new_scheduler_ok assms] .
  have "\<exists>!(g, k, c). cron_at s g k c \<and> rc_job c = j" if "j < length (sm_jobs s)" "jb_running (sm_jobs s ! j)"
    using scheduler_okD(4) [OF ok that] same_job_same_cron [OF ok] by (fastforce intro!: ex_ex1I)
  moreover have "j < length (sm_jobs s) \<and> jb_running (sm_jobs s ! j)" if "cron_at s g k c" "rc_job c = j" for g k c
    using scheduler_okD(2) [OF ok that(1)] that(2) by blast
  ultimately show ?thesis using scheduler_okD(2) [OF ok] by blast
qed

text \<open>
  The times a cron reports for its executions grow strictly, so that each identifies one
  execution: if the library answers with times after the present, and no timer fires early.
\<close>

theorem fired_times_increase:
  assumes "run_steps (scheduler_step lib) ops (new_scheduler leader) = Some s" and "later_times lib"
  shows "sorted_wrt (<) (times_of s j)"
  using timing.inv_run [OF new_scheduler_times assms(1)] assms(2)
  by (simp add: scheduler_times_ok_def times_ok_def)

definition minutely :: cron_library where
  "minutely = \<lparr>cl_check = (\<lambda>e tz. None), cl_sendAt = (\<lambda>e tz now. 60 * (now div 60) + 60)\<rparr>"

definition workflow_cron :: "string \<Rightarrow> string \<Rightarrow> task_context" where
  "workflow_cron workflowId nodeId = \<lparr>tc_group = \<lparr>tg_type = ''workflow'', tg_id = workflowId\<rparr>,
     tc_targetId = nodeId, tc_timezone = ''UTC'', tc_expression = ''0 * * * * *'', tc_recurrence = None\<rparr>"

definition cron_history :: "scheduler_op list" where
  "cron_history = [Register 5 (workflow_cron ''w'' ''a''), Register 5 (workflow_cron ''w'' ''b''), Tick 60 0,
     Register 70 (workflow_cron ''w'' ''a''), Tick 121 0,
     Deregister_target \<lparr>tg_type = ''workflow'', tg_id = ''w''\<rparr> ''b'']"

lemma scheduler_leaks_no_job_witness:
  "\<exists>s. run_steps (scheduler_step minutely) cron_history (new_scheduler True) = Some s
    \<and> map jb_running (sm_jobs s) = [True, False]
    \<and> (\<exists>!(g, k, c). cron_at s g k c \<and> rc_job c = 0)"
proof -
  have "map_option (\<lambda>s. map jb_running (sm_jobs s))
      (run_steps (scheduler_step minutely) cron_history (new_scheduler True)) = Some [True, False]" by code_simp
  then obtain s where run: "run_steps (scheduler_step minutely) cron_history (new_scheduler True) = Some s"
      and jobs: "map jb_running (sm_jobs s) = [True, False]"
    unfolding map_option_eq_Some by iprover
  from jobs have "0 < length (sm_jobs s) \<and> jb_running (sm_jobs s ! 0)" by (cases "sm_jobs s") auto
  with scheduler_leaks_no_job [OF run, THEN conjunct1] have "\<exists>!(g, k, c). cron_at s g k c \<and> rc_job c = 0"
    by (rule iffD1)
  with run jobs show ?thesis by (intro exI conjI)
qed

lemma fired_times_increase_witness:
  "\<exists>s. run_steps (scheduler_step minutely) cron_history (new_scheduler True) = Some s
    \<and> times_of s 0 = [60, 120] \<and> sorted_wrt (<) (times_of s 0)"
proof -
  have "map_option (\<lambda>s. map snd (filter (\<lambda>(i, t). i = 0) (sm_fired s)))
      (run_steps (scheduler_step minutely) cron_history (new_scheduler True)) = Some [60, 120]" by code_simp
  then obtain s where run: "run_steps (scheduler_step minutely) cron_history (new_scheduler True) = Some s"
      and "times_of s 0 = [60, 120]"
    unfolding map_option_eq_Some times_of_def by iprover
  moreover have "later_times minutely" by (simp add: later_times_def minutely_def) presburger
  ultimately show ?thesis using fired_times_increase [OF run] by blast
qed

text \<open>
  A tick on a follower does not advance the time, although the comment in the source says that
  every tick does: a cron that is still there when its instance leads again reports a time that
  is long past.
\<close>

lemma follower_tick_is_stale:
  "map_option sm_fired (run_steps (scheduler_step minutely)
      [Register 5 (workflow_cron ''w'' ''a''), Set_leader False, Tick 60 0, Tick 120 0, Set_leader True, Tick 180 0]
      (new_scheduler True)) = Some [(0, 60)]"
  by code_simp

end
