(* ===== verification/Workflow.thy ===== *)
theory Workflow
  imports Connections "HOL-Library.List_Lexorder" "HOL-Library.Char_ord"
begin

text \<open>
  \<^verbatim>\<open>packages/workflow/src/workflow.ts\<close>: the \<^verbatim>\<open>Workflow\<close> class, which holds the nodes under their
  names and the connections in both directions, and the queries the engine asks it.

  \<^item> The node type registry is the parameter \<^verbatim>\<open>types\<close> (\<^verbatim>\<open>INodeTypes.getByNameAndVersion\<close>); what
    \<^verbatim>\<open>node-helpers.ts\<close> computes from a node type (default parameters, the outputs of a node)
    and the rewriting of one expression string (\<^verbatim>\<open>applyAccessPatterns\<close>) are parameters too.
  \<^item> The static data of a workflow, an observable object, and the expression evaluator are
    not part of the record.
\<close>

section \<open>The class and its setters\<close>

record workflow_settings =
  ws_executionOrder :: "string option"

record workflow =
  w_nodes :: inodes
  w_connectionsBySourceNode :: iconnections
  w_connectionsByDestinationNode :: iconnections
  w_active :: bool
  w_settings :: workflow_settings
  w_pinData :: "pin_data option"

record workflow_parameters =
  wp_nodes :: "inode list"
  wp_connections :: iconnections
  wp_active :: bool
  wp_settings :: "workflow_settings option"
  wp_pinData :: "pin_data option"

definition setNodes :: "inode list \<Rightarrow> workflow \<Rightarrow> workflow" where
  "setNodes nodes w = w\<lparr>w_nodes := fold (\<lambda>n. AList.update (n_name n) n) nodes []\<rparr>"

definition setConnections :: "iconnections \<Rightarrow> workflow \<Rightarrow> workflow" where
  "setConnections connections w =
     w\<lparr>w_connectionsBySourceNode := connections,
       w_connectionsByDestinationNode := mapConnectionsByDestination connections\<rparr>"

definition setPinData :: "pin_data option \<Rightarrow> workflow \<Rightarrow> workflow" where
  "setPinData pinData w = w\<lparr>w_pinData := pinData\<rparr>"

definition setSettings :: "workflow_settings \<Rightarrow> workflow \<Rightarrow> workflow" where
  "setSettings settings w = w\<lparr>w_settings := settings\<rparr>"

definition empty_workflow :: workflow where
  "empty_workflow = \<lparr>w_nodes = [], w_connectionsBySourceNode = [], w_connectionsByDestinationNode = [],
     w_active = False, w_settings = \<lparr>ws_executionOrder = None\<rparr>, w_pinData = None\<rparr>"

definition default_parameters ::
    "node_types \<Rightarrow> (node_type \<Rightarrow> inode \<Rightarrow> data_object option) \<Rightarrow> inode \<Rightarrow> inode" where
  "default_parameters types getNodeParameters n =
     (case types (n_type n) (n_typeVersion n) of None \<Rightarrow> n
      | Some nt \<Rightarrow> n\<lparr>n_parameters := (case getNodeParameters nt n of Some ps \<Rightarrow> ps | None \<Rightarrow> [])\<rparr>)"

definition new_workflow ::
    "node_types \<Rightarrow> (node_type \<Rightarrow> inode \<Rightarrow> data_object option) \<Rightarrow> workflow_parameters \<Rightarrow> workflow" where
  "new_workflow types getNodeParameters ps =
     (let nodes = map (default_parameters types getNodeParameters) (wp_nodes ps);
          w = setPinData (wp_pinData ps) (setConnections (wp_connections ps) (setNodes nodes empty_workflow));
          w = setSettings (case wp_settings ps of Some s \<Rightarrow> s | None \<Rightarrow> \<lparr>ws_executionOrder = None\<rparr>) w
      in w\<lparr>w_active := wp_active ps\<rparr>)"

definition getConnectionsByDestination :: "iconnections \<Rightarrow> iconnections" where
  "getConnectionsByDestination conns =
     fold (\<lambda>(src, ty, i, c). add_by_destination src ty i c) (entries_of conns) []"

section \<open>Queries on nodes\<close>

definition queryNodes :: "node_types \<Rightarrow> (node_type \<Rightarrow> bool) \<Rightarrow> workflow \<Rightarrow> inode list" where
  "queryNodes types checkFunction w =
     filter (\<lambda>n. n_disabled n \<noteq> Some True \<and>
               (case types (n_type n) (n_typeVersion n) of None \<Rightarrow> False | Some nt \<Rightarrow> checkFunction nt))
       (ovals (w_nodes w))"

definition getTriggerNodes :: "node_types \<Rightarrow> workflow \<Rightarrow> inode list" where
  "getTriggerNodes types w = queryNodes types nt_trigger w"

definition getPollNodes :: "node_types \<Rightarrow> workflow \<Rightarrow> inode list" where
  "getPollNodes types w = queryNodes types nt_poll w"

definition getNode :: "workflow \<Rightarrow> string \<Rightarrow> inode option" where
  "getNode w nodeName = map_of (w_nodes w) nodeName"

definition getNodes_named :: "workflow \<Rightarrow> string list \<Rightarrow> inode list" where
  "getNodes_named w nodeNames = List.map_filter (getNode w) nodeNames"

definition getPinDataOfNode :: "workflow \<Rightarrow> string \<Rightarrow> items option" where
  "getPinDataOfNode w nodeName = (case w_pinData w of None \<Rightarrow> None | Some pd \<Rightarrow> map_of pd nodeName)"

definition w_getChildNodes :: "workflow \<Rightarrow> string \<Rightarrow> ctype_filter \<Rightarrow> int \<Rightarrow> string list" where
  "w_getChildNodes w nodeName f depth = getChildNodes (w_connectionsBySourceNode w) nodeName f depth"

definition w_getParentNodes :: "workflow \<Rightarrow> string \<Rightarrow> ctype_filter \<Rightarrow> int \<Rightarrow> string list" where
  "w_getParentNodes w nodeName f depth = getParentNodes (w_connectionsByDestinationNode w) nodeName f depth"

section \<open>Renaming a node\<close>

text \<open>
  \<^verbatim>\<open>typeof null\<close> is \<^verbatim>\<open>'object'\<close> and \<^verbatim>\<open>Object.keys(null || {})\<close> is empty, so \<^verbatim>\<open>null\<close> comes back as
  an empty object.  The flag is not handed on to the elements of an array.
\<close>

function renameNodeInParameterValue ::
    "(string \<Rightarrow> string \<Rightarrow> string \<Rightarrow> string) \<Rightarrow> string \<Rightarrow> string \<Rightarrow> bool \<Rightarrow> jval \<Rightarrow> jval" where
  "renameNodeInParameterValue applyAccessPatterns cur new renamable (JStr s) =
     (if take 1 s = ''='' \<or> renamable then JStr (applyAccessPatterns s cur new) else JStr s)"
| "renameNodeInParameterValue applyAccessPatterns cur new renamable (JNum q) = JNum q"
| "renameNodeInParameterValue applyAccessPatterns cur new renamable (JBool b) = JBool b"
| "renameNodeInParameterValue applyAccessPatterns cur new renamable (JArr vs) =
     JArr (map (renameNodeInParameterValue applyAccessPatterns cur new False) vs)"
| "renameNodeInParameterValue applyAccessPatterns cur new renamable JNull = JObj []"
| "renameNodeInParameterValue applyAccessPatterns cur new renamable (JObj fs) =
     JObj (map (\<lambda>(k, v). (k, renameNodeInParameterValue applyAccessPatterns cur new renamable v)) fs)"
  by pat_completeness auto
termination
proof (relation "measure (\<lambda>(a, c, n, r, v). size v)", goal_cases)
  case (3 a c n r fs kv k v)
  then have "size v < Suc (size_list (size_prod (\<lambda>_. 0) size) fs)"
    by (induction fs) auto
  then show ?case by simp
qed (auto simp: less_Suc_eq_le size_list_estimation')

definition rename_in_object ::
    "(string \<Rightarrow> string \<Rightarrow> string \<Rightarrow> string) \<Rightarrow> string \<Rightarrow> string \<Rightarrow> data_object \<Rightarrow> data_object" where
  "rename_in_object apply cur new ps = map (\<lambda>(k, v). (k, renameNodeInParameterValue apply cur new False v)) ps"

text \<open>\<^verbatim>\<open>o.k = f(o.k)\<close>; a missing field stays missing (the code writes \<^verbatim>\<open>undefined\<close> to it).\<close>

definition rename_field :: "(jval \<Rightarrow> jval) \<Rightarrow> string \<Rightarrow> data_object \<Rightarrow> data_object" where
  "rename_field f k ps = (case map_of ps k of None \<Rightarrow> ps | Some v \<Rightarrow> AList.update k (f v) ps)"

definition renameFormFields :: "(jval \<Rightarrow> jval) \<Rightarrow> data_object \<Rightarrow> data_object" where
  "renameFormFields renameField ps =
     (case map_of ps ''formFields'' of
        Some (JObj ff) \<Rightarrow>
          (case map_of ff ''values'' of
             Some (JArr vs) \<Rightarrow>
               AList.update ''formFields''
                 (JObj (AList.update ''values''
                   (JArr (map (\<lambda>v. case v of
                        JObj fs \<Rightarrow> if map_of fs ''fieldType'' = Some (JStr ''html'')
                                   then JObj (rename_field renameField ''html'' fs) else JObj fs
                      | _ \<Rightarrow> v) vs)) ff)) ps
           | _ \<Rightarrow> ps)
      | _ \<Rightarrow> ps)"

definition restrictedKeys :: "string list" where
  "restrictedKeys = [''hasOwnProperty'', ''isPrototypeOf'', ''propertyIsEnumerable'', ''toLocaleString'',
     ''toString'', ''valueOf'', ''constructor'', ''prototype'', ''__proto__'', ''__defineGetter__'',
     ''__defineSetter__'', ''__lookupGetter__'', ''__lookupSetter__'']"

text \<open>\<^verbatim>\<open>Array.prototype.join\<close>.\<close>

fun join_with :: "string \<Rightarrow> string list \<Rightarrow> string" where
  "join_with sep [] = []"
| "join_with sep [x] = x"
| "join_with sep (x # y # xs) = x @ sep @ join_with sep (y # xs)"

text \<open>\<^verbatim>\<open>toLowerCase\<close> on the ASCII letters, which are all a restricted key has.\<close>

definition lower_char :: "char \<Rightarrow> char" where
  "lower_char c = (if 65 \<le> (of_char c :: nat) \<and> (of_char c :: nat) \<le> 90 then char_of (of_char c + 32 :: nat) else c)"

definition NODES_WITH_RENAMABLE_CONTENT :: "string list" where
  "NODES_WITH_RENAMABLE_CONTENT =
     [''n8n-nodes-base.code'', ''n8n-nodes-base.function'', ''n8n-nodes-base.functionItem'',
      ''n8n-nodes-base.aiTransform'']"

definition NODES_WITH_RENAMABLE_FORM_HTML_CONTENT :: "string list" where
  "NODES_WITH_RENAMABLE_FORM_HTML_CONTENT = [''n8n-nodes-base.form'']"

definition NODES_WITH_RENAMEABLE_TOPLEVEL_HTML_CONTENT :: "string list" where
  "NODES_WITH_RENAMEABLE_TOPLEVEL_HTML_CONTENT = [''n8n-nodes-base.mailgun'', ''n8n-nodes-base.html'']"

definition rename_parameters ::
    "(string \<Rightarrow> string \<Rightarrow> string \<Rightarrow> string) \<Rightarrow> string \<Rightarrow> string \<Rightarrow> inode \<Rightarrow> inode" where
  "rename_parameters apply cur new n =
     (let renamed = renameNodeInParameterValue apply cur new True;
          ps = rename_in_object apply cur new (n_parameters n);
          ps = (if n_type n \<in> set NODES_WITH_RENAMABLE_CONTENT then rename_field renamed ''jsCode'' ps else ps);
          ps = (if n_type n \<in> set NODES_WITH_RENAMEABLE_TOPLEVEL_HTML_CONTENT
                then rename_field renamed ''html'' ps else ps);
          ps = (if n_type n \<in> set NODES_WITH_RENAMABLE_FORM_HTML_CONTENT then renameFormFields renamed ps else ps)
      in n\<lparr>n_parameters := ps\<rparr>)"

definition rename_target :: "string \<Rightarrow> string \<Rightarrow> iconnection \<Rightarrow> iconnection" where
  "rename_target cur new c = (if c_node c = cur then c\<lparr>c_node := new\<rparr> else c)"

definition rename_key :: "string \<Rightarrow> string \<Rightarrow> (string, 'v) omap \<Rightarrow> (string, 'v) omap" where
  "rename_key cur new m =
     (case map_of m cur of None \<Rightarrow> m | Some v \<Rightarrow> AList.delete cur (AList.update new v m))"

definition rename_nodes :: "string \<Rightarrow> string \<Rightarrow> inodes \<Rightarrow> inodes" where
  "rename_nodes cur new nodes =
     (case map_of nodes cur of None \<Rightarrow> nodes
      | Some n \<Rightarrow> AList.delete cur (AList.update new (n\<lparr>n_name := new\<rparr>) nodes))"

definition rename_connections :: "string \<Rightarrow> string \<Rightarrow> iconnections \<Rightarrow> iconnections" where
  "rename_connections cur new conns =
     map (\<lambda>(src, nc). (src, map (\<lambda>(ty, groups). (ty, map (map_option (map (rename_target cur new))) groups)) nc))
       (rename_key cur new conns)"

definition renameNode ::
    "(string \<Rightarrow> string \<Rightarrow> string \<Rightarrow> string) \<Rightarrow> string \<Rightarrow> string \<Rightarrow> workflow \<Rightarrow> workflow res" where
  "renameNode applyAccessPatterns cur new w =
     (if map lower_char new \<in> set (map (map lower_char) restrictedKeys)
      then Inl (JsError ''UserError'' (''Node name \"'' @ new @ ''\" is a restricted name.'')
                  (Some (''Node names cannot be any of the following: '' @
                           join_with '', '' restrictedKeys)))
      else Inr (w\<lparr>w_nodes := map (\<lambda>(k, n). (k, rename_parameters applyAccessPatterns cur new n))
                               (rename_nodes cur new (w_nodes w)),
                  w_connectionsBySourceNode := rename_connections cur new (w_connectionsBySourceNode w)\<rparr>))"

section \<open>Searching upwards\<close>

definition main_groups :: "iconnections \<Rightarrow> string \<Rightarrow> node_input_connections option" where
  "main_groups conns nodeName =
     (case map_of conns nodeName of None \<Rightarrow> None | Some nc \<Rightarrow> map_of nc Main_t)"

definition incoming_main :: "workflow \<Rightarrow> string \<Rightarrow> nat option \<Rightarrow> iconnection list option" where
  "incoming_main w nodeName nodeConnectionIndex =
     (case main_groups (w_connectionsByDestinationNode w) nodeName of None \<Rightarrow> None
      | Some groups \<Rightarrow>
          Some (case nodeConnectionIndex of None \<Rightarrow> connections_of_groups groups | Some i \<Rightarrow> group_at groups i))"

text \<open>
  \<^verbatim>\<open>getHighestNode\<close> hands the array \<^verbatim>\<open>checkedNodes\<close> down by reference, so it is returned with
  the result.  The recursion is bounded by fuel, one unit per nested call; the lemmas below
  show that one more than the number of nodes with incoming connections is enough.
\<close>

primrec getHighestNode_fuel ::
    "nat \<Rightarrow> workflow \<Rightarrow> string \<Rightarrow> nat option \<Rightarrow> string list \<Rightarrow> (string list \<times> string list) option" where
  "getHighestNode_fuel 0 w nodeName idx checkedNodes = None"
| "getHighestNode_fuel (Suc k) w nodeName idx checkedNodes =
     (case map_of (w_nodes w) nodeName of
        None \<Rightarrow> Some ([], checkedNodes)
      | Some node \<Rightarrow>
          (let currentHighest = (if n_disabled node = Some False then [nodeName] else [])
           in case incoming_main w nodeName idx of
                None \<Rightarrow> Some (currentHighest, checkedNodes)
              | Some conns \<Rightarrow>
                  if nodeName \<in> set checkedNodes then Some (currentHighest, checkedNodes)
                  else fold_opt (\<lambda>c (returnNodes, checked).
                         if c_node c \<in> set checked then Some (returnNodes, checked)
                         else case map_of (w_nodes w) (c_node c) of
                           None \<Rightarrow> Some (returnNodes, checked)
                         | Some parent \<Rightarrow>
                             (case getHighestNode_fuel k w (c_node c) None checked of
                                None \<Rightarrow> None
                              | Some (addNodes, checked') \<Rightarrow>
                                  (let addNodes' = (if length addNodes = 0 \<and> n_disabled parent \<noteq> Some True
                                                    then [c_node c] else addNodes)
                                   in Some (fold sadd addNodes' returnNodes, checked'))))
                       conns ([], checkedNodes @ [nodeName])))"

definition highest_fuel :: "workflow \<Rightarrow> nat" where
  "highest_fuel w = Suc (Suc (length (w_connectionsByDestinationNode w)))"

definition getHighestNode :: "workflow \<Rightarrow> string \<Rightarrow> nat option \<Rightarrow> string list option" where
  "getHighestNode w nodeName idx = map_option fst (getHighestNode_fuel (highest_fuel w) w nodeName idx [])"

section \<open>Breadth first searches\<close>

record connected_node =
  cn_name :: string
  cn_indicies :: "nat list"
  cn_depth :: nat

definition dedupe :: "'a list \<Rightarrow> 'a list" where
  "dedupe xs = set_of_list xs"

text \<open>
  The visited object maps names to entries; the entries of the result are the same objects,
  so merging indices changes both and the result is the visited entries but the source's.
\<close>

type_synonym bfs_visited = "(string, connected_node) omap"

definition bfs_enqueue :: "iconnections \<Rightarrow> nat \<Rightarrow> string \<Rightarrow> connected_node list" where
  "bfs_enqueue conns depth name =
     (case main_groups conns name of None \<Rightarrow> []
      | Some groups \<Rightarrow> map (\<lambda>c. \<lparr>cn_name = c_node c, cn_indicies = [c_index c], cn_depth = depth\<rparr>)
                          (connections_of_groups groups))"

definition bfs_visit ::
    "iconnections \<Rightarrow> nat \<Rightarrow> connected_node \<Rightarrow> bfs_visited \<times> connected_node list \<Rightarrow> bfs_visited \<times> connected_node list" where
  "bfs_visit conns depth el = (\<lambda>(visited, queue).
     case map_of visited (cn_name el) of
       Some v \<Rightarrow> (AList.update (cn_name el)
                    (v\<lparr>cn_indicies := dedupe (cn_indicies v @ cn_indicies el)\<rparr>) visited, queue)
     | None \<Rightarrow> (AList.update (cn_name el) el visited, queue @ bfs_enqueue conns depth (cn_name el)))"

definition bfs_level ::
    "iconnections \<Rightarrow> nat \<Rightarrow> connected_node list \<Rightarrow> bfs_visited \<Rightarrow> bfs_visited \<times> connected_node list" where
  "bfs_level conns depth queue visited = fold (bfs_visit conns depth) queue (visited, [])"

definition main_succs :: "iconnections \<Rightarrow> string \<Rightarrow> string list" where
  "main_succs conns name =
     (case main_groups conns name of None \<Rightarrow> [] | Some groups \<Rightarrow> map c_node (connections_of_groups groups))"

lemma main_succs_no_key: "map_of conns n = None \<Longrightarrow> main_succs conns n = []"
  by (simp add: main_succs_def main_groups_def)

lemma cn_name_enqueue [simp]: "map cn_name (bfs_enqueue conns d n) = main_succs conns n"
  by (simp add: bfs_enqueue_def main_succs_def comp_def split: option.splits)

lemma bfs_fold_names:
  "fst ` set (fst (fold (bfs_visit conns d) qs (vis, q))) = fst ` set vis \<union> cn_name ` set qs \<and>
   cn_name ` set (snd (fold (bfs_visit conns d) qs (vis, q))) =
     cn_name ` set q \<union> (\<Union>u \<in> cn_name ` set qs - fst ` set vis. set (main_succs conns u))"
proof (induction qs arbitrary: vis q)
  case (Cons x qs)
  show ?case
  proof (cases "map_of vis (cn_name x)")
    case None
    then have new: "cn_name x \<notin> fst ` set vis" by (simp add: map_of_eq_None_iff)
    have step: "bfs_visit conns d x (vis, q) = (AList.update (cn_name x) x vis, q @ bfs_enqueue conns d (cn_name x))"
      using None by (simp add: bfs_visit_def)
    have "cn_name ` set (bfs_enqueue conns d (cn_name x)) = set (main_succs conns (cn_name x))"
      by (metis cn_name_enqueue list.set_map)
    then show ?thesis using new Cons.IH [of "AList.update (cn_name x) x vis" "q @ bfs_enqueue conns d (cn_name x)"]
      by (auto simp: step dom_update image_Un)
  next
    case (Some v)
    then have old: "insert (cn_name x) (fst ` set vis) = fst ` set vis" by (force dest: map_of_SomeD)
    define vis' where "vis' = AList.update (cn_name x) (v\<lparr>cn_indicies := dedupe (cn_indicies v @ cn_indicies x)\<rparr>) vis"
    have step: "bfs_visit conns d x (vis, q) = (vis', q)"
      using Some by (simp add: bfs_visit_def vis'_def)
    have "fst ` set vis' = fst ` set vis" by (simp add: vis'_def dom_update old)
    then show ?thesis using Cons.IH [of vis' q] old by (auto simp: step)
  qed
qed simp

lemma bfs_level_names:
  "fst ` set (fst (bfs_level conns d qs vis)) = fst ` set vis \<union> cn_name ` set qs"
  "cn_name ` set (snd (bfs_level conns d qs vis)) =
     (\<Union>u \<in> cn_name ` set qs - fst ` set vis. set (main_succs conns u))"
  using bfs_fold_names [of conns d qs vis "[]"] by (simp_all add: bfs_level_def)

text \<open>Every name the search can meet: the start, the keys and the targets.\<close>

definition main_universe :: "iconnections \<Rightarrow> string set" where
  "main_universe conns = fst ` set conns \<union> (\<Union>u. set (main_succs conns u))"

lemma finite_main_universe [simp]: "finite (main_universe conns)"
proof -
  have "(\<Union>u. set (main_succs conns u)) \<subseteq> (\<Union>u \<in> fst ` set conns. set (main_succs conns u))"
  proof
    fix x assume "x \<in> (\<Union>u. set (main_succs conns u))"
    then obtain u where u: "x \<in> set (main_succs conns u)" by auto
    then have "u \<in> fst ` set conns" using main_succs_no_key [of conns u]
      by (cases "map_of conns u") (auto dest: map_of_SomeD intro: rev_image_eqI)
    then show "x \<in> (\<Union>u \<in> fst ` set conns. set (main_succs conns u))" using u by auto
  qed
  then have "finite (\<Union>u. set (main_succs conns u))" by (rule finite_subset) auto
  then show ?thesis by (simp add: main_universe_def)
qed

definition bfs_measure :: "iconnections \<Rightarrow> connected_node list \<Rightarrow> bfs_visited \<Rightarrow> nat" where
  "bfs_measure conns queue visited =
     card (main_universe conns \<union> cn_name ` set queue - fst ` set visited)"

lemma bfs_level_decreases:
  assumes "bfs_level conns d queue visited = (visited', queue')"
  shows "bfs_measure conns queue' visited' < bfs_measure conns queue visited \<or>
    bfs_measure conns queue' visited' \<le> bfs_measure conns queue visited \<and> queue' = []"
proof -
  have names: "fst ` set visited' = fst ` set visited \<union> cn_name ` set queue"
    "cn_name ` set queue' = (\<Union>u \<in> cn_name ` set queue - fst ` set visited. set (main_succs conns u))"
    using bfs_level_names [of conns d queue visited] assms by simp_all
  then have in_u: "cn_name ` set queue' \<subseteq> main_universe conns" by (auto simp: main_universe_def)
  then have sub: "main_universe conns \<union> cn_name ` set queue' - fst ` set visited'
      \<subseteq> main_universe conns \<union> cn_name ` set queue - fst ` set visited" using names(1) by auto
  show ?thesis
  proof (cases "cn_name ` set queue \<subseteq> fst ` set visited")
    case True
    then have "cn_name ` set queue' = {}" using names(2) by auto
    with sub show ?thesis by (auto simp: bfs_measure_def intro: card_mono)
  next
    case False
    then obtain n where "n \<in> cn_name ` set queue" "n \<notin> fst ` set visited" by auto
    then have "n \<notin> main_universe conns \<union> cn_name ` set queue' - fst ` set visited'"
      "n \<in> main_universe conns \<union> cn_name ` set queue - fst ` set visited" using names(1) by auto
    then have "main_universe conns \<union> cn_name ` set queue' - fst ` set visited'
      \<subset> main_universe conns \<union> cn_name ` set queue - fst ` set visited" using sub by blast
    then have "bfs_measure conns queue' visited' < bfs_measure conns queue visited"
      unfolding bfs_measure_def by (rule psubset_card_mono [rotated]) simp
    then show ?thesis ..
  qed
qed

function bfs_levels :: "iconnections \<Rightarrow> int \<Rightarrow> nat \<Rightarrow> connected_node list \<Rightarrow> bfs_visited \<Rightarrow> bfs_visited" where
  "bfs_levels conns maxDepth depth queue visited =
     (if queue = [] then visited
      else if maxDepth \<noteq> -1 \<and> int depth > maxDepth then visited
      else case bfs_level conns (Suc depth) queue visited of
             (visited', queue') \<Rightarrow> bfs_levels conns maxDepth (Suc depth) queue' visited')"
  by pat_completeness auto
termination
  by (relation "measures [\<lambda>(conns, m, d, queue, visited). bfs_measure conns queue visited,
                          \<lambda>(conns, m, d, queue, visited). length queue]")
    (auto dest!: bfs_level_decreases [OF sym])

declare bfs_levels.simps [simp del]

definition searchNodesBFS :: "iconnections \<Rightarrow> string \<Rightarrow> int \<Rightarrow> connected_node list" where
  "searchNodesBFS conns sourceNode maxDepth =
     filter (\<lambda>v. cn_name v \<noteq> sourceNode)
       (ovals (bfs_levels conns maxDepth 0 [\<lparr>cn_name = sourceNode, cn_indicies = [], cn_depth = 0\<rparr>] []))"

definition getParentNodesByDepth :: "workflow \<Rightarrow> string \<Rightarrow> int \<Rightarrow> connected_node list" where
  "getParentNodesByDepth w nodeName maxDepth =
     searchNodesBFS (w_connectionsByDestinationNode w) nodeName maxDepth"

section \<open>How two nodes are connected\<close>

record inode_connection =
  nc_sourceIndex :: nat
  nc_destinationIndex :: nat

text \<open>The connections of a type into a node, each with its position in its group.\<close>

definition indexed_inputs :: "iconnections \<Rightarrow> string \<Rightarrow> string \<Rightarrow> (nat \<times> iconnection) list" where
  "indexed_inputs conns ty name =
     concat (map (\<lambda>g. case g of None \<Rightarrow> [] | Some cs \<Rightarrow> enumerate 0 cs) (typed_inputs conns name ty))"

definition typed_succs :: "iconnections \<Rightarrow> string \<Rightarrow> string \<Rightarrow> string list" where
  "typed_succs conns ty name = map (\<lambda>(i, c). c_node c) (indexed_inputs conns ty name)"

definition typed_universe :: "iconnections \<Rightarrow> string \<Rightarrow> string set" where
  "typed_universe conns ty = fst ` set conns \<union> (\<Union>u. set (typed_succs conns ty u))"

lemma typed_succs_no_key: "u \<notin> fst ` set conns \<Longrightarrow> typed_succs conns ty u = []"
  by (simp add: typed_succs_def indexed_inputs_def typed_inputs_def map_of_eq_None_iff [THEN iffD2])

lemma finite_typed_universe [simp]: "finite (typed_universe conns ty)"
proof -
  have "(\<Union>u. set (typed_succs conns ty u)) \<subseteq> (\<Union>u \<in> fst ` set conns. set (typed_succs conns ty u))"
    using typed_succs_no_key by fastforce
  then have "finite (\<Union>u. set (typed_succs conns ty u))" by (rule finite_subset) auto
  then show ?thesis by (simp add: typed_universe_def)
qed

function connection_search ::
    "iconnections \<Rightarrow> string \<Rightarrow> string \<Rightarrow> string list \<Rightarrow> string list \<Rightarrow> inode_connection option" where
  "connection_search conns ty parentNodeName [] visitedNodes = None"
| "connection_search conns ty parentNodeName (cur # queue) visitedNodes =
     (if cur \<in> set visitedNodes then connection_search conns ty parentNodeName queue visitedNodes
      else let visitedNodes' = sadd cur visitedNodes
           in case List.find (\<lambda>(i, c). parentNodeName = c_node c) (indexed_inputs conns ty cur) of
                Some (destinationIndex, c) \<Rightarrow>
                  Some \<lparr>nc_sourceIndex = c_index c, nc_destinationIndex = destinationIndex\<rparr>
              | None \<Rightarrow> connection_search conns ty parentNodeName
                          (queue @ filter (\<lambda>n. n \<notin> set visitedNodes') (typed_succs conns ty cur)) visitedNodes')"
  by pat_completeness auto
termination
proof (relation "measures [\<lambda>(conns, ty, p, queue, visited). card (typed_universe conns ty \<union> set queue - set visited),
    \<lambda>(conns, ty, p, queue, visited). length queue]", goal_cases)
  case (2 conns ty p cur queue visited)
  then have "card (typed_universe conns ty \<union> set queue - set visited)
      \<le> card (typed_universe conns ty \<union> set (cur # queue) - set visited)" by (intro card_mono) auto
  then show ?case by auto
next
  case (3 conns ty p cur queue visited visited')
  let ?queue = "queue @ filter (\<lambda>n. n \<notin> set visited') (typed_succs conns ty cur)"
  have "set (typed_succs conns ty cur) \<subseteq> typed_universe conns ty" by (auto simp: typed_universe_def)
  then have "typed_universe conns ty \<union> set ?queue - set visited'
      \<subset> typed_universe conns ty \<union> set (cur # queue) - set visited" using 3 by auto
  then have "card (typed_universe conns ty \<union> set ?queue - set visited')
      < card (typed_universe conns ty \<union> set (cur # queue) - set visited)" by (intro psubset_card_mono) auto
  then show ?case by simp
qed simp

definition getNodeConnectionIndexes ::
    "workflow \<Rightarrow> string \<Rightarrow> string \<Rightarrow> string \<Rightarrow> inode_connection option" where
  "getNodeConnectionIndexes w nodeName parentNodeName ty =
     (case getNode w parentNodeName of None \<Rightarrow> None
      | Some _ \<Rightarrow> connection_search (w_connectionsByDestinationNode w) ty parentNodeName [nodeName] [])"

definition getConnectionsBetweenNodes ::
    "workflow \<Rightarrow> string list \<Rightarrow> string list \<Rightarrow> (iconnection \<times> iconnection) list" where
  "getConnectionsBetweenNodes w sources targets =
     concat (map (\<lambda>src. List.map_filter (\<lambda>(source, ty, i, c).
                 if c_node c \<in> set targets then Some (\<lparr>c_node = source, c_type = ty, c_index = i\<rparr>, c) else None)
               (case map_of (w_connectionsBySourceNode w) src of None \<Rightarrow> []
                | Some nc \<Rightarrow> entries_of [(src, nc)])) sources)"

section \<open>The start node\<close>

definition io_type :: "node_io \<Rightarrow> string" where
  "io_type io = (case io of Io_type t \<Rightarrow> t | Io_config t \<Rightarrow> t)"

text \<open>
  The recursion follows non-main connections downwards and does not remember where it was:
  \<^verbatim>\<open>None\<close> means it does not return.
\<close>

partial_function (option) getParentMainInputNode ::
    "node_types \<Rightarrow> (workflow \<Rightarrow> inode \<Rightarrow> node_type \<Rightarrow> node_io list) \<Rightarrow> workflow \<Rightarrow> inode \<Rightarrow> inode res option" where
  "getParentMainInputNode types getNodeOutputs w node =
     (case types (n_type node) (n_typeVersion node) of
        None \<Rightarrow> Some (Inr node)
      | Some nt \<Rightarrow>
          (let nonMainConnectionTypes = sort (filter (\<lambda>t. t \<noteq> Main_t) (map io_type (getNodeOutputs w node nt)));
               connected = concat (map (\<lambda>ty.
                   case map_of (w_connectionsBySourceNode w) (n_name node) of
                     None \<Rightarrow> []
                   | Some nc \<Rightarrow> if has_key nc ty then w_getChildNodes w (n_name node) (Of_type ty) (-1) else [])
                 nonMainConnectionTypes)
           in case sort connected of
                [] \<Rightarrow> Some (Inr node)
              | first # _ \<Rightarrow>
                  (case getNode w first of
                     None \<Rightarrow> Some (Inl (UnexpectedError (''Node \"'' @ first @ ''\" not found'')))
                   | Some returnNode \<Rightarrow> getParentMainInputNode types getNodeOutputs w returnNode)))"

definition MANUAL_CHAT_TRIGGER_LANGCHAIN_NODE_TYPE :: string where
  "MANUAL_CHAT_TRIGGER_LANGCHAIN_NODE_TYPE = ''@n8n/n8n-nodes-langchain.manualChatTrigger''"

definition STARTING_NODE_TYPES :: "string list" where
  "STARTING_NODE_TYPES = [''n8n-nodes-base.manualTrigger'', ''n8n-nodes-base.executeWorkflowTrigger'',
     ''n8n-nodes-base.errorTrigger'', ''n8n-nodes-base.evaluationTrigger'', ''n8n-nodes-base.formTrigger'']"

definition index_of :: "'a list \<Rightarrow> 'a \<Rightarrow> int" where
  "index_of xs x = (if x \<in> set xs then int (length (takeWhile (\<lambda>y. y \<noteq> x) xs)) else -1)"

primrec first_trigger :: "node_types \<Rightarrow> workflow \<Rightarrow> string list \<Rightarrow> inode option res" where
  "first_trigger types w [] = Inr None"
| "first_trigger types w (nodeName # names) =
     (case map_of (w_nodes w) nodeName of
        None \<Rightarrow> Inl (TypeError ''Cannot read properties of undefined'')
      | Some node \<Rightarrow>
          (case types (n_type node) (n_typeVersion node) of
             None \<Rightarrow> Inl (TypeError ''Cannot read properties of undefined'')
           | Some nt \<Rightarrow>
               if nt_name nt = MANUAL_CHAT_TRIGGER_LANGCHAIN_NODE_TYPE then first_trigger types w names
               else if (nt_trigger nt \<or> nt_poll nt) \<and> n_disabled node \<noteq> Some True then Inr (Some node)
               else first_trigger types w names))"

primrec first_starting :: "workflow \<Rightarrow> string list \<Rightarrow> inode option res" where
  "first_starting w [] = Inr None"
| "first_starting w (nodeName # names) =
     (case map_of (w_nodes w) nodeName of
        None \<Rightarrow> Inl (TypeError ''Cannot read properties of undefined'')
      | Some node \<Rightarrow>
          if n_type node \<in> set STARTING_NODE_TYPES \<and> n_disabled node \<noteq> Some True then Inr (Some node)
          else first_starting w names)"

definition getStartNode_of :: "node_types \<Rightarrow> workflow \<Rightarrow> string list \<Rightarrow> inode option res" where
  "getStartNode_of types w nodeNames =
     (let single = (case nodeNames of
                      [name] \<Rightarrow> (case map_of (w_nodes w) name of
                                   Some node \<Rightarrow> if is_disabled node then None else Some node | None \<Rightarrow> None)
                    | _ \<Rightarrow> None);
          byStartingType = (\<lambda>a b. index_of STARTING_NODE_TYPES (n_type a) - index_of STARTING_NODE_TYPES (n_type b))
      in case single of
           Some node \<Rightarrow> Inr (Some node)
         | None \<Rightarrow> bind_res (first_trigger types w nodeNames) (\<lambda>found. case found of
             Some node \<Rightarrow> Inr (Some node)
           | None \<Rightarrow> first_starting w (map n_name (sort_cmp byStartingType (ovals (w_nodes w))))))"

definition getStartNode :: "node_types \<Rightarrow> workflow \<Rightarrow> string option \<Rightarrow> inode option res option" where
  "getStartNode types w destinationNode =
     (case destinationNode of
        Some (c # cs) \<Rightarrow>
          (case getHighestNode w (c # cs) None of None \<Rightarrow> None
           | Some names \<Rightarrow>
               (let nodeNames = (if length names = 0 then [c # cs] else names)
                in Some (bind_res (getStartNode_of types w nodeNames) (\<lambda>r.
                     case r of Some node \<Rightarrow> Inr (Some node)
                     | None \<Rightarrow> Inr (map_of (w_nodes w) (hd nodeNames))))))
      | _ \<Rightarrow> Some (getStartNode_of types w (okeys (w_nodes w))))"

section \<open>The invariant of the class\<close>

text \<open>Nodes are filed under their names and the two connection tables mirror each other.\<close>

definition nodes_named :: "inodes \<Rightarrow> bool" where
  "nodes_named nodes \<longleftrightarrow> distinct (okeys nodes) \<and> (\<forall>(k, n) \<in> set nodes. k = n_name n)"

definition workflow_wf :: "workflow \<Rightarrow> bool" where
  "workflow_wf w \<longleftrightarrow> nodes_named (w_nodes w)
     \<and> w_connectionsByDestinationNode w = mapConnectionsByDestination (w_connectionsBySourceNode w)"

lemma nodes_named_update: "nodes_named m \<Longrightarrow> nodes_named (AList.update (n_name n) n m)"
  by (auto simp: nodes_named_def set_update_distinct)

lemma nodes_named_fold:
  "nodes_named m \<Longrightarrow> nodes_named (fold (\<lambda>n. AList.update (n_name n) n) ns m)"
  by (induction ns arbitrary: m) (auto intro: nodes_named_update)

lemma new_workflow_sel:
  "w_nodes (new_workflow types f ps) =
     fold (\<lambda>n. AList.update (n_name n) n) (map (default_parameters types f) (wp_nodes ps)) []"
  "w_connectionsBySourceNode (new_workflow types f ps) = wp_connections ps"
  "w_connectionsByDestinationNode (new_workflow types f ps) = mapConnectionsByDestination (wp_connections ps)"
  by (simp_all add: new_workflow_def setSettings_def setPinData_def setConnections_def setNodes_def Let_def)

lemma default_parameters_name [simp]: "n_name (default_parameters types f n) = n_name n"
  by (simp add: default_parameters_def split: option.splits)

lemma map_of_fold_nodes:
  "map_of (fold (\<lambda>n. AList.update (n_name n) n) ns m) k =
   (case List.find (\<lambda>n. n_name n = k) (rev ns) of None \<Rightarrow> map_of m k | Some n \<Rightarrow> Some n)"
  by (induction ns rule: rev_induct) auto

lemma find_map: "List.find P (map f xs) = map_option f (List.find (\<lambda>x. P (f x)) xs)"
  by (induction xs) auto

text \<open>
  A new workflow files every node it is given under the node's name (of two nodes of one
  name the later one is kept), with default parameters filled in where the type is known,
  and its two connection tables mirror each other.
\<close>

theorem new_workflow_wf:
  "workflow_wf (new_workflow types f ps)
   \<and> set (okeys (w_nodes (new_workflow types f ps))) = n_name ` set (wp_nodes ps)
   \<and> getNode (new_workflow types f ps) nodeName =
       map_option (default_parameters types f) (List.find (\<lambda>m. n_name m = nodeName) (rev (wp_nodes ps)))"
proof -
  let ?w = "new_workflow types f ps" and ?ns = "map (default_parameters types f) (wp_nodes ps)"
  have keys: "okeys (w_nodes ?w) = fold sadd (map n_name ?ns) []"
    unfolding new_workflow_sel using omap.keys_put_all [of n_name "\<lambda>n. n" ?ns "[]"] by simp
  have "getNode ?w nodeName =
      map_option (default_parameters types f) (List.find (\<lambda>m. n_name m = nodeName) (rev (wp_nodes ps)))"
    unfolding getNode_def new_workflow_sel map_of_fold_nodes
    by (simp add: rev_map find_map split: option.splits)
  moreover have "workflow_wf ?w"
    unfolding workflow_wf_def new_workflow_sel by (intro conjI nodes_named_fold refl) (simp add: nodes_named_def)
  moreover have "set (okeys (w_nodes ?w)) = n_name ` set (wp_nodes ps)"
    unfolding keys by (simp add: image_image)
  ultimately show ?thesis by blast
qed

section \<open>Renaming is renaming\<close>

lemma rename_parameters_name [simp]: "n_name (rename_parameters f cur new n) = n_name n"
  by (simp add: rename_parameters_def Let_def)

lemma map_of_map_value: "map_of (map (\<lambda>(k, v). (k, f v)) m) k = map_option f (map_of m k)"
  by (induction m) auto

lemma group_at_map:
  "group_at (map (map_option (map f)) groups) i = map f (group_at groups i)"
  by (auto simp: group_at_def array_get_def split: option.splits)

lemma typed_inputs_rename:
  assumes "new \<notin> set (okeys conns)" and "cur \<noteq> new" and "u \<noteq> new"
  shows "typed_inputs (rename_connections cur new conns) (if u = cur then new else u) ty =
    map (map_option (map (rename_target cur new))) (typed_inputs conns u ty)"
proof -
  have "map_of conns new = None" using assms(1) by (simp add: map_of_eq_None_iff)
  then show ?thesis using assms(2,3)
    by (auto simp: typed_inputs_def rename_connections_def map_of_map_value rename_key_def split: option.splits)
qed

text \<open>
  Renaming a node to a fresh, unrestricted name succeeds, moves the node to its new name
  with its new \<^verbatim>\<open>name\<close>, leaves every other node under its name, and renames it in the
  connections, both as a source and as a target, without adding or losing one.
\<close>

theorem renameNode_fresh:
  assumes "map lower_char new \<notin> set (map (map lower_char) restrictedKeys)"
    and "cur \<noteq> new" and "getNode w cur = Some n" and "getNode w new = None"
    and "new \<notin> set (okeys (w_connectionsBySourceNode w))"
  shows "\<exists>w'. renameNode f cur new w = Inr w'
    \<and> getNode w' cur = None
    \<and> getNode w' new = Some (rename_parameters f cur new (n\<lparr>n_name := new\<rparr>))
    \<and> (\<forall>m. m \<noteq> cur \<longrightarrow> m \<noteq> new \<longrightarrow> getNode w' m = map_option (rename_parameters f cur new) (getNode w m))
    \<and> (\<forall>u ty i. u \<noteq> new \<longrightarrow>
         group_at (typed_inputs (w_connectionsBySourceNode w') (if u = cur then new else u) ty) i =
         map (rename_target cur new) (group_at (typed_inputs (w_connectionsBySourceNode w) u ty) i))"
proof -
  let ?w = "w\<lparr>w_nodes := map (\<lambda>(k, n). (k, rename_parameters f cur new n)) (rename_nodes cur new (w_nodes w)),
              w_connectionsBySourceNode := rename_connections cur new (w_connectionsBySourceNode w)\<rparr>"
  have run: "renameNode f cur new w = Inr ?w" using assms(1) by (simp add: renameNode_def)
  have nodes: "getNode ?w m = map_option (rename_parameters f cur new)
      (if m = cur then None else if m = new then Some (n\<lparr>n_name := new\<rparr>) else getNode w m)" for m
    using assms(2,3) by (auto simp: getNode_def map_of_map_value rename_nodes_def)
  have "group_at (typed_inputs (w_connectionsBySourceNode ?w) (if u = cur then new else u) ty) i =
         map (rename_target cur new) (group_at (typed_inputs (w_connectionsBySourceNode w) u ty) i)"
    if "u \<noteq> new" for u ty i
    using typed_inputs_rename [OF assms(5,2) that, of ty] by (simp add: group_at_map)
  with run nodes assms(2) show ?thesis by (intro exI [of _ ?w]) simp
qed

definition two_node_workflow :: workflow where
  "two_node_workflow = \<lparr>w_nodes = [(''a'', plain_node 1 ''a'' ''t''), (''b'', plain_node 2 ''b'' ''t'')],
     w_connectionsBySourceNode = [(''a'', [(Main_t, [Some [main_conn ''b'' 0]])])],
     w_connectionsByDestinationNode = mapConnectionsByDestination [(''a'', [(Main_t, [Some [main_conn ''b'' 0]])])],
     w_active = False, w_settings = \<lparr>ws_executionOrder = Some ''v1''\<rparr>, w_pinData = None\<rparr>"

lemma two_node_getNode:
  "getNode two_node_workflow ''a'' = Some (plain_node 1 ''a'' ''t'')"
  "getNode two_node_workflow ''b'' = Some (plain_node 2 ''b'' ''t'')"
  "getNode two_node_workflow ''c'' = None"
  by (simp_all add: getNode_def two_node_workflow_def)

lemma c_unrestricted: "map lower_char ''c'' \<notin> set (map (map lower_char) restrictedKeys)"
  by code_simp

lemma renameNode_fresh_witness:
  "\<exists>w'. renameNode (\<lambda>s _ _. s) ''b'' ''c'' two_node_workflow = Inr w' \<and> getNode w' ''b'' = None
    \<and> group_at (typed_inputs (w_connectionsBySourceNode w') ''a'' Main_t) 0 = [main_conn ''c'' 0]"
proof -
  have "''c'' \<notin> set (okeys (w_connectionsBySourceNode two_node_workflow))"
    by (simp add: two_node_workflow_def)
  note fresh = renameNode_fresh [OF c_unrestricted _ two_node_getNode(2,3) this, of "\<lambda>s _ _. s"]
  have "''b'' \<noteq> ''c''" by simp
  note fresh = fresh [OF this]
  obtain w' where
    w': "renameNode (\<lambda>s _ _. s) ''b'' ''c'' two_node_workflow = Inr w'" "getNode w' ''b'' = None"
    and conns: "\<forall>u ty i. u \<noteq> ''c'' \<longrightarrow>
         group_at (typed_inputs (w_connectionsBySourceNode w') (if u = ''b'' then ''c'' else u) ty) i =
         map (rename_target ''b'' ''c'') (group_at (typed_inputs (w_connectionsBySourceNode two_node_workflow) u ty) i)"
    using fresh by (elim exE conjE) (rule that)
  have "group_at (typed_inputs (w_connectionsBySourceNode w') ''a'' Main_t) 0 =
         map (rename_target ''b'' ''c'') (group_at (typed_inputs (w_connectionsBySourceNode two_node_workflow) ''a'' Main_t) 0)"
    using conns [rule_format, of "''a''" Main_t 0] by simp
  moreover
  have "group_at (typed_inputs (w_connectionsBySourceNode two_node_workflow) ''a'' Main_t) 0 = [main_conn ''b'' 0]"
    by (simp add: two_node_workflow_def typed_inputs_def group_at_def array_get_def)
  ultimately show ?thesis using w'
    by (auto simp: rename_target_def main_conn_def)
qed

text \<open>
  Renaming a node to the name it has deletes it: the node is stored under the new name
  and then the old name, the same one, is deleted from the nodes and from the connections.
\<close>

theorem renameNode_same_name_deletes:
  assumes "map lower_char cur \<notin> set (map (map lower_char) restrictedKeys)"
  shows "\<exists>w'. renameNode f cur cur w = Inr w' \<and> getNode w' cur = None
    \<and> typed_inputs (w_connectionsBySourceNode w') cur ty = []"
proof -
  have "map_of (rename_nodes cur cur (w_nodes w)) cur = None"
    by (simp add: rename_nodes_def split: option.splits)
  moreover have "map_of (rename_key cur cur (w_connectionsBySourceNode w)) cur = None"
    by (simp add: rename_key_def split: option.splits)
  ultimately show ?thesis using assms
    by (auto simp: renameNode_def getNode_def map_of_map_value typed_inputs_def rename_connections_def)
qed

lemma renameNode_same_name_deletes_witness:
  "getNode two_node_workflow ''b'' \<noteq> None \<and>
   (\<exists>w'. renameNode (\<lambda>s _ _. s) ''b'' ''b'' two_node_workflow = Inr w' \<and> getNode w' ''b'' = None)"
proof -
  have "map lower_char ''b'' \<notin> set (map (map lower_char) restrictedKeys)" by code_simp
  from renameNode_same_name_deletes [OF this, of "\<lambda>s _ _. s" two_node_workflow]
  show ?thesis by (auto simp: two_node_getNode)
qed

text \<open>
  Renaming leaves the table of connections by destination as it was, and rewrites a
  parameter that is \<^verbatim>\<open>null\<close> into an empty object.
\<close>

lemma renameNode_keeps_destinations:
  "renameNode f cur new w = Inr w' \<Longrightarrow> w_connectionsByDestinationNode w' = w_connectionsByDestinationNode w"
  by (auto simp: renameNode_def split: if_splits)

lemma rename_null_parameter: "rename_in_object f cur new [(''x'', JNull)] = [(''x'', JObj [])]"
  by (simp add: rename_in_object_def)

section \<open>The highest nodes\<close>

definition parents_of :: "workflow \<Rightarrow> string \<Rightarrow> string list" where
  "parents_of w = main_succs (w_connectionsByDestinationNode w)"

definition highest_ok :: "workflow \<Rightarrow> string \<Rightarrow> string \<Rightarrow> bool" where
  "highest_ok w nodeName m \<longleftrightarrow>
     (\<exists>node. getNode w m = Some node \<and> n_disabled node \<noteq> Some True) \<and> (nodeName, m) \<in> (edges_of (parents_of w))\<^sup>*"

lemma incoming_main_parents:
  assumes "incoming_main w nodeName idx = Some conns"
  shows "nodeName \<in> fst ` set (w_connectionsByDestinationNode w)"
    and "c \<in> set conns \<Longrightarrow> c_node c \<in> set (parents_of w nodeName)"
proof -
  from assms obtain nc groups where nc: "map_of (w_connectionsByDestinationNode w) nodeName = Some nc"
    "map_of nc Main_t = Some groups"
    and conns: "conns = (case idx of None \<Rightarrow> connections_of_groups groups | Some i \<Rightarrow> group_at groups i)"
    by (auto simp: incoming_main_def main_groups_def split: option.splits)
  from nc(1) show "nodeName \<in> fst ` set (w_connectionsByDestinationNode w)" by (force dest: map_of_SomeD)
  have "set conns \<subseteq> set (connections_of_groups groups)"
    unfolding conns by (auto simp: connections_of_groups_def group_at_def array_get_def
        split: option.splits if_splits intro!: bexI nth_mem)
  then show "c \<in> set conns \<Longrightarrow> c_node c \<in> set (parents_of w nodeName)"
    using nc by (auto simp: parents_of_def main_succs_def main_groups_def)
qed

lemma highest_ok_step:
  "highest_ok w p m \<Longrightarrow> p \<in> set (parents_of w n) \<Longrightarrow> highest_ok w n m"
  by (auto simp: highest_ok_def intro: converse_rtrancl_into_rtrancl)

lemma highest_ok_parent:
  "map_of (w_nodes w) p = Some node \<Longrightarrow> n_disabled node \<noteq> Some True \<Longrightarrow> p \<in> set (parents_of w n)
     \<Longrightarrow> highest_ok w n p"
  by (auto simp: highest_ok_def getNode_def intro: r_into_rtrancl)

lemma getHighestNode_fuel_ok:
  assumes "card (fst ` set (w_connectionsByDestinationNode w) - set checked) < k"
  shows "\<exists>r checked'. getHighestNode_fuel k w nodeName idx checked = Some (r, checked')
    \<and> set checked \<subseteq> set checked' \<and> (\<forall>m \<in> set r. highest_ok w nodeName m)"
  using assms
proof (induction k arbitrary: nodeName idx checked)
  case (Suc k)
  show ?case
  proof (cases "map_of (w_nodes w) nodeName")
    case (Some node)
    define current where "current = (if n_disabled node = Some False then [nodeName] else [])"
    have current: "\<forall>m \<in> set current. highest_ok w nodeName m"
      using Some by (auto simp: current_def highest_ok_def getNode_def)
    show ?thesis
    proof (cases "incoming_main w nodeName idx")
      case None
      with Some current show ?thesis by (simp add: current_def [symmetric] Let_def)
    next
      case conns: (Some conns)
      show ?thesis
      proof (cases "nodeName \<in> set checked")
        case True
        with Some conns current show ?thesis by (simp add: current_def [symmetric] Let_def)
      next
        case False
        let ?D = "fst ` set (w_connectionsByDestinationNode w)"
        note parents = incoming_main_parents [OF conns]
        let ?P = "\<lambda>(ret, ch). set (checked @ [nodeName]) \<subseteq> set ch \<and> (\<forall>m \<in> set ret. highest_ok w nodeName m)"
        let ?f = "\<lambda>c (returnNodes, checked).
                         if c_node c \<in> set checked then Some (returnNodes, checked)
                         else case map_of (w_nodes w) (c_node c) of
                           None \<Rightarrow> Some (returnNodes, checked)
                         | Some parent \<Rightarrow>
                             (case getHighestNode_fuel k w (c_node c) None checked of
                                None \<Rightarrow> None
                              | Some (addNodes, checked') \<Rightarrow>
                                  (let addNodes' = (if length addNodes = 0 \<and> n_disabled parent \<noteq> Some True
                                                    then [c_node c] else addNodes)
                                   in Some (fold sadd addNodes' returnNodes, checked')))"
        have "\<exists>s'. fold_opt ?f conns ([], checked @ [nodeName]) = Some s' \<and> ?P s'"
        proof (rule fold_opt_total)
          fix c s
          assume c: "c \<in> set conns" and P: "?P s"
          obtain ret ch where s: "s = (ret, ch)" by (cases s)
          have step: "c_node c \<in> set (parents_of w nodeName)" by (rule parents(2) [OF c])
          show "\<exists>s'. ?f c s = Some s' \<and> ?P s'"
          proof (cases "c_node c \<in> set ch \<or> map_of (w_nodes w) (c_node c) = None")
            case True
            then show ?thesis using P by (auto simp: s)
          next
            case visit: False
            then obtain parent where parent: "map_of (w_nodes w) (c_node c) = Some parent" by auto
            have "?D - set ch \<subset> ?D - set checked" using P parents(1) False by (auto simp: s)
            then have "card (?D - set ch) < card (?D - set checked)" by (intro psubset_card_mono) auto
            then have "card (?D - set ch) < k" using Suc.prems by linarith
            from Suc.IH [OF this, of "c_node c" None] obtain r ch' where
              rec: "getHighestNode_fuel k w (c_node c) None ch = Some (r, ch')" "set ch \<subseteq> set ch'"
              and r: "\<forall>m \<in> set r. highest_ok w (c_node c) m" by auto
            have "\<forall>m \<in> set (if length r = 0 \<and> n_disabled parent \<noteq> Some True then [c_node c] else r).
                    highest_ok w nodeName m"
              using r highest_ok_step [OF _ step] highest_ok_parent [OF parent _ step] by auto
            then show ?thesis using P visit parent rec by (auto simp: s Let_def)
          qed
        qed auto
        then show ?thesis using Some conns False by (auto simp: Let_def)
      qed
    qed
  qed simp
qed simp



section \<open>The breadth first searches\<close>

lemma connection_search_ok:
  "(\<forall>r. connection_search conns ty p queue visited = Some r \<longrightarrow>
      (\<exists>u i c. (\<exists>q \<in> set queue. (q, u) \<in> (edges_of (typed_succs conns ty))\<^sup>*) \<and> (i, c) \<in> set (indexed_inputs conns ty u)
         \<and> c_node c = p \<and> r = \<lparr>nc_sourceIndex = c_index c, nc_destinationIndex = i\<rparr>))
   \<and> (connection_search conns ty p queue visited = None \<longrightarrow>
      (\<exists>S. set visited \<union> set queue \<subseteq> S
         \<and> (\<forall>x \<in> S - set visited. p \<notin> set (typed_succs conns ty x) \<and> set (typed_succs conns ty x) \<subseteq> S)))"
proof (induction conns ty p queue visited rule: connection_search.induct)
  case (1 conns ty p visited)
  show ?case by (auto intro: exI [of _ "set visited"])
next
  case (2 conns ty p cur queue visited)
  show ?case
  proof (cases "cur \<in> set visited")
    case True
    note IH = 2(1) [OF True]
    have eq: "connection_search conns ty p (cur # queue) visited = connection_search conns ty p queue visited"
      using True by simp
    show ?thesis unfolding eq
    proof (intro conjI allI impI)
      fix r assume "connection_search conns ty p queue visited = Some r"
      with IH obtain q u i c where "q \<in> set queue" "(q, u) \<in> (edges_of (typed_succs conns ty))\<^sup>*"
        "(i, c) \<in> set (indexed_inputs conns ty u) \<and> c_node c = p
          \<and> r = \<lparr>nc_sourceIndex = c_index c, nc_destinationIndex = i\<rparr>" by blast
      then show "\<exists>u i c. (\<exists>q \<in> set (cur # queue). (q, u) \<in> (edges_of (typed_succs conns ty))\<^sup>*)
          \<and> (i, c) \<in> set (indexed_inputs conns ty u) \<and> c_node c = p
          \<and> r = \<lparr>nc_sourceIndex = c_index c, nc_destinationIndex = i\<rparr>"
        by (intro exI [of _ u] exI [of _ i] exI [of _ c]) auto
    next
      assume "connection_search conns ty p queue visited = None"
      with IH obtain S where "set visited \<union> set queue \<subseteq> S"
        "\<forall>x \<in> S - set visited. p \<notin> set (typed_succs conns ty x) \<and> set (typed_succs conns ty x) \<subseteq> S" by blast
      with True show "\<exists>S. set visited \<union> set (cur # queue) \<subseteq> S
          \<and> (\<forall>x \<in> S - set visited. p \<notin> set (typed_succs conns ty x) \<and> set (typed_succs conns ty x) \<subseteq> S)"
        by (intro exI [of _ S] conjI) (simp_all add: subset_iff)
    qed
  next
    case False
    show ?thesis
    proof (cases "List.find (\<lambda>(i, c). p = c_node c) (indexed_inputs conns ty cur)")
      case (Some ic)
      obtain i c where ic: "ic = (i, c)" by (cases ic)
      from find_in_set [OF Some] have "(i, c) \<in> set (indexed_inputs conns ty cur)" "c_node c = p" by (auto simp: ic)
      then show ?thesis using False Some by (auto simp: ic Let_def)
    next
      case None
      define queue' where "queue' = queue @ filter (\<lambda>n. n \<notin> set (sadd cur visited)) (typed_succs conns ty cur)"
      have eq: "connection_search conns ty p (cur # queue) visited = connection_search conns ty p queue' (sadd cur visited)"
        using False None by (simp add: Let_def queue'_def)
      note IH = 2(2) [OF False refl None, folded queue'_def]
      have p: "p \<notin> set (typed_succs conns ty cur)"
        using None by (auto simp: find_None_iff typed_succs_def)
      show ?thesis unfolding eq
      proof (intro conjI allI impI)
        fix r assume "connection_search conns ty p queue' (sadd cur visited) = Some r"
        with IH obtain q u i c where q: "q \<in> set queue'" "(q, u) \<in> (edges_of (typed_succs conns ty))\<^sup>*"
          and rest: "(i, c) \<in> set (indexed_inputs conns ty u)" "c_node c = p"
            "r = \<lparr>nc_sourceIndex = c_index c, nc_destinationIndex = i\<rparr>" by blast
        have "\<exists>q \<in> set (cur # queue). (q, u) \<in> (edges_of (typed_succs conns ty))\<^sup>*"
        proof (cases "q \<in> set queue")
          case False
          then have "(cur, q) \<in> edges_of (typed_succs conns ty)" using q(1) by (auto simp: queue'_def)
          from converse_rtrancl_into_rtrancl [OF this q(2)] show ?thesis by simp
        qed (use q(2) in auto)
        with rest show "\<exists>u i c. (\<exists>q \<in> set (cur # queue). (q, u) \<in> (edges_of (typed_succs conns ty))\<^sup>*)
          \<and> (i, c) \<in> set (indexed_inputs conns ty u) \<and> c_node c = p
          \<and> r = \<lparr>nc_sourceIndex = c_index c, nc_destinationIndex = i\<rparr>" by blast
      next
        assume "connection_search conns ty p queue' (sadd cur visited) = None"
        with IH obtain S where S: "set (sadd cur visited) \<union> set queue' \<subseteq> S"
          "\<forall>x \<in> S - set (sadd cur visited). p \<notin> set (typed_succs conns ty x) \<and> set (typed_succs conns ty x) \<subseteq> S"
          by blast
        have "set (typed_succs conns ty cur) \<subseteq> S" using S(1) by (auto simp: queue'_def)
        with p have "p \<notin> set (typed_succs conns ty x) \<and> set (typed_succs conns ty x) \<subseteq> S" if "x \<in> S - set visited" for x
          using S(2) that by (cases "x = cur") simp_all
        moreover have "set visited \<union> set (cur # queue) \<subseteq> S" using S(1) by (auto simp: queue'_def)
        ultimately show "\<exists>S. set visited \<union> set (cur # queue) \<subseteq> S
          \<and> (\<forall>x \<in> S - set visited. p \<notin> set (typed_succs conns ty x) \<and> set (typed_succs conns ty x) \<subseteq> S)" by blast
      qed
    qed
  qed
qed

text \<open>
  \<^verbatim>\<open>getNodeConnectionIndexes\<close> answers exactly if the parent node exists and leads, over one
  or more connections of the type, to the node; the answer is read off a connection of the
  workflow that comes from the parent.
\<close>

theorem getNodeConnectionIndexes_correct:
  "(getNodeConnectionIndexes w nodeName p ty \<noteq> None \<longleftrightarrow>
      getNode w p \<noteq> None \<and> (nodeName, p) \<in> (edges_of (typed_succs (w_connectionsByDestinationNode w) ty))\<^sup>+)
   \<and> (\<forall>r. getNodeConnectionIndexes w nodeName p ty = Some r \<longrightarrow>
      (\<exists>u c. (nodeName, u) \<in> (edges_of (typed_succs (w_connectionsByDestinationNode w) ty))\<^sup>*
         \<and> (nc_destinationIndex r, c) \<in> set (indexed_inputs (w_connectionsByDestinationNode w) ty u)
         \<and> c_node c = p \<and> c_index c = nc_sourceIndex r))"
proof -
  let ?d = "w_connectionsByDestinationNode w"
  let ?E = "edges_of (typed_succs ?d ty)"
  note ok = connection_search_ok [of ?d ty p "[nodeName]" "[]"]
  have found: "\<exists>u c. (nodeName, u) \<in> ?E\<^sup>* \<and> (nc_destinationIndex r, c) \<in> set (indexed_inputs ?d ty u)
         \<and> c_node c = p \<and> c_index c = nc_sourceIndex r" if "connection_search ?d ty p [nodeName] [] = Some r" for r
  proof -
    from ok that obtain u i c where "(nodeName, u) \<in> ?E\<^sup>*" "(i, c) \<in> set (indexed_inputs ?d ty u)" "c_node c = p"
      "r = \<lparr>nc_sourceIndex = c_index c, nc_destinationIndex = i\<rparr>" by auto
    then show ?thesis by auto
  qed
  have "(nodeName, p) \<in> ?E\<^sup>+" if "connection_search ?d ty p [nodeName] [] = Some r" for r
  proof -
    from found [OF that] obtain u c where u: "(nodeName, u) \<in> ?E\<^sup>*"
      "(nc_destinationIndex r, c) \<in> set (indexed_inputs ?d ty u)" "c_node c = p" by blast
    then have "(u, p) \<in> ?E" by (force simp: typed_succs_def)
    with u(1) show ?thesis by (rule rtrancl_into_trancl1)
  qed
  moreover have "(nodeName, p) \<notin> ?E\<^sup>+" if "connection_search ?d ty p [nodeName] [] = None"
  proof
    assume "(nodeName, p) \<in> ?E\<^sup>+"
    then obtain u where u: "(nodeName, u) \<in> ?E\<^sup>*" "(u, p) \<in> ?E" by (meson tranclD2)
    from ok that obtain S where S: "nodeName \<in> S" "\<forall>x \<in> S. p \<notin> set (typed_succs ?d ty x) \<and> set (typed_succs ?d ty x) \<subseteq> S"
      by auto
    have "u \<in> S" using S(1) _ u(1) by (rule closed_rtrancl) (use S(2) in \<open>simp add: Image_def subset_iff\<close>)
    with S(2) u(2) show False by auto
  qed
  ultimately show ?thesis using found
    by (cases "getNode w p"; cases "connection_search ?d ty p [nodeName] []")
      (simp_all add: getNodeConnectionIndexes_def)
qed

lemma getNodeConnectionIndexes_correct_witness:
  "getNodeConnectionIndexes two_node_workflow ''b'' ''a'' Main_t = Some \<lparr>nc_sourceIndex = 0, nc_destinationIndex = 0\<rparr>
   \<and> (''b'', ''a'') \<in> (edges_of (typed_succs (w_connectionsByDestinationNode two_node_workflow) Main_t))\<^sup>+"
proof -
  have "getNodeConnectionIndexes two_node_workflow ''b'' ''a'' Main_t =
      Some \<lparr>nc_sourceIndex = 0, nc_destinationIndex = 0\<rparr>" by code_simp
  then show ?thesis using getNodeConnectionIndexes_correct [of two_node_workflow "''b''" "''a''" Main_t] by auto
qed

text \<open>\<^verbatim>\<open>hops s d\<close>: what can be reached from \<^verbatim>\<open>s\<close> over fewer than \<^verbatim>\<open>d\<close> main connections.\<close>

definition main_edge :: "iconnections \<Rightarrow> (string \<times> string) set" where
  "main_edge conns = edges_of (main_succs conns)"

definition hops :: "iconnections \<Rightarrow> string \<Rightarrow> nat \<Rightarrow> string set" where
  "hops conns s d = {v. \<exists>j < d. (s, v) \<in> main_edge conns ^^ j}"

definition at_distance :: "iconnections \<Rightarrow> string \<Rightarrow> string \<Rightarrow> nat \<Rightarrow> bool" where
  "at_distance conns s v d \<longleftrightarrow> (s, v) \<in> main_edge conns ^^ d \<and> v \<notin> hops conns s d"

lemma hops_0 [simp]: "hops conns s 0 = {}"
  by (simp add: hops_def)

lemma hops_Suc: "hops conns s (Suc d) = hops conns s d \<union> {v. (s, v) \<in> main_edge conns ^^ d}"
  by (auto simp: hops_def less_Suc_eq)

lemma hops_succ: "u \<in> hops conns s d \<Longrightarrow> v \<in> set (main_succs conns u) \<Longrightarrow> v \<in> hops conns s (Suc d)"
proof -
  assume "u \<in> hops conns s d" and v: "v \<in> set (main_succs conns u)"
  then obtain j where "j < d" "(s, u) \<in> main_edge conns ^^ j" by (auto simp: hops_def)
  then have "Suc j < Suc d" "(s, v) \<in> main_edge conns ^^ Suc j" using v by (auto simp: main_edge_def)
  then show ?thesis unfolding hops_def by blast
qed

definition bfs_inv :: "iconnections \<Rightarrow> string \<Rightarrow> nat \<Rightarrow> connected_node list \<Rightarrow> bfs_visited \<Rightarrow> bool" where
  "bfs_inv conns s d queue vis \<longleftrightarrow>
     distinct (okeys vis) \<and> fst ` set vis = hops conns s d
     \<and> hops conns s d \<union> cn_name ` set queue = hops conns s (Suc d)
     \<and> (\<forall>x \<in> set queue. cn_depth x = d \<and> (s, cn_name x) \<in> main_edge conns ^^ d)
     \<and> (\<forall>(k, v) \<in> set vis. cn_name v = k \<and> at_distance conns s k (cn_depth v))"

lemma bfs_fold_entries:
  assumes "\<forall>x \<in> set qs. cn_depth x = d \<and> (s, cn_name x) \<in> main_edge conns ^^ d"
    and "distinct (okeys vis)" and "hops conns s d \<subseteq> fst ` set vis"
    and "\<forall>(k, v) \<in> set vis. cn_name v = k \<and> at_distance conns s k (cn_depth v)"
    and "\<forall>x \<in> set q. cn_depth x = d'"
  shows "distinct (okeys (fst (fold (bfs_visit conns d') qs (vis, q))))
    \<and> (\<forall>(k, v) \<in> set (fst (fold (bfs_visit conns d') qs (vis, q))). cn_name v = k \<and> at_distance conns s k (cn_depth v))
    \<and> (\<forall>x \<in> set (snd (fold (bfs_visit conns d') qs (vis, q))). cn_depth x = d')"
  using assms
proof (induction qs arbitrary: vis q)
  case (Cons x qs)
  show ?case
  proof (cases "map_of vis (cn_name x)")
    case None
    define vis' where "vis' = AList.update (cn_name x) x vis"
    define q' where "q' = q @ bfs_enqueue conns d' (cn_name x)"
    have step: "bfs_visit conns d' x (vis, q) = (vis', q')" using None by (simp add: bfs_visit_def vis'_def q'_def)
    have "cn_name x \<notin> hops conns s d" using None Cons.prems(3) by (auto simp: map_of_eq_None_iff)
    then have "at_distance conns s (cn_name x) (cn_depth x)" using Cons.prems(1) by (simp add: at_distance_def)
    then have "\<forall>(k, v) \<in> set vis'. cn_name v = k \<and> at_distance conns s k (cn_depth v)"
      using Cons.prems(2,4) by (auto simp: vis'_def set_update_distinct)
    moreover have "\<forall>x \<in> set q'. cn_depth x = d'" using Cons.prems(5)
      by (auto simp: q'_def bfs_enqueue_def split: option.splits)
    moreover have "hops conns s d \<subseteq> fst ` set vis'" using Cons.prems(3) by (auto simp: vis'_def dom_update)
    ultimately show ?thesis using Cons.IH [of vis' q'] Cons.prems(1,2) by (simp add: step vis'_def)
  next
    case (Some v)
    define v' where "v' = v\<lparr>cn_indicies := dedupe (cn_indicies v @ cn_indicies x)\<rparr>"
    define vis' where "vis' = AList.update (cn_name x) v' vis"
    have step: "bfs_visit conns d' x (vis, q) = (vis', q)" using Some by (simp add: bfs_visit_def vis'_def v'_def)
    have "cn_name v' = cn_name x \<and> at_distance conns s (cn_name x) (cn_depth v')"
      using map_of_SomeD [OF Some] Cons.prems(4) by (auto simp: v'_def)
    then have "\<forall>(k, v) \<in> set vis'. cn_name v = k \<and> at_distance conns s k (cn_depth v)"
      using Cons.prems(2,4) by (auto simp: vis'_def set_update_distinct)
    moreover have "hops conns s d \<subseteq> fst ` set vis'" using Cons.prems(3) by (auto simp: vis'_def dom_update)
    ultimately show ?thesis using Cons.IH [of vis' q] Cons.prems(1,2,5) by (simp add: step vis'_def)
  qed
qed simp

lemma bfs_inv_step:
  assumes inv: "bfs_inv conns s d queue vis" and level: "bfs_level conns (Suc d) queue vis = (vis', queue')"
  shows "bfs_inv conns s (Suc d) queue' vis'"
proof -
  have names: "fst ` set vis' = hops conns s d \<union> cn_name ` set queue"
    "cn_name ` set queue' = (\<Union>u \<in> cn_name ` set queue - hops conns s d. set (main_succs conns u))"
    using bfs_level_names [of conns "Suc d" queue vis] inv level by (simp_all add: bfs_inv_def)
  have entries: "distinct (okeys vis')" "\<forall>(k, v) \<in> set vis'. cn_name v = k \<and> at_distance conns s k (cn_depth v)"
    "\<forall>x \<in> set queue'. cn_depth x = Suc d"
    using bfs_fold_entries [of queue d s conns vis "[]" "Suc d"] inv level by (simp_all add: bfs_inv_def bfs_level_def)
  have queue: "\<And>u. u \<in> cn_name ` set queue \<Longrightarrow> (s, u) \<in> main_edge conns ^^ d" using inv by (auto simp: bfs_inv_def)
  have all: "hops conns s d \<union> cn_name ` set queue = hops conns s (Suc d)" using inv by (simp add: bfs_inv_def)
  have far: "(s, v) \<in> main_edge conns ^^ Suc d" if "v \<in> cn_name ` set queue'" for v
  proof -
    from that names(2) obtain u where "u \<in> cn_name ` set queue" "v \<in> set (main_succs conns u)" by auto
    with queue [of u] show ?thesis by (auto simp: main_edge_def)
  qed
  have "v \<in> hops conns s (Suc d) \<union> cn_name ` set queue'" if "(s, v) \<in> main_edge conns ^^ Suc d" for v
  proof -
    from that obtain u where u: "(s, u) \<in> main_edge conns ^^ d" "v \<in> set (main_succs conns u)"
      by (auto simp: main_edge_def)
    then have "u \<in> hops conns s d \<union> cn_name ` set queue" unfolding all hops_Suc by simp
    then show ?thesis using hops_succ [of u conns s d v] u(2) names(2) by blast
  qed
  then have "hops conns s (Suc d) \<union> cn_name ` set queue' = hops conns s (Suc (Suc d))"
    using far unfolding hops_Suc [of conns s "Suc d"] by blast
  with entries far names(1) all show ?thesis by (auto simp: bfs_inv_def)
qed

lemma bfs_levels_ok:
  assumes "bfs_inv conns s d queue vis"
  shows "distinct (okeys (bfs_levels conns (-1) d queue vis))
    \<and> (\<forall>(k, v) \<in> set (bfs_levels conns (-1) d queue vis). cn_name v = k \<and> at_distance conns s k (cn_depth v))
    \<and> fst ` set (bfs_levels conns (-1) d queue vis) = {v. (s, v) \<in> (main_edge conns)\<^sup>*}"
  using assms
proof (induction conns "-1 :: int" d queue vis rule: bfs_levels.induct)
  case (1 conns d queue vis)
  show ?case
  proof (cases "queue = []")
    case True
    then have closed: "hops conns s d = hops conns s (Suc d)" using 1(2) by (simp add: bfs_inv_def)
    have "v \<in> hops conns s d" if "(s, v) \<in> (main_edge conns)\<^sup>*" for v
      using that
    proof (induction rule: rtrancl_induct)
      case base
      have "s \<in> hops conns s (Suc d)" by (auto simp: hops_def intro: exI [of _ 0])
      then show ?case using closed by simp
    next
      case (step u v)
      then show ?case using hops_succ [of u conns s d v] closed by (simp add: main_edge_def)
    qed
    moreover have "hops conns s d \<subseteq> {v. (s, v) \<in> (main_edge conns)\<^sup>*}"
      by (auto simp: hops_def intro: relpow_imp_rtrancl)
    ultimately have "hops conns s d = {v. (s, v) \<in> (main_edge conns)\<^sup>*}" by blast
    moreover have "bfs_levels conns (-1) d queue vis = vis" using True by (simp add: bfs_levels.simps)
    ultimately show ?thesis using 1(2) by (simp add: bfs_inv_def)
  next
    case False
    obtain vis' queue' where level: "bfs_level conns (Suc d) queue vis = (vis', queue')" by fastforce
    have eq: "bfs_levels conns (-1) d queue vis = bfs_levels conns (-1) (Suc d) queue' vis'"
      using False level by (simp add: bfs_levels.simps [of conns "-1" d queue vis])
    show ?thesis unfolding eq
      by (rule 1(1) [OF False _ level [symmetric] bfs_inv_step [OF 1(2) level]]) simp
  qed
qed

text \<open>
  \<^verbatim>\<open>searchNodesBFS\<close> without a depth limit returns on every workflow and lists, each once,
  exactly the other nodes that can be reached over main connections; the depth it reports
  for a node is the least number of connections it takes to get there.
\<close>

theorem searchNodesBFS_shortest:
  "distinct (map cn_name (searchNodesBFS conns s (-1)))
   \<and> cn_name ` set (searchNodesBFS conns s (-1)) = {v. v \<noteq> s \<and> (s, v) \<in> (edges_of (main_succs conns))\<^sup>*}
   \<and> (\<forall>el \<in> set (searchNodesBFS conns s (-1)).
        (s, cn_name el) \<in> edges_of (main_succs conns) ^^ cn_depth el
        \<and> (\<forall>j < cn_depth el. (s, cn_name el) \<notin> edges_of (main_succs conns) ^^ j))"
proof -
  define vis where "vis = bfs_levels conns (-1) 0 [\<lparr>cn_name = s, cn_indicies = [], cn_depth = 0\<rparr>] []"
  have "bfs_inv conns s 0 [\<lparr>cn_name = s, cn_indicies = [], cn_depth = 0\<rparr>] []"
    by (auto simp: bfs_inv_def hops_Suc)
  from bfs_levels_ok [OF this] have dis: "distinct (okeys vis)"
    and entries: "\<And>k v. (k, v) \<in> set vis \<Longrightarrow> cn_name v = k \<and> at_distance conns s k (cn_depth v)"
    and names: "fst ` set vis = {v. (s, v) \<in> (main_edge conns)\<^sup>*}" by (auto simp: vis_def)
  have keys: "map cn_name (ovals vis) = okeys vis" using entries by auto
  have search: "searchNodesBFS conns s (-1) = filter (\<lambda>v. cn_name v \<noteq> s) (ovals vis)"
    by (simp add: searchNodesBFS_def vis_def)
  have "distinct (map cn_name (searchNodesBFS conns s (-1)))"
    unfolding search using dis keys by (metis distinct_map_filter)
  moreover have "cn_name ` set (ovals vis) = {v. (s, v) \<in> (main_edge conns)\<^sup>*}"
    using keys names by (metis list.set_map)
  then have "cn_name ` set (searchNodesBFS conns s (-1)) = {v. v \<noteq> s \<and> (s, v) \<in> (main_edge conns)\<^sup>*}"
    unfolding search set_filter by blast
  moreover have "(s, cn_name el) \<in> main_edge conns ^^ cn_depth el
      \<and> (\<forall>j < cn_depth el. (s, cn_name el) \<notin> main_edge conns ^^ j)" if "el \<in> set (searchNodesBFS conns s (-1))" for el
    using that entries unfolding search by (auto simp: at_distance_def hops_def)
  ultimately show ?thesis by (simp add: main_edge_def)
qed

lemma searchNodesBFS_shortest_witness:
  "searchNodesBFS [(''a'', [(Main_t, [Some [main_conn ''b'' 0, main_conn ''c'' 0]])]), (''b'', [(Main_t, [Some [main_conn ''c'' 1]])])]
      ''a'' (-1) = [\<lparr>cn_name = ''b'', cn_indicies = [0], cn_depth = 1\<rparr>, \<lparr>cn_name = ''c'', cn_indicies = [0, 1], cn_depth = 1\<rparr>]
   \<and> (''a'', ''c'') \<in> (edges_of (main_succs [(''a'', [(Main_t, [Some [main_conn ''b'' 0, main_conn ''c'' 0]])]),
         (''b'', [(Main_t, [Some [main_conn ''c'' 1]])])]))\<^sup>*"
proof -
  let ?conns = "[(''a'', [(Main_t, [Some [main_conn ''b'' 0, main_conn ''c'' 0]])]), (''b'', [(Main_t, [Some [main_conn ''c'' 1]])])]"
  have run: "searchNodesBFS ?conns ''a'' (-1) =
      [\<lparr>cn_name = ''b'', cn_indicies = [0], cn_depth = 1\<rparr>, \<lparr>cn_name = ''c'', cn_indicies = [0, 1], cn_depth = 1\<rparr>]"
    by code_simp
  then have "''c'' \<in> cn_name ` set (searchNodesBFS ?conns ''a'' (-1))" by simp
  then show ?thesis using run searchNodesBFS_shortest [of ?conns "''a''"] by blast
qed

end
