(* ===== verification/ActiveTriggers.thy ===== *)
theory ActiveTriggers
  imports ScheduledTasks Workflow
begin

text \<open>
  \<^verbatim>\<open>active-workflow-triggers.ts\<close>, \<^verbatim>\<open>workflow-active-triggers-state.ts\<close>, \<^verbatim>\<open>triggers-and-pollers.ts\<close>,
  \<^verbatim>\<open>poll-trigger-executor.ts\<close> (\<^verbatim>\<open>packages/core/src/execution-engine\<close>) and \<^verbatim>\<open>cron.ts\<close>
  (\<^verbatim>\<open>packages/workflow/src\<close>): which triggers and pollers of active workflows are registered on
  this instance.  The operations are asynchronous.  Between two awaits they are atomic; what other
  operations do during an await is a parameter, a function on the state that may depend on
  the number of the await (\<^verbatim>\<open>te_meanwhile\<close>).  What the code of the nodes answers is a parameter too.
  The state objects of workflows are shared by reference: \<^verbatim>\<open>ac_objects\<close> lists all ever made.
\<close>

section \<open>Cron expressions of poll times\<close>

datatype trigger_time =
    Custom string
  | Every_minute
  | Every_x string nat
  | Every_hour nat
  | Every_day nat nat
  | Every_week nat nat nat
  | Every_month nat nat nat

definition is_space :: "char \<Rightarrow> bool" where
  "is_space c \<longleftrightarrow> c \<in> {CHR 0x09, CHR 0x0A, CHR 0x0B, CHR 0x0C, CHR 0x0D, CHR 0x20, CHR 0xA0}"

definition trim :: "string \<Rightarrow> string" where
  "trim s = rev (dropWhile is_space (rev (dropWhile is_space s)))"

definition cron_fields :: "string list \<Rightarrow> string" where
  "cron_fields fs = concat (hd fs # map (\<lambda>f. '' '' @ f) (tl fs))"

text \<open>Hours and minutes are given in this order; \<^verbatim>\<open>randomInt(60)\<close> is drawn for the second and the minute.\<close>

definition toCronExpression :: "nat \<Rightarrow> nat \<Rightarrow> trigger_time \<Rightarrow> string res" where
  "toCronExpression randomSecond randomMinute item =
     (let second = show_nat randomSecond; any = ''*''
      in case item of
          Every_minute \<Rightarrow> Inr (cron_fields [second, any, any, any, any, any])
        | Every_hour minute \<Rightarrow> Inr (cron_fields [second, show_nat minute, any, any, any, any])
        | Every_x unit n \<Rightarrow>
            if unit = ''minutes'' then Inr (cron_fields [second, ''*/'' @ show_nat n, any, any, any, any])
            else if unit = ''hours''
            then Inr (cron_fields [second, show_nat randomMinute, ''*/'' @ show_nat n, any, any, any])
            else Inl (TypeError ''Cannot read properties of undefined'')
        | Every_day hour minute \<Rightarrow> Inr (cron_fields [second, show_nat minute, show_nat hour, any, any, any])
        | Every_week hour minute weekday \<Rightarrow>
            Inr (cron_fields [second, show_nat minute, show_nat hour, any, any, show_nat weekday])
        | Every_month hour minute dayOfMonth \<Rightarrow>
            Inr (cron_fields [second, show_nat minute, show_nat hour, show_nat dayOfMonth, any, any])
        | Custom cronExpression \<Rightarrow> Inr (trim cronExpression))"

text \<open>\<^verbatim>\<open>s.split(c)\<close>\<close>

fun split_at :: "char \<Rightarrow> string \<Rightarrow> string list" where
  "split_at c [] = [[]]"
| "split_at c (x # xs) =
     (if x = c then [] # split_at c xs
      else (case split_at c xs of [] \<Rightarrow> [[x]] | y # ys \<Rightarrow> (x # y) # ys))"

definition too_frequent :: "string \<Rightarrow> bool" where
  "too_frequent expression =
     (let fs = split_at CHR 0x20 expression in length fs = 6 \<and> CHR 0x2A \<in> set (hd fs))"

section \<open>State\<close>

text \<open>\<^verbatim>\<open>tr_close\<close>: whether the response has a close function.\<close>

record trigger_response =
  tr_ref :: nat
  tr_close :: bool

record registration =
  rg_token :: nat
  rg_response :: "trigger_response option"

record trigger_state =
  ts_registrations :: "(string, registration) omap"
  ts_pending :: int

text \<open>A poller's closure: its workflow, its node, its token; what it emits.\<close>

record poller =
  pl_workflow :: string
  pl_node :: inode
  pl_token :: nat

datatype emission = Emit poller "items list" | Emit_error poller js_error

record active =
  ac_scheduler :: scheduler
  ac_objects :: "trigger_state list"
  ac_workflows :: "(string, nat) omap"
  ac_tokens :: nat
  ac_awaits :: nat
  ac_closed :: "trigger_response list"
  ac_emitted :: "emission list"
  ac_reported :: "js_error list"

datatype close_outcome = Closed | Trigger_close_error js_error | Close_threw js_error

text \<open>A trigger function: the crons it registers, and its response, \<^verbatim>\<open>undefined\<close> or an exception.\<close>

record trigger_outcome =
  to_crons :: "(string \<times> recurrence option) list"
  to_result :: "trigger_response option res"

record trigger_env =
  te_types :: node_types
  te_manual :: bool
  te_timezone :: string
  te_cron :: cron_library
  te_clock :: "nat \<Rightarrow> int"
  te_random :: "nat \<Rightarrow> nat \<times> nat"
  te_trigger :: "nat \<Rightarrow> inode \<Rightarrow> trigger_outcome"
  te_pollTimes :: "nat \<Rightarrow> inode \<Rightarrow> trigger_time list res"
  te_poll :: "nat \<Rightarrow> inode \<Rightarrow> items list option res"
  te_close :: "nat \<Rightarrow> trigger_response \<Rightarrow> close_outcome"
  te_meanwhile :: "nat \<Rightarrow> active \<Rightarrow> active"

type_synonym active_run = "active \<times> js_error option"

definition await :: "trigger_env \<Rightarrow> active \<Rightarrow> active" where
  "await env s = te_meanwhile env (ac_awaits s) s\<lparr>ac_awaits := Suc (ac_awaits s)\<rparr>"

definition workflowScheduleGroup :: "string \<Rightarrow> task_group" where
  "workflowScheduleGroup workflowId = \<lparr>tg_type = ''workflow'', tg_id = workflowId\<rparr>"

section \<open>The state of one workflow\<close>

definition the_state :: "active \<Rightarrow> nat \<Rightarrow> trigger_state" where
  "the_state s ref = ac_objects s ! ref"

definition update_state :: "nat \<Rightarrow> (trigger_state \<Rightarrow> trigger_state) \<Rightarrow> active \<Rightarrow> active" where
  "update_state ref f s = s\<lparr>ac_objects := (ac_objects s)[ref := f (the_state s ref)]\<rparr>"

definition beginRegistration :: "nat \<Rightarrow> active \<Rightarrow> active" where
  "beginRegistration ref = update_state ref (\<lambda>ts. ts\<lparr>ts_pending := ts_pending ts + 1\<rparr>)"

definition finishRegistration :: "nat \<Rightarrow> active \<Rightarrow> active" where
  "finishRegistration ref = update_state ref (\<lambda>ts. ts\<lparr>ts_pending := ts_pending ts - 1\<rparr>)"

definition hasPendingRegistrations :: "trigger_state \<Rightarrow> bool" where
  "hasPendingRegistrations ts \<longleftrightarrow> ts_pending ts > 0"

definition isEmpty :: "trigger_state \<Rightarrow> bool" where
  "isEmpty ts \<longleftrightarrow> length (ts_registrations ts) = 0"

definition getOrCreateRegistration :: "nat \<Rightarrow> string \<Rightarrow> active \<Rightarrow> active \<times> registration" where
  "getOrCreateRegistration ref nodeId s =
     (case map_of (ts_registrations (the_state s ref)) nodeId of
        Some registration \<Rightarrow> (s, registration)
      | None \<Rightarrow>
          (let registration = \<lparr>rg_token = ac_tokens s, rg_response = None\<rparr>
           in (update_state ref (\<lambda>ts. ts\<lparr>ts_registrations :=
                 AList.update nodeId registration (ts_registrations ts)\<rparr>) (s\<lparr>ac_tokens := Suc (ac_tokens s)\<rparr>),
               registration)))"

definition addTriggerResponse :: "nat \<Rightarrow> string \<Rightarrow> trigger_response \<Rightarrow> active \<Rightarrow> active \<times> nat" where
  "addTriggerResponse ref nodeId response s =
     (case getOrCreateRegistration ref nodeId s of (s, registration) \<Rightarrow>
       (update_state ref (\<lambda>ts. ts\<lparr>ts_registrations :=
          AList.update nodeId (registration\<lparr>rg_response := Some response\<rparr>) (ts_registrations ts)\<rparr>) s,
        rg_token registration))"

definition addScheduledTrigger :: "nat \<Rightarrow> string \<Rightarrow> active \<Rightarrow> active \<times> nat" where
  "addScheduledTrigger ref nodeId s =
     (case getOrCreateRegistration ref nodeId s of (s, registration) \<Rightarrow> (s, rg_token registration))"

definition addPoller :: "nat \<Rightarrow> string \<Rightarrow> active \<Rightarrow> active \<times> nat" where
  "addPoller ref nodeId s =
     (case getOrCreateRegistration ref nodeId s of (s, registration) \<Rightarrow> (s, rg_token registration))"

definition get_response :: "trigger_state \<Rightarrow> string \<Rightarrow> trigger_response option" where
  "get_response ts nodeId =
     (case map_of (ts_registrations ts) nodeId of None \<Rightarrow> None | Some registration \<Rightarrow> rg_response registration)"

definition has_registration :: "trigger_state \<Rightarrow> string \<Rightarrow> bool" where
  "has_registration ts nodeId = has_key (ts_registrations ts) nodeId"

definition isCurrent :: "trigger_state \<Rightarrow> string \<Rightarrow> nat \<Rightarrow> bool" where
  "isCurrent ts nodeId token =
     (case map_of (ts_registrations ts) nodeId of None \<Rightarrow> False | Some registration \<Rightarrow> rg_token registration = token)"

definition delete_registration :: "nat \<Rightarrow> string \<Rightarrow> active \<Rightarrow> active" where
  "delete_registration ref nodeId =
     update_state ref (\<lambda>ts. ts\<lparr>ts_registrations := AList.delete nodeId (ts_registrations ts)\<rparr>)"

definition nodeIds :: "trigger_state \<Rightarrow> string list" where
  "nodeIds ts = okeys (ts_registrations ts)"

section \<open>The workflows\<close>

definition isActive :: "active \<Rightarrow> string \<Rightarrow> bool" where
  "isActive s workflowId = has_key (ac_workflows s) workflowId"

definition allActiveWorkflows :: "active \<Rightarrow> string list" where
  "allActiveWorkflows s = okeys (ac_workflows s)"

definition getRegisteredTriggerNodeIds :: "active \<Rightarrow> string \<Rightarrow> string list" where
  "getRegisteredTriggerNodeIds s workflowId =
     set_of_list (getTargetIds (ac_scheduler s) (workflowScheduleGroup workflowId)
       @ (case map_of (ac_workflows s) workflowId of None \<Rightarrow> [] | Some ref \<Rightarrow> nodeIds (the_state s ref)))"

definition getOrCreateWorkflowTriggersState :: "string \<Rightarrow> active \<Rightarrow> active \<times> nat" where
  "getOrCreateWorkflowTriggersState workflowId s =
     (case map_of (ac_workflows s) workflowId of
        Some ref \<Rightarrow> (s, ref)
      | None \<Rightarrow>
          (let ref = length (ac_objects s)
           in (s\<lparr>ac_objects := ac_objects s @ [\<lparr>ts_registrations = [], ts_pending = 0\<rparr>],
                 ac_workflows := AList.update workflowId ref (ac_workflows s)\<rparr>, ref)))"

definition deleteWorkflowIfEmpty :: "string \<Rightarrow> nat \<Rightarrow> active \<Rightarrow> active" where
  "deleteWorkflowIfEmpty workflowId ref s =
     (if map_of (ac_workflows s) workflowId \<noteq> Some ref then s
      else if \<not> isEmpty (the_state s ref) \<or> hasPendingRegistrations (the_state s ref) then s
      else if hasGroup (ac_scheduler s) (workflowScheduleGroup workflowId) then s
      else s\<lparr>ac_workflows := AList.delete workflowId (ac_workflows s)\<rparr>)"

definition deregister_target :: "string \<Rightarrow> string \<Rightarrow> active \<Rightarrow> active" where
  "deregister_target workflowId nodeId s =
     s\<lparr>ac_scheduler := deregisterTarget (workflowScheduleGroup workflowId) nodeId (ac_scheduler s)\<rparr>"

definition report :: "js_error \<Rightarrow> active \<Rightarrow> active" where
  "report e s = s\<lparr>ac_reported := ac_reported s @ [e]\<rparr>"

definition closeTrigger :: "trigger_env \<Rightarrow> string \<Rightarrow> trigger_response \<Rightarrow> active \<Rightarrow> active_run" where
  "closeTrigger env workflowId response s =
     (if \<not> tr_close response then normal (await env s)
      else let outcome = te_close env (ac_awaits s) response;
               s = await env (s\<lparr>ac_closed := ac_closed s @ [response]\<rparr>)
           in case outcome of
               Closed \<Rightarrow> normal s
             | Trigger_close_error e \<Rightarrow> normal (report e s)
             | Close_threw e \<Rightarrow> raised (JsError ''WorkflowDeactivationError''
                 (''Failed to deactivate trigger of workflow ID '' @ [CHR 0x22] @ workflowId @ [CHR 0x22] @ '': ''
                    @ [CHR 0x22] @ err_message e @ [CHR 0x22]) None) s)"

section \<open>Running triggers and pollers\<close>

text \<open>
  \<^verbatim>\<open>registerCron\<close> of the functions a trigger gets: the group is that of its workflow, the target
  the node.
\<close>

definition cron_context :: "trigger_env \<Rightarrow> string \<Rightarrow> string \<Rightarrow> string \<Rightarrow> recurrence option \<Rightarrow> task_context" where
  "cron_context env workflowId nodeId expression recurrence =
     \<lparr>tc_group = workflowScheduleGroup workflowId, tc_targetId = nodeId, tc_timezone = te_timezone env,
      tc_expression = expression, tc_recurrence = recurrence\<rparr>"

definition register_cron :: "trigger_env \<Rightarrow> task_context \<Rightarrow> active \<Rightarrow> active_run" where
  "register_cron env ctx s =
     (case register (te_cron env) (te_clock env (ac_awaits s)) ctx (ac_scheduler s) of (scheduler, result) \<Rightarrow>
       (s\<lparr>ac_scheduler := scheduler\<rparr>, (case result of Inl e \<Rightarrow> Some e | Inr _ \<Rightarrow> None)))"

definition runTriggerFunction ::
    "trigger_env \<Rightarrow> string \<Rightarrow> inode \<Rightarrow> active \<Rightarrow> active \<times> trigger_response option res" where
  "runTriggerFunction env workflowId node s =
     (case te_types env (n_type node) (n_typeVersion node) of
        None \<Rightarrow> (await env s, Inl (TypeError ''Cannot read properties of undefined''))
      | Some nodeType \<Rightarrow>
          if \<not> nt_trigger nodeType
          then (await env s, Inl (UnexpectedError ''Node type does not have a trigger function defined''))
          else let outcome = te_trigger env (ac_awaits s) node;
                   s = fold (\<lambda>(expression, recurrence) s.
                         fst (register_cron env (cron_context env workflowId (n_id node) expression recurrence) s))
                       (to_crons outcome) s;
                   s = await env s
               in if te_manual env \<and> to_result outcome = Inr None
                  then (s, Inl (TypeError ''Cannot set properties of undefined''))
                  else (s, to_result outcome))"

definition runPollFunction :: "trigger_env \<Rightarrow> inode \<Rightarrow> active \<Rightarrow> active \<times> items list option res" where
  "runPollFunction env node s =
     (case te_types env (n_type node) (n_typeVersion node) of
        None \<Rightarrow> (await env s, Inl (TypeError ''Cannot read properties of undefined''))
      | Some nodeType \<Rightarrow>
          if \<not> nt_poll nodeType
          then (await env s, Inl (UnexpectedError ''Node type does not have a poll function defined''))
          else (await env s, te_poll env (ac_awaits s) node))"

definition poller_is_current :: "poller \<Rightarrow> active \<Rightarrow> bool" where
  "poller_is_current p s =
     (case map_of (ac_workflows s) (pl_workflow p) of
        None \<Rightarrow> False
      | Some ref \<Rightarrow> isCurrent (the_state s ref) (n_id (pl_node p)) (pl_token p))"

definition emit_poll :: "emission \<Rightarrow> active \<Rightarrow> active" where
  "emit_poll e s = s\<lparr>ac_emitted := ac_emitted s @ [e]\<rparr>"

text \<open>The two awaits beside the poll are those for the isolate of a scheduled poll.\<close>

definition executePollTrigger :: "trigger_env \<Rightarrow> poller \<Rightarrow> bool \<Rightarrow> active \<Rightarrow> active_run" where
  "executePollTrigger env p testingTrigger s =
     (if \<not> testingTrigger \<and> \<not> poller_is_current p s then normal s
      else let s = (if testingTrigger then s else await env s)
           in case runPollFunction env (pl_node p) s of
                (s, Inr pollResponse) \<Rightarrow>
                  (let s = (if \<not> testingTrigger \<and> \<not> poller_is_current p s then s
                            else case pollResponse of None \<Rightarrow> s | Some data \<Rightarrow> emit_poll (Emit p data) s)
                   in normal (if testingTrigger then s else await env s))
              | (s, Inl e) \<Rightarrow>
                  if testingTrigger then raised e s
                  else normal (await env (if \<not> poller_is_current p s then s else emit_poll (Emit_error p e) s)))"

section \<open>Activation\<close>

definition rollback_registered :: "trigger_env \<Rightarrow> string \<Rightarrow> nat \<Rightarrow> string \<Rightarrow> active \<Rightarrow> active" where
  "rollback_registered env workflowId ref nodeId s =
     (case get_response (the_state s ref) nodeId of
        None \<Rightarrow> delete_registration ref nodeId s
      | Some response \<Rightarrow>
          (case closeTrigger env workflowId response s of (s, e) \<Rightarrow>
            delete_registration ref nodeId (case e of None \<Rightarrow> s | Some e \<Rightarrow> report e s)))"

definition rollbackPartialActivation ::
    "trigger_env \<Rightarrow> string \<Rightarrow> nat \<Rightarrow> string list \<Rightarrow> string list \<Rightarrow> active \<Rightarrow> active" where
  "rollbackPartialActivation env workflowId ref attemptedNodeIds registeredNodeIds s =
     fold (rollback_registered env workflowId ref) registeredNodeIds
       (fold (deregister_target workflowId) attemptedNodeIds s)"

definition activation_error :: "js_error \<Rightarrow> js_error" where
  "activation_error e = JsError ''WorkflowActivationError''
     (''There was a problem activating the workflow: '' @ [CHR 0x22] @ err_message e @ [CHR 0x22]) None"

text \<open>The state with the ids of the nodes attempted and registered so far.\<close>

record activation =
  av_state :: active
  av_attempted :: "string list"
  av_registered :: "string list"

definition give_up :: "trigger_env \<Rightarrow> string \<Rightarrow> nat \<Rightarrow> js_error \<Rightarrow> activation \<Rightarrow> activation \<times> js_error option" where
  "give_up env workflowId ref e a =
     raised (activation_error e)
       (a\<lparr>av_state := rollbackPartialActivation env workflowId ref (av_attempted a) (av_registered a) (av_state a)\<rparr>)"

definition start_trigger :: "trigger_env \<Rightarrow> string \<Rightarrow> nat \<Rightarrow> inode \<Rightarrow> activation \<Rightarrow> activation \<times> js_error option" where
  "start_trigger env workflowId ref node a =
     (let i = n_id node; a = a\<lparr>av_attempted := sadd i (av_attempted a)\<rparr>
      in case runTriggerFunction env workflowId node (av_state a) of
          (s, Inl e) \<Rightarrow> give_up env workflowId ref e (a\<lparr>av_state := s\<rparr>)
        | (s, Inr (Some response)) \<Rightarrow>
            normal (a\<lparr>av_state := fst (addTriggerResponse ref i response s), av_registered := sadd i (av_registered a)\<rparr>)
        | (s, Inr None) \<Rightarrow>
            if hasTarget (ac_scheduler s) (workflowScheduleGroup workflowId) i
            then normal (a\<lparr>av_state := fst (addScheduledTrigger ref i s), av_registered := sadd i (av_registered a)\<rparr>)
            else normal (a\<lparr>av_state := s\<rparr>))"

definition register_poll_cron :: "trigger_env \<Rightarrow> string \<Rightarrow> string \<Rightarrow> string \<Rightarrow> active \<Rightarrow> active_run" where
  "register_poll_cron env workflowId nodeId expression s =
     (if too_frequent expression
      then raised (UserError ''The polling interval is too short. It has to be at least a minute.'') s
      else register_cron env (cron_context env workflowId nodeId expression None) s)"

definition poll_expressions :: "trigger_env \<Rightarrow> inode \<Rightarrow> active \<Rightarrow> string list res" where
  "poll_expressions env node s =
     bind_res (te_pollTimes env (ac_awaits s) node) (\<lambda>items.
       fold_res (\<lambda>(i, item) expressions.
           case te_random env i of (randomSecond, randomMinute) \<Rightarrow>
             bind_res (toCronExpression randomSecond randomMinute item) (\<lambda>e. Inr (expressions @ [e])))
         (enumerate 0 items) [])"

definition activatePollTrigger :: "trigger_env \<Rightarrow> string \<Rightarrow> inode \<Rightarrow> nat \<Rightarrow> active \<Rightarrow> active_run" where
  "activatePollTrigger env workflowId node token s =
     (case poll_expressions env node s of
        Inl e \<Rightarrow> raised e (await env s)
      | Inr cronExpressions \<Rightarrow>
          and_then (executePollTrigger env \<lparr>pl_workflow = workflowId, pl_node = node, pl_token = token\<rparr> True s)
            (fold_run (register_poll_cron env workflowId (n_id node)) cronExpressions))"

definition start_poller :: "trigger_env \<Rightarrow> string \<Rightarrow> nat \<Rightarrow> inode \<Rightarrow> activation \<Rightarrow> activation \<times> js_error option" where
  "start_poller env workflowId ref node a =
     (let i = n_id node
      in case addPoller ref i (av_state a) of (s, token) \<Rightarrow>
        (let a = a\<lparr>av_attempted := sadd i (av_attempted a), av_registered := sadd i (av_registered a)\<rparr>
         in case activatePollTrigger env workflowId node token s of
             (s, Some e) \<Rightarrow> give_up env workflowId ref e (a\<lparr>av_state := s\<rparr>)
           | (s, None) \<Rightarrow> normal (a\<lparr>av_state := s\<rparr>)))"

definition startTriggers :: "trigger_env \<Rightarrow> string \<Rightarrow> inode list \<Rightarrow> inode list \<Rightarrow> nat \<Rightarrow> active \<Rightarrow> active_run" where
  "startTriggers env workflowId triggerFunctionNodes pollTriggerNodes ref s =
     (case and_then
         (fold_run (start_trigger env workflowId ref) triggerFunctionNodes
            \<lparr>av_state = s, av_attempted = [], av_registered = []\<rparr>)
         (fold_run (start_poller env workflowId ref) pollTriggerNodes)
      of (a, e) \<Rightarrow> (av_state a, e))"

definition nodes_among :: "string list \<Rightarrow> inode list \<Rightarrow> inode list" where
  "nodes_among ids nodes = filter (\<lambda>n. n_id n \<in> set ids) nodes"

fun finish_activation :: "string \<Rightarrow> nat \<Rightarrow> active_run \<Rightarrow> active_run" where
  "finish_activation workflowId ref (s, e) = (deleteWorkflowIfEmpty workflowId ref (finishRegistration ref s), e)"

fun activate_nodes :: "trigger_env \<Rightarrow> string \<Rightarrow> inode list \<Rightarrow> inode list \<Rightarrow> active \<times> nat \<Rightarrow> active_run" where
  "activate_nodes env workflowId triggerFunctionNodes pollTriggerNodes (s, ref) =
     finish_activation workflowId ref
       (startTriggers env workflowId triggerFunctionNodes pollTriggerNodes ref (beginRegistration ref s))"

definition add_nodes :: "trigger_env \<Rightarrow> string \<Rightarrow> inode list \<Rightarrow> inode list \<Rightarrow> active \<Rightarrow> active_run" where
  "add_nodes env workflowId triggerFunctionNodes pollTriggerNodes s =
     (if length triggerFunctionNodes = 0 \<and> length pollTriggerNodes = 0 then normal s
      else activate_nodes env workflowId triggerFunctionNodes pollTriggerNodes
             (getOrCreateWorkflowTriggersState workflowId s))"

definition addTriggers :: "trigger_env \<Rightarrow> string \<Rightarrow> workflow \<Rightarrow> string list \<Rightarrow> active \<Rightarrow> active_run" where
  "addTriggers env workflowId w ids s =
     add_nodes env workflowId (nodes_among ids (getTriggerNodes (te_types env) w))
       (nodes_among ids (getPollNodes (te_types env) w)) s"

section \<open>Deactivation\<close>

definition remove_trigger :: "trigger_env \<Rightarrow> string \<Rightarrow> nat \<Rightarrow> string \<Rightarrow> active \<Rightarrow> active_run" where
  "remove_trigger env workflowId ref nodeId s =
     (let s = deregister_target workflowId nodeId s
      in and_then
          (case get_response (the_state s ref) nodeId of
             None \<Rightarrow> normal s
           | Some response \<Rightarrow> closeTrigger env workflowId response s)
          (\<lambda>s. normal (delete_registration ref nodeId s)))"

definition removeTriggers :: "trigger_env \<Rightarrow> string \<Rightarrow> string list \<Rightarrow> active \<Rightarrow> active_run" where
  "removeTriggers env workflowId ids s =
     (case map_of (ac_workflows s) workflowId of
        None \<Rightarrow> normal (fold (deregister_target workflowId) ids s)
      | Some ref \<Rightarrow>
          and_then (fold_run (remove_trigger env workflowId ref) ids s)
            (\<lambda>s. normal (deleteWorkflowIfEmpty workflowId ref s)))"

text \<open>
  The responses are read from the map while it is iterated: the next entry is the first that was
  not visited yet.  Entries may be added during an await, so the loop has fuel.
\<close>

fun close_responses :: "trigger_env \<Rightarrow> nat \<Rightarrow> string \<Rightarrow> nat \<Rightarrow> nat list \<Rightarrow> active \<Rightarrow> active_run option" where
  "close_responses env 0 workflowId ref visited s = None"
| "close_responses env (Suc fuel) workflowId ref visited s =
     (case List.find (\<lambda>(i, r). rg_token r \<notin> set visited) (ts_registrations (the_state s ref)) of
        None \<Rightarrow> Some (normal s)
      | Some (i, r) \<Rightarrow>
          (case rg_response r of
             None \<Rightarrow> close_responses env fuel workflowId ref (rg_token r # visited) s
           | Some response \<Rightarrow>
               (case closeTrigger env workflowId response s of
                  (s, None) \<Rightarrow> close_responses env fuel workflowId ref (rg_token r # visited) s
                | (s, Some e) \<Rightarrow> Some (raised e s))))"

definition remove :: "trigger_env \<Rightarrow> nat \<Rightarrow> string \<Rightarrow> active \<Rightarrow> (active \<times> bool res) option" where
  "remove env fuel workflowId s =
     (let s = s\<lparr>ac_scheduler := fst (deregisterGroup (workflowScheduleGroup workflowId) (ac_scheduler s))\<rparr>
      in case map_of (ac_workflows s) workflowId of
           None \<Rightarrow> Some (s, Inr False)
         | Some ref \<Rightarrow>
             (case close_responses env fuel workflowId ref [] s of
                None \<Rightarrow> None
              | Some (s, Some e) \<Rightarrow> Some (s, Inl e)
              | Some (s, None) \<Rightarrow> Some (s\<lparr>ac_workflows := AList.delete workflowId (ac_workflows s)\<rparr>, Inr True)))"

definition addAllTriggers :: "trigger_env \<Rightarrow> nat \<Rightarrow> string \<Rightarrow> workflow \<Rightarrow> active \<Rightarrow> active_run option" where
  "addAllTriggers env fuel workflowId w s =
     (case remove env fuel workflowId s of
        None \<Rightarrow> None
      | Some (s, Inl e) \<Rightarrow> Some (raised e s)
      | Some (s, Inr _) \<Rightarrow>
          Some (addTriggers env workflowId w
            (map n_id (getTriggerNodes (te_types env) w @ getPollNodes (te_types env) w)) (await env s)))"

definition getNonWebhookTriggerWorkflowIds :: "active \<Rightarrow> string list" where
  "getNonWebhookTriggerWorkflowIds s = set_of_list (okeys (ac_workflows s) @ getGroupIds (ac_scheduler s) ''workflow'')"

fun remove_workflows :: "trigger_env \<Rightarrow> nat \<Rightarrow> string list \<Rightarrow> active \<Rightarrow> active_run option" where
  "remove_workflows env fuel [] s = Some (normal s)"
| "remove_workflows env fuel (i # is) s =
     (case remove env fuel i s of
        None \<Rightarrow> None
      | Some (s, Inl e) \<Rightarrow> Some (raised e s)
      | Some (s, Inr _) \<Rightarrow> remove_workflows env fuel is (await env s))"

definition removeAllNonWebhookTriggerWorkflows :: "trigger_env \<Rightarrow> nat \<Rightarrow> active \<Rightarrow> active_run option" where
  "removeAllNonWebhookTriggerWorkflows env fuel s =
     remove_workflows env fuel (getNonWebhookTriggerWorkflowIds s) s"

section \<open>What other operations may do meanwhile\<close>

text \<open>
  During each await the other operations leave the given workflow alone: its entry, its state and
  its crons.  They keep the scheduler in order and may close responses, not open them again.
\<close>

definition leaves_alone :: "string \<Rightarrow> active \<Rightarrow> active \<Rightarrow> bool" where
  "leaves_alone workflowId s s' \<longleftrightarrow>
     map_of (ac_workflows s') workflowId = map_of (ac_workflows s) workflowId
   \<and> (\<forall>ref. map_of (ac_workflows s) workflowId = Some ref \<and> ref < length (ac_objects s) \<longrightarrow>
        ref < length (ac_objects s') \<and> the_state s' ref = the_state s ref)
   \<and> getGroupCrons (ac_scheduler s') (workflowScheduleGroup workflowId)
       = getGroupCrons (ac_scheduler s) (workflowScheduleGroup workflowId)
   \<and> (scheduler_ok (ac_scheduler s) \<longrightarrow> scheduler_ok (ac_scheduler s'))
   \<and> set (ac_closed s) \<subseteq> set (ac_closed s')"

definition quiet :: "trigger_env \<Rightarrow> string \<Rightarrow> bool" where
  "quiet env workflowId \<longleftrightarrow> (\<forall>k s. leaves_alone workflowId s (te_meanwhile env k s))"

lemma the_state_frame [simp]:
  "the_state (s\<lparr>ac_awaits := n\<rparr>) ref = the_state s ref"
  "the_state (s\<lparr>ac_scheduler := sch\<rparr>) ref = the_state s ref"
  "the_state (s\<lparr>ac_closed := cs\<rparr>) ref = the_state s ref"
  "the_state (s\<lparr>ac_reported := es\<rparr>) ref = the_state s ref"
  "the_state (s\<lparr>ac_emitted := ems\<rparr>) ref = the_state s ref"
  "the_state (s\<lparr>ac_tokens := n\<rparr>) ref = the_state s ref"
  "the_state (s\<lparr>ac_workflows := ws\<rparr>) ref = the_state s ref"
  by (simp_all add: the_state_def)

lemma update_state_frame [simp]:
  "ac_scheduler (update_state ref f s) = ac_scheduler s"
  "ac_workflows (update_state ref f s) = ac_workflows s"
  "length (ac_objects (update_state ref f s)) = length (ac_objects s)"
  "ac_closed (update_state ref f s) = ac_closed s"
  "ref < length (ac_objects s) \<Longrightarrow> the_state (update_state ref f s) ref = f (the_state s ref)"
  by (simp_all add: update_state_def the_state_def)

lemma leaves_alone_await: "quiet env workflowId \<Longrightarrow> leaves_alone workflowId s (await env s)"
  by (simp add: quiet_def leaves_alone_def await_def)

section \<open>The stages of an activation\<close>

text \<open>
  One activation is under way; the crons of the workflow belong to the nodes attempted, its
  registrations to the nodes registered.
\<close>

definition stage :: "string \<Rightarrow> nat \<Rightarrow> string set \<Rightarrow> string set \<Rightarrow> active \<Rightarrow> bool" where
  "stage workflowId ref attempted registered s \<longleftrightarrow>
     scheduler_ok (ac_scheduler s)
   \<and> map_of (ac_workflows s) workflowId = Some ref \<and> ref < length (ac_objects s)
   \<and> ts_pending (the_state s ref) = 1
   \<and> set (nodeIds (the_state s ref)) \<subseteq> registered
   \<and> (\<forall>k c. cron_at (ac_scheduler s) (workflowScheduleGroup workflowId) k c \<longrightarrow> tc_targetId (rc_ctx c) \<in> attempted)"

lemma stage_mono: "stage w ref A R s \<Longrightarrow> A \<subseteq> A' \<Longrightarrow> R \<subseteq> R' \<Longrightarrow> stage w ref A' R' s"
  unfolding stage_def by blast

lemma stage_leaves_alone: "leaves_alone w s s' \<Longrightarrow> stage w ref A R s \<Longrightarrow> stage w ref A R s'"
  by (auto simp: leaves_alone_def stage_def cron_at_def)

lemma stage_await: "quiet env w \<Longrightarrow> stage w ref A R s \<Longrightarrow> stage w ref A R (await env s)"
  by (rule stage_leaves_alone [OF leaves_alone_await])

lemma stage_frame [simp]:
  "stage w ref A R (s\<lparr>ac_closed := cs\<rparr>) = stage w ref A R s"
  "stage w ref A R (s\<lparr>ac_reported := es\<rparr>) = stage w ref A R s"
  "stage w ref A R (s\<lparr>ac_emitted := ems\<rparr>) = stage w ref A R s"
  "stage w ref A R (s\<lparr>ac_tokens := n\<rparr>) = stage w ref A R s"
  by (simp_all add: stage_def)

lemma stage_register_cron:
  assumes "stage w ref A R s" and "i \<in> A"
  shows "stage w ref A R (fst (register_cron env (cron_context env w i e r) s))"
proof -
  let ?ctx = "cron_context env w i e r"
  let ?sch = "fst (register (te_cron env) (te_clock env (ac_awaits s)) ?ctx (ac_scheduler s))"
  have "tc_targetId (rc_ctx c) \<in> A" if "cron_at ?sch (workflowScheduleGroup w) k c" for k c
    using that assms
    by (cases rule: register_cases [of "te_cron env" "te_clock env (ac_awaits s)" ?ctx "ac_scheduler s"])
      (auto simp: stage_def cron_at_set cron_context_def)
  moreover have "scheduler_ok ?sch" using assms(1) by (simp add: stage_def register_ok)
  ultimately show ?thesis
    using assms(1) by (simp add: stage_def register_cron_def split_beta)
qed

lemma stage_update:
  assumes "stage w ref A R s" and "ts_pending (f (the_state s ref)) = 1" and "set (nodeIds (f (the_state s ref))) \<subseteq> R'"
  shows "stage w ref A R' (update_state ref f s)"
  using assms by (simp add: stage_def)

lemma stage_getOrCreate:
  assumes "stage w ref A R s"
  shows "stage w ref A (insert i R) (fst (getOrCreateRegistration ref i s))"
proof (cases "map_of (ts_registrations (the_state s ref)) i")
  case None
  with assms show ?thesis
    by (simp add: getOrCreateRegistration_def Let_def nodeIds_def stage_def dom_update subset_insertI2)
next
  case (Some r)
  with assms show ?thesis by (auto simp: getOrCreateRegistration_def intro: stage_mono)
qed

lemma stage_addTriggerResponse:
  assumes "stage w ref A R s"
  shows "stage w ref A (insert i R) (fst (addTriggerResponse ref i r s))"
  using stage_getOrCreate [OF assms, of i]
  by (auto simp: addTriggerResponse_def nodeIds_def stage_def okeys_update split_beta)

lemma stage_addScheduledTrigger:
  "stage w ref A R s \<Longrightarrow> stage w ref A (insert i R) (fst (addScheduledTrigger ref i s))"
  using stage_getOrCreate [of w ref A R s i] by (simp add: addScheduledTrigger_def split_beta)

lemma stage_addPoller:
  "stage w ref A R s \<Longrightarrow> stage w ref A (insert i R) (fst (addPoller ref i s))"
  using stage_getOrCreate [of w ref A R s i] by (simp add: addPoller_def split_beta)

lemma stage_deregister:
  assumes "stage w ref A R s"
  shows "stage w ref (A - {i}) R (deregister_target w i s)"
proof -
  have ok: "scheduler_ok (ac_scheduler s)" using assms by (simp add: stage_def)
  note rem = deregisterTarget_removes [OF ok, of "workflowScheduleGroup w" i]
  show ?thesis
    using assms removes_ok [OF ok rem] removesD(2) [OF rem] by (auto simp: stage_def deregister_target_def)
qed

lemma stage_delete: "stage w ref A R s \<Longrightarrow> stage w ref A (R - {i}) (delete_registration ref i s)"
  by (auto simp: stage_def delete_registration_def nodeIds_def okeys_delete)

lemma stage_close:
  "quiet env w \<Longrightarrow> stage w ref A R s \<Longrightarrow> stage w ref A R (fst (closeTrigger env w r s))"
  by (auto simp: closeTrigger_def Let_def report_def intro!: stage_await split: close_outcome.split)

lemma stage_runTrigger:
  assumes "quiet env w" and "stage w ref A R s" and "n_id node \<in> A"
  shows "stage w ref A R (fst (runTriggerFunction env w node s))"
proof -
  have "stage w ref A R (fold (\<lambda>(expression, recurrence) s.
      fst (register_cron env (cron_context env w (n_id node) expression recurrence) s)) cs s)" for cs
    by (rule fold_invariant_set) (auto intro: stage_register_cron assms)
  then show ?thesis
    using assms by (auto simp: runTriggerFunction_def Let_def intro!: stage_await split: option.split)
qed

lemma stage_runPoll:
  "quiet env w \<Longrightarrow> stage w ref A R s \<Longrightarrow> stage w ref A R (fst (runPollFunction env node s))"
  by (auto simp: runPollFunction_def intro!: stage_await split: option.split)

lemma stage_emit: "stage w ref A R (emit_poll e s) = stage w ref A R s"
  by (simp add: emit_poll_def)

lemma stage_executePoll:
  assumes "quiet env w" and "stage w ref A R s"
  shows "stage w ref A R (fst (executePollTrigger env p testing s))"
proof -
  have polled: "stage w ref A R s2" if "runPollFunction env (pl_node p) s1 = (s2, r)" "stage w ref A R s1" for s1 s2 r
    using stage_runPoll [OF assms(1) that(2), of "pl_node p"] that(1) by simp
  show ?thesis
    using assms by (auto simp: executePollTrigger_def Let_def stage_emit
        intro!: stage_await split: prod.split sum.split option.split dest!: polled)
qed

lemma stage_activatePoll:
  assumes "quiet env w" and "stage w ref A R s" and "n_id node \<in> A"
  shows "stage w ref A R (fst (activatePollTrigger env w node token s))"
proof (cases "poll_expressions env node s")
  case (Inl e)
  with assms show ?thesis by (simp add: activatePollTrigger_def stage_await)
next
  case (Inr es)
  have step: "stage w ref A R (fst (register_poll_cron env w (n_id node) e s))" if "stage w ref A R s" for e s
    using that assms(3) by (simp add: register_poll_cron_def stage_register_cron)
  from Inr show ?thesis
    unfolding activatePollTrigger_def
    by (auto intro!: and_then_invariant [where P = "stage w ref A R"] stage_executePoll assms(1,2)
        fold_run_invariant [where P = "stage w ref A R"] step)
qed

lemma stage_deregister_all:
  "stage w ref A R s \<Longrightarrow> stage w ref (A - set is) R (fold (deregister_target w) is s)"
proof (induction "is" arbitrary: A s)
  case (Cons i "is")
  have diff: "A - set (i # is) = A - {i} - set is" by auto
  from Cons.IH [OF stage_deregister [OF Cons.prems]] show ?case unfolding diff by simp
qed simp

lemma stage_rollback_registered:
  assumes "quiet env w" and "stage w ref A R s"
  shows "stage w ref A (R - {i}) (rollback_registered env w ref i s)"
proof -
  have "stage w ref A R s'" if "closeTrigger env w r s = (s', e)" for r s' e
    using stage_close [OF assms, of r] that by simp
  then show ?thesis
    using assms(2) by (auto simp: rollback_registered_def report_def intro!: stage_delete split: option.split prod.split)
qed

lemma stage_rollback_all:
  assumes "quiet env w"
  shows "stage w ref A R s \<Longrightarrow> stage w ref A (R - set is) (fold (rollback_registered env w ref) is s)"
proof (induction "is" arbitrary: R s)
  case (Cons i "is")
  have diff: "R - set (i # is) = R - {i} - set is" by auto
  from Cons.IH [OF stage_rollback_registered [OF assms Cons.prems]] show ?case unfolding diff by simp
qed simp

lemma stage_rollback:
  assumes "quiet env w" and "stage w ref (set attempted) (set registered) s"
  shows "stage w ref {} {} (rollbackPartialActivation env w ref attempted registered s)"
  using stage_rollback_all [OF assms(1) stage_deregister_all [OF assms(2), of attempted], of registered]
  by (simp add: rollbackPartialActivation_def)

section \<open>A failed activation\<close>

text \<open>An activation that goes on is at its stage; one that was given up has left nothing.\<close>

fun activation_ok :: "string \<Rightarrow> nat \<Rightarrow> activation \<times> js_error option \<Rightarrow> bool" where
  "activation_ok w ref (a, None) = stage w ref (set (av_attempted a)) (set (av_registered a)) (av_state a)"
| "activation_ok w ref (a, Some e) = (stage w ref {} {} (av_state a) \<and> err_name e = ''WorkflowActivationError'')"

lemma give_up_ok:
  assumes "quiet env w" and "stage w ref (set (av_attempted a)) (set (av_registered a)) (av_state a)"
  shows "activation_ok w ref (give_up env w ref e a)"
  by (simp add: give_up_def stage_rollback [OF assms] activation_error_def)

lemma start_trigger_ok:
  assumes "quiet env w" and "activation_ok w ref (normal a)"
  shows "activation_ok w ref (start_trigger env w ref node a)"
proof -
  let ?i = "n_id node"
  have "stage w ref (insert ?i (set (av_attempted a))) (set (av_registered a)) (av_state a)"
    using assms(2) by (auto intro: stage_mono)
  from stage_runTrigger [OF assms(1) this, of node] show ?thesis
    by (auto simp: start_trigger_def Let_def assms(1) split: prod.split sum.split option.split
        intro!: give_up_ok stage_addTriggerResponse stage_addScheduledTrigger)
qed

lemma start_poller_ok:
  assumes "quiet env w" and "activation_ok w ref (normal a)"
  shows "activation_ok w ref (start_poller env w ref node a)"
proof -
  let ?i = "n_id node"
  obtain s token where s: "addPoller ref ?i (av_state a) = (s, token)" by (cases "addPoller ref ?i (av_state a)")
  have "stage w ref (insert ?i (set (av_attempted a))) (insert ?i (set (av_registered a))) s"
    using stage_addPoller [of w ref "set (av_attempted a)" "set (av_registered a)" "av_state a" ?i] assms(2) s
    by (auto intro: stage_mono)
  from stage_activatePoll [OF assms(1) this, of node token] show ?thesis
    by (auto simp: start_poller_def Let_def s assms(1) split: prod.split option.split intro!: give_up_ok)
qed

lemma fold_activation_ok:
  assumes "\<And>x a. activation_ok w ref (normal a) \<Longrightarrow> activation_ok w ref (f x a)"
  shows "activation_ok w ref r \<Longrightarrow> activation_ok w ref (and_then r (fold_run f xs))"
proof (induction xs arbitrary: r)
  case Nil
  then show ?case by (cases "(r, fold_run f [])" rule: and_then.cases) auto
next
  case (Cons x xs)
  obtain a e where r: "r = (a, e)" by (cases r)
  show ?case
  proof (cases e)
    case None
    with Cons.prems have "activation_ok w ref (f x a)" by (intro assms) (simp add: r)
    from Cons.IH [OF this] show ?thesis by (simp add: r None)
  qed (use Cons.prems in \<open>simp add: r\<close>)
qed

lemma startTriggers_ok:
  assumes "quiet env w" and "stage w ref {} {} s" and "startTriggers env w triggerNodes pollNodes ref s = (s', Some e)"
  shows "stage w ref {} {} s' \<and> err_name e = ''WorkflowActivationError''"
proof -
  let ?a = "\<lparr>av_state = s, av_attempted = [], av_registered = []\<rparr>"
  have "activation_ok w ref (fold_run (start_trigger env w ref) triggerNodes ?a)"
    using fold_activation_ok [of w ref "start_trigger env w ref" "normal ?a" triggerNodes]
      start_trigger_ok [OF assms(1)] assms(2) by simp
  then have "activation_ok w ref (and_then (fold_run (start_trigger env w ref) triggerNodes ?a)
      (fold_run (start_poller env w ref) pollNodes))"
    by (intro fold_activation_ok start_poller_ok [OF assms(1)])
  with assms(3) show ?thesis by (auto simp: startTriggers_def split: prod.splits)
qed

lemma begin_stage:
  assumes "scheduler_ok (ac_scheduler s)" and "map_of (ac_workflows s) w = None"
    and "getGroupCrons (ac_scheduler s) (workflowScheduleGroup w) = None"
    and "getOrCreateWorkflowTriggersState w s = (s1, ref)"
  shows "stage w ref {} {} (beginRegistration ref s1)"
  using assms
  by (auto simp: getOrCreateWorkflowTriggersState_def beginRegistration_def Let_def stage_def cron_at_def
      nodeIds_def the_state_def nth_append update_state_def)

lemma no_crons:
  assumes "scheduler_ok sch" and "\<And>k c. \<not> cron_at sch g k c"
  shows "getGroupCrons sch g = None"
proof (cases "getGroupCrons sch g")
  case (Some m)
  with scheduler_okD(1) [OF assms(1)] have "m \<noteq> []" by blast
  then obtain k c rest where "m = (k, c) # rest" by (cases m) auto
  then have "cron_at sch g k c" using Some by (simp add: cron_at_def)
  with assms(2) show ?thesis by blast
qed

lemma end_stage:
  assumes "stage w ref {} {} s" and "scheduler_ok (ac_scheduler s)"
  shows "map_of (ac_workflows (deleteWorkflowIfEmpty w ref (finishRegistration ref s))) w = None
    \<and> getGroupCrons (ac_scheduler (deleteWorkflowIfEmpty w ref (finishRegistration ref s))) (workflowScheduleGroup w) = None"
proof -
  have none: "getGroupCrons (ac_scheduler s) (workflowScheduleGroup w) = None"
    using assms(1) by (intro no_crons [OF assms(2)]) (simp add: stage_def)
  then have "\<not> hasGroup (ac_scheduler s) (workflowScheduleGroup w)" by (simp add: hasGroup_def)
  with assms(1) none show ?thesis
    by (simp add: stage_def deleteWorkflowIfEmpty_def finishRegistration_def isEmpty_def nodeIds_def
        hasPendingRegistrations_def)
qed


section \<open>Removing a workflow\<close>

lemma close_leaves_alone:
  assumes "quiet env w" and "closeTrigger env w r s = (s', e)"
  shows "leaves_alone w s s' \<and> (tr_close r \<longrightarrow> r \<in> set (ac_closed s'))"
proof (cases "tr_close r")
  case False
  with assms show ?thesis by (auto simp: closeTrigger_def leaves_alone_await)
next
  case True
  define s1 where "s1 = s\<lparr>ac_closed := ac_closed s @ [r]\<rparr>"
  have "leaves_alone w s1 (await env s1)" by (rule leaves_alone_await [OF assms(1)])
  then have "leaves_alone w s (await env s1) \<and> r \<in> set (ac_closed (await env s1))"
    by (auto simp: s1_def leaves_alone_def)
  moreover have "s' = await env s1 \<or> (\<exists>err. s' = report err (await env s1))"
    using assms(2) True by (auto simp: closeTrigger_def Let_def s1_def split: close_outcome.splits)
  ultimately show ?thesis by (auto simp: report_def leaves_alone_def)
qed

lemma leaves_alone_trans: "leaves_alone w s s' \<Longrightarrow> leaves_alone w s' s'' \<Longrightarrow>
    map_of (ac_workflows s) w = Some ref \<Longrightarrow> ref < length (ac_objects s) \<Longrightarrow> leaves_alone w s s''"
  by (auto simp: leaves_alone_def)

definition unvisited :: "nat list \<Rightarrow> (string, registration) omap \<Rightarrow> (string, registration) omap" where
  "unvisited visited regs = filter (\<lambda>(i, r). rg_token r \<notin> set visited) regs"

lemma unvisited_less:
  assumes "(i, r) \<in> set regs" and "rg_token r \<notin> set visited"
  shows "length (unvisited (rg_token r # visited) regs) < length (unvisited visited regs)"
proof -
  have "unvisited (rg_token r # visited) regs = filter (\<lambda>(i, r'). rg_token r' \<noteq> rg_token r) (unvisited visited regs)"
    by (auto simp: unvisited_def intro: filter_cong)
  moreover have "(i, r) \<in> set (unvisited visited regs)" using assms by (simp add: unvisited_def)
  ultimately show ?thesis by (auto intro!: length_filter_less)
qed

text \<open>All responses with a close function among the registrations not visited yet have been closed.\<close>

lemma close_responses_ends:
  assumes "quiet env w" and "map_of (ac_workflows s) w = Some ref" and "ref < length (ac_objects s)"
    and "distinct (map (rg_token \<circ> snd) (ts_registrations (the_state s ref)))"
    and "length (unvisited visited (ts_registrations (the_state s ref))) < fuel"
  shows "\<exists>s' e. close_responses env fuel w ref visited s = Some (s', e) \<and> leaves_alone w s s'
    \<and> (e = None \<longrightarrow> (\<forall>(i, r) \<in> set (unvisited visited (ts_registrations (the_state s ref))).
          \<forall>response. rg_response r = Some response \<and> tr_close response \<longrightarrow> response \<in> set (ac_closed s')))"
  using assms(2-5)
proof (induction fuel arbitrary: visited s)
  case (Suc fuel)
  let ?regs = "ts_registrations (the_state s ref)"
  show ?case
  proof (cases "List.find (\<lambda>(i, r). rg_token r \<notin> set visited) ?regs")
    case None
    then have "unvisited visited ?regs = []" by (auto simp: unvisited_def find_None_iff filter_empty_conv)
    with None show ?thesis by (simp add: leaves_alone_def)
  next
    case (Some entry)
    obtain i r where entry: "entry = (i, r)" by (cases entry)
    have r: "(i, r) \<in> set ?regs" "rg_token r \<notin> set visited" using find_in_set [OF Some] by (auto simp: entry)
    have fuel: "length (unvisited (rg_token r # visited) ?regs) < fuel"
      using unvisited_less [OF r] Suc.prems(4) by simp
    have rest: "x = (i, r) \<or> x \<in> set (unvisited (rg_token r # visited) ?regs)"
      if "x \<in> set (unvisited visited ?regs)" for x
    proof (rule disjCI)
      assume "x \<notin> set (unvisited (rg_token r # visited) ?regs)"
      with that have "x \<in> set ?regs" "rg_token (snd x) = rg_token r" by (auto simp: unvisited_def)
      with Suc.prems(3) r(1) show "x = (i, r)" by (auto simp: distinct_map dest!: inj_onD [of _ _ x "(i, r)"])
    qed
    show ?thesis
    proof (cases "rg_response r")
      case None
      from Suc.IH [OF Suc.prems(1-3) fuel] obtain s' e where
        "close_responses env fuel w ref (rg_token r # visited) s = Some (s', e)" "leaves_alone w s s'"
        "e = None \<longrightarrow> (\<forall>(i, r) \<in> set (unvisited (rg_token r # visited) ?regs).
            \<forall>response. rg_response r = Some response \<and> tr_close response \<longrightarrow> response \<in> set (ac_closed s'))" by blast
      with None Some rest show ?thesis by (fastforce simp: entry)
    next
      case response: (Some response)
      obtain s1 e1 where s1: "closeTrigger env w response s = (s1, e1)" by (cases "closeTrigger env w response s")
      note alone = close_leaves_alone [OF assms(1) s1]
      show ?thesis
      proof (cases e1)
        case None
        have same: "map_of (ac_workflows s1) w = Some ref" "ref < length (ac_objects s1)" "the_state s1 ref = the_state s ref"
          using alone Suc.prems(1,2) by (auto simp: leaves_alone_def)
        from Suc.IH [OF same(1,2), of "rg_token r # visited"] Suc.prems(3) fuel obtain s' e where
          ih: "close_responses env fuel w ref (rg_token r # visited) s1 = Some (s', e)" "leaves_alone w s1 s'"
          "e = None \<longrightarrow> (\<forall>(i, r) \<in> set (unvisited (rg_token r # visited) ?regs).
              \<forall>response. rg_response r = Some response \<and> tr_close response \<longrightarrow> response \<in> set (ac_closed s'))"
          unfolding same(3) by blast
        have "leaves_alone w s s'" using alone ih(2) Suc.prems(1,2) by (blast intro: leaves_alone_trans)
        moreover have "tr_close response \<longrightarrow> response \<in> set (ac_closed s')" using alone ih(2) by (auto simp: leaves_alone_def)
        ultimately show ?thesis using ih(1,3) None Some rest response s1 by (fastforce simp: entry)
      next
        case (Some e)
        with alone response s1 \<open>List.find _ _ = Some entry\<close> show ?thesis by (simp add: entry)
      qed
    qed
  qed
qed simp

lemma unvisited_all: "unvisited [] regs = regs"
  by (induction regs) (auto simp: unvisited_def)


section \<open>Concrete activations\<close>

definition nothing_active :: active where
  "nothing_active = \<lparr>ac_scheduler = new_scheduler True, ac_objects = [], ac_workflows = [], ac_tokens = 0,
     ac_awaits = 0, ac_closed = [], ac_emitted = [], ac_reported = []\<rparr>"

text \<open>
  The trigger of the type \<^verbatim>\<open>timer\<close> registers a cron and has a close function, which throws for \<^verbatim>\<open>tr_ref\<close>
  7; the others throw.  During each await another workflow becomes active.
\<close>

definition two_kinds :: node_types where
  "two_kinds name version = Some ((plain_type name [])\<lparr>nt_trigger := True\<rparr>)"

definition busy_trigger :: "nat \<Rightarrow> nat \<Rightarrow> inode \<Rightarrow> trigger_outcome" where
  "busy_trigger ref k node =
     \<lparr>to_crons = [(''0 * * * * *'', None)],
      to_result = (if n_type node = ''timer'' then Inr (Some \<lparr>tr_ref = ref, tr_close = True\<rparr>)
                   else Inl (UserError ''no''))\<rparr>"

definition busy_close :: "nat \<Rightarrow> trigger_response \<Rightarrow> close_outcome" where
  "busy_close k r = (if tr_ref r = 7 then Close_threw (UserError ''stuck'') else Closed)"

definition other_activation :: "nat \<Rightarrow> active \<Rightarrow> active" where
  "other_activation k s = fst (getOrCreateWorkflowTriggersState ''other'' s)"

definition busy_env :: "nat \<Rightarrow> trigger_env" where
  "busy_env ref = \<lparr>te_types = two_kinds, te_manual = False, te_timezone = ''UTC'', te_cron = minutely, te_clock = int,
     te_random = (\<lambda>i. (0, 0)), te_trigger = busy_trigger ref, te_pollTimes = (\<lambda>k node. Inr []),
     te_poll = (\<lambda>k node. Inr None), te_close = busy_close, te_meanwhile = other_activation\<rparr>"

lemma busy_env_quiet: "quiet (busy_env ref) ''w''"
  by (auto simp: quiet_def busy_env_def other_activation_def leaves_alone_def getOrCreateWorkflowTriggersState_def
      Let_def the_state_def nth_append split: option.split)

definition timers :: "(string \<times> string) list \<Rightarrow> workflow" where
  "timers nodes = new_workflow two_kinds (\<lambda>nt n. None)
     \<lparr>wp_nodes = map (\<lambda>(name, ty). plain_node 0 name ty) nodes, wp_connections = [], wp_active = True,
      wp_settings = None, wp_pinData = None\<rparr>"


text \<open>
  A close function that throws: the cron is gone, but the workflow stays listed as active and the
  trigger after it is not closed.
\<close>

definition stuck_close :: active where
  "stuck_close = fst (addTriggers (busy_env 8) ''w'' (timers [(''a'', ''timer''), (''b'', ''timer'')]) [''b'']
     (fst (addTriggers (busy_env 7) ''w'' (timers [(''a'', ''timer''), (''b'', ''timer'')]) [''a''] nothing_active)))"

lemma failed_close_keeps_workflow:
  "map_option (\<lambda>(s, r). (isActive s ''w'', hasGroup (ac_scheduler s) (workflowScheduleGroup ''w''), map tr_ref (ac_closed s)))
     (remove (busy_env 8) 3 ''w'' stuck_close) = Some (True, False, [7])"
  by code_simp


end
