(* ===== verification/RunData.thy ===== *)
theory RunData
  imports Interfaces
begin

text \<open>
  The data of an execution: \<^verbatim>\<open>run-execution-data/\<close> (the stored versions and the migration),
  \<^verbatim>\<open>run-execution-data-factory.ts\<close> (how new data is made) and \<^verbatim>\<open>execution-status.ts\<close>.
  The identifier \<^verbatim>\<open>generateSecureToken\<close> draws is the parameter \<^verbatim>\<open>token\<close>.
\<close>

section \<open>Status\<close>

definition ExecutionStatusList :: "execution_status list" where
  "ExecutionStatusList = [Canceled, Crashed, Error_status, New, Running, Success, Unknown, Waiting]"

text \<open>The statuses in the order of the list, which is the alphabetical one.\<close>

primrec status_rank :: "execution_status \<Rightarrow> nat" where
  "status_rank Canceled = 0"
| "status_rank Crashed = 1"
| "status_rank Error_status = 2"
| "status_rank New = 3"
| "status_rank Running = 4"
| "status_rank Success = 5"
| "status_rank Unknown = 6"
| "status_rank Waiting = 7"

lemma status_rank_inj: "status_rank s = status_rank t \<longleftrightarrow> s = t"
  by (cases s; cases t) auto

instantiation execution_status :: linorder
begin

definition less_eq_execution_status :: "execution_status \<Rightarrow> execution_status \<Rightarrow> bool" where
  "less_eq_execution_status s t \<longleftrightarrow> status_rank s \<le> status_rank t"

definition less_execution_status :: "execution_status \<Rightarrow> execution_status \<Rightarrow> bool" where
  "less_execution_status s t \<longleftrightarrow> status_rank s < status_rank t"

instance
  by standard (auto simp: less_eq_execution_status_def less_execution_status_def status_rank_inj)

end

lemma status_list_sorted: "sorted_wrt (<) ExecutionStatusList \<and> set ExecutionStatusList = UNIV"
proof -
  have "s \<in> set ExecutionStatusList" for s by (cases s) (simp_all add: ExecutionStatusList_def)
  then show ?thesis by (auto simp: ExecutionStatusList_def less_execution_status_def)
qed

definition isCompletedExecutionStatus :: "execution_status \<Rightarrow> bool" where
  "isCompletedExecutionStatus status \<longleftrightarrow> status = Crashed \<or> status = Error_status \<or> status = Success"

definition CRASHABLE_EXECUTION_STATUSES :: "execution_status list" where
  "CRASHABLE_EXECUTION_STATUSES = [New, Running, Unknown]"

definition isTerminalExecutionStatus :: "execution_status option \<Rightarrow> bool" where
  "isTerminalExecutionStatus status \<longleftrightarrow>
     status = Some Canceled \<or> status = Some Crashed \<or> status = Some Error_status \<or> status = Some Success"

lemma statuses_partition:
  "(s \<in> set CRASHABLE_EXECUTION_STATUSES) = (\<not> isTerminalExecutionStatus (Some s) \<and> s \<noteq> Waiting)"
  by (cases s) (simp_all add: CRASHABLE_EXECUTION_STATUSES_def isTerminalExecutionStatus_def)

section \<open>Run execution data\<close>

text \<open>
  Version 0 names the destination by a string, version 1 by a record; the other fields are
  the same, so the type of the destination is a parameter of the records.
\<close>

record 'd start_data =
  st_startNodes :: "(string \<times> source_data option) list option"
  st_destinationNode :: "'d option"
  st_originalDestinationNode :: "'d option"
  st_runNodeFilter :: "string list option"

record result_data =
  rs_error :: "js_error option"
  rs_runData :: "run_data option"
  rs_pinData :: "pin_data option"
  rs_lastNodeExecuted :: "string option"
  rs_metadata :: "(string, string) omap option"

record execution_data =
  ex_contextData :: data_object
  ex_runtimeData :: "data_object option"
  ex_nodeExecutionStack :: "execute_data list"
  ex_metadata :: "(string, task_metadata list) omap"
  ex_waitingExecution :: waiting_execution
  ex_waitingExecutionSource :: "waiting_execution_source option"

record 'd run_execution_data =
  rx_version :: nat
  rx_startData :: "'d start_data option"
  rx_resultData :: result_data
  rx_executionData :: "execution_data option"
  rx_parentExecution :: "jval option"
  rx_resumeToken :: "string option"
  rx_waitTill :: "int option"
  rx_pushRef :: "string option"
  rx_manualData :: "jval option"
  rx_redactionInfo :: "jval option"

type_synonym run_execution_data_v0 = "string run_execution_data"

type_synonym run_execution_data_v1 = "destination_node run_execution_data"

definition empty_start_data :: "'d start_data" where
  "empty_start_data = \<lparr>st_startNodes = None, st_destinationNode = None, st_originalDestinationNode = None,
     st_runNodeFilter = None\<rparr>"

text \<open>An empty name is falsy: it becomes \<^verbatim>\<open>undefined\<close>.\<close>

definition structured_destination :: "string option \<Rightarrow> destination_node option" where
  "structured_destination d =
     (case d of Some (c # cs) \<Rightarrow> Some \<lparr>d_nodeName = c # cs, d_mode = Inclusive\<rparr> | _ \<Rightarrow> None)"

definition runExecutionDataV0ToV1 :: "run_execution_data_v0 \<Rightarrow> run_execution_data_v1" where
  "runExecutionDataV0ToV1 data =
     (let sd = (case rx_startData data of Some sd \<Rightarrow> sd | None \<Rightarrow> empty_start_data)
      in \<lparr>rx_version = 1,
          rx_startData = Some \<lparr>st_startNodes = st_startNodes sd,
            st_destinationNode = structured_destination (st_destinationNode sd),
            st_originalDestinationNode = structured_destination (st_originalDestinationNode sd),
            st_runNodeFilter = st_runNodeFilter sd\<rparr>,
          rx_resultData = rx_resultData data, rx_executionData = rx_executionData data,
          rx_parentExecution = rx_parentExecution data, rx_resumeToken = rx_resumeToken data,
          rx_waitTill = rx_waitTill data, rx_pushRef = rx_pushRef data, rx_manualData = rx_manualData data,
          rx_redactionInfo = rx_redactionInfo data\<rparr>)"

text \<open>
  A stored record: one without a version or with version 0, or one of a later version.
\<close>

datatype run_execution_data_all = Stored_v0 run_execution_data_v0 | Stored_later run_execution_data_v1

definition migrateRunExecutionData :: "run_execution_data_all \<Rightarrow> run_execution_data_v1 res" where
  "migrateRunExecutionData stored =
     (let data = (case stored of Stored_v0 d \<Rightarrow> runExecutionDataV0ToV1 d | Stored_later d \<Rightarrow> d)
      in if rx_version data \<noteq> 1
         then Inl (JsError ''Error'' (''Unsupported IRunExecutionData version: '' @ show_nat (rx_version data)) None)
         else Inr data)"

section \<open>The factories\<close>

record result_options =
  ro_error :: "js_error option"
  ro_runData :: "run_data js"
  ro_pinData :: "pin_data option"
  ro_lastNodeExecuted :: "string option"
  ro_metadata :: "(string, string) omap option"

record execution_options =
  eo_contextData :: "data_object option"
  eo_nodeExecutionStack :: "execute_data list option"
  eo_metadata :: "(string, task_metadata list) omap option"
  eo_waitingExecution :: "waiting_execution option"
  eo_waitingExecutionSource :: "waiting_execution_source option"
  eo_runtimeData :: "data_object option"

record create_options =
  co_startData :: "destination_node start_data option"
  co_resultData :: "result_options option"
  co_executionData :: "execution_options js"
  co_parentExecution :: "jval option"
  co_resumeToken :: "string option"
  co_waitTill :: "int option"
  co_manualData :: "jval option"
  co_pushRef :: "string option"
  co_redactionInfo :: "jval option"

definition no_result_options :: result_options where
  "no_result_options = \<lparr>ro_error = None, ro_runData = Undef, ro_pinData = None, ro_lastNodeExecuted = None,
     ro_metadata = None\<rparr>"

definition no_execution_options :: execution_options where
  "no_execution_options = \<lparr>eo_contextData = None, eo_nodeExecutionStack = None, eo_metadata = None,
     eo_waitingExecution = None, eo_waitingExecutionSource = None, eo_runtimeData = None\<rparr>"

definition no_create_options :: create_options where
  "no_create_options = \<lparr>co_startData = None, co_resultData = None, co_executionData = Undef,
     co_parentExecution = None, co_resumeToken = None, co_waitTill = None, co_manualData = None,
     co_pushRef = None, co_redactionInfo = None\<rparr>"

definition buildResultData :: "result_options option \<Rightarrow> result_data" where
  "buildResultData resultData =
     (let r = or_else resultData no_result_options
      in \<lparr>rs_error = ro_error r,
          rs_runData = (case ro_runData r of Null \<Rightarrow> None | Undef \<Rightarrow> Some [] | Val rd \<Rightarrow> Some rd),
          rs_pinData = ro_pinData r, rs_lastNodeExecuted = ro_lastNodeExecuted r, rs_metadata = ro_metadata r\<rparr>)"

definition buildExecutionData :: "execution_options js \<Rightarrow> execution_data option" where
  "buildExecutionData executionData =
     (case executionData of
        Null \<Rightarrow> None
      | _ \<Rightarrow> (let e = (case executionData of Val e \<Rightarrow> e | _ \<Rightarrow> no_execution_options)
              in Some \<lparr>ex_contextData = or_else (eo_contextData e) [],
                       ex_runtimeData = eo_runtimeData e,
                       ex_nodeExecutionStack = or_else (eo_nodeExecutionStack e) [],
                       ex_metadata = or_else (eo_metadata e) [],
                       ex_waitingExecution = or_else (eo_waitingExecution e) [],
                       ex_waitingExecutionSource = Some (or_else (eo_waitingExecutionSource e) [])\<rparr>))"

definition createRunExecutionData :: "string \<Rightarrow> create_options \<Rightarrow> run_execution_data_v1" where
  "createRunExecutionData token options =
     \<lparr>rx_version = 1, rx_startData = Some (or_else (co_startData options) empty_start_data),
      rx_resultData = buildResultData (co_resultData options),
      rx_executionData = buildExecutionData (co_executionData options),
      rx_parentExecution = co_parentExecution options,
      rx_resumeToken = Some (or_else (co_resumeToken options) token),
      rx_waitTill = co_waitTill options, rx_pushRef = co_pushRef options,
      rx_manualData = co_manualData options, rx_redactionInfo = co_redactionInfo options\<rparr>"

definition createEmptyRunExecutionData :: run_execution_data_v1 where
  "createEmptyRunExecutionData =
     \<lparr>rx_version = 1, rx_startData = None,
      rx_resultData = \<lparr>rs_error = None, rs_runData = Some [], rs_pinData = None, rs_lastNodeExecuted = None,
        rs_metadata = None\<rparr>,
      rx_executionData = None, rx_parentExecution = None, rx_resumeToken = None, rx_waitTill = None,
      rx_pushRef = None, rx_manualData = None, rx_redactionInfo = None\<rparr>"

definition started_task :: "nat option \<Rightarrow> source_data option list \<Rightarrow> task_data" where
  "started_task executionIndex source = \<lparr>td_startTime = 0, td_executionIndex = executionIndex, td_source = source,
     td_hints = [], td_executionTime = 0, td_executionStatus = None, td_data = None, td_inputOverride = None,
     td_error = None, td_metadata = None, td_usedDynamicCredentials = None, td_attemptedDynamicCredentials = None\<rparr>"

definition createErrorExecutionData :: "inode \<Rightarrow> js_error \<Rightarrow> run_execution_data_v1" where
  "createErrorExecutionData node error =
     \<lparr>rx_version = 1,
      rx_startData = Some \<lparr>st_startNodes = None,
        st_destinationNode = Some \<lparr>d_nodeName = n_name node, d_mode = Inclusive\<rparr>,
        st_originalDestinationNode = None, st_runNodeFilter = Some [n_name node]\<rparr>,
      rx_resultData = \<lparr>rs_error = Some error,
        rs_runData = Some [(n_name node, [(started_task (Some 0) [])\<lparr>td_error := Some error\<rparr>])],
        rs_pinData = None, rs_lastNodeExecuted = Some (n_name node), rs_metadata = None\<rparr>,
      rx_executionData = Some \<lparr>ex_contextData = [], ex_runtimeData = None,
        ex_nodeExecutionStack = [\<lparr>ed_data = [(Main_t, [Val [empty_item\<lparr>i_pairedItem :=
            Some (Paired_one \<lparr>pi_item = 0, pi_input = None, pi_sourceOverwrite = None\<rparr>)\<rparr>]])],
          ed_metadata = None, ed_node = node, ed_source = None, ed_runIndex = None\<rparr>],
        ex_metadata = [], ex_waitingExecution = [], ex_waitingExecutionSource = Some []\<rparr>,
      rx_parentExecution = None, rx_resumeToken = None, rx_waitTill = None, rx_pushRef = None,
      rx_manualData = None, rx_redactionInfo = None\<rparr>"

section \<open>Migration\<close>

text \<open>
  The inverse of the migration on the data of version 0, for the round trip: a structured
  destination that is to be executed itself is named again.
\<close>

definition downgrade :: "run_execution_data_v1 \<Rightarrow> run_execution_data_v0" where
  "downgrade d =
     \<lparr>rx_version = 0,
      rx_startData = map_option (\<lambda>sd. \<lparr>st_startNodes = st_startNodes sd,
         st_destinationNode = map_option d_nodeName (st_destinationNode sd),
         st_originalDestinationNode = map_option d_nodeName (st_originalDestinationNode sd),
         st_runNodeFilter = st_runNodeFilter sd\<rparr>) (rx_startData d),
      rx_resultData = rx_resultData d, rx_executionData = rx_executionData d,
      rx_parentExecution = rx_parentExecution d, rx_resumeToken = rx_resumeToken d,
      rx_waitTill = rx_waitTill d, rx_pushRef = rx_pushRef d, rx_manualData = rx_manualData d,
      rx_redactionInfo = rx_redactionInfo d\<rparr>"

text \<open>
  Stored data without a version is migrated to version 1 without loss: undoing the
  migration gives the record back, with a start data object where there was none and with an
  empty destination name read as no destination.
\<close>

theorem migrate_v0_roundtrip:
  "\<exists>d1. migrateRunExecutionData (Stored_v0 d) = Inr d1 \<and> rx_version d1 = 1
    \<and> migrateRunExecutionData (Stored_later d1) = Inr d1
    \<and> downgrade d1 = d\<lparr>rx_version := 0, rx_startData :=
        (let sd = or_else (rx_startData d) empty_start_data;
             named = (\<lambda>n. if n = Some [] then None else n)
         in Some (sd\<lparr>st_destinationNode := named (st_destinationNode sd),
                     st_originalDestinationNode := named (st_originalDestinationNode sd)\<rparr>))\<rparr>"
  by (auto simp: migrateRunExecutionData_def runExecutionDataV0ToV1_def downgrade_def Let_def
      structured_destination_def empty_start_data_def split: option.split list.split)

end
