(* ===== verification/RequestsResponse.thy ===== *)
theory RequestsResponse
  imports Workflow RunData
begin

text \<open>
  \<^verbatim>\<open>requests-response.ts\<close>: a node may ask the engine to run other nodes and to resume it with
  their results.  The handler reserves a run of each requested node in the run data,
  rewires the node's output and lists the executions to schedule.  It writes to the node
  objects and to the run data in place; the functions return both as far as they got.
\<close>

section \<open>Definitions\<close>

record node_to_execute =
  ne_inputConnectionData :: iconnection
  ne_parentOutputIndex :: nat
  ne_parentNode :: string
  ne_parentOutputData :: "items js list option"
  ne_runIndex :: int
  ne_nodeRunIndex :: nat
  ne_metadata :: "task_metadata option"

text \<open>\<^verbatim>\<open>{ ...a, ...b }\<close>\<close>

definition spread :: "(string, 'v) omap \<Rightarrow> (string, 'v) omap \<Rightarrow> (string, 'v) omap" where
  "spread a b = fold (\<lambda>(k, v). AList.update k v) b a"

definition buildParentOutputData :: "data_object \<Rightarrow> int \<Rightarrow> nat \<Rightarrow> string \<Rightarrow> items js list" where
  "buildParentOutputData json parentRunIndex parentOutputIndex parentSourceNode =
     [Val [\<lparr>i_json = json, i_error = None,
            i_pairedItem = Some (Paired_one \<lparr>pi_item = parentRunIndex, pi_input = Some parentOutputIndex,
              pi_sourceOverwrite = Some \<lparr>sd_previousNode = parentSourceNode,
                sd_previousNodeOutput = Some parentOutputIndex, sd_previousNodeRun = Some parentRunIndex\<rparr>\<rparr>),
            i_other = []\<rparr>]]"

text \<open>\<^verbatim>\<open>actionMetadata?.parentNodeName\<close> in a condition: an empty name is falsy.\<close>

definition named_parent :: "engine_action \<Rightarrow> bool" where
  "named_parent action \<longleftrightarrow> a_parentNodeName action \<noteq> None \<and> a_parentNodeName action \<noteq> Some []"

definition runs_of :: "run_data \<Rightarrow> string \<Rightarrow> task_data list" where
  "runs_of runData name = or_else (map_of runData name) []"

definition reserved_run :: "string \<Rightarrow> nat \<Rightarrow> int \<Rightarrow> engine_action \<Rightarrow> int \<Rightarrow> items js list \<Rightarrow> task_data" where
  "reserved_run parentNode parentOutputIndex parentRunIndex action runIndex displayOutputData =
     (let sourceData = \<lparr>sd_previousNode = parentNode, sd_previousNodeOutput = Some parentOutputIndex,
                        sd_previousNodeRun = Some (if named_parent action then parentRunIndex else runIndex)\<rparr>
      in (started_task (Some 0) [Some sourceData])\<lparr>td_inputOverride := Some [(AiTool_t, displayOutputData)]\<rparr>)"

definition initializeNodeRunData ::
    "run_data \<Rightarrow> string \<Rightarrow> string \<Rightarrow> nat \<Rightarrow> int \<Rightarrow> engine_action \<Rightarrow> int \<Rightarrow> items js list \<Rightarrow> run_data \<times> nat" where
  "initializeNodeRunData runData nodeName parentNode parentOutputIndex parentRunIndex action runIndex displayOutputData =
     (let nodeRunData = runs_of runData nodeName
      in (AList.update nodeName
            (nodeRunData @ [reserved_run parentNode parentOutputIndex parentRunIndex action runIndex displayOutputData])
            runData,
          length nodeRunData))"

text \<open>\<^verbatim>\<open>source?.main?.[i]\<close> and \<^verbatim>\<open>data.main?.[0]?.[i]\<close>\<close>

definition source_at :: "execute_data \<Rightarrow> int \<Rightarrow> source_data option" where
  "source_at executionData i =
     (case ed_source executionData of None \<Rightarrow> None
      | Some s \<Rightarrow> (let sources = main_of s
                   in if 0 \<le> i \<and> i < int (length sources) then sources ! nat i else None))"

definition input_item :: "execute_data \<Rightarrow> nat \<Rightarrow> item option" where
  "input_item executionData i = array_get (js_list (js_get (main_of (ed_data executionData)) 0)) i"

record request_state =
  rq_workflow :: workflow
  rq_runData :: run_data
  rq_nodes :: "node_to_execute list"
  rq_subActions :: "sub_node_action list"

text \<open>\<^verbatim>\<open>node.rewireOutputLogTo = action.type\<close> on the workflow's node object\<close>

definition set_rewire :: "string \<Rightarrow> string \<Rightarrow> inode \<Rightarrow> workflow \<Rightarrow> workflow" where
  "set_rewire key ty node w = w\<lparr>w_nodes := AList.update key (node\<lparr>n_rewireOutputLogTo := Some ty\<rparr>) (w_nodes w)\<rparr>"

definition prepare_action ::
    "inode \<Rightarrow> int \<Rightarrow> execute_data \<Rightarrow> engine_action \<Rightarrow> request_state \<Rightarrow> request_state run" where
  "prepare_action currentNode runIndex executionData action st =
     (case getNode (rq_workflow st) (a_nodeName action) of
        None \<Rightarrow> raised (UnexpectedError (''Workflow does not contain a node with the name of \"'' @ a_nodeName action @ ''\".'')) st
      | Some node \<Rightarrow>
          (let parentSourceData = source_at executionData runIndex;
               defaultParentOutputIndex = (case parentSourceData of Some s \<Rightarrow> or_else (sd_previousNodeOutput s) 0 | None \<Rightarrow> 0);
               defaultParentSourceNode = (case parentSourceData of Some s \<Rightarrow> sd_previousNode s | None \<Rightarrow> n_name currentNode);
               w = set_rewire (a_nodeName action) (a_type action) node (rq_workflow st);
               parentNode = or_else (a_parentNodeName action) (n_name currentNode);
               parentRunIndex =
                 (if named_parent action
                  then (case map_of (rq_runData st) parentNode of Some tds \<Rightarrow> int (length tds) | None \<Rightarrow> 1) - 1
                  else (case parentSourceData of Some s \<Rightarrow> or_else (sd_previousNodeRun s) 0 | None \<Rightarrow> 0));
               agentJson = (case input_item executionData (or_else (a_itemIndex action) 0) of Some it \<Rightarrow> i_json it | None \<Rightarrow> []);
               mergedJson = AList.update ''toolCallId'' (JStr (a_id action)) (spread agentJson (a_input action));
               displayJson = spread [] (a_input action);
               build = (\<lambda>json. buildParentOutputData json parentRunIndex defaultParentOutputIndex defaultParentSourceNode);
               (rd, nodeRunIndex) = initializeNodeRunData (rq_runData st) (n_name node) parentNode
                  defaultParentOutputIndex parentRunIndex action runIndex (build displayJson);
               preserved = (case ed_metadata executionData of
                  Some md \<Rightarrow> md_preservedSourceOverwrite md | None \<Rightarrow> None)
           in normal (st\<lparr>rq_workflow := w, rq_runData := rd,
                rq_nodes := rq_nodes st @ [\<lparr>
                  ne_inputConnectionData = \<lparr>c_node = a_nodeName action, c_type = a_type action, c_index = 0\<rparr>,
                  ne_parentOutputIndex = 0, ne_parentNode = parentNode, ne_parentOutputData = Some (build mergedJson),
                  ne_runIndex = (if named_parent action then parentRunIndex else runIndex),
                  ne_nodeRunIndex = nodeRunIndex,
                  ne_metadata = Some (no_metadata\<lparr>md_preserveSourceOverwrite := Some True,
                    md_preservedSourceOverwrite := Some (or_else preserved
                      \<lparr>sd_previousNode = defaultParentSourceNode, sd_previousNodeOutput = Some defaultParentOutputIndex,
                       sd_previousNodeRun = Some parentRunIndex\<rparr>)\<rparr>)\<rparr>],
                rq_subActions := rq_subActions st @
                  [\<lparr>sa_nodeName = a_nodeName action, sa_runIndex = nodeRunIndex, sa_action = action\<rparr>]\<rparr>)))"

definition prepareRequestedNodesForExecution ::
    "workflow \<Rightarrow> inode \<Rightarrow> engine_request \<Rightarrow> int \<Rightarrow> run_data \<Rightarrow> execute_data \<Rightarrow> request_state run" where
  "prepareRequestedNodesForExecution w currentNode request runIndex runData executionData =
     fold_run (prepare_action currentNode runIndex executionData) (rq_actions request)
       \<lparr>rq_workflow = w, rq_runData = runData, rq_nodes = [], rq_subActions = []\<rparr>"

text \<open>The connection, the parent and the metadata to resume with; \<^verbatim>\<open>None\<close> without a parent.\<close>

definition prepareRequestingNodeForResuming ::
    "execute_data \<Rightarrow> (iconnection \<times> string \<times> task_metadata) option" where
  "prepareRequestingNodeForResuming executionData =
     (case source_at executionData 0 of
        None \<Rightarrow> None
      | Some s \<Rightarrow>
          if sd_previousNode s = [] then None
          else let metadata = (case ed_metadata executionData of
                     Some md \<Rightarrow> if md_preservedSourceOverwrite md \<noteq> None \<and> md_preserveSourceOverwrite md = Some True
                                then no_metadata\<lparr>md_preserveSourceOverwrite := Some True,
                                       md_preservedSourceOverwrite := md_preservedSourceOverwrite md\<rparr>
                                else no_metadata
                   | None \<Rightarrow> no_metadata)
               in Some (\<lparr>c_node = n_name (ed_node executionData), c_type = AiTool_t, c_index = 0\<rparr>,
                        sd_previousNode s, metadata))"

definition handleRequest ::
    "workflow \<Rightarrow> inode \<Rightarrow> engine_request \<Rightarrow> nat \<Rightarrow> execute_data \<Rightarrow> run_data \<Rightarrow> request_state run" where
  "handleRequest w currentNode request runIndex executionData runData =
     and_then (prepareRequestedNodesForExecution w currentNode request (int runIndex) runData executionData) (\<lambda>st.
       case prepareRequestingNodeForResuming executionData of
         None \<Rightarrow> normal (st\<lparr>rq_nodes := []\<rparr>)
       | Some (connectionData, parentNode, metadata) \<Rightarrow>
           normal (st\<lparr>rq_nodes := \<lparr>
               ne_inputConnectionData = connectionData, ne_parentOutputIndex = 0, ne_parentNode = parentNode,
               ne_parentOutputData = map_of (ed_data executionData) Main_t,
               ne_runIndex = int runIndex, ne_nodeRunIndex = runIndex,
               ne_metadata = Some (metadata\<lparr>md_nodeWasResumed := Some True,
                 md_subNodeExecutionData := Some \<lparr>se_actions = rq_subActions st, se_metadata = rq_metadata request\<rparr>\<rparr>)\<rparr>
             # rq_nodes st\<rparr>))"

record engine_response =
  er_actionResponses :: "(engine_action \<times> task_data) list"
  er_metadata :: jval

definition makeEngineResponse :: engine_response where
  "makeEngineResponse = \<lparr>er_actionResponses = [], er_metadata = JObj []\<rparr>"

section \<open>Every action has a run of its own\<close>

text \<open>
  What holds while the actions are prepared, against the run data before: a run already
  there stays, and each prepared action has a run after those, with its input recorded.
\<close>

definition slots_ok :: "run_data \<Rightarrow> request_state \<Rightarrow> bool" where
  "slots_ok rd0 st \<longleftrightarrow> nodes_named (w_nodes (rq_workflow st))
     \<and> distinct (map (\<lambda>a. (sa_nodeName a, sa_runIndex a)) (rq_subActions st))
     \<and> (\<forall>name. \<exists>new. runs_of (rq_runData st) name = runs_of rd0 name @ new)
     \<and> (\<forall>a \<in> set (rq_subActions st). length (runs_of rd0 (sa_nodeName a)) \<le> sa_runIndex a
          \<and> sa_runIndex a < length (runs_of (rq_runData st) (sa_nodeName a))
          \<and> td_inputOverride (runs_of (rq_runData st) (sa_nodeName a) ! sa_runIndex a) \<noteq> None)"

text \<open>The effect of preparing an action whose node exists.\<close>

lemma reserved_run_input [simp]: "td_inputOverride (reserved_run p o' pr a ri d) = Some [(AiTool_t, d)]"
  by (simp add: reserved_run_def Let_def)

lemma prepare_action_ok:
  assumes "getNode (rq_workflow st) (a_nodeName a) = Some node" and "nodes_named (w_nodes (rq_workflow st))"
  obtains st' td where "prepare_action cur ri ed a st = normal st'"
    "rq_workflow st' = set_rewire (a_nodeName a) (a_type a) node (rq_workflow st)"
    "td_inputOverride td \<noteq> None"
    "rq_runData st' = AList.update (a_nodeName a) (runs_of (rq_runData st) (a_nodeName a) @ [td]) (rq_runData st)"
    "rq_subActions st' = rq_subActions st @ [\<lparr>sa_nodeName = a_nodeName a,
        sa_runIndex = length (runs_of (rq_runData st) (a_nodeName a)), sa_action = a\<rparr>]"
proof -
  have "n_name node = a_nodeName a"
    using assms by (auto simp: nodes_named_def getNode_def dest: map_of_SomeD)
  with assms(1) show thesis
    by (intro that) (simp_all add: prepare_action_def initializeNodeRunData_def Let_def del: fun_upd_apply, simp_all)
qed

lemma set_rewire_nodes:
  assumes "getNode w key = Some node"
  shows "getNode (set_rewire key ty node w) name = None \<longleftrightarrow> getNode w name = None"
    and "nodes_named (w_nodes w) \<Longrightarrow> nodes_named (w_nodes (set_rewire key ty node w))"
proof -
  show "getNode (set_rewire key ty node w) name = None \<longleftrightarrow> getNode w name = None"
    using assms by (auto simp: getNode_def set_rewire_def)
  assume wf: "nodes_named (w_nodes w)"
  then have "key = n_name (node\<lparr>n_rewireOutputLogTo := Some ty\<rparr>)"
    using assms by (auto simp: nodes_named_def getNode_def dest: map_of_SomeD)
  with nodes_named_update [OF wf, of "node\<lparr>n_rewireOutputLogTo := Some ty\<rparr>"]
  show "nodes_named (w_nodes (set_rewire key ty node w))" by (simp add: set_rewire_def)
qed

lemma slots_ok_step:
  assumes "slots_ok rd0 st" and "td_inputOverride td \<noteq> None" and "nodes_named (w_nodes (rq_workflow st'))"
    and "rq_runData st' = AList.update name (runs_of (rq_runData st) name @ [td]) (rq_runData st)"
    and "rq_subActions st' = rq_subActions st @ [\<lparr>sa_nodeName = name, sa_runIndex = length (runs_of (rq_runData st) name), sa_action = a\<rparr>]"
  shows "slots_ok rd0 st'"
proof -
  have runs: "runs_of (rq_runData st') m =
      (if m = name then runs_of (rq_runData st) name @ [td] else runs_of (rq_runData st) m)" for m
    by (simp add: assms(4) runs_of_def)
  have grown: "\<exists>new. runs_of (rq_runData st') m = runs_of rd0 m @ new" for m
  proof -
    from assms(1) obtain new where "runs_of (rq_runData st) m = runs_of rd0 m @ new" unfolding slots_ok_def by blast
    then show ?thesis by (cases "m = name") (simp_all add: runs)
  qed
  have slots: "length (runs_of rd0 (sa_nodeName b)) \<le> sa_runIndex b
      \<and> sa_runIndex b < length (runs_of (rq_runData st') (sa_nodeName b))
      \<and> td_inputOverride (runs_of (rq_runData st') (sa_nodeName b) ! sa_runIndex b) \<noteq> None"
    if b: "b \<in> set (rq_subActions st')" for b
  proof (cases "b \<in> set (rq_subActions st)")
    case True
    with assms(1) have "length (runs_of rd0 (sa_nodeName b)) \<le> sa_runIndex b
      \<and> sa_runIndex b < length (runs_of (rq_runData st) (sa_nodeName b))
      \<and> td_inputOverride (runs_of (rq_runData st) (sa_nodeName b) ! sa_runIndex b) \<noteq> None"
      unfolding slots_ok_def by blast
    then show ?thesis by (cases "sa_nodeName b = name") (simp_all add: runs nth_append)
  next
    case False
    with b have b: "sa_nodeName b = name" "sa_runIndex b = length (runs_of (rq_runData st) name)" by (auto simp: assms(5))
    from assms(1) obtain new where "runs_of (rq_runData st) name = runs_of rd0 name @ new" unfolding slots_ok_def by blast
    then show ?thesis using assms(2) by (simp add: b runs)
  qed
  have "distinct (map (\<lambda>a. (sa_nodeName a, sa_runIndex a)) (rq_subActions st'))"
  proof -
    have "distinct (map (\<lambda>a. (sa_nodeName a, sa_runIndex a)) (rq_subActions st))"
      and "\<forall>b \<in> set (rq_subActions st). sa_runIndex b < length (runs_of (rq_runData st) (sa_nodeName b))"
      using assms(1) unfolding slots_ok_def by blast+
    then show ?thesis by (fastforce simp: assms(5))
  qed
  with grown slots assms(3) show ?thesis unfolding slots_ok_def by blast
qed

lemma prepare_all:
  assumes "slots_ok rd0 st" and "list_all (\<lambda>a. getNode (rq_workflow st) (a_nodeName a) \<noteq> None) actions"
  shows "\<exists>st'. fold_run (prepare_action cur ri ed) actions st = normal st' \<and> slots_ok rd0 st'
    \<and> map sa_action (rq_subActions st') = map sa_action (rq_subActions st) @ actions"
  using assms
proof (induction actions arbitrary: st)
  case (Cons a actions)
  then obtain node where node: "getNode (rq_workflow st) (a_nodeName a) = Some node" by auto
  have named: "nodes_named (w_nodes (rq_workflow st))" using Cons.prems(1) by (simp add: slots_ok_def)
  obtain st1 td where st1: "prepare_action cur ri ed a st = normal st1"
    "rq_workflow st1 = set_rewire (a_nodeName a) (a_type a) node (rq_workflow st)" "td_inputOverride td \<noteq> None"
    "rq_runData st1 = AList.update (a_nodeName a) (runs_of (rq_runData st) (a_nodeName a) @ [td]) (rq_runData st)"
    "rq_subActions st1 = rq_subActions st @ [\<lparr>sa_nodeName = a_nodeName a,
        sa_runIndex = length (runs_of (rq_runData st) (a_nodeName a)), sa_action = a\<rparr>]"
    by (rule prepare_action_ok [OF node named, of cur ri ed])
  have "slots_ok rd0 st1"
    by (rule slots_ok_step [OF Cons.prems(1) st1(3) _ st1(4,5)])
      (simp add: st1(2) set_rewire_nodes(2) [OF node named])
  moreover have "list_all (\<lambda>a. getNode (rq_workflow st1) (a_nodeName a) \<noteq> None) actions"
    using Cons.prems(2) by (simp add: st1(2) list_all_iff set_rewire_nodes(1) [OF node])
  ultimately show ?case using Cons.IH [of st1] st1(1,5) by auto
qed simp

lemma prepare_missing:
  assumes "\<not> list_all (\<lambda>a. getNode (rq_workflow st) (a_nodeName a) \<noteq> None) actions"
    and "nodes_named (w_nodes (rq_workflow st))"
  shows "snd (fold_run (prepare_action cur ri ed) actions st) \<noteq> None"
  using assms
proof (induction actions arbitrary: st)
  case (Cons a actions)
  show ?case
  proof (cases "getNode (rq_workflow st) (a_nodeName a)")
    case None
    then show ?thesis by (simp add: prepare_action_def)
  next
    case node: (Some node)
    obtain st1 where st1: "prepare_action cur ri ed a st = normal st1"
      "rq_workflow st1 = set_rewire (a_nodeName a) (a_type a) node (rq_workflow st)"
      by (rule prepare_action_ok [OF node Cons.prems(2), of cur ri ed])
    have "\<not> list_all (\<lambda>a. getNode (rq_workflow st1) (a_nodeName a) \<noteq> None) actions"
      using Cons.prems(1) node by (simp add: st1(2) list_all_iff set_rewire_nodes(1) [OF node])
    with Cons.IH [of st1] Cons.prems(2) show ?thesis
      by (simp add: st1 set_rewire_nodes(2) [OF node])
  qed
qed simp

text \<open>What \<^verbatim>\<open>handleRequest\<close> leaves of the prepared state.\<close>

lemma handleRequest_state:
  "snd (handleRequest w cur request ri ed rd) = snd (prepareRequestedNodesForExecution w cur request (int ri) rd ed)"
  "rq_runData (fst (handleRequest w cur request ri ed rd)) =
     rq_runData (fst (prepareRequestedNodesForExecution w cur request (int ri) rd ed))"
  "rq_subActions (fst (handleRequest w cur request ri ed rd)) =
     rq_subActions (fst (prepareRequestedNodesForExecution w cur request (int ri) rd ed))"
proof -
  obtain st e where "prepareRequestedNodesForExecution w cur request (int ri) rd ed = (st, e)" by fastforce
  then show "snd (handleRequest w cur request ri ed rd) = snd (prepareRequestedNodesForExecution w cur request (int ri) rd ed)"
    "rq_runData (fst (handleRequest w cur request ri ed rd)) =
       rq_runData (fst (prepareRequestedNodesForExecution w cur request (int ri) rd ed))"
    "rq_subActions (fst (handleRequest w cur request ri ed rd)) =
       rq_subActions (fst (prepareRequestedNodesForExecution w cur request (int ri) rd ed))"
    by (cases e; simp add: handleRequest_def split: option.split)+
qed

text \<open>
  C40. A request fails exactly if it names a node the workflow does not have.  Otherwise every
  action gets a run of its node to itself: the runs are different from each other and from
  the runs the node had, which are kept, and each has the action's input recorded.
\<close>

theorem handleRequest_reserves_runs:
  assumes "nodes_named (w_nodes w)"
  shows "(snd (handleRequest w cur request ri ed rd) = None \<longleftrightarrow>
      list_all (\<lambda>a. getNode w (a_nodeName a) \<noteq> None) (rq_actions request))
    \<and> (snd (handleRequest w cur request ri ed rd) = None \<longrightarrow>
      slots_ok rd (fst (handleRequest w cur request ri ed rd)\<lparr>rq_workflow := w\<rparr>)
      \<and> map sa_action (rq_subActions (fst (handleRequest w cur request ri ed rd))) = rq_actions request)"
proof -
  let ?st = "\<lparr>rq_workflow = w, rq_runData = rd, rq_nodes = [], rq_subActions = []\<rparr>"
  let ?run = "fold_run (prepare_action cur (int ri) ed) (rq_actions request) ?st"
  have ok: "slots_ok rd ?st" using assms by (simp add: slots_ok_def)
  have run: "prepareRequestedNodesForExecution w cur request (int ri) rd ed = ?run"
    by (simp add: prepareRequestedNodesForExecution_def)
  have all: "\<exists>st'. ?run = normal st' \<and> slots_ok rd st' \<and> map sa_action (rq_subActions st') = rq_actions request"
    if "list_all (\<lambda>a. getNode w (a_nodeName a) \<noteq> None) (rq_actions request)"
    using prepare_all [OF ok, of "rq_actions request"] that by simp
  have missing: "snd ?run \<noteq> None" if "\<not> list_all (\<lambda>a. getNode w (a_nodeName a) \<noteq> None) (rq_actions request)"
    using prepare_missing [of ?st "rq_actions request"] that assms by simp
  have iff: "snd (handleRequest w cur request ri ed rd) = None \<longleftrightarrow>
      list_all (\<lambda>a. getNode w (a_nodeName a) \<noteq> None) (rq_actions request)"
    unfolding handleRequest_state run using all missing by (metis snd_conv)
  have "slots_ok rd (fst (handleRequest w cur request ri ed rd)\<lparr>rq_workflow := w\<rparr>)
      \<and> map sa_action (rq_subActions (fst (handleRequest w cur request ri ed rd))) = rq_actions request"
    if "snd (handleRequest w cur request ri ed rd) = None"
  proof -
    from that iff all obtain st' where "?run = normal st'" "slots_ok rd st'" "map sa_action (rq_subActions st') = rq_actions request"
      by blast
    then show ?thesis using assms by (simp add: slots_ok_def handleRequest_state run)
  qed
  with iff show ?thesis by blast
qed

definition tool_call :: "string \<Rightarrow> string \<Rightarrow> engine_action" where
  "tool_call tool ident = \<lparr>a_nodeName = tool, a_input = [(''q'', JStr ident)], a_type = AiTool_t, a_id = ident,
     a_parentNodeName = None, a_itemIndex = None\<rparr>"

definition agent_entry :: execute_data where
  "agent_entry = \<lparr>ed_data = [(Main_t, [Val [empty_item]])], ed_metadata = None, ed_node = plain_node 1 ''a'' ''t'',
     ed_source = Some [(Main_t, [Some \<lparr>sd_previousNode = ''start'', sd_previousNodeOutput = Some 0, sd_previousNodeRun = Some 0\<rparr>])],
     ed_runIndex = None\<rparr>"

lemma handleRequest_reserves_runs_witness:
  "map (\<lambda>a. (sa_nodeName a, sa_runIndex a)) (rq_subActions (fst (handleRequest two_node_workflow (plain_node 1 ''a'' ''t'')
       \<lparr>rq_actions = [tool_call ''b'' ''1'', tool_call ''b'' ''2''], rq_metadata = JObj []\<rparr> 0 agent_entry [])))
     = [(''b'', 0), (''b'', 1)]
   \<and> slots_ok [] (fst (handleRequest two_node_workflow (plain_node 1 ''a'' ''t'')
       \<lparr>rq_actions = [tool_call ''b'' ''1'', tool_call ''b'' ''2''], rq_metadata = JObj []\<rparr> 0 agent_entry [])
       \<lparr>rq_workflow := two_node_workflow\<rparr>)"
proof -
  have named: "nodes_named (w_nodes two_node_workflow)"
    by (simp add: nodes_named_def two_node_workflow_def plain_node_def)
  have "map (\<lambda>a. (sa_nodeName a, sa_runIndex a)) (rq_subActions (fst (handleRequest two_node_workflow (plain_node 1 ''a'' ''t'')
       \<lparr>rq_actions = [tool_call ''b'' ''1'', tool_call ''b'' ''2''], rq_metadata = JObj []\<rparr> 0 agent_entry [])))
     = [(''b'', 0), (''b'', 1)]" by code_simp
  moreover have "snd (handleRequest two_node_workflow (plain_node 1 ''a'' ''t'')
       \<lparr>rq_actions = [tool_call ''b'' ''1'', tool_call ''b'' ''2''], rq_metadata = JObj []\<rparr> 0 agent_entry []) = None"
    by code_simp
  ultimately show ?thesis using handleRequest_reserves_runs [OF named] by blast
qed

text \<open>
  The source of a requested node is looked up at the position of the run index in the list
  of sources, which has one entry per input: from the second run on there is none, and the
  requesting node itself is named as the source.
\<close>

lemma second_run_loses_source:
  "map (\<lambda>n. md_preservedSourceOverwrite (the (ne_metadata n)))
     (drop 1 (rq_nodes (fst (handleRequest two_node_workflow (plain_node 1 ''a'' ''t'')
       \<lparr>rq_actions = [tool_call ''b'' ''1''], rq_metadata = JObj []\<rparr> 1 agent_entry []))))
   = [Some \<lparr>sd_previousNode = ''a'', sd_previousNodeOutput = Some 0, sd_previousNodeRun = Some 0\<rparr>]"
  by code_simp

end
