(* ===== verification/EngineState.thy ===== *)
theory EngineState
  imports RequestsResponse
begin

text \<open>
  The state of \<^verbatim>\<open>WorkflowExecute\<close> (\<^verbatim>\<open>workflow-execute.ts\<close>) and the operations on its stack and
  on the nodes waiting for more inputs.  The record holds the fields of the class, of its
  \<^verbatim>\<open>runExecutionData\<close> and the mutable part of its \<^verbatim>\<open>additionalData\<close>; the workflow is part of
  it because the engine writes to node objects.  \<^verbatim>\<open>en_calls\<close> and \<^verbatim>\<open>en_reads\<close> count the calls
  of node implementations and the reads of the clock, whose answers are parameters;
  \<^verbatim>\<open>en_executionError\<close>, \<^verbatim>\<open>en_closeFunction\<close> and \<^verbatim>\<open>en_lastTry\<close> are variables of the main loop;
  \<^verbatim>\<open>en_events\<close> is the trace of the lifecycle hooks.
\<close>

section \<open>State\<close>

datatype hook_event =
    WorkflowExecuteBefore | WorkflowExecuteResume | NodeExecuteBefore string nat
  | NodeExecuteAfter string nat | SendChunk string nat | WorkflowExecuteAfter execution_status

record engine =
  en_workflow :: workflow
  en_status :: execution_status
  en_timedOut :: bool
  en_aborted :: bool
  en_startData :: "destination_node start_data option"
  en_error :: "js_error option"
  en_runData :: run_data
  en_pinData :: "pin_data option"
  en_lastNodeExecuted :: "string option"
  en_stack :: "execute_data list"
  en_metadata :: "(string, task_metadata list) omap"
  en_waiting :: waiting_execution
  en_waitingSource :: "waiting_execution_source option"
  en_waitTill :: "int option"
  en_executionIndex :: nat
  en_usedDynamic :: bool
  en_attemptedDynamic :: bool
  en_executionError :: "js_error option"
  en_closeFunction :: bool
  en_lastTry :: string
  en_calls :: nat
  en_reads :: nat
  en_events :: "hook_event list"

definition isLegacyExecutionOrder :: "workflow \<Rightarrow> bool" where
  "isLegacyExecutionOrder w \<longleftrightarrow> ws_executionOrder (w_settings w) \<noteq> Some ''v1''"

text \<open>\<^verbatim>\<open>unshift\<close> in the order v1, \<^verbatim>\<open>push\<close> otherwise.\<close>

definition enqueue :: "execute_data \<Rightarrow> engine \<Rightarrow> engine" where
  "enqueue entry s =
     s\<lparr>en_stack := (if isLegacyExecutionOrder (en_workflow s) then en_stack s @ [entry] else entry # en_stack s)\<rparr>"

abbreviation undefined_error :: js_error where
  "undefined_error \<equiv> TypeError ''Cannot read properties of undefined''"

definition lookup :: "('k, 'v) omap \<Rightarrow> 'k \<Rightarrow> 'v res" where
  "lookup m k = (case map_of m k of None \<Rightarrow> Inl undefined_error | Some v \<Rightarrow> Inr v)"

text \<open>A read that may throw, in the middle of an operation on the state.\<close>

definition reading :: "'a res \<Rightarrow> ('a \<Rightarrow> 's \<Rightarrow> 's run) \<Rightarrow> 's \<Rightarrow> 's run" where
  "reading r f s = (case r of Inl e \<Rightarrow> raised e s | Inr x \<Rightarrow> f x s)"

section \<open>Reading inputs\<close>

definition array_at_nonneg :: "'a list \<Rightarrow> int \<Rightarrow> 'a option" where
  "array_at_nonneg xs i = (if 0 \<le> i \<and> i < int (length xs) then Some (xs ! nat i) else None)"

definition output_of_run :: "run_data \<Rightarrow> iconnection \<Rightarrow> int \<Rightarrow> items js" where
  "output_of_run runData c runIndex =
     (case map_of runData (c_node c) of None \<Rightarrow> Undef
      | Some tds \<Rightarrow> (case array_at_nonneg tds runIndex of None \<Rightarrow> Undef
        | Some td \<Rightarrow> (case td_data td of None \<Rightarrow> Undef
          | Some data \<Rightarrow> js_get (main_of data) (c_index c))))"

fun incomingConnectionIsEmpty :: "run_data \<Rightarrow> iconnection list \<Rightarrow> int \<Rightarrow> bool res" where
  "incomingConnectionIsEmpty runData [] runIndex = Inr True"
| "incomingConnectionIsEmpty runData (c # cs) runIndex =
     (case output_of_run runData c runIndex of
        Undef \<Rightarrow> incomingConnectionIsEmpty runData cs runIndex
      | Null \<Rightarrow> Inl (TypeError ''Cannot read properties of null'')
      | Val xs \<Rightarrow> if length xs \<noteq> 0 then Inr False else incomingConnectionIsEmpty runData cs runIndex)"

section \<open>Waiting nodes\<close>

definition waiting_runs :: "engine \<Rightarrow> string \<Rightarrow> (nat, task_data_connections) omap" where
  "waiting_runs s nodeName = or_else (map_of (en_waiting s) nodeName) []"

definition waiting_source_runs :: "engine \<Rightarrow> string \<Rightarrow> (nat, source_connections) omap" where
  "waiting_source_runs s nodeName = or_else (map_of (or_else (en_waitingSource s) []) nodeName) []"

definition set_waiting :: "string \<Rightarrow> nat \<Rightarrow> task_data_connections \<Rightarrow> engine \<Rightarrow> engine" where
  "set_waiting nodeName i entry s =
     s\<lparr>en_waiting := AList.update nodeName (nput i entry (waiting_runs s nodeName)) (en_waiting s)\<rparr>"

definition set_waiting_source :: "string \<Rightarrow> nat \<Rightarrow> source_connections \<Rightarrow> engine \<Rightarrow> engine" where
  "set_waiting_source nodeName i entry s =
     s\<lparr>en_waitingSource :=
         Some (AList.update nodeName (nput i entry (waiting_source_runs s nodeName)) (or_else (en_waitingSource s) []))\<rparr>"

definition prepareWaitingToExecution :: "string \<Rightarrow> nat \<Rightarrow> nat \<Rightarrow> engine \<Rightarrow> engine" where
  "prepareWaitingToExecution nodeName numberOfConnections runIndex s =
     set_waiting_source nodeName runIndex [(Main_t, replicate numberOfConnections None)]
       (set_waiting nodeName runIndex [(Main_t, replicate numberOfConnections Null)] s)"

text \<open>\<^verbatim>\<open>waitingExecution[node][i].main\<close>, and the assignment of one of its entries.\<close>

definition waiting_main :: "engine \<Rightarrow> string \<Rightarrow> nat \<Rightarrow> items js list res" where
  "waiting_main s nodeName i =
     bind_res (lookup (en_waiting s) nodeName) (\<lambda>runs. bind_res (lookup runs i) (\<lambda>entry. lookup entry Main_t))"

definition waiting_source_main :: "engine \<Rightarrow> string \<Rightarrow> nat \<Rightarrow> source_data option list res" where
  "waiting_source_main s nodeName i =
     bind_res (lookup (or_else (en_waitingSource s) []) nodeName) (\<lambda>runs.
       bind_res (lookup runs i) (\<lambda>entry. lookup entry Main_t))"

definition put_waiting :: "string \<Rightarrow> nat \<Rightarrow> nat \<Rightarrow> items js \<Rightarrow> engine \<Rightarrow> engine run" where
  "put_waiting nodeName i input v s =
     reading (waiting_main s nodeName i) (\<lambda>main s.
       normal (set_waiting nodeName i
         (AList.update Main_t (array_set Undef main input v) (or_else (map_of (waiting_runs s nodeName) i) [])) s)) s"

definition put_waiting_source :: "string \<Rightarrow> nat \<Rightarrow> nat \<Rightarrow> source_data option \<Rightarrow> engine \<Rightarrow> engine run" where
  "put_waiting_source nodeName i input v s =
     reading (waiting_source_main s nodeName i) (\<lambda>main s.
       normal (set_waiting_source nodeName i
         (AList.update Main_t (array_set None main input v) (or_else (map_of (waiting_source_runs s nodeName) i) [])) s)) s"

text \<open>The first waiting entry, by run index, whose input is still free (\<^verbatim>\<open>!main[index]\<close>).\<close>

fun first_free :: "nat \<Rightarrow> (nat, task_data_connections) omap \<Rightarrow> nat option res" where
  "first_free input [] = Inr None"
| "first_free input ((i, entry) # runs) =
     bind_res (lookup entry Main_t) (\<lambda>main.
       case js_get main input of
         Val _ \<Rightarrow> first_free input runs
       | _ \<Rightarrow> Inr (Some i))"

text \<open>Removing a waiting entry, and the node with its last one.\<close>

definition drop_waiting :: "string \<Rightarrow> nat \<Rightarrow> engine \<Rightarrow> engine" where
  "drop_waiting nodeName i s =
     (let runs = AList.delete i (waiting_runs s nodeName);
          sources = AList.delete i (waiting_source_runs s nodeName);
          sourceMap = or_else (en_waitingSource s) []
      in if runs = []
         then s\<lparr>en_waiting := AList.delete nodeName (en_waiting s),
                en_waitingSource := Some (AList.delete nodeName sourceMap)\<rparr>
         else s\<lparr>en_waiting := AList.update nodeName runs (en_waiting s),
                en_waitingSource := Some (AList.update nodeName sources sourceMap)\<rparr>)"

section \<open>Scheduling a node\<close>

text \<open>The number of main inputs of a node.\<close>

definition number_of_inputs :: "workflow \<Rightarrow> string \<Rightarrow> nat" where
  "number_of_inputs w nodeName = length (typed_inputs (w_connectionsByDestinationNode w) nodeName Main_t)"

text \<open>\<^verbatim>\<open>nodeSuccessData[outputIndex]\<close>, and \<^verbatim>\<open>null\<close> for \<^verbatim>\<open>null\<close>.\<close>

definition success_at :: "items js list js \<Rightarrow> nat \<Rightarrow> items js res" where
  "success_at nodeSuccessData outputIndex =
     (case nodeSuccessData of
        Null \<Rightarrow> Inr Null
      | Undef \<Rightarrow> Inl undefined_error
      | Val outputs \<Rightarrow> Inr (js_get outputs outputIndex))"

definition source_entry :: "string \<Rightarrow> nat \<Rightarrow> int \<Rightarrow> source_data" where
  "source_entry parentNodeName outputIndex runIndex =
     \<lparr>sd_previousNode = parentNodeName, sd_previousNodeOutput = Some outputIndex, sd_previousNodeRun = Some runIndex\<rparr>"

definition place_data :: "string \<Rightarrow> nat \<Rightarrow> nat \<Rightarrow> items js list js \<Rightarrow> nat \<Rightarrow> source_data \<Rightarrow> engine \<Rightarrow> engine run" where
  "place_data nodeName i input nodeSuccessData outputIndex source s =
     reading (success_at nodeSuccessData outputIndex) (\<lambda>v s.
       and_then (put_waiting nodeName i input v s)
         (put_waiting_source nodeName i input (if nodeSuccessData = Null then None else Some source))) s"

text \<open>All inputs have data: the entry moves from the waiting nodes to the stack.\<close>

definition complete_waiting :: "string \<Rightarrow> nat \<Rightarrow> engine \<Rightarrow> engine run" where
  "complete_waiting nodeName i s =
     (case map_of (w_nodes (en_workflow s)) nodeName of
        None \<Rightarrow> raised undefined_error s
      | Some node \<Rightarrow>
          reading (lookup (waiting_runs s nodeName) i) (\<lambda>entry s.
            normal (drop_waiting nodeName i
              (enqueue \<lparr>ed_data = entry, ed_metadata = None, ed_node = node,
                 ed_source = map_of (waiting_source_runs s nodeName) i, ed_runIndex = None\<rparr> s))) s)"

definition all_main_targets :: "workflow \<Rightarrow> string \<Rightarrow> string list res" where
  "all_main_targets w parentNodeName =
     bind_res (lookup (w_connectionsBySourceNode w) parentNodeName) (\<lambda>nc.
       Inr (map c_node (connections_of_groups (main_of nc))))"

definition first_input_connections :: "workflow \<Rightarrow> string \<Rightarrow> iconnection list res" where
  "first_input_connections w nodeName =
     bind_res (lookup (w_connectionsByDestinationNode w) nodeName) (\<lambda>nc.
       bind_res (lookup nc Main_t) (\<lambda>groups. Inr (group_at groups 0)))"

text \<open>
  The legacy order runs inputs that would not run by themselves: the loop that looks for the
  node to add, from the farthest parent down to the input's source.
\<close>

fun pick_parent :: "string \<Rightarrow> string list \<Rightarrow> string list \<Rightarrow> run_data \<Rightarrow> string list \<Rightarrow> string option \<Rightarrow> string option" where
  "pick_parent inputNode checkOutputNodes stackNodes runData [] nodeToAdd = nodeToAdd"
| "pick_parent inputNode checkOutputNodes stackNodes runData (parentNode # parents) nodeToAdd =
     (if inputNode \<noteq> parentNode \<and> parentNode \<in> set checkOutputNodes then None
      else if parentNode \<in> set stackNodes then None
      else if has_key runData parentNode then nodeToAdd
      else pick_parent inputNode checkOutputNodes stackNodes runData parents (Some parentNode))"

definition node_to_add ::
    "engine \<Rightarrow> string \<Rightarrow> string list \<Rightarrow> string \<Rightarrow> items js list js \<Rightarrow> nat \<Rightarrow> string option res" where
  "node_to_add s inputNode checkOutputNodes parentNodeName nodeSuccessData outputIndex =
     (let w = en_workflow s;
          parents = rev (w_getParentNodes w inputNode (Of_type Main_t) (-1) @ [inputNode]);
          picked = pick_parent inputNode checkOutputNodes (map (n_name \<circ> ed_node) (en_stack s)) (en_runData s) parents (Some inputNode);
          parentsOfPicked = (case picked of Some n \<Rightarrow> w_getParentNodes w n (Of_type Main_t) (-1) | None \<Rightarrow> [])
      in if parentNodeName \<in> set parentsOfPicked
         then (case nodeSuccessData of
             Val outputs \<Rightarrow> (case js_get outputs outputIndex of
                 Val xs \<Rightarrow> Inr (if length xs = 0 then None else picked)
               | _ \<Rightarrow> Inl undefined_error)
           | _ \<Rightarrow> Inl undefined_error)
         else Inr picked)"

definition needs_empty_item :: "engine \<Rightarrow> string \<Rightarrow> int \<Rightarrow> bool res" where
  "needs_empty_item s nodeToAdd runIndex =
     (if \<not> has_key (w_connectionsByDestinationNode (en_workflow s)) nodeToAdd then Inr True
      else bind_res (first_input_connections (en_workflow s) nodeToAdd) (\<lambda>cs.
             incomingConnectionIsEmpty (en_runData s) cs runIndex))"

text \<open>The body of the loops over the inputs of a node that starts to wait.\<close>

definition force_input ::
    "string list \<Rightarrow> string \<Rightarrow> items js list js \<Rightarrow> nat \<Rightarrow> int \<Rightarrow> iconnection \<Rightarrow> engine \<Rightarrow> engine run" where
  "force_input checkOutputNodes parentNodeName nodeSuccessData outputIndex runIndex inputData s =
     (let inputNode = c_node inputData
      in if inputNode = parentNodeName then normal s
         else reading
           (if inputNode \<in> set checkOutputNodes
            then bind_res (first_input_connections (en_workflow s) inputNode) (\<lambda>cs.
                   bind_res (incomingConnectionIsEmpty (en_runData s) cs runIndex) (\<lambda>e. Inr (\<not> e)))
            else Inr False) (\<lambda>comesAnyway s.
           if comesAnyway then normal s
           else if inputNode \<in> set (map (n_name \<circ> ed_node) (en_stack s)) then normal s
           else if has_key (en_runData s) inputNode then normal s
           else if \<not> isLegacyExecutionOrder (en_workflow s) then normal s
           else reading (node_to_add s inputNode checkOutputNodes parentNodeName nodeSuccessData outputIndex) (\<lambda>found s.
             case found of
               None \<Rightarrow> normal s
             | Some nodeToAdd \<Rightarrow>
                 reading (needs_empty_item s nodeToAdd runIndex) (\<lambda>addEmptyItem s.
                   if \<not> addEmptyItem then normal s
                   else case getNode (en_workflow s) nodeToAdd of
                     None \<Rightarrow> raised undefined_error s
                   | Some node \<Rightarrow> normal (enqueue
                       \<lparr>ed_data = [(Main_t, [Val [empty_item]])], ed_metadata = None, ed_node = node,
                        ed_source = Some [(Main_t, [Some (source_entry parentNodeName outputIndex runIndex)])],
                        ed_runIndex = None\<rparr> s)) s) s) s)"

definition force_inputs ::
    "string \<Rightarrow> string \<Rightarrow> items js list js \<Rightarrow> nat \<Rightarrow> int \<Rightarrow> engine \<Rightarrow> engine run" where
  "force_inputs nodeName parentNodeName nodeSuccessData outputIndex runIndex s =
     reading (all_main_targets (en_workflow s) parentNodeName) (\<lambda>checkOutputNodes.
       fold_run (force_input checkOutputNodes parentNodeName nodeSuccessData outputIndex runIndex)
         (connections_of_groups (typed_inputs (w_connectionsByDestinationNode (en_workflow s)) nodeName Main_t))) s"

text \<open>Inputs are still missing: the entry is written back with the main inputs only.\<close>

definition store_waiting :: "string \<Rightarrow> nat \<Rightarrow> nat \<Rightarrow> items js list js \<Rightarrow> nat \<Rightarrow> engine \<Rightarrow> engine run" where
  "store_waiting nodeName i input nodeSuccessData outputIndex s =
     reading (waiting_main s nodeName i) (\<lambda>main.
     reading (success_at nodeSuccessData outputIndex) (\<lambda>v.
     reading (waiting_source_main s nodeName i) (\<lambda>sources s.
       normal (set_waiting_source nodeName i [(Main_t, sources)]
         (set_waiting nodeName i [(Main_t, array_set Undef main input v)] s))))) s"

text \<open>A node with one input: the data goes on the stack at once.\<close>

definition add_directly ::
    "iconnection \<Rightarrow> items js list js \<Rightarrow> nat \<Rightarrow> source_data \<Rightarrow> nat option \<Rightarrow> task_metadata option \<Rightarrow> engine \<Rightarrow> engine run" where
  "add_directly connectionData nodeSuccessData outputIndex source newRunIndex metadata s =
     reading (success_at nodeSuccessData outputIndex) (\<lambda>v s.
       case map_of (w_nodes (en_workflow s)) (c_node connectionData) of
         None \<Rightarrow> normal s
       | Some node \<Rightarrow> normal (enqueue
           \<lparr>ed_data = [(Main_t, replicate (c_index connectionData) Null @ [v])], ed_metadata = metadata,
            ed_node = node, ed_source = Some [(Main_t, [Some source])], ed_runIndex = newRunIndex\<rparr> s)) s"

text \<open>The entry the data goes to is a free one, or a new one at the number of entries.\<close>

definition start_waiting :: "string \<Rightarrow> engine \<Rightarrow> engine" where
  "start_waiting nodeName s =
     (let sources = or_else (en_waitingSource s) []
      in if has_key (en_waiting s) nodeName then s\<lparr>en_waitingSource := Some sources\<rparr>
         else s\<lparr>en_waiting := AList.update nodeName [] (en_waiting s),
                en_waitingSource := Some (AList.update nodeName [] sources)\<rparr>)"

definition addNodeToBeExecuted ::
    "iconnection \<Rightarrow> nat \<Rightarrow> string \<Rightarrow> items js list js \<Rightarrow> int \<Rightarrow> nat option \<Rightarrow> task_metadata option \<Rightarrow> engine \<Rightarrow> engine run" where
  "addNodeToBeExecuted connectionData outputIndex parentNodeName nodeSuccessData runIndex newRunIndex metadata s =
     (let nodeName = c_node connectionData;
          input = c_index connectionData;
          source = source_entry parentNodeName outputIndex runIndex;
          n = number_of_inputs (en_workflow s) nodeName;
          nodeWasWaiting = has_key (en_waiting s) nodeName
      in if n > 1
         then (let s = start_waiting nodeName s
           in reading (first_free input (waiting_runs s nodeName)) (\<lambda>free s.
             let i = or_else free (length (waiting_runs s nodeName));
                 s = (if free = None then prepareWaitingToExecution nodeName n i s else s)
             in and_then (place_data nodeName i input nodeSuccessData outputIndex source s) (\<lambda>s.
                  reading (waiting_main s nodeName i) (\<lambda>main s.
                    if Null \<notin> set main then complete_waiting nodeName i s
                    else and_then
                      (if nodeWasWaiting then normal s
                       else force_inputs nodeName parentNodeName nodeSuccessData outputIndex runIndex s)
                      (store_waiting nodeName i input nodeSuccessData outputIndex)) s)) s)
         else add_directly connectionData nodeSuccessData outputIndex source newRunIndex metadata s)"

section \<open>Checks before a node runs\<close>

definition push_back :: "execute_data \<Rightarrow> engine \<Rightarrow> engine" where
  "push_back executionData s = s\<lparr>en_stack := en_stack s @ [executionData]\<rparr>"

fun ensure_inputs :: "execute_data \<Rightarrow> nat list \<Rightarrow> engine \<Rightarrow> engine \<times> bool" where
  "ensure_inputs executionData [] s = (s, True)"
| "ensure_inputs executionData (connectionIndex # indexes) s =
     (let highestNodes = or_else (getHighestNode (en_workflow s) (n_name (ed_node executionData)) (Some connectionIndex)) []
      in if length highestNodes = 0 then (s, True)
         else case map_of (ed_data executionData) Main_t of
             None \<Rightarrow> (push_back executionData s, False)
           | Some main \<Rightarrow>
               if isLegacyExecutionOrder (en_workflow s)
                  \<and> (length main < connectionIndex \<or> js_get main connectionIndex = Null)
               then (push_back executionData s, False)
               else ensure_inputs executionData indexes s)"

definition ensureInputData :: "execute_data \<Rightarrow> engine \<Rightarrow> engine \<times> bool" where
  "ensureInputData executionData s =
     ensure_inputs executionData [0..<number_of_inputs (en_workflow s) (n_name (ed_node executionData))] s"

text \<open>
  The issues of a node's parameters come from \<^verbatim>\<open>NodeHelpers.getNodeParametersIssues\<close>, the
  parameter \<^verbatim>\<open>issuesOf\<close>.
\<close>

datatype node_issues = TypeUnknown | ParameterIssues data_object

definition check_node ::
    "node_types \<Rightarrow> (inode \<Rightarrow> node_type \<Rightarrow> string list \<Rightarrow> data_object option) \<Rightarrow> workflow \<Rightarrow> string list \<Rightarrow> string \<Rightarrow>
     (string, node_issues) omap \<Rightarrow> (string, node_issues) omap" where
  "check_node types issuesOf w pinDataNodeNames nodeName workflowIssues =
     (case map_of (w_nodes w) nodeName of
        None \<Rightarrow> workflowIssues
      | Some node \<Rightarrow>
          if is_disabled node then workflowIssues
          else case types (n_type node) (n_typeVersion node) of
              None \<Rightarrow> AList.update (n_name node) TypeUnknown workflowIssues
            | Some nt \<Rightarrow> (case issuesOf node nt pinDataNodeNames of
                None \<Rightarrow> workflowIssues
              | Some i \<Rightarrow> AList.update (n_name node) (ParameterIssues i) workflowIssues))"

definition checkReadyForExecution ::
    "node_types \<Rightarrow> (inode \<Rightarrow> node_type \<Rightarrow> string list \<Rightarrow> data_object option) \<Rightarrow> workflow \<Rightarrow>
     string option \<Rightarrow> destination_node option \<Rightarrow> string list \<Rightarrow> (string, node_issues) omap option" where
  "checkReadyForExecution types issuesOf w startNode destinationNode pinDataNodeNames =
     (let checkNodes = (case destinationNode of
            Some d \<Rightarrow> w_getParentNodes w (d_nodeName d) (Of_type Main_t) (-1)
              @ (if d_mode d = Inclusive then [d_nodeName d] else [])
          | None \<Rightarrow> (case startNode of
              Some (c # cs) \<Rightarrow> w_getChildNodes w (c # cs) (Of_type Main_t) (-1) @ [c # cs]
            | _ \<Rightarrow> []));
          workflowIssues = fold (check_node types issuesOf w pinDataNodeNames) checkNodes []
      in if workflowIssues = [] then None else Some workflowIssues)"

section \<open>Resuming, cancelling, finishing\<close>

text \<open>A write to a node object is seen wherever the object is: in the workflow and on the stack.\<close>

definition write_node :: "nat \<Rightarrow> (inode \<Rightarrow> inode) \<Rightarrow> engine \<Rightarrow> engine" where
  "write_node ref f s =
     s\<lparr>en_workflow := (en_workflow s)\<lparr>w_nodes :=
          map (\<lambda>(k, n). (k, if n_ref n = ref then f n else n)) (w_nodes (en_workflow s))\<rparr>,
       en_stack := map (\<lambda>e. if n_ref (ed_node e) = ref then e\<lparr>ed_node := f (ed_node e)\<rparr> else e) (en_stack s)\<rparr>"

definition has_resume_error :: "execute_data \<Rightarrow> bool" where
  "has_resume_error e = (case ed_metadata e of Some md \<Rightarrow> md_resumeError md \<noteq> None | None \<Rightarrow> False)"

definition disable_node :: "execute_data \<Rightarrow> engine \<Rightarrow> engine" where
  "disable_node e s = write_node (n_ref (ed_node e)) (\<lambda>n. n\<lparr>n_disabled := Some True\<rparr>) s"

definition handleWaitingState :: "engine \<Rightarrow> engine run" where
  "handleWaitingState s =
     (if en_waitTill s = None then normal s
      else let s = s\<lparr>en_waitTill := None\<rparr>
           in case en_stack s of
                [] \<Rightarrow> raised undefined_error s
              | e # _ \<Rightarrow>
                  (let s = (if has_resume_error e then s else disable_node e s)
                   in case en_lastNodeExecuted s of
                        None \<Rightarrow> raised undefined_error s
                      | Some lastNodeExecuted \<Rightarrow>
                          reading (lookup (en_runData s) lastNodeExecuted) (\<lambda>runs s.
                            normal (s\<lparr>en_runData := AList.update lastNodeExecuted (butlast runs) (en_runData s)\<rparr>)) s))"

definition or_keep :: "'a option \<Rightarrow> 'a option \<Rightarrow> 'a option" where
  "or_keep new old = (case new of None \<Rightarrow> old | Some x \<Rightarrow> Some x)"

text \<open>\<^verbatim>\<open>{ ...a, ...b }\<close> on metadata\<close>

definition merge_metadata :: "task_metadata option \<Rightarrow> task_metadata \<Rightarrow> task_metadata" where
  "merge_metadata a b =
     (let a = or_else a no_metadata
      in \<lparr>md_subNodeExecutionData = or_keep (md_subNodeExecutionData b) (md_subNodeExecutionData a),
          md_preserveSourceOverwrite = or_keep (md_preserveSourceOverwrite b) (md_preserveSourceOverwrite a),
          md_preservedSourceOverwrite = or_keep (md_preservedSourceOverwrite b) (md_preservedSourceOverwrite a),
          md_nodeWasResumed = or_keep (md_nodeWasResumed b) (md_nodeWasResumed a),
          md_resumeError = or_keep (md_resumeError b) (md_resumeError a),
          md_subExecution = or_keep (md_subExecution b) (md_subExecution a),
          md_other = spread (md_other a) (md_other b)\<rparr>)"

definition move_metadata_of :: "string \<times> nat \<times> task_metadata \<Rightarrow> run_data \<Rightarrow> run_data" where
  "move_metadata_of entry runData =
     (case entry of (nodeName, index, metaRunData) \<Rightarrow>
       (case map_of runData nodeName of
          None \<Rightarrow> runData
        | Some tds \<Rightarrow>
            if index < length tds
            then AList.update nodeName
                   (tds[index := (tds ! index)\<lparr>td_metadata := Some (merge_metadata (td_metadata (tds ! index)) metaRunData)\<rparr>])
                   runData
            else runData))"

definition moveNodeMetadata :: "engine \<Rightarrow> engine" where
  "moveNodeMetadata s =
     s\<lparr>en_runData := fold move_metadata_of
         (concat (map (\<lambda>(nodeName, mds). map (\<lambda>(index, md). (nodeName, index, md)) (enumerate 0 mds)) (en_metadata s)))
         (en_runData s)\<rparr>"

definition cancel_task :: "task_data \<Rightarrow> task_data" where
  "cancel_task td =
     (if td_executionStatus td = Some Running then td\<lparr>td_executionStatus := Some Canceled\<rparr> else td)"

definition updateTaskStatusesToCancelled :: "engine \<Rightarrow> engine" where
  "updateTaskStatusesToCancelled s =
     s\<lparr>en_runData := map (\<lambda>(k, tds). (k, map cancel_task tds)) (en_runData s)\<rparr>"

definition emit :: "hook_event \<Rightarrow> engine \<Rightarrow> engine" where
  "emit ev s = s\<lparr>en_events := en_events s @ [ev]\<rparr>"

text \<open>The handler of a cancellation.\<close>

definition onCancel :: "engine \<Rightarrow> engine" where
  "onCancel s = emit (WorkflowExecuteAfter Canceled)
     ((updateTaskStatusesToCancelled (s\<lparr>en_status := Canceled\<rparr>))\<lparr>en_aborted := True\<rparr>)"

end
