(* ===== verification/NodeRun.thy ===== *)
theory NodeRun
  imports EngineState
begin

text \<open>
  Running one node (\<^verbatim>\<open>runNode\<close> and what it calls in \<^verbatim>\<open>workflow-execute.ts\<close>) and treating its
  output.  What a node's own code answers is a parameter: a function of the number of the
  call and of what the node is given, so that the same node may answer differently each
  time.  Its answer also says what the node did to the execution: asking to wait,
  using dynamic credentials, or being interrupted by a cancellation.
\<close>

section \<open>The environment\<close>

datatype call_kind = Call_custom | Call_execute | Call_poll | Call_trigger | Call_declarative

record node_call =
  nc_kind :: call_kind
  nc_node :: inode
  nc_runIndex :: nat
  nc_connectionInputData :: items
  nc_inputData :: task_data_connections
  nc_executionData :: execute_data
  nc_response :: "engine_response option"

text \<open>
  What the code of a node returns: data, a request, the response of a trigger (with whether
  there is a close function), or an exception.  A rejected close function gives an error or
  something that is not one.
\<close>

datatype node_answer =
    Returned "items js list js" "string list"
  | Requested engine_request
  | Triggered "(items js list \<times> bool) option"
  | Thrown js_error

datatype rejection = Rejected_with js_error | Rejected_other

record node_outcome =
  no_answer :: node_answer
  no_closing :: "rejection list"
  no_waitTill :: "int option"
  no_aborted :: bool
  no_usedDynamic :: bool
  no_attemptedDynamic :: bool

record env =
  e_types :: node_types
  e_manual :: bool
  e_behaviour :: "nat \<Rightarrow> node_call \<Rightarrow> node_outcome"
  e_clock :: "nat \<Rightarrow> int"
  e_timeout :: "int option"
  e_restart :: bool
  e_nodeOutputs :: "workflow \<Rightarrow> inode \<Rightarrow> node_io list"
  e_getPairedItem :: "engine \<Rightarrow> string \<Rightarrow> source_data \<Rightarrow> paired_item \<Rightarrow> item option res"
  e_convertBinary :: "items js list js \<Rightarrow> items js list js"
  e_requiredInputs :: "inode \<Rightarrow> string \<Rightarrow> (nat list + nat) option"
  e_issuesOf :: "inode \<Rightarrow> node_type \<Rightarrow> string list \<Rightarrow> data_object option"
  e_issuesText :: "(string, node_issues) omap \<Rightarrow> string"

text \<open>A call of the node's code.\<close>

definition call_node :: "env \<Rightarrow> node_call \<Rightarrow> engine \<Rightarrow> engine \<times> node_outcome" where
  "call_node env call s =
     (let o' = e_behaviour env (en_calls s) call;
          s = s\<lparr>en_calls := Suc (en_calls s),
                en_waitTill := (case no_waitTill o' of Some t \<Rightarrow> Some t | None \<Rightarrow> en_waitTill s),
                en_usedDynamic := en_usedDynamic s \<or> no_usedDynamic o',
                en_attemptedDynamic := en_attemptedDynamic s \<or> no_attemptedDynamic o'\<rparr>
      in (if no_aborted o' \<and> \<not> en_aborted s then onCancel s else s, o'))"

text \<open>\<^verbatim>\<open>Date.now()\<close>\<close>

definition read_clock :: "env \<Rightarrow> engine \<Rightarrow> engine \<times> int" where
  "read_clock env s = (s\<lparr>en_reads := Suc (en_reads s)\<rparr>, e_clock env (en_reads s))"

section \<open>Running a node\<close>

text \<open>What \<^verbatim>\<open>runNode\<close> resolves to: data with hints and a close function, or a request.\<close>

datatype run_response = Run_data "items js list js" "string list" bool | Run_request engine_request

definition getCustomOperation :: "inode \<Rightarrow> node_type \<Rightarrow> bool" where
  "getCustomOperation node nt =
     (case nt_customOperations nt of None \<Rightarrow> False
      | Some ops \<Rightarrow> (case n_forceCustomOperation node of
          Some (resource, operation) \<Rightarrow> (resource, operation) \<in> set ops
        | None \<Rightarrow> (case (map_of (n_parameters node) ''resource'', map_of (n_parameters node) ''operation'') of
            (Some (JStr resource), Some (JStr operation)) \<Rightarrow> (resource, operation) \<in> set ops
          | _ \<Rightarrow> False)))"

definition handleDisabledNode :: "task_data_connections \<Rightarrow> items js list js" where
  "handleDisabledNode inputData =
     (case map_of inputData Main_t of
        Some (Null # _) \<Rightarrow> Undef
      | Some (x # _) \<Rightarrow> Val [x]
      | _ \<Rightarrow> Undef)"

definition prepareConnectionInputData ::
    "workflow \<Rightarrow> node_type \<Rightarrow> bool \<Rightarrow> task_data_connections \<Rightarrow> items option" where
  "prepareConnectionInputData w nt customOperation inputData =
     (if nt_execute nt \<or> customOperation \<or> (\<not> nt_poll nt \<and> \<not> nt_trigger nt \<and> \<not> nt_webhook nt)
      then (let main = main_of inputData
            in if main = [] then None
               else let forceInputNodeExecution = isLegacyExecutionOrder w;
                        connectionInputData =
                          (if \<not> forceInputNodeExecution
                           then (case List.find js_nonempty main of Some d \<Rightarrow> d | None \<Rightarrow> hd main)
                           else hd main)
                    in if js_nonempty connectionInputData then Some (js_list connectionInputData) else None)
      else Some [])"

definition continuesOnError :: "inode \<Rightarrow> bool" where
  "continuesOnError node \<longleftrightarrow>
     n_continueOnFail node = Some True \<or> n_onError node = Some ContinueRegularOutput \<or> n_onError node = Some ContinueErrorOutput"

definition rethrowNodeError :: "js_error \<Rightarrow> js_error" where
  "rethrowNodeError e =
     (if err_name e = ''NodeOperationError'' \<or> err_name e = ''NodeApiError'' then e
      else JsError ''Error'' (err_message e) None)"

definition rethrowLastNodeError :: "engine \<Rightarrow> inode \<Rightarrow> js_error option" where
  "rethrowLastNodeError s node =
     (if en_lastNodeExecuted s = Some (n_name node) then map_option rethrowNodeError (en_error s) else None)"

definition handleExecuteOnce :: "inode \<Rightarrow> task_data_connections \<Rightarrow> task_data_connections" where
  "handleExecuteOnce node inputData =
     (if n_executeOnce node = Some True then map (\<lambda>(k, inputs). (k, map (map_js (take 1)) inputs)) inputData
      else inputData)"

text \<open>The first rejected close function, if the node itself succeeded.\<close>

definition closing_error :: "rejection list \<Rightarrow> js_error option" where
  "closing_error rejections =
     (case rejections of
        [] \<Rightarrow> None
      | Rejected_with e # _ \<Rightarrow> Some e
      | Rejected_other # _ \<Rightarrow> Some (UnexpectedError ''Error on execution node's close function(s)''))"

type_synonym 'a engine_run = "engine \<times> (js_error + 'a)"

definition main_data :: "task_data_connections \<Rightarrow> items js list js" where
  "main_data inputData = (case map_of inputData Main_t of Some d \<Rightarrow> Val d | None \<Rightarrow> Undef)"

text \<open>\<^verbatim>\<open>executeNode\<close>; an answer of a trigger does not occur here.\<close>

definition executeNode :: "env \<Rightarrow> node_call \<Rightarrow> engine \<Rightarrow> run_response engine_run" where
  "executeNode env call s =
     (case call_node env call s of (s, o') \<Rightarrow>
       (case no_answer o' of
          Thrown e \<Rightarrow> (s, Inl e)
        | answer \<Rightarrow>
            (case closing_error (no_closing o') of
               Some e \<Rightarrow> (s, Inl e)
             | None \<Rightarrow> (case answer of
                 Returned data hints \<Rightarrow> (s, Inr (Run_data data hints False))
               | Requested request \<Rightarrow> (s, Inr (Run_request request))
               | _ \<Rightarrow> (s, Inr (Run_data Undef [] False))))))"

definition executePollNode :: "env \<Rightarrow> node_call \<Rightarrow> engine \<Rightarrow> run_response engine_run" where
  "executePollNode env call s =
     (if e_manual env
      then (case call_node env call s of (s, o') \<Rightarrow>
        (case no_answer o' of
           Returned data _ \<Rightarrow> (s, Inr (Run_data data [] False))
         | Thrown e \<Rightarrow> (s, Inl e)
         | _ \<Rightarrow> (s, Inr (Run_data Undef [] False))))
      else (s, Inr (Run_data (main_data (nc_inputData call)) [] False)))"

definition executeTriggerNode :: "env \<Rightarrow> node_call \<Rightarrow> engine \<Rightarrow> run_response engine_run" where
  "executeTriggerNode env call s =
     (if e_manual env
      then (case call_node env call s of (s, o') \<Rightarrow>
        (case no_answer o' of
           Thrown e \<Rightarrow> (s, Inl e)
         | Triggered (Some (response, hasClose)) \<Rightarrow>
             (s, Inr (Run_data (if length response = 0 then Null else Val response) [] hasClose))
         | _ \<Rightarrow> (s, Inr (Run_data Null [] False))))
      else (s, Inr (Run_data (main_data (nc_inputData call)) [] False)))"

definition executeDeclarativeNodeInTest :: "env \<Rightarrow> node_call \<Rightarrow> engine \<Rightarrow> run_response engine_run" where
  "executeDeclarativeNodeInTest env call s =
     (case call_node env call s of (s, o') \<Rightarrow>
       (case no_answer o' of
          Returned data _ \<Rightarrow> (s, Inr (Run_data data [] False))
        | Thrown e \<Rightarrow> (s, Inl e)
        | _ \<Rightarrow> (s, Inr (Run_data Undef [] False))))"

text \<open>The item of a node that resumes with the error of its sub-workflow.\<close>

definition resume_error_item :: "execute_data \<Rightarrow> task_metadata \<Rightarrow> js_error \<Rightarrow> item" where
  "resume_error_item executionData md e =
     \<lparr>i_json = [(''error'', JStr (err_message e))], i_error = None,
      i_pairedItem = Some (Paired_many
        (map (\<lambda>i. \<lparr>pi_item = int i, pi_input = None, pi_sourceOverwrite = None\<rparr>)
          [0..<length (js_list (js_get (main_of (ed_data executionData)) 0))])),
      i_other = (case md_subExecution md of
         Some sub \<Rightarrow> [(''metadata'', JObj [(''subExecution'', sub)])] | None \<Rightarrow> [])\<rparr>"

definition runNode ::
    "env \<Rightarrow> execute_data \<Rightarrow> nat \<Rightarrow> engine_response option \<Rightarrow> engine \<Rightarrow> run_response engine_run" where
  "runNode env executionData runIndex response s =
     (let node = ed_node executionData;
          inputData = ed_data executionData;
          resumeError = (case ed_metadata executionData of Some md \<Rightarrow> md_resumeError md | None \<Rightarrow> None)
      in case resumeError of
           Some e \<Rightarrow>
             if continuesOnError node
             then (s, Inr (Run_data (Val [Val [resume_error_item executionData (the (ed_metadata executionData)) e]]) [] False))
             else (s, Inl (rethrowNodeError e))
         | None \<Rightarrow>
             if is_disabled node then (s, Inr (Run_data (handleDisabledNode inputData) [] False))
             else case e_types env (n_type node) (n_typeVersion node) of
                 None \<Rightarrow> (s, Inl undefined_error)
               | Some nt \<Rightarrow>
                   (let customOperation = getCustomOperation node nt
                    in case prepareConnectionInputData (en_workflow s) nt customOperation inputData of
                         None \<Rightarrow> (s, Inr (Run_data Undef [] False))
                       | Some connectionInputData \<Rightarrow>
                           (case rethrowLastNodeError s node of
                              Some e \<Rightarrow> (s, Inl e)
                            | None \<Rightarrow>
                                (let inputData = handleExecuteOnce node inputData;
                                     call = (\<lambda>kind. \<lparr>nc_kind = kind, nc_node = node, nc_runIndex = runIndex,
                                       nc_connectionInputData = connectionInputData, nc_inputData = inputData,
                                       nc_executionData = executionData, nc_response = response\<rparr>)
                                 in if customOperation then executeNode env (call Call_custom) s
                                    else if nt_execute nt then executeNode env (call Call_execute) s
                                    else if nt_poll nt then executePollNode env (call Call_poll) s
                                    else if nt_trigger nt then executeTriggerNode env (call Call_trigger) s
                                    else if nt_supplyData nt
                                    then (s, Inl (UnexpectedError (''The node \"'' @ n_type node @ ''\" has a \"supplyData\" method but no \"execute\" method.'')))
                                    else if nt_webhook nt \<and> \<not> nt_requestDefaults nt
                                    then (s, Inr (Run_data (main_data inputData) [] False))
                                    else executeDeclarativeNodeInTest env (call Call_declarative) s))))"

end
