(* ===== verification/ExecutionLoop.thy ===== *)
theory ExecutionLoop
  imports NodeRun "HOL-Library.Sublist"
begin

text \<open>
  The main loop of \<^verbatim>\<open>processRunExecutionData\<close> (\<^verbatim>\<open>workflow-execute.ts\<close>): one iteration takes
  an entry off the stack, runs its node with retries, records the outcome, schedules the
  nodes after it and, once the stack is empty, releases a waiting node.  Items are values
  here: the code sets \<^verbatim>\<open>pairedItem\<close>, \<^verbatim>\<open>error\<close> and \<^verbatim>\<open>json\<close> of output items in place, which is
  also seen by whoever else holds them (an input passed through, pinned data).
\<close>

section \<open>Paired items\<close>

definition resolveSourceOverwrite :: "item \<Rightarrow> execute_data \<Rightarrow> source_data option" where
  "resolveSourceOverwrite it executionData =
     (case ed_metadata executionData of
        None \<Rightarrow> None
      | Some md \<Rightarrow>
          if md_preserveSourceOverwrite md \<noteq> Some True then None
          else case md_preservedSourceOverwrite md of
              Some s \<Rightarrow> Some s
            | None \<Rightarrow> (case i_pairedItem it of Some (Paired_one p) \<Rightarrow> pi_sourceOverwrite p | _ \<Rightarrow> None))"

text \<open>\<^verbatim>\<open>inputIndex || undefined\<close>\<close>

definition index_or_undefined :: "nat \<Rightarrow> nat option" where
  "index_or_undefined i = (if i = 0 then None else Some i)"

definition pair_input :: "execute_data \<Rightarrow> nat \<Rightarrow> items \<Rightarrow> items" where
  "pair_input executionData inputIndex input =
     map (\<lambda>(itemIndex, it). it\<lparr>i_pairedItem := Some (Paired_one
            \<lparr>pi_item = int itemIndex, pi_input = index_or_undefined inputIndex,
             pi_sourceOverwrite = resolveSourceOverwrite it executionData\<rparr>)\<rparr>)
       (enumerate 0 input)"

definition pair_inputs :: "execute_data \<Rightarrow> execute_data" where
  "pair_inputs executionData =
     executionData\<lparr>ed_data := map (\<lambda>(ty, inputs).
       (ty, map (\<lambda>(inputIndex, input). map_js (pair_input executionData inputIndex) input) (enumerate 0 inputs)))
       (ed_data executionData)\<rparr>"

text \<open>\<^verbatim>\<open>executionData.data.main\<close>; reading a property of it throws where it is missing.\<close>

definition main_input :: "execute_data \<Rightarrow> items js list res" where
  "main_input executionData = lookup (ed_data executionData) Main_t"

definition pair_with :: "int \<Rightarrow> item \<Rightarrow> item" where
  "pair_with i it =
     it\<lparr>i_pairedItem := Some (Paired_one \<lparr>pi_item = i, pi_input = None, pi_sourceOverwrite = None\<rparr>)\<rparr>"

text \<open>
  The pass over the output items: each that has no paired item gets the one the rule says;
  without a rule the pass stops at the first such item (\<^verbatim>\<open>break checkOutputData\<close>).  The
  flag says whether the pass goes on.
\<close>

fun assign_in :: "(nat \<Rightarrow> int option) \<Rightarrow> nat \<Rightarrow> items \<Rightarrow> items \<times> bool" where
  "assign_in rule index [] = ([], True)"
| "assign_in rule index (it # its) =
     (if i_pairedItem it \<noteq> None
      then (case assign_in rule (Suc index) its of (r, go) \<Rightarrow> (it # r, go))
      else case rule index of
          Some i \<Rightarrow> (case assign_in rule (Suc index) its of (r, go) \<Rightarrow> (pair_with i it # r, go))
        | None \<Rightarrow> (it # its, False))"

fun assign_all :: "(nat \<Rightarrow> int option) \<Rightarrow> items js list \<Rightarrow> items js list res" where
  "assign_all rule [] = Inr []"
| "assign_all rule (Null # outs) = bind_res (assign_all rule outs) (\<lambda>r. Inr (Null # r))"
| "assign_all rule (Undef # outs) = Inl undefined_error"
| "assign_all rule (Val its # outs) =
     (case assign_in rule 0 its of (r, go) \<Rightarrow>
       if go then bind_res (assign_all rule outs) (\<lambda>rs. Inr (Val r # rs)) else Inr (Val r # outs))"

text \<open>\<^verbatim>\<open>a?.length\<close>: \<^verbatim>\<open>None\<close> where there is no array.\<close>

fun js_length :: "'a list js \<Rightarrow> nat option" where
  "js_length (Val xs) = Some (length xs)"
| "js_length _ = None"

definition pairing_rule :: "items js list \<Rightarrow> items js list \<Rightarrow> nat \<Rightarrow> int option" where
  "pairing_rule outputs main =
     (let isSingleInputAndOutput = length main = 1 \<and> js_length (js_get main 0) = Some 1;
          isSameNumberOfItems = length outputs = 1 \<and> length main = 1
            \<and> js_length (js_get main 0) = js_length (js_get outputs 0);
          isSingleOutput = length outputs = 1 \<and> js_length (js_get outputs 0) = Some 1 \<and> length main = 1
            \<and> or_else (js_length (js_get main 0)) 0 > 1
      in (\<lambda>index. if isSingleInputAndOutput then Some 0
                  else if isSameNumberOfItems then Some (int index)
                  else if isSingleOutput then Some 0
                  else None))"

text \<open>
  \<^verbatim>\<open>isSameNumberOfItems\<close> reads \<^verbatim>\<open>nodeSuccessData[0].length\<close> and throws where the only output
  is missing, once the other two conditions hold.
\<close>

definition assignPairedItems :: "items js list js \<Rightarrow> execute_data \<Rightarrow> items js list js res" where
  "assignPairedItems nodeSuccessData executionData =
     (case nodeSuccessData of
        Val outputs \<Rightarrow>
          if outputs = [] then Inr (Val [])
          else bind_res (main_input executionData) (\<lambda>main.
            if length outputs = 1 \<and> length main = 1 \<and> js_length (js_get outputs 0) = None
            then Inl undefined_error
            else bind_res (assign_all (pairing_rule outputs main) outputs) (\<lambda>r. Inr (Val r)))
      | _ \<Rightarrow> Inr Null)"

section \<open>Errors among the output items\<close>

definition is_truthy :: "jval option \<Rightarrow> bool" where
  "is_truthy v = (case v of
      None \<Rightarrow> False | Some JNull \<Rightarrow> False | Some (JBool b) \<Rightarrow> b | Some (JNum n) \<Rightarrow> n \<noteq> 0
    | Some (JStr s) \<Rightarrow> s \<noteq> [] | Some (JArr _) \<Rightarrow> True | Some (JObj _) \<Rightarrow> True)"

definition is_error_item :: "item \<Rightarrow> bool" where
  "is_error_item it \<longleftrightarrow> is_truthy (i_error it)
     \<or> is_truthy (map_of (i_json it) ''error'') \<and> length (i_json it) = 1
     \<or> is_truthy (map_of (i_json it) ''error'') \<and> is_truthy (map_of (i_json it) ''message'') \<and> length (i_json it) = 2"

definition first_paired :: "paired option \<Rightarrow> paired_item option" where
  "first_paired p = (case p of Some (Paired_one q) \<Rightarrow> Some q | Some (Paired_many (q # _)) \<Rightarrow> Some q | _ \<Rightarrow> None)"

text \<open>
  The item to put on the error output: with the fields of the input item it comes from,
  where that can be found.  \<^verbatim>\<open>$getPairedItem\<close> of the data proxy is a parameter.
\<close>

definition error_output_item :: "env \<Rightarrow> execute_data \<Rightarrow> engine \<Rightarrow> item \<Rightarrow> item res" where
  "error_output_item env executionData s it =
     (case (ed_source executionData, first_paired (i_pairedItem it)) of
        (Some source, Some pairedItemData) \<Rightarrow>
          bind_res (lookup source Main_t) (\<lambda>sources.
            case array_get sources (or_else (pi_input pairedItemData) 0) of
              Some (Some sourceData) \<Rightarrow>
                bind_res (e_getPairedItem env s (sd_previousNode sourceData) sourceData pairedItemData) (\<lambda>found.
                  case found of
                    None \<Rightarrow> Inr it
                  | Some constPairedItem \<Rightarrow> Inr (it\<lparr>i_json := spread (i_json constPairedItem) (i_json it)\<rparr>))
            | _ \<Rightarrow> Inl undefined_error)
      | _ \<Rightarrow> Inr it)"

text \<open>One output: the items without an error, and the error items after those found before.\<close>

fun split_errors :: "(item \<Rightarrow> item res) \<Rightarrow> items \<Rightarrow> items \<times> items \<Rightarrow> (items \<times> items) res" where
  "split_errors f [] acc = Inr acc"
| "split_errors f (it # its) (success, errors) =
     (if is_error_item it
      then bind_res (f it) (\<lambda>e. split_errors f its (success, errors @ [e]))
      else split_errors f its (success @ [it], errors))"

fun split_outputs :: "(item \<Rightarrow> item res) \<Rightarrow> nat list \<Rightarrow> items js list \<times> items \<Rightarrow> (items js list \<times> items) res" where
  "split_outputs f [] acc = Inr acc"
| "split_outputs f (outputIndex # is) (outputs, errors) =
     bind_res (split_errors f (js_list (js_get outputs outputIndex)) ([], errors)) (\<lambda>(success, errors').
       split_outputs f is (array_set Undef outputs outputIndex (Val success), errors'))"

definition handleNodeErrorOutput :: "env \<Rightarrow> execute_data \<Rightarrow> engine \<Rightarrow> items js list \<Rightarrow> items js list res" where
  "handleNodeErrorOutput env executionData s outputs =
     (case e_types env (n_type (ed_node executionData)) (n_typeVersion (ed_node executionData)) of
        None \<Rightarrow> Inl undefined_error
      | Some nt \<Rightarrow>
          (let n = length (filter (\<lambda>io. io_type io = Main_t) (e_nodeOutputs env (en_workflow s) (ed_node executionData)))
           in bind_res (split_outputs (error_output_item env executionData s) [0..<n - 1] (outputs, [])) (\<lambda>(outs, errors).
                Inr (if n = 0 then outs else array_set Undef outs (n - 1) (Val errors)))))"

text \<open>
  After the run the error of an item becomes its data.  A message that is not there is
  \<^verbatim>\<open>undefined\<close>, here a field that is absent.
\<close>

definition message_field :: "jval \<Rightarrow> data_object res" where
  "message_field v =
     (case v of
        JNull \<Rightarrow> Inl (TypeError ''Cannot read properties of null'')
      | JObj o' \<Rightarrow> Inr (case map_of o' ''message'' of Some m \<Rightarrow> [(''error'', m)] | None \<Rightarrow> [])
      | _ \<Rightarrow> Inr [])"

definition merge_item_error :: "item \<Rightarrow> item res" where
  "merge_item_error it =
     (case (map_of (i_json it) ''$error'', map_of (i_json it) ''$json'') of
        (Some e, Some _) \<Rightarrow> bind_res (message_field e) (\<lambda>json. Inr (it\<lparr>i_error := Some e, i_json := json\<rparr>))
      | _ \<Rightarrow> (case i_error it of
          Some e \<Rightarrow> bind_res (message_field e) (\<lambda>json. Inr (it\<lparr>i_json := json\<rparr>))
        | None \<Rightarrow> Inr it))"

fun map_res :: "('a \<Rightarrow> 'b res) \<Rightarrow> 'a list \<Rightarrow> 'b list res" where
  "map_res f [] = Inr []"
| "map_res f (x # xs) = bind_res (f x) (\<lambda>y. bind_res (map_res f xs) (\<lambda>ys. Inr (y # ys)))"

definition not_iterable :: js_error where
  "not_iterable = TypeError ''object is not iterable''"

definition merge_output_errors :: "items js list js \<Rightarrow> items js list res" where
  "merge_output_errors nodeSuccessData =
     (case nodeSuccessData of
        Val outputs \<Rightarrow> map_res (\<lambda>out. case out of
            Val its \<Rightarrow> bind_res (map_res merge_item_error its) (\<lambda>r. Inr (Val r))
          | _ \<Rightarrow> Inl not_iterable) outputs
      | _ \<Rightarrow> Inl not_iterable)"

section \<open>The tries\<close>

text \<open>The number of tries of a node, and the pause between them (which has no effect here).\<close>

definition or_default :: "nat option \<Rightarrow> nat \<Rightarrow> nat" where
  "or_default x d = (case x of None \<Rightarrow> d | Some n \<Rightarrow> if n = 0 then d else n)"

definition maxTries :: "execute_data \<Rightarrow> nat" where
  "maxTries executionData =
     (if n_retryOnFail (ed_node executionData) = Some True \<and> \<not> has_resume_error executionData
      then min 5 (max 2 (or_default (n_maxTries (ed_node executionData)) 3)) else 1)"

definition waitBetweenTries :: "execute_data \<Rightarrow> nat" where
  "waitBetweenTries executionData =
     (if n_retryOnFail (ed_node executionData) = Some True \<and> \<not> has_resume_error executionData
      then min 5000 (max 0 (or_default (n_waitBetweenTries (ed_node executionData)) 1000)) else 0)"

text \<open>A run that returned an error in its first item counts as failed.\<close>

definition checkFailure :: "run_response \<Rightarrow> bool" where
  "checkFailure r =
     (case r of
        Run_request _ \<Rightarrow> False
      | Run_data (Val outputs) _ _ \<Rightarrow> (case js_list (js_get outputs 0) of
          [] \<Rightarrow> False
        | it # _ \<Rightarrow> (case map_of (i_json it) ''error'' of
            None \<Rightarrow> False | Some v \<Rightarrow> v \<noteq> JNull \<and> v \<noteq> JBool False))
      | _ \<Rightarrow> False)"

text \<open>The results of the requested nodes, for the node that resumes.\<close>

definition collect_responses :: "execute_data \<Rightarrow> engine \<Rightarrow> engine_response \<Rightarrow> engine_response" where
  "collect_responses executionData s response =
     (case ed_metadata executionData of None \<Rightarrow> response
      | Some md \<Rightarrow> (case md_subNodeExecutionData md of None \<Rightarrow> response
        | Some sub \<Rightarrow>
            \<lparr>er_actionResponses = er_actionResponses response @
               List.map_filter (\<lambda>subNode. map_option (\<lambda>data. (sa_action subNode, data))
                   (array_get (runs_of (en_runData s) (sa_nodeName subNode)) (sa_runIndex subNode)))
                 (se_actions sub),
             er_metadata = se_metadata sub\<rparr>))"

text \<open>
  \<^verbatim>\<open>while (nodeFailed \<and> tryIndex !== maxTries - 1)\<close>: the node runs again, without the
  responses, until it does not fail or the tries are used up.  The number of tries left is
  the measure.
\<close>

function rerun_failed ::
    "env \<Rightarrow> execute_data \<Rightarrow> nat \<Rightarrow> nat \<Rightarrow> nat \<Rightarrow> engine \<Rightarrow> run_response \<Rightarrow> (engine \<times> nat) \<times> (js_error + run_response)" where
  "rerun_failed env ed runIndex tries t s r =
     (if checkFailure r \<and> t < tries - 1
      then case runNode env ed runIndex None s of
          (s, Inl e) \<Rightarrow> ((s, t), Inl e)
        | (s, Inr r) \<Rightarrow> rerun_failed env ed runIndex tries (Suc t) s r
      else ((s, t), Inr r))"
  by pat_completeness auto
termination
  by (relation "measure (\<lambda>(env, ed, runIndex, tries, t, s, r). tries - t)") auto

declare rerun_failed.simps [simp del]

record try_state =
  ts_engine :: engine
  ts_data :: "items js list js"
  ts_response :: engine_response
  ts_hints :: "string list"

text \<open>
  How a try ends: the execution goes on with the next entry, the tries are over, or an
  exception leads to the next try.
\<close>

datatype try_outcome = Try_continue engine | Try_break try_state | Try_failed js_error nat try_state

definition lists_input_items :: "items js list \<Rightarrow> paired_item list" where
  "lists_input_items main =
     concat (map (\<lambda>(inputIndex, input).
       map (\<lambda>itemIndex. \<lparr>pi_item = int itemIndex, pi_input = Some inputIndex, pi_sourceOverwrite = None\<rparr>)
         [0..<length (js_list input)]) (enumerate 0 main))"

definition has_first_item :: "items js list js \<Rightarrow> bool" where
  "has_first_item d = (case d of Val outputs \<Rightarrow> js_nonempty (js_get outputs 0) | _ \<Rightarrow> False)"

text \<open>\<^verbatim>\<open>alwaysOutputData\<close>: an empty result becomes one item that stems from all input items.\<close>

definition always_output :: "execute_data \<Rightarrow> items js list js \<Rightarrow> items js list js res" where
  "always_output ed d =
     (if has_first_item d \<or> n_alwaysOutputData (ed_node ed) \<noteq> Some True then Inr d
      else bind_res (main_input ed) (\<lambda>main.
        Inr (Val (array_set Undef (case d of Val outputs \<Rightarrow> outputs | _ \<Rightarrow> []) 0
          (Val [empty_item\<lparr>i_pairedItem := Some (Paired_many (lists_input_items main))\<rparr>])))))"

definition set_last :: "execute_data \<Rightarrow> engine \<Rightarrow> engine" where
  "set_last ed s = s\<lparr>en_lastNodeExecuted := Some (n_name (ed_node ed))\<rparr>"

text \<open>The end of a try that has run its node: pairing, empty results, and the branch that ends.\<close>

definition finish_try :: "execute_data \<Rightarrow> nat \<Rightarrow> try_state \<Rightarrow> try_outcome" where
  "finish_try ed t ts =
     (case assignPairedItems (ts_data ts) ed of
        Inl e \<Rightarrow> Try_failed e t ts
      | Inr d \<Rightarrow>
          (let s = (if d = Null then ts_engine ts else set_last ed (ts_engine ts));
               ts = ts\<lparr>ts_engine := s, ts_data := d\<rparr>
           in case always_output ed d of
                Inl e \<Rightarrow> Try_failed e t ts
              | Inr d \<Rightarrow>
                  if d = Null \<and> en_waitTill s = None then Try_continue s
                  else Try_break (ts\<lparr>ts_data := d\<rparr>)))"

text \<open>\<^verbatim>\<open>handleEngineRequest\<close>: the requested nodes and the resuming one go on the stack.\<close>

definition schedule_requested :: "node_to_execute \<Rightarrow> engine \<Rightarrow> engine run" where
  "schedule_requested n s =
     addNodeToBeExecuted (ne_inputConnectionData n) (ne_parentOutputIndex n) (ne_parentNode n)
       (case ne_parentOutputData n of Some d \<Rightarrow> Val d | None \<Rightarrow> Undef) (ne_runIndex n)
       (Some (ne_nodeRunIndex n)) (ne_metadata n) s"

definition rewire_stacked :: "workflow \<Rightarrow> inode \<Rightarrow> inode" where
  "rewire_stacked w node =
     (case List.find (\<lambda>n. n_ref n = n_ref node) (ovals (w_nodes w)) of
        Some n \<Rightarrow> node\<lparr>n_rewireOutputLogTo := n_rewireOutputLogTo n\<rparr> | None \<Rightarrow> node)"

definition handleEngineRequest :: "inode \<Rightarrow> engine_request \<Rightarrow> nat \<Rightarrow> execute_data \<Rightarrow> engine \<Rightarrow> engine run" where
  "handleEngineRequest currentNode request runIndex ed s =
     (case handleRequest (en_workflow s) currentNode request runIndex ed (en_runData s) of (st, err) \<Rightarrow>
       (let s = s\<lparr>en_workflow := rq_workflow st, en_runData := rq_runData st,
                  en_stack := map (\<lambda>e. e\<lparr>ed_node := rewire_stacked (rq_workflow st) (ed_node e)\<rparr>) (en_stack s)\<rparr>
        in case err of
             Some e \<Rightarrow> raised e s
           | None \<Rightarrow> fold_run schedule_requested (rq_nodes st) s))"

definition pinned_data :: "engine \<Rightarrow> inode \<Rightarrow> items option" where
  "pinned_data s node =
     (if is_disabled node then None else map_of (or_else (en_pinData s) []) (n_name node))"

text \<open>What is done with the data a node returned.\<close>

definition accept_data ::
    "env \<Rightarrow> execute_data \<Rightarrow> items js list js \<Rightarrow> string list \<Rightarrow> bool \<Rightarrow> nat \<Rightarrow> try_state \<Rightarrow> try_outcome" where
  "accept_data env ed data hints hasClose t ts =
     (let d = e_convertBinary env data;
          ts = ts\<lparr>ts_data := d, ts_hints := ts_hints ts @ hints\<rparr>
      in case (d, n_onError (ed_node ed)) of
           (Val outputs, Some ContinueErrorOutput) \<Rightarrow>
             (case handleNodeErrorOutput env ed (ts_engine ts) outputs of
                Inl e \<Rightarrow> Try_failed e t ts
              | Inr outs \<Rightarrow> finish_try ed t (ts\<lparr>ts_data := Val outs,
                    ts_engine := (ts_engine ts)\<lparr>en_closeFunction := en_closeFunction (ts_engine ts) \<or> hasClose\<rparr>\<rparr>))
         | _ \<Rightarrow> finish_try ed t (ts\<lparr>ts_engine := (ts_engine ts)\<lparr>en_closeFunction := en_closeFunction (ts_engine ts) \<or> hasClose\<rparr>\<rparr>))"

definition one_try :: "env \<Rightarrow> execute_data \<Rightarrow> nat \<Rightarrow> nat \<Rightarrow> nat \<Rightarrow> try_state \<Rightarrow> try_outcome" where
  "one_try env ed runIndex tries t ts =
     (let s = ts_engine ts;
          s = (if t \<noteq> 0 then s\<lparr>en_executionError := None\<rparr> else s);
          ts = ts\<lparr>ts_engine := s\<rparr>
      in case pinned_data s (ed_node ed) of
           Some items \<Rightarrow> finish_try ed t (ts\<lparr>ts_data := Val [Val items]\<rparr>)
         | None \<Rightarrow>
             (let response = collect_responses ed s (ts_response ts);
                  ts = ts\<lparr>ts_response := response\<rparr>
              in case runNode env ed runIndex (Some response) s of
                   (s, Inl e) \<Rightarrow> Try_failed e t (ts\<lparr>ts_engine := s\<rparr>)
                 | (s, Inr r) \<Rightarrow>
                     (case rerun_failed env ed runIndex tries t s r of
                        ((s, t), Inl e) \<Rightarrow> Try_failed e t (ts\<lparr>ts_engine := s\<rparr>)
                      | ((s, t), Inr (Run_request request)) \<Rightarrow>
                          (case handleEngineRequest (ed_node ed) request runIndex ed s of
                             (s, None) \<Rightarrow> Try_continue s
                           | (s, Some e) \<Rightarrow> Try_failed e t (ts\<lparr>ts_engine := s\<rparr>))
                      | ((s, t), Inr (Run_data data hints hasClose)) \<Rightarrow>
                          accept_data env ed data hints hasClose t (ts\<lparr>ts_engine := s\<rparr>))))"

text \<open>The exception of a try is kept as the error of the execution.\<close>

definition catch_try :: "execute_data \<Rightarrow> js_error \<Rightarrow> try_state \<Rightarrow> try_state" where
  "catch_try ed e ts =
     ts\<lparr>ts_engine := (set_last ed (ts_engine ts))\<lparr>en_executionError := Some e\<rparr>\<rparr>"

text \<open>
  \<^verbatim>\<open>for (tryIndex = 0; tryIndex < maxTries; tryIndex++)\<close>.  A try may use up several indices,
  never give one back: the recursion is on the number of indices, which bounds the tries.
\<close>

fun run_tries :: "env \<Rightarrow> execute_data \<Rightarrow> nat \<Rightarrow> nat \<Rightarrow> nat list \<Rightarrow> try_state \<Rightarrow> engine + try_state" where
  "run_tries env ed runIndex tries [] ts = Inr ts"
| "run_tries env ed runIndex tries (t # indices) ts =
     (case one_try env ed runIndex tries t ts of
        Try_continue s \<Rightarrow> Inl s
      | Try_break ts \<Rightarrow> Inr ts
      | Try_failed e t' ts \<Rightarrow> run_tries env ed runIndex tries (drop (t' - t) indices) (catch_try ed e ts))"

section \<open>Recording the outcome\<close>

text \<open>\<^verbatim>\<open>Object.assign(current, taskData)\<close>: the optional fields only where they are set.\<close>

definition assign_task :: "task_data \<Rightarrow> task_data \<Rightarrow> task_data" where
  "assign_task current taskData =
     taskData\<lparr>td_data := or_keep (td_data taskData) (td_data current),
              td_inputOverride := or_keep (td_inputOverride taskData) (td_inputOverride current),
              td_error := or_keep (td_error taskData) (td_error current)\<rparr>"

definition record_task :: "string \<Rightarrow> nat \<Rightarrow> task_data \<Rightarrow> engine \<Rightarrow> engine" where
  "record_task nodeName runIndex taskData s =
     (let runs = runs_of (en_runData s) nodeName
      in s\<lparr>en_runData := AList.update nodeName
            (if runIndex < length runs then runs[runIndex := assign_task (runs ! runIndex) taskData] else runs @ [taskData])
            (en_runData s)\<rparr>)"

text \<open>The list of runs of a node is there before anything that may throw.\<close>

definition ensure_runs :: "string \<Rightarrow> engine \<Rightarrow> engine" where
  "ensure_runs nodeName s =
     (if has_key (en_runData s) nodeName then s
      else s\<lparr>en_runData := AList.update nodeName [] (en_runData s)\<rparr>)"

text \<open>\<^verbatim>\<open>runData[name]?.[runIndex]?.inputOverride || {}\<close>\<close>

definition recorded_override :: "engine \<Rightarrow> string \<Rightarrow> nat \<Rightarrow> task_data_connections" where
  "recorded_override s nodeName runIndex =
     (case array_get (runs_of (en_runData s) nodeName) runIndex of
        Some td \<Rightarrow> or_else (td_inputOverride td) [] | None \<Rightarrow> [])"

definition true_or_undefined :: "bool \<Rightarrow> bool option" where
  "true_or_undefined b = (if b then Some True else None)"

definition base_task :: "env \<Rightarrow> execute_data \<Rightarrow> int \<Rightarrow> nat \<Rightarrow> string list \<Rightarrow> engine \<Rightarrow> engine \<times> task_data" where
  "base_task env ed startTime executionIndex hints s =
     (case read_clock env s of (s, now) \<Rightarrow>
       (s, \<lparr>td_startTime = startTime, td_executionIndex = Some executionIndex,
            td_source = (case ed_source ed of None \<Rightarrow> [] | Some src \<Rightarrow> main_of src), td_hints = hints,
            td_executionTime = now - startTime,
            td_executionStatus = Some (if en_waitTill s \<noteq> None then Waiting else Success),
            td_data = None, td_inputOverride = None, td_error = None, td_metadata = ed_metadata ed,
            td_usedDynamicCredentials = true_or_undefined (en_usedDynamic s),
            td_attemptedDynamicCredentials = true_or_undefined (en_attemptedDynamic s)\<rparr>))"

definition rewires :: "inode \<Rightarrow> string option" where
  "rewires node = (case n_rewireOutputLogTo node of Some (c # cs) \<Rightarrow> Some (c # cs) | _ \<Rightarrow> None)"

definition error_item :: "js_error \<Rightarrow> item" where
  "error_item e = empty_item\<lparr>i_json := [(''error'', JStr (err_message e))]\<rparr>"

definition is_ai_tool :: "inode \<Rightarrow> bool" where
  "is_ai_tool node \<longleftrightarrow> n_rewireOutputLogTo node = Some AiTool_t"

definition goes_on_after_error :: "inode \<Rightarrow> bool" where
  "goes_on_after_error node \<longleftrightarrow> continuesOnError node \<or> is_ai_tool node \<and> n_onError node \<noteq> Some StopWorkflow"

text \<open>The data a node that failed passes on when the workflow goes on.\<close>

definition data_after_error :: "execute_data \<Rightarrow> js_error \<Rightarrow> items js list js \<Rightarrow> items js list js" where
  "data_after_error ed e d =
     (if is_ai_tool (ed_node ed) then Val [Val [error_item e]]
      else case map_of (ed_data ed) Main_t of
          Some (input # _) \<Rightarrow> if input \<noteq> Null then Val [input] else d
        | _ \<Rightarrow> d)"

text \<open>
  The node failed and the workflow stops: the error is recorded and the entry goes back on
  the stack, so that the execution can be restarted from it.
\<close>

definition stop_with_error :: "execute_data \<Rightarrow> nat \<Rightarrow> js_error \<Rightarrow> task_data \<Rightarrow> engine \<Rightarrow> engine" where
  "stop_with_error ed runIndex e taskData s =
     (let name = n_name (ed_node ed);
          taskData = (case rewires (ed_node ed) of
              Some ty \<Rightarrow> taskData\<lparr>td_inputOverride := Some (recorded_override s name runIndex),
                                  td_data := Some [(ty, [Val [error_item e]])]\<rparr>
            | None \<Rightarrow> taskData);
          s = record_task name runIndex taskData s;
          s = s\<lparr>en_stack := ed # en_stack s\<rparr>
      in if en_aborted s then s else emit (NodeExecuteAfter name runIndex) s)"

definition success_task :: "execute_data \<Rightarrow> nat \<Rightarrow> items js list \<Rightarrow> task_data \<Rightarrow> engine \<Rightarrow> task_data" where
  "success_task ed runIndex outputs taskData s =
     (case rewires (ed_node ed) of
        Some ty \<Rightarrow> taskData\<lparr>td_inputOverride := Some (recorded_override s (n_name (ed_node ed)) runIndex),
                            td_data := Some [(ty, outputs)]\<rparr>
      | None \<Rightarrow> taskData\<lparr>td_data := Some [(Main_t, outputs)]\<rparr>)"

section \<open>Scheduling the nodes after it\<close>

text \<open>\<^verbatim>\<open>Array.sort\<close> as the engine performs it: only \<^verbatim>\<open>compare(later, earlier) < 0\<close> moves.\<close>

fun insert_before :: "('a \<Rightarrow> 'a \<Rightarrow> int) \<Rightarrow> 'a \<Rightarrow> 'a list \<Rightarrow> 'a list" where
  "insert_before cmp x [] = [x]"
| "insert_before cmp x (y # ys) = (if cmp x y < 0 then x # y # ys else y # insert_before cmp x ys)"

definition sort_by :: "('a \<Rightarrow> 'a \<Rightarrow> int) \<Rightarrow> 'a list \<Rightarrow> 'a list" where
  "sort_by cmp xs = fold (insert_before cmp) xs []"

record next_node =
  na_position :: "rat \<times> rat"
  na_connection :: iconnection
  na_outputIndex :: nat

text \<open>The node more to the top left is to run first: it has to be put on the stack last.\<close>

definition compare_position :: "next_node \<Rightarrow> next_node \<Rightarrow> int" where
  "compare_position a b =
     (if snd (na_position a) < snd (na_position b) then 1
      else if snd (na_position a) > snd (na_position b) then -1
      else if fst (na_position a) > fst (na_position b) then -1
      else 0)"

definition gets_data :: "workflow \<Rightarrow> items js list \<Rightarrow> nat \<Rightarrow> iconnection \<Rightarrow> bool" where
  "gets_data w outputs outputIndex c =
     (case js_get outputs outputIndex of
        Val its \<Rightarrow> length its \<noteq> 0 \<or> c_index c > 0 \<and> isLegacyExecutionOrder w
      | _ \<Rightarrow> False)"

definition outgoing_main :: "workflow \<Rightarrow> string \<Rightarrow> (nat \<times> iconnection) list" where
  "outgoing_main w name =
     concat (map (\<lambda>(outputIndex, grp). map (\<lambda>c. (outputIndex, c)) (or_else grp []))
       (enumerate 0 (typed_inputs (w_connectionsBySourceNode w) name Main_t)))"

definition destination_missing :: js_error where
  "destination_missing = UnexpectedError ''Destination node not found''"

definition collect_next :: "workflow \<Rightarrow> items js list \<Rightarrow> nat \<times> iconnection \<Rightarrow> next_node list \<Rightarrow> next_node list res" where
  "collect_next w outputs entry nodesToAdd =
     (case entry of (outputIndex, c) \<Rightarrow>
       (case map_of (w_nodes w) (c_node c) of
          None \<Rightarrow> Inl destination_missing
        | Some node \<Rightarrow> Inr (if gets_data w outputs outputIndex c
            then nodesToAdd @ [\<lparr>na_position = n_position node, na_connection = c, na_outputIndex = outputIndex\<rparr>]
            else nodesToAdd)))"

definition add_sorted :: "string \<Rightarrow> items js list \<Rightarrow> nat \<Rightarrow> next_node \<Rightarrow> engine \<Rightarrow> engine run" where
  "add_sorted name outputs runIndex n s =
     addNodeToBeExecuted (na_connection n) (na_outputIndex n) name (Val outputs) (int runIndex) None None s"

definition add_legacy :: "string \<Rightarrow> items js list \<Rightarrow> nat \<Rightarrow> nat \<times> iconnection \<Rightarrow> engine \<Rightarrow> engine run" where
  "add_legacy name outputs runIndex entry s =
     (case entry of (outputIndex, c) \<Rightarrow>
       if \<not> has_key (w_nodes (en_workflow s)) (c_node c) then raised destination_missing s
       else if gets_data (en_workflow s) outputs outputIndex c
       then addNodeToBeExecuted c outputIndex name (Val outputs) (int runIndex) None None s
       else normal s)"

definition schedule_next :: "string \<Rightarrow> items js list \<Rightarrow> nat \<Rightarrow> engine \<Rightarrow> engine run" where
  "schedule_next name outputs runIndex s =
     (let w = en_workflow s; connections = outgoing_main w name
      in if isLegacyExecutionOrder w then fold_run (add_legacy name outputs runIndex) connections s
         else reading (fold_res (collect_next w outputs) connections []) (\<lambda>nodesToAdd.
                fold_run (add_sorted name outputs runIndex) (sort_by compare_position nodesToAdd)) s)"

section \<open>Releasing a waiting node\<close>

text \<open>\<^verbatim>\<open>Object.keys(...).sort()[0]\<close>: the run index whose decimal form comes first.\<close>

definition first_run_index :: "(nat, 'v) omap \<Rightarrow> nat option" where
  "first_run_index runs = (case sort_key show_nat (map fst runs) of [] \<Rightarrow> None | i # _ \<Rightarrow> Some i)"

definition inputs_with_data :: "items js list \<Rightarrow> nat list" where
  "inputs_with_data main = map fst (filter (\<lambda>(i, d). d \<noteq> Null \<and> d \<noteq> Undef) (enumerate 0 main))"

text \<open>
  The required inputs, read only in the order v1; reading them of an unknown type throws.
\<close>

definition required_of :: "env \<Rightarrow> workflow \<Rightarrow> inode \<Rightarrow> node_type option \<Rightarrow> (nat list + nat) option res" where
  "required_of env w node nt =
     (if isLegacyExecutionOrder w then Inr None
      else case nt of
          None \<Rightarrow> Inl undefined_error
        | Some t \<Rightarrow> Inr (case nt_requiredInputs t of
            None \<Rightarrow> None
          | Some (Req_expr e) \<Rightarrow> e_requiredInputs env node e
          | Some (Req_list is) \<Rightarrow> Some (Inl is)
          | Some (Req_count n) \<Rightarrow> Some (Inr n)))"

definition input_count :: "node_type option \<Rightarrow> nat" where
  "input_count nt = (case nt of None \<Rightarrow> 0 | Some t \<Rightarrow> io_length (nt_inputs t))"

definition all_required :: "(nat list + nat) option \<Rightarrow> nat \<Rightarrow> bool" where
  "all_required required n =
     (case required of
        Some (Inl is) \<Rightarrow> length is = n
      | Some (Inr k) \<Rightarrow> k = n
      | None \<Rightarrow> False)"

definition required_missing :: "(nat list + nat) option \<Rightarrow> nat list \<Rightarrow> bool" where
  "required_missing required present =
     (case required of
        Some (Inl is) \<Rightarrow> \<not> set is \<subseteq> set present
      | Some (Inr n) \<Rightarrow> length present < n
      | None \<Rightarrow> False)"

definition null_to_empty :: "items js \<Rightarrow> items js" where
  "null_to_empty d = (if d = Null then Val [] else d)"

text \<open>What is decided about a waiting node: skip it, or take its entry off with this data.\<close>

datatype release = Skip_node | Take_entry nat "items js list" inode

text \<open>The inputs for which no data came get an empty array; the missing ones are filled up.\<close>

definition released_data :: "node_type option \<Rightarrow> items js list \<Rightarrow> items js list res" where
  "released_data nt main =
     (let taskDataMain = map null_to_empty main
      in if \<exists>d \<in> set taskDataMain. js_nonempty d
         then (if nt = None then Inl undefined_error
               else Inr (taskDataMain @ replicate (input_count nt - length taskDataMain) (Val [])))
         else Inr taskDataMain)"

definition consider_waiting :: "env \<Rightarrow> string list \<Rightarrow> string \<Rightarrow> engine \<Rightarrow> release res" where
  "consider_waiting env waitingNodes nodeName s =
     (let w = en_workflow s
      in case getNode w nodeName of
           None \<Rightarrow> Inr Skip_node
         | Some checkNode \<Rightarrow>
             (let nt = e_types env (n_type checkNode) (n_typeVersion checkNode)
              in bind_res (required_of env w checkNode nt) (\<lambda>required.
                   if all_required required (input_count nt) then Inr Skip_node
                   else if set (w_getParentNodes w nodeName (Of_type Main_t) (-1)) \<inter> set waitingNodes \<noteq> {} then Inr Skip_node
                   else case first_run_index (waiting_runs s nodeName) of
                       None \<Rightarrow> Inl undefined_error
                     | Some firstRunIndex \<Rightarrow>
                         bind_res (waiting_main s nodeName firstRunIndex) (\<lambda>main.
                           if required_missing required (inputs_with_data main) then Inr Skip_node
                           else bind_res (released_data nt main) (\<lambda>data.
                             Inr (Take_entry firstRunIndex data checkNode))))))"

definition waiting_size :: "engine \<Rightarrow> nat" where
  "waiting_size s = sum_list (map (\<lambda>(k, runs). length runs) (en_waiting s))"

lemma waiting_size_delete: "map_of m k = Some runs \<Longrightarrow>
    sum_list (map (\<lambda>(k, runs). length runs) (AList.delete k m)) + length runs \<le> sum_list (map (\<lambda>(k, runs). length runs) m)"
proof (induction m)
  case (Cons e m)
  obtain k' r where e: "e = (k', r)" by (cases e)
  show ?case
  proof (cases "k' = k")
    case True
    have "sum_list (map (\<lambda>(k, runs). length runs) (AList.delete k m)) \<le> sum_list (map (\<lambda>(k, runs). length runs) m)"
      by (induction m) auto
    with True Cons.prems show ?thesis by (simp add: e)
  next
    case False
    with Cons show ?thesis by (simp add: e)
  qed
qed simp

lemma waiting_size_update: "map_of m k = Some runs \<Longrightarrow> length runs' < length runs \<Longrightarrow>
    sum_list (map (\<lambda>(k, runs). length runs) (AList.update k runs' m)) < sum_list (map (\<lambda>(k, runs). length runs) m)"
  by (induction m) auto

lemma length_delete_less: "map_of m k = Some v \<Longrightarrow> length (AList.delete k m) < length m"
proof (induction m)
  case (Cons e m)
  have "length (AList.delete k m) \<le> length m" by (induction m) auto
  with Cons show ?case by (cases e) (auto simp: less_Suc_eq_le)
qed simp

lemma drop_waiting_smaller:
  assumes "map_of (waiting_runs s nodeName) i = Some entry"
  shows "waiting_size (drop_waiting nodeName i s) < waiting_size s"
proof -
  from assms obtain runs where runs: "map_of (en_waiting s) nodeName = Some runs" "map_of runs i = Some entry"
    by (auto simp: waiting_runs_def split: option.splits)
  from runs(2) have "runs \<noteq> []" by auto
  then show ?thesis
    using waiting_size_delete [OF runs(1)] waiting_size_update [OF runs(1) length_delete_less [OF runs(2)]] runs
    by (auto simp: drop_waiting_def waiting_size_def waiting_runs_def Let_def neq_Nil_conv)
qed

text \<open>
  The loop over the waiting nodes: it ends with the first entry put on the stack, and
  starts again with the nodes then waiting after an entry without any data was dropped.
\<close>

definition push_released :: "string \<Rightarrow> nat \<Rightarrow> items js list \<Rightarrow> inode \<Rightarrow> engine \<Rightarrow> engine run" where
  "push_released nodeName i main node s =
     reading (lookup (or_else (en_waitingSource s) []) nodeName) (\<lambda>sources s.
       normal (s\<lparr>en_stack := en_stack s @
         [\<lparr>ed_data = [(Main_t, main)], ed_metadata = None, ed_node = node,
           ed_source = map_of sources i, ed_runIndex = None\<rparr>]\<rparr>)) s"

lemma consider_waiting_entry:
  assumes "consider_waiting env ws nodeName s = Inr (Take_entry i main node)"
  shows "\<exists>entry. map_of (waiting_runs s nodeName) i = Some entry"
proof -
  have "\<exists>m. waiting_main s nodeName i = Inr m"
    using assms by (auto simp: consider_waiting_def Let_def split: option.splits if_splits)
  then show ?thesis
    by (auto simp: waiting_main_def lookup_def waiting_runs_def split: option.splits)
qed

function release_waiting :: "env \<Rightarrow> string list \<Rightarrow> string list \<Rightarrow> engine \<Rightarrow> engine run" where
  "release_waiting env waitingNodes [] s = normal s"
| "release_waiting env waitingNodes (nodeName # names) s =
     (case consider_waiting env waitingNodes nodeName s of
        Inl e \<Rightarrow> raised e s
      | Inr Skip_node \<Rightarrow> release_waiting env waitingNodes names s
      | Inr (Take_entry i main node) \<Rightarrow>
          if \<exists>d \<in> set main. js_nonempty d
          then and_then (push_released nodeName i main node s) (\<lambda>s. normal (drop_waiting nodeName i s))
          else (let s' = drop_waiting nodeName i s
                in release_waiting env (okeys (en_waiting s')) (okeys (en_waiting s')) s'))"
  by pat_completeness auto
termination
  by (relation "measures [\<lambda>(env, ws, names, s). waiting_size s, \<lambda>(env, ws, names, s). length names]")
    (auto dest!: consider_waiting_entry intro: drop_waiting_smaller)

definition release_if_idle :: "env \<Rightarrow> engine \<Rightarrow> engine run" where
  "release_if_idle env s =
     (if en_stack s = [] then release_waiting env (okeys (en_waiting s)) (okeys (en_waiting s)) s else normal s)"

section \<open>One iteration\<close>

datatype iteration = Continue engine | Finished engine | Threw js_error engine

definition continue_run :: "engine run \<Rightarrow> iteration" where
  "continue_run r = (case r of (s, None) \<Rightarrow> Continue s | (s, Some e) \<Rightarrow> Threw e s)"

definition is_destination :: "engine \<Rightarrow> string \<Rightarrow> bool" where
  "is_destination s name =
     (case en_startData s of None \<Rightarrow> False
      | Some sd \<Rightarrow> (case st_destinationNode sd of None \<Rightarrow> False | Some d \<Rightarrow> d_nodeName d = name))"

text \<open>The node succeeded, or failed and the workflow goes on.\<close>

definition complete_node ::
    "env \<Rightarrow> execute_data \<Rightarrow> nat \<Rightarrow> items js list js \<Rightarrow> task_data \<Rightarrow> engine \<Rightarrow> iteration" where
  "complete_node env ed runIndex d taskData s =
     (let name = n_name (ed_node ed)
      in case merge_output_errors d of
           Inl e \<Rightarrow> Threw e s
         | Inr outputs \<Rightarrow>
             (let s = record_task name runIndex (success_task ed runIndex outputs taskData s) s;
                  after = emit (NodeExecuteAfter name runIndex)
              in if en_waitTill s \<noteq> None then Finished ((after s)\<lparr>en_stack := ed # en_stack s\<rparr>)
                 else if is_destination s name then Continue (after s)
                 else continue_run (and_then (schedule_next name outputs runIndex s) (\<lambda>s. release_if_idle env (after s)))))"

definition after_tries ::
    "env \<Rightarrow> execute_data \<Rightarrow> nat \<Rightarrow> int \<Rightarrow> nat \<Rightarrow> try_state \<Rightarrow> iteration" where
  "after_tries env ed runIndex startTime executionIndex ts =
     (case base_task env ed startTime executionIndex (ts_hints ts)
        (ensure_runs (n_name (ed_node ed)) (ts_engine ts)) of (s, taskData) \<Rightarrow>
       (case en_executionError s of
          None \<Rightarrow> complete_node env ed runIndex (ts_data ts) taskData s
        | Some e \<Rightarrow>
            (let taskData = taskData\<lparr>td_error := Some e, td_executionStatus := Some Error_status\<rparr>;
                 s = emit (SendChunk (n_name (ed_node ed)) runIndex) s
             in if goes_on_after_error (ed_node ed)
                then complete_node env ed runIndex (data_after_error ed e (ts_data ts)) taskData s
                else Finished (stop_with_error ed runIndex e taskData s))))"

definition run_index_of :: "execute_data \<Rightarrow> engine \<Rightarrow> nat" where
  "run_index_of ed s =
     (case ed_runIndex ed of Some i \<Rightarrow> i | None \<Rightarrow> length (runs_of (en_runData s) (n_name (ed_node ed))))"

definition try_name :: "execute_data \<Rightarrow> nat \<Rightarrow> string" where
  "try_name ed runIndex = n_name (ed_node ed) @ '':'' @ show_nat runIndex"

definition filtered_out :: "engine \<Rightarrow> string \<Rightarrow> bool" where
  "filtered_out s name =
     (case en_startData s of None \<Rightarrow> False
      | Some sd \<Rightarrow> (case st_runNodeFilter sd of None \<Rightarrow> False | Some names \<Rightarrow> name \<notin> set names))"

definition was_resumed :: "execute_data \<Rightarrow> bool" where
  "was_resumed ed = (case ed_metadata ed of None \<Rightarrow> False | Some md \<Rightarrow> md_nodeWasResumed md = Some True)"

definition check_timeout :: "env \<Rightarrow> engine \<Rightarrow> engine" where
  "check_timeout env s =
     (case e_timeout env of
        None \<Rightarrow> s
      | Some deadline \<Rightarrow> (case read_clock env s of (s, now) \<Rightarrow>
          if now \<ge> deadline then s\<lparr>en_status := Canceled, en_timedOut := True\<rparr> else s))"

text \<open>The entry is taken off; the per-node variables are reset.\<close>

definition take_entry :: "engine \<Rightarrow> engine" where
  "take_entry s = s\<lparr>en_stack := tl (en_stack s), en_executionError := None, en_usedDynamic := False,
                     en_attemptedDynamic := False, en_executionIndex := Suc (en_executionIndex s)\<rparr>"

definition iterate :: "env \<Rightarrow> engine \<Rightarrow> iteration" where
  "iterate env s =
     (let s = check_timeout env s
      in if en_status s = Canceled then Finished s
         else let ed = pair_inputs (hd (en_stack s));
                  name = n_name (ed_node ed);
                  executionIndex = en_executionIndex s
              in case read_clock env (take_entry s) of (s, startTime) \<Rightarrow>
                (let runIndex = run_index_of ed s;
                     currentTry = try_name ed runIndex
                 in if currentTry = en_lastTry s
                    then Threw (UserError ''Stopped execution because it seems to be in an endless loop'') s
                    else if filtered_out s name then Continue s
                    else case ensureInputData ed s of
                        (s, False) \<Rightarrow> Continue (s\<lparr>en_lastTry := currentTry\<rparr>)
                      | (s, True) \<Rightarrow>
                          (let s = (if was_resumed ed then s else emit (NodeExecuteBefore name executionIndex) s);
                               tries = maxTries ed
                           in case run_tries env ed runIndex tries [0..<tries]
                                   \<lparr>ts_engine = s, ts_data = Null, ts_response = makeEngineResponse, ts_hints = []\<rparr> of
                                Inl s \<Rightarrow> Continue s
                              | Inr ts \<Rightarrow> after_tries env ed runIndex startTime executionIndex ts)))"

end
