(* ===== verification/DirectedGraph.thy ===== *)
theory DirectedGraph
  imports Connections
begin

text \<open>
  \<^verbatim>\<open>packages/core/src/execution-engine/partial-execution-utils/directed-graph.ts\<close>: the graph
  of nodes and connections that partial executions are planned on.

  \<^item> Both \<^verbatim>\<open>Map\<close>s of the class are insertion ordered maps; the connections are filed under the
    string \<^verbatim>\<open>makeKey\<close> builds.  Methods that mutate \<^verbatim>\<open>this\<close> return the new graph, methods
    that assert return a result.
  \<^item> The private recursions (\<^verbatim>\<open>getChildrenRecursive\<close>, \<^verbatim>\<open>getParentConnectionsRecursive\<close>,
    \<^verbatim>\<open>depthFirstSearchRecursive\<close>, \<^verbatim>\<open>followNode\<close>) share one mutable state and return nothing
    their callers compute with, so a recursive call is its body followed by the rest of the
    caller's loop: the pending work of all callers is an explicit list, its head first.
\<close>

section \<open>The graph and its operations\<close>

record graph_connection =
  g_from :: inode
  g_to :: inode
  g_type :: string
  g_outputIndex :: nat
  g_inputIndex :: nat

record directed_graph =
  dg_nodes :: inodes
  dg_connections :: "(string, graph_connection) omap"

definition empty_graph :: directed_graph where
  "empty_graph = \<lparr>dg_nodes = [], dg_connections = []\<rparr>"

definition makeKey :: "graph_connection \<Rightarrow> string" where
  "makeKey c = n_name (g_from c) @ ''-'' @ g_type c @ ''-'' @ show_nat (g_outputIndex c) @ ''-''
                 @ show_nat (g_inputIndex c) @ ''-'' @ n_name (g_to c)"

definition hasNode :: "directed_graph \<Rightarrow> string \<Rightarrow> bool" where
  "hasNode g nodeName = has_key (dg_nodes g) nodeName"

definition getNodes :: "directed_graph \<Rightarrow> inodes" where
  "getNodes g = dg_nodes g"

definition getNodesByNames :: "directed_graph \<Rightarrow> string list \<Rightarrow> inode list" where
  "getNodesByNames g names =
     fold (\<lambda>name nodes. case map_of (dg_nodes g) name of None \<Rightarrow> nodes | Some n \<Rightarrow> sadd n nodes) names []"

definition getConnections :: "directed_graph \<Rightarrow> inode option \<Rightarrow> graph_connection list" where
  "getConnections g to =
     filter (\<lambda>c. case to of Some n \<Rightarrow> g_to c = n | None \<Rightarrow> True) (ovals (dg_connections g))"

definition addNode :: "inode \<Rightarrow> directed_graph \<Rightarrow> directed_graph" where
  "addNode n g = g\<lparr>dg_nodes := AList.update (n_name n) n (dg_nodes g)\<rparr>"

definition addNodes :: "inode list \<Rightarrow> directed_graph \<Rightarrow> directed_graph" where
  "addNodes ns g = fold addNode ns g"

text \<open>\<^verbatim>\<open>this.nodes.get(node.name) === node\<close>\<close>

definition is_member :: "directed_graph \<Rightarrow> inode \<Rightarrow> bool" where
  "is_member g n \<longleftrightarrow> map_of (dg_nodes g) (n_name n) = Some n"

definition put_connection :: "graph_connection \<Rightarrow> directed_graph \<Rightarrow> directed_graph" where
  "put_connection c g = g\<lparr>dg_connections := AList.update (makeKey c) c (dg_connections g)\<rparr>"

record connection_input =
  ci_from :: inode
  ci_to :: inode
  ci_type :: "string option"
  ci_outputIndex :: "nat option"
  ci_inputIndex :: "nat option"

definition addConnection :: "connection_input \<Rightarrow> directed_graph \<Rightarrow> directed_graph res" where
  "addConnection ci g =
     (if \<not> is_member g (ci_from ci)
      then Inl (AssertionError (''Cannot add connection: source node \"'' @ n_name (ci_from ci) @ ''\" is not part of this graph.''))
      else if \<not> is_member g (ci_to ci)
      then Inl (AssertionError (''Cannot add connection: target node \"'' @ n_name (ci_to ci) @ ''\" is not part of this graph.''))
      else Inr (put_connection
             \<lparr>g_from = ci_from ci, g_to = ci_to ci,
              g_type = (case ci_type ci of Some t \<Rightarrow> t | None \<Rightarrow> Main_t),
              g_outputIndex = (case ci_outputIndex ci of Some i \<Rightarrow> i | None \<Rightarrow> 0),
              g_inputIndex = (case ci_inputIndex ci of Some i \<Rightarrow> i | None \<Rightarrow> 0)\<rparr> g))"

definition input_of :: "graph_connection \<Rightarrow> connection_input" where
  "input_of c = \<lparr>ci_from = g_from c, ci_to = g_to c, ci_type = Some (g_type c),
                 ci_outputIndex = Some (g_outputIndex c), ci_inputIndex = Some (g_inputIndex c)\<rparr>"

definition addConnections :: "connection_input list \<Rightarrow> directed_graph \<Rightarrow> directed_graph res" where
  "addConnections inputs g = fold_res addConnection inputs g"

definition getDirectChildConnections :: "directed_graph \<Rightarrow> inode \<Rightarrow> graph_connection list res" where
  "getDirectChildConnections g n =
     (if is_member g n then Inr (filter (\<lambda>c. g_from c = n) (ovals (dg_connections g)))
      else Inl (AssertionError (''Node \"'' @ n_name n @ ''\" is not part of this graph.'')))"

definition getDirectParentConnections :: "directed_graph \<Rightarrow> inode \<Rightarrow> graph_connection list res" where
  "getDirectParentConnections g n =
     (if is_member g n then Inr (filter (\<lambda>c. g_to c = n) (ovals (dg_connections g)))
      else Inl (AssertionError (''Node \"'' @ n_name n @ ''\" is not part of this graph.'')))"

definition drop_connections_of :: "inode \<Rightarrow> directed_graph \<Rightarrow> directed_graph" where
  "drop_connections_of n g =
     g\<lparr>dg_connections := filter (\<lambda>(_, c). \<not> (g_to c = n \<or> g_from c = n)) (dg_connections g)\<rparr>"

definition drop_node :: "inode \<Rightarrow> directed_graph \<Rightarrow> directed_graph" where
  "drop_node n g = g\<lparr>dg_nodes := AList.delete (n_name n) (dg_nodes g)\<rparr>"

definition removeNode :: "inode \<Rightarrow> directed_graph \<Rightarrow> directed_graph" where
  "removeNode n g = drop_node n (drop_connections_of n g)"

definition reconnections ::
    "(graph_connection \<Rightarrow> bool) \<Rightarrow> graph_connection list \<Rightarrow> graph_connection list \<Rightarrow> graph_connection list" where
  "reconnections skip incoming outgoing =
     concat (map (\<lambda>i. if skip i then []
                      else List.map_filter (\<lambda>out. if skip out then None
                             else Some (i\<lparr>g_to := g_to out, g_inputIndex := g_inputIndex out\<rparr>)) outgoing) incoming)"

definition removeNodeReconnect ::
    "(graph_connection \<Rightarrow> bool) \<Rightarrow> inode \<Rightarrow> directed_graph \<Rightarrow> (directed_graph \<times> graph_connection list) res" where
  "removeNodeReconnect skip n g =
     bind_res (getDirectParentConnections g n) (\<lambda>incoming.
     bind_res (getDirectChildConnections g n) (\<lambda>outgoing.
       let new = reconnections skip incoming outgoing
       in Inr (drop_node n (fold put_connection new (drop_connections_of n g)), new)))"

definition getConnection ::
    "directed_graph \<Rightarrow> inode \<Rightarrow> nat \<Rightarrow> string \<Rightarrow> nat \<Rightarrow> inode \<Rightarrow> graph_connection option" where
  "getConnection g from outputIndex ty inputIndex to =
     map_of (dg_connections g)
       (makeKey \<lparr>g_from = from, g_to = to, g_type = ty, g_outputIndex = outputIndex, g_inputIndex = inputIndex\<rparr>)"

section \<open>Traversals\<close>

definition target_universe :: "directed_graph \<Rightarrow> inode set" where
  "target_universe g = g_to ` set (ovals (dg_connections g))"

definition source_universe :: "directed_graph \<Rightarrow> inode set" where
  "source_universe g = g_from ` set (ovals (dg_connections g))"

lemma finite_universes [simp]: "finite (target_universe g)" "finite (source_universe g)"
  by (simp_all add: target_universe_def source_universe_def)

lemma getDirectChildConnections_Inr:
  "getDirectChildConnections g n = Inr cs \<longleftrightarrow>
     is_member g n \<and> cs = filter (\<lambda>c. g_from c = n) (ovals (dg_connections g))"
  by (auto simp: getDirectChildConnections_def)

lemma getDirectParentConnections_Inr:
  "getDirectParentConnections g n = Inr cs \<longleftrightarrow>
     is_member g n \<and> cs = filter (\<lambda>c. g_to c = n) (ovals (dg_connections g))"
  by (auto simp: getDirectParentConnections_def)

function getChildren_loop :: "directed_graph \<Rightarrow> graph_connection list \<Rightarrow> inode list \<Rightarrow> inode list res" where
  "getChildren_loop g [] children = Inr children"
| "getChildren_loop g (c # cs) children =
     (if g_to c \<in> set children then getChildren_loop g cs children
      else bind_res (getDirectChildConnections g (g_to c)) (\<lambda>ds.
             getChildren_loop g (ds @ cs) (sadd (g_to c) children)))"
  by pat_completeness auto
termination
proof (relation "measures
    [\<lambda>(g, cs, children). card (target_universe g \<union> g_to ` set cs - set children),
     \<lambda>(g, cs, children). length cs]", goal_cases)
  case (2 g c cs children)
  then have "target_universe g \<union> g_to ` set cs - set children
      \<subseteq> target_universe g \<union> g_to ` set (c # cs) - set children" by auto
  then have "card (target_universe g \<union> g_to ` set cs - set children)
      \<le> card (target_universe g \<union> g_to ` set (c # cs) - set children)" by (intro card_mono) auto
  then show ?case by auto
next
  case (3 g c cs children ds)
  then have "target_universe g \<union> g_to ` set (ds @ cs) - set (sadd (g_to c) children)
      \<subset> target_universe g \<union> g_to ` set (c # cs) - set children"
    by (auto simp: getDirectChildConnections_Inr target_universe_def)
  then have "card (target_universe g \<union> g_to ` set (ds @ cs) - set (sadd (g_to c) children))
      < card (target_universe g \<union> g_to ` set (c # cs) - set children)" by (intro psubset_card_mono) auto
  then show ?case by simp
qed simp

definition getChildren :: "directed_graph \<Rightarrow> inode \<Rightarrow> inode list res" where
  "getChildren g n = bind_res (getDirectChildConnections g n) (\<lambda>ds. getChildren_loop g ds [])"

function getParentConnections_loop ::
    "directed_graph \<Rightarrow> graph_connection list \<Rightarrow> graph_connection list \<Rightarrow> graph_connection list res" where
  "getParentConnections_loop g [] acc = Inr acc"
| "getParentConnections_loop g (c # cs) acc =
     (if c \<in> set acc then getParentConnections_loop g cs acc
      else bind_res (getDirectParentConnections g (g_from c)) (\<lambda>ps.
             getParentConnections_loop g (ps @ cs) (sadd c acc)))"
  by pat_completeness auto
termination
proof (relation "measures
    [\<lambda>(g, cs, acc). card (set (ovals (dg_connections g)) \<union> set cs - set acc),
     \<lambda>(g, cs, acc). length cs]", goal_cases)
  case (2 g c cs acc)
  then have "card (set (ovals (dg_connections g)) \<union> set cs - set acc)
      \<le> card (set (ovals (dg_connections g)) \<union> set (c # cs) - set acc)" by (intro card_mono) auto
  then show ?case by auto
next
  case (3 g c cs acc ps)
  then have "set (ovals (dg_connections g)) \<union> set (ps @ cs) - set (sadd c acc)
      \<subset> set (ovals (dg_connections g)) \<union> set (c # cs) - set acc"
    by (auto simp: getDirectParentConnections_Inr)
  then have "card (set (ovals (dg_connections g)) \<union> set (ps @ cs) - set (sadd c acc))
      < card (set (ovals (dg_connections g)) \<union> set (c # cs) - set acc)" by (intro psubset_card_mono) auto
  then show ?case by simp
qed simp

definition getParentConnections :: "directed_graph \<Rightarrow> inode \<Rightarrow> graph_connection list res" where
  "getParentConnections g n =
     bind_res (getDirectParentConnections g n) (\<lambda>ps. getParentConnections_loop g ps [])"

function depthFirstSearch_loop ::
    "directed_graph \<Rightarrow> (inode \<Rightarrow> bool) \<Rightarrow> inode list \<Rightarrow> inode list \<Rightarrow> inode option res" where
  "depthFirstSearch_loop g fn [] seen = Inr None"
| "depthFirstSearch_loop g fn (n # ns) seen =
     (if n \<in> set seen then depthFirstSearch_loop g fn ns seen
      else if fn n then Inr (Some n)
      else bind_res (getDirectChildConnections g n) (\<lambda>ds.
             depthFirstSearch_loop g fn (map g_to ds @ ns) (sadd n seen)))"
  by pat_completeness auto
termination
proof (relation "measures
    [\<lambda>(g, fn, ns, seen). card (target_universe g \<union> set ns - set seen),
     \<lambda>(g, fn, ns, seen). length ns]", goal_cases)
  case (2 g fn n ns seen)
  then have "card (target_universe g \<union> set ns - set seen)
      \<le> card (target_universe g \<union> set (n # ns) - set seen)" by (intro card_mono) auto
  then show ?case by auto
next
  case (3 g fn n ns seen ds)
  then have "target_universe g \<union> set (map g_to ds @ ns) - set (sadd n seen)
      \<subset> target_universe g \<union> set (n # ns) - set seen"
    by (auto simp: getDirectChildConnections_Inr target_universe_def)
  then have "card (target_universe g \<union> set (map g_to ds @ ns) - set (sadd n seen))
      < card (target_universe g \<union> set (n # ns) - set seen)" by (intro psubset_card_mono) auto
  then show ?case by simp
qed simp

definition depthFirstSearch :: "directed_graph \<Rightarrow> inode \<Rightarrow> (inode \<Rightarrow> bool) \<Rightarrow> inode option res" where
  "depthFirstSearch g from fn = depthFirstSearch_loop g fn [from] []"

section \<open>Strongly connected components\<close>

record scc_state =
  sc_id :: nat
  sc_visited :: "inode list"
  sc_ids :: "(inode, nat) omap"
  sc_low :: "(inode, nat) omap"
  sc_stack :: "inode list"
  sc_components :: "inode list list"

text \<open>
  The pending work of \<^verbatim>\<open>followNode\<close>: the call for a node; what its caller does after the
  call for a child returned; what it does after its loop.  The stack has its top at the head.
\<close>

datatype scc_task = Follow inode | After_child inode inode | Finish inode

definition scc_enter :: "inode \<Rightarrow> scc_state \<Rightarrow> scc_state" where
  "scc_enter n st = st\<lparr>sc_visited := sadd n (sc_visited st),
                       sc_low := AList.update n (sc_id st) (sc_low st),
                       sc_ids := AList.update n (sc_id st) (sc_ids st),
                       sc_id := Suc (sc_id st),
                       sc_stack := n # sc_stack st\<rparr>"

definition scc_after_child :: "inode \<Rightarrow> inode \<Rightarrow> scc_state \<Rightarrow> scc_state res" where
  "scc_after_child n child st =
     (if child \<in> set (sc_stack st)
      then case (map_of (sc_low st) child, map_of (sc_low st) n) of
             (Some cl, Some ol) \<Rightarrow> Inr (st\<lparr>sc_low := AList.update n (min cl ol) (sc_low st)\<rparr>)
           | _ \<Rightarrow> Inl (AssertionError ''The expression evaluated to a falsy value'')
      else Inr st)"

definition scc_finish :: "inode \<Rightarrow> scc_state \<Rightarrow> scc_state res" where
  "scc_finish n st =
     (case (map_of (sc_ids st) n, map_of (sc_low st) n) of
        (Some ownId, Some ownLow) \<Rightarrow>
          (if ownId = ownLow then
             let scc = takeWhile (\<lambda>m. map_of (sc_low st) m = Some ownId) (sc_stack st);
                 rest = dropWhile (\<lambda>m. map_of (sc_low st) m = Some ownId) (sc_stack st)
             in Inr (st\<lparr>sc_stack := rest,
                        sc_components := (if length scc > 0 then sc_components st @ [set_of_list scc]
                                          else sc_components st)\<rparr>)
           else Inr st)
      | _ \<Rightarrow> Inl (AssertionError ''The expression evaluated to a falsy value''))"

definition task_nodes :: "scc_task \<Rightarrow> inode set" where
  "task_nodes t = (case t of Follow n \<Rightarrow> {n} | After_child n c \<Rightarrow> {} | Finish n \<Rightarrow> {})"

lemma scc_after_child_visited: "scc_after_child n c st = Inr st' \<Longrightarrow> sc_visited st' = sc_visited st"
  by (auto simp: scc_after_child_def split: if_splits option.splits)

lemma scc_finish_visited: "scc_finish n st = Inr st' \<Longrightarrow> sc_visited st' = sc_visited st"
  by (auto simp: scc_finish_def Let_def split: if_splits option.splits)

lemma finite_task_nodes [simp]: "finite (task_nodes t)"
  by (cases t) (auto simp: task_nodes_def)

definition scc_measure :: "directed_graph \<Rightarrow> scc_task list \<Rightarrow> scc_state \<Rightarrow> nat" where
  "scc_measure g ts st = card (target_universe g \<union> (\<Union>t \<in> set ts. task_nodes t) - set (sc_visited st))"

lemma scc_measure_tail:
  "sc_visited st' = sc_visited st \<Longrightarrow> scc_measure g ts st' \<le> scc_measure g (t # ts) st"
  unfolding scc_measure_def by (intro card_mono) auto

lemma scc_measure_follow:
  assumes "n \<notin> set (sc_visited st)" and "getDirectChildConnections g n = Inr ds"
  shows "scc_measure g (concat (map (\<lambda>c. [Follow (g_to c), After_child n (g_to c)]) ds) @ Finish n # ts)
           (scc_enter n st) < scc_measure g (Follow n # ts) st"
  unfolding scc_measure_def
proof (rule psubset_card_mono)
  have "target_universe g \<union> (\<Union>t \<in> set (concat (map (\<lambda>c. [Follow (g_to c), After_child n (g_to c)]) ds)
          @ Finish n # ts). task_nodes t) \<subseteq> target_universe g \<union> (\<Union>t \<in> set ts. task_nodes t)"
    using assms(2) by (auto simp: getDirectChildConnections_Inr target_universe_def task_nodes_def)
  then show "target_universe g \<union> (\<Union>t \<in> set (concat (map (\<lambda>c. [Follow (g_to c), After_child n (g_to c)]) ds)
          @ Finish n # ts). task_nodes t) - set (sc_visited (scc_enter n st))
      \<subset> target_universe g \<union> (\<Union>t \<in> set (Follow n # ts). task_nodes t) - set (sc_visited st)"
    using assms(1) by (auto simp: scc_enter_def task_nodes_def)
qed simp

function scc_run :: "directed_graph \<Rightarrow> scc_task list \<Rightarrow> scc_state \<Rightarrow> scc_state res" where
  "scc_run g [] st = Inr st"
| "scc_run g (Follow n # ts) st =
     (if n \<in> set (sc_visited st) then scc_run g ts st
      else bind_res (getDirectChildConnections g n) (\<lambda>ds.
             scc_run g (concat (map (\<lambda>c. [Follow (g_to c), After_child n (g_to c)]) ds) @ Finish n # ts)
               (scc_enter n st)))"
| "scc_run g (After_child n child # ts) st = bind_res (scc_after_child n child st) (scc_run g ts)"
| "scc_run g (Finish n # ts) st = bind_res (scc_finish n st) (scc_run g ts)"
  by pat_completeness auto
termination
proof (relation "measures [\<lambda>(g, ts, st). scc_measure g ts st, \<lambda>(g, ts, st). length ts]", goal_cases)
  case (2 g n ts st)
  then show ?case using scc_measure_tail [of st st g ts "Follow n"] by auto
next
  case (3 g n ts st ds)
  then show ?case using scc_measure_follow [of n st g ds ts] by simp
next
  case (4 g n child ts st st')
  then show ?case using scc_measure_tail [OF scc_after_child_visited [OF 4], of g ts "After_child n child"]
    by (simp add: le_less)
next
  case (5 g n ts st st')
  then show ?case using scc_measure_tail [OF scc_finish_visited [OF 5], of g ts "Finish n"]
    by (simp add: le_less)
qed simp

definition scc_init :: scc_state where
  "scc_init = \<lparr>sc_id = 0, sc_visited = [], sc_ids = [], sc_low = [], sc_stack = [], sc_components = []\<rparr>"

definition getStronglyConnectedComponents :: "directed_graph \<Rightarrow> inode list list res" where
  "getStronglyConnectedComponents g =
     bind_res (scc_run g (map Follow (ovals (dg_nodes g))) scc_init) (\<lambda>st. Inr (sc_components st))"

section \<open>Import and export\<close>

text \<open>\<^verbatim>\<open>a.ok(value)\<close> for a lookup.\<close>

definition assert_some :: "'a option \<Rightarrow> 'a res" where
  "assert_some x = (case x of Some v \<Rightarrow> Inr v
                     | None \<Rightarrow> Inl (AssertionError ''The expression evaluated to a falsy value''))"

definition import_connection ::
    "inodes \<Rightarrow> inode \<Rightarrow> string \<Rightarrow> nat \<Rightarrow> iconnection \<Rightarrow> directed_graph \<Rightarrow> directed_graph res" where
  "import_connection nodes from outputType outputIndex conn g =
     bind_res (assert_some (map_of nodes (c_node conn))) (\<lambda>to.
       addConnection \<lparr>ci_from = from, ci_to = to, ci_type = Some outputType,
                      ci_outputIndex = Some outputIndex, ci_inputIndex = Some (c_index conn)\<rparr> g)"

definition import_connections ::
    "inodes \<Rightarrow> iconnections \<Rightarrow> directed_graph \<Rightarrow> directed_graph res" where
  "import_connections nodes conns g =
     fold_res (\<lambda>(fromName, iConnection) g.
       bind_res (assert_some (map_of nodes fromName)) (\<lambda>from.
         fold_res (\<lambda>(outputType, outputs) g.
           fold_res (\<lambda>outputIndex g.
             fold_res (import_connection nodes from outputType outputIndex) (group_at outputs outputIndex) g)
             [0..<length outputs] g)
           iConnection g))
       conns g"

definition fromWorkflow :: "inodes \<Rightarrow> iconnections \<Rightarrow> directed_graph res" where
  "fromWorkflow nodes connectionsBySourceNode =
     import_connections nodes connectionsBySourceNode (addNodes (ovals nodes) empty_graph)"

definition fromNodesAndConnections :: "inode list \<Rightarrow> iconnections \<Rightarrow> directed_graph res" where
  "fromNodesAndConnections nodes conns =
     import_connections (fold (\<lambda>n. AList.update (n_name n) n) nodes []) conns (addNodes nodes empty_graph)"

definition clone :: "directed_graph \<Rightarrow> directed_graph res" where
  "clone g = addConnections (map input_of (getConnections g None)) (addNodes (ovals (getNodes g)) empty_graph)"

definition export_connection :: "graph_connection \<Rightarrow> iconnections \<Rightarrow> iconnections res" where
  "export_connection c result =
     (let from = n_name (g_from c);
          rc = (case map_of result from of Some nc \<Rightarrow> nc | None \<Rightarrow> [(g_type c, [])])
      in case map_of rc (g_type c) of
           None \<Rightarrow> Inl (TypeError ''Cannot read properties of undefined'')
         | Some groups \<Rightarrow>
             (let grp = group_at groups (g_outputIndex c) @
                          [\<lparr>c_node = n_name (g_to c), c_type = g_type c, c_index = g_inputIndex c\<rparr>]
              in Inr (AList.update from
                   (AList.update (g_type c) (array_set None groups (g_outputIndex c) (Some grp)) rc) result)))"

definition toIConnections :: "directed_graph \<Rightarrow> iconnections res" where
  "toIConnections g = fold_res export_connection (ovals (dg_connections g)) []"

section \<open>The invariant of the class\<close>

text \<open>
  A graph files each node under its name and each connection under its key, and both ends
  of a connection are nodes of the graph.
\<close>

definition dg_wf :: "directed_graph \<Rightarrow> bool" where
  "dg_wf g \<longleftrightarrow> distinct (okeys (dg_nodes g)) \<and> distinct (okeys (dg_connections g))
     \<and> (\<forall>(k, n) \<in> set (dg_nodes g). k = n_name n)
     \<and> (\<forall>(k, c) \<in> set (dg_connections g). k = makeKey c \<and> is_member g (g_from c) \<and> is_member g (g_to c))"

definition conns_of :: "directed_graph \<Rightarrow> graph_connection set" where
  "conns_of g = set (ovals (dg_connections g))"

definition succs :: "directed_graph \<Rightarrow> inode \<Rightarrow> inode list" where
  "succs g n = map g_to (filter (\<lambda>c. g_from c = n) (ovals (dg_connections g)))"

lemma succs_iff: "v \<in> set (succs g u) \<longleftrightarrow> (\<exists>c \<in> conns_of g. g_from c = u \<and> g_to c = v)"
  by (auto simp: succs_def conns_of_def)

lemma dg_wf_member:
  "dg_wf g \<Longrightarrow> c \<in> conns_of g \<Longrightarrow> is_member g (g_from c) \<and> is_member g (g_to c)"
  by (auto simp: dg_wf_def conns_of_def)

lemma dg_wf_key: "dg_wf g \<Longrightarrow> c \<in> conns_of g \<Longrightarrow> map_of (dg_connections g) (makeKey c) = Some c"
  by (force simp: dg_wf_def conns_of_def)

lemma dg_wf_lookup: "dg_wf g \<Longrightarrow> map_of (dg_connections g) k = Some c \<Longrightarrow> k = makeKey c \<and> c \<in> conns_of g"
  by (force simp: dg_wf_def conns_of_def dest: map_of_SomeD)

lemma dg_wf_node: "dg_wf g \<Longrightarrow> map_of (dg_nodes g) k = Some n \<Longrightarrow> k = n_name n \<and> is_member g n"
  by (auto simp: dg_wf_def is_member_def dest: map_of_SomeD)

lemma is_member_iff: "dg_wf g \<Longrightarrow> is_member g n \<longleftrightarrow> n \<in> set (ovals (dg_nodes g))"
  by (force simp: dg_wf_def is_member_def)

lemma dg_wf_reach:
  assumes "(u, v) \<in> (edges_of (succs g))\<^sup>+" and "dg_wf g"
  shows "is_member g u \<and> is_member g v"
  using assms by (induction rule: trancl_induct) (auto simp: succs_iff dest: dg_wf_member)

lemma dg_wf_empty [wf_intros]: "dg_wf empty_graph"
  by (simp add: dg_wf_def empty_graph_def)

lemma is_member_put [simp]: "is_member (put_connection c g) n = is_member g n"
  by (simp add: is_member_def put_connection_def)

lemma dg_wf_put [wf_intros]:
  "dg_wf g \<Longrightarrow> is_member g (g_from c) \<Longrightarrow> is_member g (g_to c) \<Longrightarrow> dg_wf (put_connection c g)"
  by (auto simp: dg_wf_def put_connection_def is_member_def set_update_distinct)

lemma dg_wf_addNode [wf_intros]:
  assumes wf: "dg_wf g" and fresh: "\<not> hasNode g (n_name n)"
  shows "dg_wf (addNode n g)"
proof -
  have "is_member (addNode n g) m" if "is_member g m" for m
    using that fresh by (auto simp: is_member_def addNode_def hasNode_def has_key_def)
  then show ?thesis using wf by (auto simp: dg_wf_def addNode_def set_update_distinct)
qed

lemma addConnection_Inr:
  "addConnection ci g = Inr g' \<Longrightarrow>
     \<exists>c. g' = put_connection c g \<and> is_member g (g_from c) \<and> is_member g (g_to c)"
  by (auto simp: addConnection_def split: if_splits)

lemma dg_wf_addConnection [wf_intros]: "dg_wf g \<Longrightarrow> addConnection ci g = Inr g' \<Longrightarrow> dg_wf g'"
  by (auto dest!: addConnection_Inr intro: dg_wf_put)

lemma dg_wf_addConnections [wf_intros]: "dg_wf g \<Longrightarrow> addConnections cs g = Inr g' \<Longrightarrow> dg_wf g'"
  unfolding addConnections_def by (erule fold_res_invariant) (auto intro: dg_wf_addConnection)

lemma conns_of_drop [simp]:
  "conns_of (drop_connections_of n g) = {c \<in> conns_of g. g_from c \<noteq> n \<and> g_to c \<noteq> n}"
  by (force simp: conns_of_def drop_connections_of_def)

lemma is_member_drop [simp]: "is_member (drop_connections_of n g) m = is_member g m"
  by (simp add: is_member_def drop_connections_of_def)

lemma distinct_keys_filter: "distinct (okeys m) \<Longrightarrow> distinct (okeys (filter P m))"
  by (induction m) auto

lemma dg_wf_drop_connections [wf_intros]: "dg_wf g \<Longrightarrow> dg_wf (drop_connections_of n g)"
  by (auto simp: dg_wf_def drop_connections_of_def is_member_def distinct_keys_filter)

lemma is_member_drop_node:
  "is_member g n \<Longrightarrow> is_member (drop_node n g) m \<longleftrightarrow> is_member g m \<and> m \<noteq> n"
  by (auto simp: is_member_def drop_node_def)

lemma conns_of_drop_node [simp]: "conns_of (drop_node n g) = conns_of g"
  by (simp add: conns_of_def drop_node_def)

lemma dg_wf_drop_node:
  assumes "dg_wf g" and "is_member g n" and "\<And>c. c \<in> conns_of g \<Longrightarrow> g_from c \<noteq> n \<and> g_to c \<noteq> n"
  shows "dg_wf (drop_node n g)"
proof -
  have "is_member (drop_node n g) (g_from c) \<and> is_member (drop_node n g) (g_to c)" if "(k, c) \<in> set (dg_connections g)" for k c
  proof -
    have "c \<in> conns_of g" using that by (force simp: conns_of_def)
    with assms show ?thesis by (auto simp: is_member_drop_node dest: dg_wf_member)
  qed
  then show ?thesis using assms(1)
    by (auto simp: dg_wf_def drop_node_def set_delete)
qed

lemma dg_wf_removeNode [wf_intros]: "dg_wf g \<Longrightarrow> is_member g n \<Longrightarrow> dg_wf (removeNode n g)"
  unfolding removeNode_def by (rule dg_wf_drop_node) (auto intro: wf_intros)

text \<open>
  The edits of a graph as the steps of a machine.  Adding a node under a name that is taken
  by another object is the one edit the class does not guard; the step refuses it, and it
  refuses to remove an object that is not a node of the graph.
\<close>

datatype graph_edit = Add_node inode | Add_connection connection_input | Remove_node inode

fun edit_graph :: "graph_edit \<Rightarrow> directed_graph \<Rightarrow> directed_graph option" where
  "edit_graph (Add_node n) g = (if hasNode g (n_name n) then None else Some (addNode n g))"
| "edit_graph (Add_connection ci) g = (case addConnection ci g of Inl _ \<Rightarrow> None | Inr g' \<Rightarrow> Some g')"
| "edit_graph (Remove_node n) g = (if is_member g n then Some (removeNode n g) else None)"

fun_cases edit_graph_Some:
  "edit_graph (Add_node n) g = Some g'"
  "edit_graph (Add_connection ci) g = Some g'"
  "edit_graph (Remove_node n) g = Some g'"

interpretation graph_edits: invariant_machine edit_graph dg_wf
proof
  fix g e g'
  assume "dg_wf g" and "edit_graph e g = Some g'"
  then show "dg_wf g'"
    by (cases e) (auto elim!: edit_graph_Some intro: wf_intros split: if_splits sum.splits)
qed


definition n_a :: inode where "n_a = plain_node 1 ''a'' ''t''"
definition n_b :: inode where "n_b = plain_node 2 ''b'' ''t''"
definition n_c :: inode where "n_c = plain_node 3 ''c'' ''t''"

definition gconn :: "inode \<Rightarrow> inode \<Rightarrow> graph_connection" where
  "gconn u v = \<lparr>g_from = u, g_to = v, g_type = Main_t, g_outputIndex = 0, g_inputIndex = 0\<rparr>"

definition chain_graph :: directed_graph where
  "chain_graph = \<lparr>dg_nodes = [(''a'', n_a), (''b'', n_b), (''c'', n_c)],
     dg_connections = [(''a-main-0-0-b'', gconn n_a n_b), (''b-main-0-0-c'', gconn n_b n_c)]\<rparr>"

lemma n_neq [simp]: "n_a \<noteq> n_b" "n_a \<noteq> n_c" "n_b \<noteq> n_c" "n_b \<noteq> n_a" "n_c \<noteq> n_a" "n_c \<noteq> n_b"
  by (auto simp: n_a_def n_b_def n_c_def plain_node_def)

lemma n_names [simp]: "n_name n_a = ''a''" "n_name n_b = ''b''" "n_name n_c = ''c''"
  by (auto simp: n_a_def n_b_def n_c_def plain_node_def)

lemma gconn_sel [simp]: "g_from (gconn u v) = u" "g_to (gconn u v) = v" "g_type (gconn u v) = Main_t"
  by (auto simp: gconn_def)

lemma show_nat_0: "show_nat 0 = ''0''"
  by code_simp

lemma makeKey_gconn: "makeKey (gconn u v) = n_name u @ ''-main-0-0-'' @ n_name v"
  by (simp add: makeKey_def gconn_def show_nat_0)

lemma chain_graph_wf: "dg_wf chain_graph"
  by (simp add: dg_wf_def chain_graph_def is_member_def makeKey_gconn)


section \<open>The traversals compute reachability\<close>

abbreviation graph_edges :: "directed_graph \<Rightarrow> (inode \<times> inode) set" where
  "graph_edges g \<equiv> edges_of (succs g)"

lemma graph_edge_iff: "(u, v) \<in> graph_edges g \<longleftrightarrow> (\<exists>c \<in> conns_of g. g_from c = u \<and> g_to c = v)"
  by (simp add: succs_iff)

lemma conn_edge: "c \<in> conns_of g \<Longrightarrow> (g_from c, g_to c) \<in> graph_edges g"
  by (auto simp: graph_edge_iff simp del: edges_of_iff)

lemma getChildren_loop_correct:
  assumes "dg_wf g" and "\<forall>c \<in> set cs. c \<in> conns_of g"
  shows "\<exists>r. getChildren_loop g cs ch = Inr r \<and> (distinct ch \<longrightarrow> distinct r)
           \<and> set ch \<union> g_to ` set cs \<subseteq> set r
           \<and> set r \<subseteq> set ch \<union> {v. \<exists>c \<in> set cs. (g_to c, v) \<in> (graph_edges g)\<^sup>*}
           \<and> (\<forall>x \<in> set r - set ch. set (succs g x) \<subseteq> set r)"
  using assms
proof (induction g cs ch rule: getChildren_loop.induct)
  case (1 g ch)
  then show ?case by auto
next
  case (2 g c cs ch)
  show ?case
  proof (cases "g_to c \<in> set ch")
    case True
    with 2 show ?thesis by fastforce
  next
    case new: False
    define ds where "ds = filter (\<lambda>d. g_from d = g_to c) (ovals (dg_connections g))"
    have mem: "is_member g (g_to c)" using 2(3,4) by (auto dest: dg_wf_member)
    then have ds: "getDirectChildConnections g (g_to c) = Inr ds"
      by (simp add: getDirectChildConnections_def ds_def)
    have ds_set: "d \<in> set ds \<longleftrightarrow> d \<in> conns_of g \<and> g_from d = g_to c" for d
      by (auto simp: ds_def conns_of_def)
    then have "\<forall>d \<in> set (ds @ cs). d \<in> conns_of g" using 2(4) by auto
    from 2(2) [OF new ds 2(3) this] obtain r where
      run: "getChildren_loop g (ds @ cs) (sadd (g_to c) ch) = Inr r" and
      dis: "distinct ch \<Longrightarrow> distinct r" and
      low: "insert (g_to c) (set ch) \<union> g_to ` (set ds \<union> set cs) \<subseteq> set r" and
      up: "set r \<subseteq> insert (g_to c) (set ch) \<union> {v. \<exists>d \<in> set ds \<union> set cs. (g_to d, v) \<in> (graph_edges g)\<^sup>*}" and
      closed: "\<forall>x \<in> set r - insert (g_to c) (set ch). set (succs g x) \<subseteq> set r" by auto
    have "(g_to c, v) \<in> (graph_edges g)\<^sup>*" if "d \<in> set ds" "(g_to d, v) \<in> (graph_edges g)\<^sup>*" for d v
      using that ds_set conn_edge [of d g] by (metis converse_rtrancl_into_rtrancl)
    then have "set r \<subseteq> set ch \<union> {v. \<exists>d \<in> set (c # cs). (g_to d, v) \<in> (graph_edges g)\<^sup>*}"
      using up by fastforce
    moreover have "set (succs g (g_to c)) \<subseteq> set r"
      using low by (auto simp: succs_def ds_def)
    ultimately show ?thesis using new ds run dis low closed by auto
  qed
qed

lemma getChildren_set:
  assumes "dg_wf g" and "is_member g n"
  shows "\<exists>r. getChildren g n = Inr r \<and> distinct r \<and> set r = {v. (n, v) \<in> (graph_edges g)\<^sup>+}"
proof -
  define ds where "ds = filter (\<lambda>d. g_from d = n) (ovals (dg_connections g))"
  have ds: "getDirectChildConnections g n = Inr ds"
    using assms(2) by (simp add: getDirectChildConnections_def ds_def)
  have to_ds: "g_to ` set ds = set (succs g n)" and in_g: "\<forall>d \<in> set ds. d \<in> conns_of g"
    by (auto simp: ds_def succs_def conns_of_def)
  from getChildren_loop_correct [OF assms(1) in_g, of "[]"] obtain r where
    run: "getChildren_loop g ds [] = Inr r" "distinct r" and
    low: "set (succs g n) \<subseteq> set r" and
    up: "set r \<subseteq> {v. \<exists>u \<in> set (succs g n). (u, v) \<in> (graph_edges g)\<^sup>*}" and
    closed: "\<forall>x \<in> set r. set (succs g x) \<subseteq> set r" by (auto simp: to_ds [symmetric])
  have "v \<in> set r" if "(n, v) \<in> (graph_edges g)\<^sup>+" for v
    using that by (induction rule: trancl_induct) (use low closed in auto)
  moreover have "(n, v) \<in> (graph_edges g)\<^sup>+" if "v \<in> set r" for v
  proof -
    from that up obtain u where "(n, u) \<in> graph_edges g" "(u, v) \<in> (graph_edges g)\<^sup>*" by auto
    then show ?thesis by (rule rtrancl_into_trancl2)
  qed
  ultimately show ?thesis using ds run by (auto simp: getChildren_def)
qed

text \<open>
  On a well formed graph \<^verbatim>\<open>getChildren\<close> returns, and it returns, each node once, exactly
  the nodes that can be reached from the given node over one or more connections; the node
  itself is among them only if it lies on a cycle.
\<close>

theorem getChildren_reachable:
  assumes "dg_wf g" and "is_member g n"
  shows "\<exists>r. getChildren g n = Inr r \<and> distinct r \<and> set r = {v. (n, v) \<in> (graph_edges g)\<^sup>+}"
  by (rule getChildren_set [OF assms])

lemma chain_graph_members [simp]:
  "is_member chain_graph n_a" "is_member chain_graph n_b" "is_member chain_graph n_c"
  by (simp_all add: is_member_def chain_graph_def)

lemma getChildren_reachable_witness:
  "getChildren chain_graph n_a = Inr [n_b, n_c] \<and> {v. (n_a, v) \<in> (graph_edges chain_graph)\<^sup>+} = {n_b, n_c}"
proof -
  have "getChildren chain_graph n_a = Inr [n_b, n_c]"
    by (simp add: getChildren_def getDirectChildConnections_def) (simp add: chain_graph_def getDirectChildConnections_def is_member_def sadd_def)
  then show ?thesis using getChildren_reachable [OF chain_graph_wf, of n_a] by auto
qed

text \<open>One connection leads to another when it is that connection or its target reaches its source.\<close>

definition leads_to :: "directed_graph \<Rightarrow> graph_connection \<Rightarrow> graph_connection \<Rightarrow> bool" where
  "leads_to g d c \<longleftrightarrow> d = c \<or> (g_to d, g_from c) \<in> (graph_edges g)\<^sup>*"

lemma leads_to_refl [simp]: "leads_to g c c"
  by (simp add: leads_to_def)

lemma leads_to_step:
  assumes "leads_to g d e" and "e \<in> conns_of g" and "g_to e = g_from c"
  shows "leads_to g d c"
  using assms conn_edge [of e g] unfolding leads_to_def by (metis rtrancl.simps)

lemma leads_to_target:
  assumes "leads_to g d e" and "e \<in> conns_of g"
  shows "(g_to d, g_to e) \<in> (graph_edges g)\<^sup>*"
  using assms conn_edge [of e g] unfolding leads_to_def by (metis rtrancl.simps)

lemma getParentConnections_loop_correct:
  assumes "dg_wf g" and "\<forall>c \<in> set cs. c \<in> conns_of g"
  shows "\<exists>r. getParentConnections_loop g cs acc = Inr r \<and> (distinct acc \<longrightarrow> distinct r)
           \<and> set acc \<union> set cs \<subseteq> set r
           \<and> set r \<subseteq> set acc \<union> {d \<in> conns_of g. \<exists>c \<in> set cs. leads_to g d c}
           \<and> (\<forall>x \<in> set r - set acc. \<forall>d \<in> conns_of g. g_to d = g_from x \<longrightarrow> d \<in> set r)"
  using assms
proof (induction g cs acc rule: getParentConnections_loop.induct)
  case (1 g acc)
  then show ?case by auto
next
  case (2 g c cs acc)
  show ?case
  proof (cases "c \<in> set acc")
    case True
    with 2 show ?thesis by fastforce
  next
    case new: False
    define ps where "ps = filter (\<lambda>d. g_to d = g_from c) (ovals (dg_connections g))"
    have "is_member g (g_from c)" using 2(3,4) by (auto dest: dg_wf_member)
    then have ps: "getDirectParentConnections g (g_from c) = Inr ps"
      by (simp add: getDirectParentConnections_def ps_def)
    have ps_set: "d \<in> set ps \<longleftrightarrow> d \<in> conns_of g \<and> g_to d = g_from c" for d
      by (auto simp: ps_def conns_of_def)
    then have "\<forall>d \<in> set (ps @ cs). d \<in> conns_of g" using 2(4) by auto
    note IH = 2(2) [OF new ps 2(3) this]
    obtain r where
      run: "getParentConnections_loop g (ps @ cs) (sadd c acc) = Inr r" and
      dis: "distinct (sadd c acc) \<longrightarrow> distinct r" and
      low: "set (sadd c acc) \<union> set (ps @ cs) \<subseteq> set r" and
      up: "set r \<subseteq> set (sadd c acc) \<union> {d \<in> conns_of g. \<exists>c \<in> set (ps @ cs). leads_to g d c}" and
      closed: "\<forall>x \<in> set r - set (sadd c acc). \<forall>d \<in> conns_of g. g_to d = g_from x \<longrightarrow> d \<in> set r"
      using IH by (elim exE conjE) (rule that)
    have trans: "leads_to g d c" if "e \<in> set ps" "leads_to g d e" for d e
      using that ps_set by (auto intro: leads_to_step)
    have "d \<in> set acc \<union> {d \<in> conns_of g. \<exists>e \<in> set (c # cs). leads_to g d e}" if "d \<in> set r" for d
    proof -
      from subsetD [OF up that] consider "d = c" | "d \<in> set acc"
        | e where "d \<in> conns_of g" "e \<in> set ps" "leads_to g d e"
        | e where "d \<in> conns_of g" "e \<in> set cs" "leads_to g d e"
        unfolding set_append set_sadd by blast
      then show ?thesis
        by cases (use 2(4) trans in auto)
    qed
    then have upper: "set r \<subseteq> set acc \<union> {d \<in> conns_of g. \<exists>e \<in> set (c # cs). leads_to g d e}"
      by (rule subsetI)
    have here: "\<forall>d \<in> conns_of g. g_to d = g_from c \<longrightarrow> d \<in> set r"
      using low ps_set unfolding set_append by blast
    have shut: "\<forall>x \<in> set r - set acc. \<forall>d \<in> conns_of g. g_to d = g_from x \<longrightarrow> d \<in> set r"
    proof
      fix x assume "x \<in> set r - set acc"
      then show "\<forall>d \<in> conns_of g. g_to d = g_from x \<longrightarrow> d \<in> set r"
        using here closed unfolding set_sadd by (cases "x = c") blast+
    qed
    have "getParentConnections_loop g (c # cs) acc = Inr r" using new ps run by simp
    moreover have "set acc \<union> set (c # cs) \<subseteq> set r" using low by simp
    ultimately show ?thesis using dis upper shut by (intro exI [of _ r] conjI) (assumption | simp)+
  qed
qed

lemma getParentConnections_set:
  assumes "dg_wf g" and "is_member g n"
  shows "\<exists>r. getParentConnections g n = Inr r \<and> distinct r
           \<and> set r = {c \<in> conns_of g. (g_to c, n) \<in> (graph_edges g)\<^sup>*}"
proof -
  define ps where "ps = filter (\<lambda>d. g_to d = n) (ovals (dg_connections g))"
  have ps: "getDirectParentConnections g n = Inr ps"
    using assms(2) by (simp add: getDirectParentConnections_def ps_def)
  have ps_set: "d \<in> set ps \<longleftrightarrow> d \<in> conns_of g \<and> g_to d = n" for d by (auto simp: ps_def conns_of_def)
  then have in_g: "\<forall>d \<in> set ps. d \<in> conns_of g" by simp
  from getParentConnections_loop_correct [OF assms(1) in_g, of "[]"] obtain r where
    run: "getParentConnections_loop g ps [] = Inr r" "distinct r" and low: "set ps \<subseteq> set r" and
    up: "set r \<subseteq> {d \<in> conns_of g. \<exists>e \<in> set ps. leads_to g d e}" and
    closed: "\<forall>x \<in> set r. \<forall>d \<in> conns_of g. g_to d = g_from x \<longrightarrow> d \<in> set r" by auto
  have reach: "\<forall>c \<in> conns_of g. g_to c = u \<longrightarrow> c \<in> set r" if "(u, n) \<in> (graph_edges g)\<^sup>*" for u
    using that
  proof (induction rule: converse_rtrancl_induct)
    case base
    then show ?case using low ps_set by auto
  next
    case (step u w)
    then obtain e where "e \<in> conns_of g" "g_from e = u" "g_to e = w" by (auto simp: graph_edge_iff simp del: edges_of_iff)
    with step.IH closed show ?case by metis
  qed
  moreover have "(g_to c, n) \<in> (graph_edges g)\<^sup>*" if "c \<in> set r" for c
  proof -
    from that up obtain e where "e \<in> set ps" "leads_to g c e" by auto
    with ps_set leads_to_target [of g c e] show ?thesis by simp
  qed
  moreover have "set r \<subseteq> conns_of g" using up by auto
  ultimately have "set r = {c \<in> conns_of g. (g_to c, n) \<in> (graph_edges g)\<^sup>*}" by blast
  with ps run show ?thesis by (auto simp: getParentConnections_def)
qed

text \<open>
  On a well formed graph \<^verbatim>\<open>getParentConnections\<close> returns, each one once, exactly the
  connections that lie on a path to the given node: those whose target is the node or
  reaches it.
\<close>

theorem getParentConnections_complete:
  assumes "dg_wf g" and "is_member g n"
  shows "\<exists>r. getParentConnections g n = Inr r \<and> distinct r
           \<and> set r = {c \<in> conns_of g. (g_to c, n) \<in> (graph_edges g)\<^sup>*}"
  by (rule getParentConnections_set [OF assms])

lemma getParentConnections_complete_witness:
  "\<exists>r. getParentConnections chain_graph n_c = Inr r \<and> distinct r
     \<and> set r = {c \<in> conns_of chain_graph. (g_to c, n_c) \<in> (graph_edges chain_graph)\<^sup>*}"
  by (rule getParentConnections_complete [OF chain_graph_wf]) simp

lemma depthFirstSearch_loop_correct:
  assumes "dg_wf g" and "\<forall>n \<in> set ns. is_member g n"
  shows "\<exists>r. depthFirstSearch_loop g fn ns seen = Inr r
    \<and> (\<forall>m. r = Some m \<longrightarrow> fn m \<and> (\<exists>n \<in> set ns. (n, m) \<in> (graph_edges g)\<^sup>*))
    \<and> (r = None \<longrightarrow> (\<exists>S. set seen \<union> set ns \<subseteq> S \<and> (\<forall>x \<in> S - set seen. \<not> fn x \<and> set (succs g x) \<subseteq> S)))"
  using assms
proof (induction g fn ns seen rule: depthFirstSearch_loop.induct)
  case (1 g fn seen)
  then show ?case by auto
next
  case (2 g fn n ns seen)
  show ?case
  proof (cases "n \<in> set seen")
    case True
    then have run: "depthFirstSearch_loop g fn (n # ns) seen = depthFirstSearch_loop g fn ns seen" by simp
    have mem: "\<forall>n \<in> set ns. is_member g n" using 2(4) by simp
    obtain r where
      "depthFirstSearch_loop g fn ns seen = Inr r"
      "\<forall>m. r = Some m \<longrightarrow> fn m \<and> (\<exists>n \<in> set ns. (n, m) \<in> (graph_edges g)\<^sup>*)"
      and none: "r = None \<longrightarrow> (\<exists>S. set seen \<union> set ns \<subseteq> S \<and> (\<forall>x \<in> S - set seen. \<not> fn x \<and> set (succs g x) \<subseteq> S))"
      using 2(1) [OF True 2(3) mem] by (elim exE conjE) (rule that)
    moreover have "\<exists>S. set seen \<union> set (n # ns) \<subseteq> S \<and> (\<forall>x \<in> S - set seen. \<not> fn x \<and> set (succs g x) \<subseteq> S)"
      if "r = None"
    proof -
      from none that obtain S where "set seen \<union> set ns \<subseteq> S"
        "\<forall>x \<in> S - set seen. \<not> fn x \<and> set (succs g x) \<subseteq> S" by blast
      with True show ?thesis by (intro exI [of _ S]) (simp add: subset_iff)
    qed
    ultimately show ?thesis unfolding run by (intro exI [of _ r]) simp
  next
    case new: False
    show ?thesis
    proof (cases "fn n")
      case True
      with new show ?thesis by auto
    next
      case False
      define ds where "ds = filter (\<lambda>d. g_from d = n) (ovals (dg_connections g))"
      have ds: "getDirectChildConnections g n = Inr ds"
        using 2(4) by (simp add: getDirectChildConnections_def ds_def)
      have to_ds: "map g_to ds = succs g n" by (simp add: ds_def succs_def)
      then have mem: "\<forall>m \<in> set (map g_to ds @ ns). is_member g m"
        using 2(3,4) by (auto simp: succs_iff dest: dg_wf_member)
      note IH = 2(2) [OF new False ds 2(3) mem]
      obtain r where run: "depthFirstSearch_loop g fn (map g_to ds @ ns) (sadd n seen) = Inr r"
        and some: "\<forall>m. r = Some m \<longrightarrow> fn m \<and> (\<exists>n \<in> set (map g_to ds @ ns). (n, m) \<in> (graph_edges g)\<^sup>*)"
        and none: "r = None \<longrightarrow> (\<exists>S. set (sadd n seen) \<union> set (map g_to ds @ ns) \<subseteq> S
                     \<and> (\<forall>x \<in> S - set (sadd n seen). \<not> fn x \<and> set (succs g x) \<subseteq> S))"
        using IH by (elim exE conjE) (rule that)
      have "\<exists>k \<in> set (n # ns). (k, m) \<in> (graph_edges g)\<^sup>*" if "r = Some m" for m
      proof -
        from some that obtain k where k: "k \<in> set (succs g n) \<union> set ns" "(k, m) \<in> (graph_edges g)\<^sup>*"
          unfolding to_ds by auto
        then consider "(n, k) \<in> graph_edges g" | "k \<in> set ns" by auto
        then show ?thesis using k(2) by cases (auto intro: converse_rtrancl_into_rtrancl simp del: edges_of_iff)
      qed
      moreover have "\<exists>S. set seen \<union> set (n # ns) \<subseteq> S \<and> (\<forall>x \<in> S - set seen. \<not> fn x \<and> set (succs g x) \<subseteq> S)"
        if "r = None"
      proof -
        from none that obtain S where S: "insert n (set seen) \<union> (set (succs g n) \<union> set ns) \<subseteq> S"
          "\<forall>x \<in> S - insert n (set seen). \<not> fn x \<and> set (succs g x) \<subseteq> S" unfolding to_ds by auto
        then show ?thesis using False by (intro exI [of _ S]) auto
      qed
      ultimately show ?thesis using new False ds run some by auto
    qed
  qed
qed

lemma depthFirstSearch_finds:
  assumes "dg_wf g" and "is_member g from"
  shows "(\<exists>m. depthFirstSearch g from fn = Inr (Some m) \<and> fn m \<and> (from, m) \<in> (graph_edges g)\<^sup>*)
       \<or> (depthFirstSearch g from fn = Inr None \<and> (\<forall>m. (from, m) \<in> (graph_edges g)\<^sup>* \<longrightarrow> \<not> fn m))"
proof -
  from depthFirstSearch_loop_correct [OF assms(1), of "[from]" fn "[]"] assms(2)
  obtain r where run: "depthFirstSearch_loop g fn [from] [] = Inr r"
    and some: "\<forall>m. r = Some m \<longrightarrow> fn m \<and> (from, m) \<in> (graph_edges g)\<^sup>*"
    and none: "r = None \<longrightarrow> (\<exists>S. from \<in> S \<and> (\<forall>x \<in> S. \<not> fn x \<and> set (succs g x) \<subseteq> S))" by auto
  show ?thesis
  proof (cases r)
    case None
    with none obtain S where S: "from \<in> S" "\<And>x. x \<in> S \<Longrightarrow> \<not> fn x \<and> set (succs g x) \<subseteq> S" by auto
    have "m \<in> S" if "(from, m) \<in> (graph_edges g)\<^sup>*" for m
      using S(1) _ that by (rule closed_rtrancl) (use S(2) in \<open>simp add: Image_def subset_iff\<close>)
    with S(2) None run show ?thesis by (auto simp: depthFirstSearch_def)
  qed (use run some in \<open>auto simp: depthFirstSearch_def\<close>)
qed

text \<open>
  On a well formed graph \<^verbatim>\<open>depthFirstSearch\<close> returns.  A node it returns satisfies the
  predicate and is reachable from the start (which counts as reachable); it returns
  \<^verbatim>\<open>undefined\<close> only if no reachable node satisfies the predicate.
\<close>

theorem depthFirstSearch_correct:
  assumes "dg_wf g" and "is_member g from"
  shows "(\<exists>m. depthFirstSearch g from fn = Inr (Some m) \<and> fn m \<and> (from, m) \<in> (graph_edges g)\<^sup>*)
       \<or> (depthFirstSearch g from fn = Inr None \<and> (\<forall>m. (from, m) \<in> (graph_edges g)\<^sup>* \<longrightarrow> \<not> fn m))"
  by (rule depthFirstSearch_finds [OF assms])

lemma depthFirstSearch_correct_witness:
  "depthFirstSearch chain_graph n_a (\<lambda>n. n_name n = ''c'') = Inr (Some n_c)
   \<and> (n_a, n_c) \<in> (graph_edges chain_graph)\<^sup>*"
proof -
  have "depthFirstSearch chain_graph n_a (\<lambda>n. n_name n = ''c'') = Inr (Some n_c)"
    by (simp add: depthFirstSearch_def getDirectChildConnections_def)
      (simp add: chain_graph_def getDirectChildConnections_def is_member_def sadd_def)
  then show ?thesis
    using depthFirstSearch_correct [OF chain_graph_wf, of n_a "\<lambda>n. n_name n = ''c''"] by auto
qed

section \<open>Keys of connections\<close>

text \<open>
  The key determines the connection's coordinates if the source's name and the type contain
  no dash; the fields of a key are separated by dashes and nothing is escaped.
\<close>

definition no_dash :: "string \<Rightarrow> bool" where
  "no_dash s \<longleftrightarrow> CHR ''-'' \<notin> set s"

lemma split_at_dash:
  "no_dash s \<Longrightarrow> no_dash t \<Longrightarrow> s @ CHR ''-'' # x = t @ CHR ''-'' # y \<Longrightarrow> s = t \<and> x = y"
proof (induction s arbitrary: t)
  case Nil
  then show ?case by (cases t) (auto simp: no_dash_def)
next
  case (Cons c s)
  then show ?case by (cases t) (auto simp: no_dash_def)
qed

lemma digit_no_dash: "d < 10 \<Longrightarrow> char_of (48 + d :: nat) \<noteq> CHR ''-''"
proof
  assume "d < 10" and "char_of (48 + d :: nat) = CHR ''-''"
  then have "of_char (char_of (48 + d :: nat) :: char) = (45 :: nat)" by simp
  with \<open>d < 10\<close> show False by (simp add: of_char_of)
qed

lemma no_dash_show_nat [simp]: "no_dash (show_nat n)"
proof (induction n rule: show_nat.induct)
  case (1 n)
  then show ?case
    using digit_no_dash [of "n mod 10"] digit_no_dash [of n]
    by (cases "n < 10") (auto simp: no_dash_def show_nat.simps [of n])
qed

lemma digit_inj: "a < 10 \<Longrightarrow> b < 10 \<Longrightarrow> char_of (48 + a :: nat) = (char_of (48 + b) :: char) \<Longrightarrow> a = b"
proof -
  assume small: "a < 10" "b < 10" and "char_of (48 + a :: nat) = (char_of (48 + b) :: char)"
  then have "of_char (char_of (48 + a :: nat) :: char) = (of_char (char_of (48 + b) :: char) :: nat)" by simp
  with small show "a = b" by (simp add: of_char_of)
qed

lemma show_nat_not_Nil [simp]: "show_nat n \<noteq> []" "[] \<noteq> show_nat n"
  by (simp_all add: show_nat.simps [of n])

lemma show_nat_inj: "show_nat m = show_nat n \<Longrightarrow> m = n"
proof (induction m arbitrary: n rule: show_nat.induct)
  case (1 m)
  show ?case
  proof (cases "m < 10")
    case True
    then have "n < 10" using 1(2) by (auto simp: show_nat.simps [of n] show_nat.simps [of m] split: if_splits)
    then show ?thesis using True 1(2) digit_inj [of m n] by (simp add: show_nat.simps [of n] show_nat.simps [of m])
  next
    case False
    then have n: "\<not> n < 10" using 1(2) by (auto simp: show_nat.simps [of n] show_nat.simps [of m] split: if_splits)
    then have "show_nat (m div 10) = show_nat (n div 10)"
      and "(char_of (48 + m mod 10) :: char) = char_of (48 + n mod 10)"
      using False 1(2) by (simp_all add: show_nat.simps [of n] show_nat.simps [of m])
    then have "m div 10 = n div 10" and "m mod 10 = n mod 10"
      using 1(1) [OF False] digit_inj [of "m mod 10" "n mod 10"] by auto
    then show ?thesis by (metis mult_div_mod_eq)
  qed
qed

lemma makeKey_inj:
  assumes "makeKey c = makeKey d"
    and "no_dash (n_name (g_from c))" "no_dash (n_name (g_from d))" "no_dash (g_type c)" "no_dash (g_type d)"
  shows "n_name (g_from c) = n_name (g_from d) \<and> g_type c = g_type d \<and> g_outputIndex c = g_outputIndex d
    \<and> g_inputIndex c = g_inputIndex d \<and> n_name (g_to c) = n_name (g_to d)"
proof -
  note split = split_at_dash [OF no_dash_show_nat no_dash_show_nat]
  from assms(1) have 1: "n_name (g_from c) @ CHR ''-'' # (g_type c @ CHR ''-'' # (show_nat (g_outputIndex c) @ CHR ''-''
       # (show_nat (g_inputIndex c) @ CHR ''-'' # n_name (g_to c)))) = n_name (g_from d) @ CHR ''-''
       # (g_type d @ CHR ''-'' # (show_nat (g_outputIndex d) @ CHR ''-'' # (show_nat (g_inputIndex d) @ CHR ''-''
       # n_name (g_to d))))" by (simp add: makeKey_def)
  note 2 = split_at_dash [OF assms(2,3) 1]
  note 3 = split_at_dash [OF assms(4,5) 2 [THEN conjunct2]]
  note 4 = split [OF 3 [THEN conjunct2]]
  note 5 = split [OF 4 [THEN conjunct2]]
  from 2 3 4 5 show ?thesis by (auto dest: show_nat_inj)
qed

section \<open>Removing a node and reconnecting\<close>

text \<open>The names and types of a graph are free of dashes, so that no two keys collide.\<close>

definition plain_keys :: "directed_graph \<Rightarrow> bool" where
  "plain_keys g \<longleftrightarrow> (\<forall>n \<in> set (ovals (dg_nodes g)). no_dash (n_name n)) \<and> (\<forall>c \<in> conns_of g. no_dash (g_type c))"

lemma member_name_eq: "is_member g m \<Longrightarrow> is_member g n \<Longrightarrow> n_name m = n_name n \<Longrightarrow> m = n"
  by (simp add: is_member_def)

lemma conns_of_put:
  assumes "dg_wf g" and "plain_keys g" and "is_member g (g_from c)" "is_member g (g_to c)" "no_dash (g_type c)"
  shows "conns_of (put_connection c g) = insert c (conns_of g)"
proof -
  have same: "d = c" if "d \<in> conns_of g" "makeKey d = makeKey c" for d
  proof -
    have mem: "is_member g (g_from d)" "is_member g (g_to d)" using assms(1) that(1) by (auto dest: dg_wf_member)
    have "n_name (g_from d) = n_name (g_from c) \<and> g_type d = g_type c \<and> g_outputIndex d = g_outputIndex c
        \<and> g_inputIndex d = g_inputIndex c \<and> n_name (g_to d) = n_name (g_to c)"
      using assms mem that by (intro makeKey_inj) (auto simp: plain_keys_def is_member_iff)
    with mem assms(3,4) show "d = c" by (metis graph_connection.equality member_name_eq unit.exhaust)
  qed
  have key: "k = makeKey d" if "(k, d) \<in> set (dg_connections g)" for k d
    using assms(1) that by (auto simp: dg_wf_def)
  have "distinct (okeys (dg_connections g))" using assms(1) by (simp add: dg_wf_def)
  then have "conns_of (put_connection c g) =
      snd ` insert (makeKey c, c) {e \<in> set (dg_connections g). fst e \<noteq> makeKey c}"
    by (simp add: conns_of_def put_connection_def set_update_distinct)
  moreover have "d \<in> snd ` insert (makeKey c, c) {e \<in> set (dg_connections g). fst e \<noteq> makeKey c}"
    if "d \<in> conns_of g" for d
  proof -
    from that obtain k where k: "(k, d) \<in> set (dg_connections g)" by (auto simp: conns_of_def)
    with same [OF that] key [OF k] show ?thesis by (cases "k = makeKey c") force+
  qed
  moreover have "snd ` {e \<in> set (dg_connections g). fst e \<noteq> makeKey c} \<subseteq> conns_of g"
    by (auto simp: conns_of_def)
  ultimately show ?thesis by auto
qed

lemma put_all:
  assumes "dg_wf g" and "plain_keys g"
    and "\<forall>c \<in> set cs. is_member g (g_from c) \<and> is_member g (g_to c) \<and> no_dash (g_type c)"
  shows "dg_wf (fold put_connection cs g) \<and> conns_of (fold put_connection cs g) = set cs \<union> conns_of g"
  using assms
proof (induction cs arbitrary: g)
  case (Cons c cs)
  have "plain_keys (put_connection c g)"
    using Cons.prems conns_of_put [of g c] by (auto simp: plain_keys_def) (auto simp: put_connection_def)
  then show ?case
    using Cons.IH [of "put_connection c g"] Cons.prems conns_of_put [of g c] by (auto intro: dg_wf_put)
qed simp

lemma is_member_fold_put [simp]: "is_member (fold put_connection cs g) n = is_member g n"
  by (induction cs arbitrary: g) auto

text \<open>The connections that bridge a node: one per incoming and outgoing connection that is not skipped.\<close>

definition bridge :: "graph_connection \<Rightarrow> graph_connection \<Rightarrow> graph_connection" where
  "bridge i out = i\<lparr>g_to := g_to out, g_inputIndex := g_inputIndex out\<rparr>"

definition bridges :: "(graph_connection \<Rightarrow> bool) \<Rightarrow> directed_graph \<Rightarrow> inode \<Rightarrow> graph_connection set" where
  "bridges skip g n = {bridge i out | i out. i \<in> conns_of g \<and> g_to i = n \<and> \<not> skip i
                                         \<and> out \<in> conns_of g \<and> g_from out = n \<and> \<not> skip out}"

definition no_loop :: "(graph_connection \<Rightarrow> bool) \<Rightarrow> directed_graph \<Rightarrow> inode \<Rightarrow> bool" where
  "no_loop skip g n \<longleftrightarrow> (\<forall>c \<in> conns_of g. g_from c = n \<longrightarrow> g_to c = n \<longrightarrow> skip c)"

lemma set_reconnections:
  "set (reconnections skip ins outs) =
     {bridge i out | i out. i \<in> set ins \<and> \<not> skip i \<and> out \<in> set outs \<and> \<not> skip out}"
proof -
  have "set (List.map_filter f xs) = {y. \<exists>x \<in> set xs. f x = Some y}" for f :: "graph_connection \<Rightarrow> graph_connection option" and xs
    by (induction xs) (auto simp: List.map_filter_simps split: option.splits)
  then show ?thesis by (auto simp: reconnections_def bridge_def split: if_splits)
qed

lemma bypass_rtrancl:
  assumes "u \<noteq> n" and "(n, n) \<notin> E"
    and E': "\<And>x y. (x, y) \<in> E' \<longleftrightarrow> x \<noteq> n \<and> y \<noteq> n \<and> ((x, y) \<in> E \<or> (x, n) \<in> E \<and> (n, y) \<in> E)"
  shows "v \<noteq> n \<Longrightarrow> (u, v) \<in> E'\<^sup>* \<longleftrightarrow> (u, v) \<in> E\<^sup>*"
proof
  assume "(u, v) \<in> E'\<^sup>*"
  then show "(u, v) \<in> E\<^sup>*"
  proof (induction rule: rtrancl_induct)
    case (step y z)
    then have "(y, z) \<in> E\<^sup>*" using E' [of y z] by (auto intro: rtrancl_trans)
    with step.IH show ?case by (rule rtrancl_trans)
  qed simp
next
  assume "v \<noteq> n" and "(u, v) \<in> E\<^sup>*"
  have "(w \<noteq> n \<longrightarrow> (u, w) \<in> E'\<^sup>*) \<and> (w = n \<longrightarrow> (\<exists>p. p \<noteq> n \<and> (u, p) \<in> E'\<^sup>* \<and> (p, n) \<in> E))"
    if "(u, w) \<in> E\<^sup>*" for w
    using that
  proof (induction rule: rtrancl_induct)
    case base
    then show ?case using assms(1) by simp
  next
    case (step y z)
    show ?case
    proof (cases "y = n")
      case True
      with step obtain p where p: "p \<noteq> n" "(u, p) \<in> E'\<^sup>*" "(p, n) \<in> E" by blast
      moreover have "z \<noteq> n" using True step.hyps(2) assms(2) by blast
      ultimately have "(p, z) \<in> E'" using True step.hyps(2) E' [of p z] by blast
      with p \<open>z \<noteq> n\<close> show ?thesis by (simp add: rtrancl.rtrancl_into_rtrancl)
    next
      case False
      with step.IH have "(u, y) \<in> E'\<^sup>*" by simp
      with False step.hyps(2) E' [of y z] show ?thesis by (auto intro: rtrancl.rtrancl_into_rtrancl)
    qed
  qed
  with \<open>(u, v) \<in> E\<^sup>*\<close> \<open>v \<noteq> n\<close> show "(u, v) \<in> E'\<^sup>*" by blast
qed

lemma bridge_sel [simp]: "g_from (bridge i out) = g_from i" "g_to (bridge i out) = g_to out"
  "g_type (bridge i out) = g_type i"
  by (simp_all add: bridge_def)

lemma bridges_ends:
  assumes "dg_wf g" and "plain_keys g" and loop: "no_loop skip g n" and "c \<in> bridges skip g n"
  shows "is_member g (g_from c) \<and> is_member g (g_to c) \<and> no_dash (g_type c) \<and> g_from c \<noteq> n \<and> g_to c \<noteq> n"
proof -
  from assms(4) obtain i out where io: "i \<in> conns_of g" "g_to i = n" "out \<in> conns_of g" "g_from out = n"
    and skip: "\<not> skip i" "\<not> skip out" and c: "c = bridge i out" by (auto simp: bridges_def)
  have "g_from i \<noteq> n" "g_to out \<noteq> n" using loop io skip by (auto simp: no_loop_def)
  then show ?thesis using dg_wf_member [OF assms(1) io(1)] dg_wf_member [OF assms(1) io(3)] io(1) assms(2)
    by (simp add: c plain_keys_def)
qed

lemma removeNodeReconnect_graph:
  assumes "dg_wf g" and "plain_keys g" and "is_member g n" and "no_loop skip g n"
  obtains g' new where "removeNodeReconnect skip n g = Inr (g', new)" "dg_wf g'" "plain_keys g'"
    "\<And>m. is_member g' m \<longleftrightarrow> is_member g m \<and> m \<noteq> n"
    "conns_of g' = bridges skip g n \<union> {c \<in> conns_of g. g_from c \<noteq> n \<and> g_to c \<noteq> n}"
proof -
  define new where "new = reconnections skip (filter (\<lambda>c. g_to c = n) (ovals (dg_connections g)))
    (filter (\<lambda>c. g_from c = n) (ovals (dg_connections g)))"
  define g0 where "g0 = drop_connections_of n g"
  define g1 where "g1 = fold put_connection new g0"
  have new: "set new = bridges skip g n"
    by (auto simp: new_def set_reconnections bridges_def conns_of_def)
  have run: "removeNodeReconnect skip n g = Inr (drop_node n g1, new)"
    using assms(3) by (simp add: removeNodeReconnect_def getDirectParentConnections_def
        getDirectChildConnections_def Let_def new_def g0_def g1_def)
  note ends = bridges_ends [OF assms(1,2,4)]
  have "dg_wf g0" unfolding g0_def using assms(1) by (rule wf_intros)
  moreover have nodes: "dg_nodes g0 = dg_nodes g" by (simp add: g0_def drop_connections_of_def)
  then have "plain_keys g0" using assms(2) by (simp add: plain_keys_def g0_def)
  moreover have "\<forall>c \<in> set new. is_member g0 (g_from c) \<and> is_member g0 (g_to c) \<and> no_dash (g_type c)"
    using ends by (simp add: g0_def new)
  ultimately have g1: "dg_wf g1" "conns_of g1 = bridges skip g n \<union> conns_of g0"
    unfolding g1_def new [symmetric] using put_all [of g0 new] by simp_all
  have mem1: "is_member g1 m = is_member g m" for m by (simp add: g1_def g0_def)
  have away: "g_from c \<noteq> n \<and> g_to c \<noteq> n" if "c \<in> conns_of g1" for c
    using that ends by (auto simp: g1(2) g0_def)
  have wf': "dg_wf (drop_node n g1)" using g1(1) mem1 assms(3) away by (intro dg_wf_drop_node) auto
  have mem': "is_member (drop_node n g1) m \<longleftrightarrow> is_member g m \<and> m \<noteq> n" for m
    using assms(3) mem1 by (simp add: is_member_drop_node)
  have conns': "conns_of (drop_node n g1) = bridges skip g n \<union> {c \<in> conns_of g. g_from c \<noteq> n \<and> g_to c \<noteq> n}"
    by (simp add: g1(2) g0_def)
  have "no_dash (n_name m)" if "m \<in> set (ovals (dg_nodes (drop_node n g1)))" for m
  proof -
    from that have "is_member (drop_node n g1) m" using is_member_iff [OF wf'] by blast
    then have "m \<in> set (ovals (dg_nodes g))" using mem' is_member_iff [OF assms(1)] by blast
    then show ?thesis using assms(2) unfolding plain_keys_def by blast
  qed
  then have "plain_keys (drop_node n g1)"
    using ends assms(2) unfolding plain_keys_def conns' by blast
  from that [OF run wf' this mem' conns'] show ?thesis .
qed

text \<open>The connections of one kind, and what bridging does to them.\<close>

definition kept_edges :: "(graph_connection \<Rightarrow> bool) \<Rightarrow> directed_graph \<Rightarrow> (inode \<times> inode) set" where
  "kept_edges skip g = {(g_from c, g_to c) | c. c \<in> conns_of g \<and> \<not> skip c}"

lemma kept_edges_all: "kept_edges (\<lambda>_. False) g = graph_edges g"
  by (auto simp: kept_edges_def succs_iff)

lemma bridged_edges:
  assumes loop: "no_loop skip g n" and typed: "\<And>i out. skip (bridge i out) = skip i"
    and conns: "conns_of g' = bridges skip g n \<union> {c \<in> conns_of g. g_from c \<noteq> n \<and> g_to c \<noteq> n}"
  shows "(u, v) \<in> kept_edges skip g' \<longleftrightarrow> u \<noteq> n \<and> v \<noteq> n \<and>
    ((u, v) \<in> kept_edges skip g \<or> (u, n) \<in> kept_edges skip g \<and> (n, v) \<in> kept_edges skip g)" (is "?L \<longleftrightarrow> ?R")
proof
  assume ?L
  then obtain c where "c \<in> conns_of g'" "\<not> skip c" "g_from c = u" "g_to c = v" by (auto simp: kept_edges_def)
  then consider i out where "i \<in> conns_of g" "g_to i = n" "\<not> skip i" "out \<in> conns_of g" "g_from out = n" "\<not> skip out"
      "g_from i = u" "g_to out = v"
    | "c \<in> conns_of g" "\<not> skip c" "u \<noteq> n" "v \<noteq> n" "g_from c = u" "g_to c = v"
    by (auto simp: conns bridges_def)
  then show ?R
    by cases (use loop in \<open>auto simp: kept_edges_def no_loop_def\<close>)
next
  assume ?R
  then consider c where "c \<in> conns_of g" "\<not> skip c" "g_from c = u" "g_to c = v" "u \<noteq> n" "v \<noteq> n"
    | i out where "i \<in> conns_of g" "\<not> skip i" "g_from i = u" "g_to i = n"
        "out \<in> conns_of g" "\<not> skip out" "g_from out = n" "g_to out = v"
    by (auto simp: kept_edges_def)
  then show ?L
  proof cases
    case 1
    then show ?thesis by (auto simp: kept_edges_def conns)
  next
    case 2
    then have "bridge i out \<in> conns_of g'" unfolding conns bridges_def by blast
    then have "(g_from (bridge i out), g_to (bridge i out)) \<in> kept_edges skip g'"
      using 2 typed [of i out] unfolding kept_edges_def by blast
    with 2 show ?thesis by simp
  qed
qed



section \<open>Where the class departs from what it promises\<close>

definition knot :: directed_graph where
  "knot = fold put_connection [gconn n_c n_a, gconn n_a n_b, gconn n_a n_c, gconn n_b n_a]
            (addNodes [n_c, n_a, n_b] empty_graph)"

text \<open>
  \<^verbatim>\<open>getStronglyConnectedComponents\<close> takes nodes off its stack only while their low-link
  value equals the id of the component's root.  A low-link value that was computed from an
  intermediate value stays above the root's id, and the component is never reported: here
  the three nodes \<^verbatim>\<open>r\<close>, \<^verbatim>\<open>a\<close>, \<^verbatim>\<open>b\<close> lie on one cycle and no component is found.
\<close>

theorem scc_misses_component:
  "getStronglyConnectedComponents knot = Inr []
   \<and> (n_c, n_b) \<in> (graph_edges knot)\<^sup>* \<and> (n_b, n_c) \<in> (graph_edges knot)\<^sup>*"
proof -
  have edges: "succs knot n_c = [n_a]" "succs knot n_a = [n_b, n_c]" "succs knot n_b = [n_a]"
    by code_simp+
  then have "(n_c, n_a) \<in> graph_edges knot" "(n_a, n_b) \<in> graph_edges knot"
    "(n_a, n_c) \<in> graph_edges knot" "(n_b, n_a) \<in> graph_edges knot" by simp_all
  then have "(n_c, n_b) \<in> (graph_edges knot)\<^sup>*" "(n_b, n_c) \<in> (graph_edges knot)\<^sup>*"
    by (meson r_into_rtrancl rtrancl_trans)+
  moreover have "getStronglyConnectedComponents knot = Inr []" by code_simp
  ultimately show ?thesis by simp
qed

text \<open>On a simple cycle it does find the component.\<close>

lemma scc_finds_cycle:
  "getStronglyConnectedComponents (fold put_connection [gconn n_a n_b, gconn n_b n_a]
     (addNodes [n_a, n_b, n_c] empty_graph)) = Inr [[n_b, n_a], [n_c]]"
  by code_simp

text \<open>
  Two connections of one graph can have the same key, so that adding the second one
  replaces the first: the names are \<^verbatim>\<open>x\<close>, \<^verbatim>\<open>x-main-0-0-y\<close>, \<^verbatim>\<open>y-main-0-0-z\<close> and \<^verbatim>\<open>z\<close>.
\<close>

theorem makeKey_collides:
  "makeKey (gconn (plain_node 1 ''x'' ''t'') (plain_node 2 ''y-main-0-0-z'' ''t''))
   = makeKey (gconn (plain_node 3 ''x-main-0-0-y'' ''t'') (plain_node 4 ''z'' ''t''))"
  by (simp add: makeKey_gconn plain_node_def)

text \<open>
  Removing a node that feeds itself with \<^verbatim>\<open>reconnectConnections\<close> leaves connections to the
  removed node behind: its own loop is bridged by connections that still lead to it.
\<close>

theorem removeNodeReconnect_dangles:
  "map_sum id (\<lambda>(g, new). (okeys (dg_nodes g), map (\<lambda>c. (n_name (g_from c), n_name (g_to c))) (ovals (dg_connections g))))
     (removeNodeReconnect (\<lambda>_. False) n_b
       (fold put_connection [gconn n_a n_b, gconn n_b n_b] (addNodes [n_a, n_b] empty_graph)))
   = Inr ([''a''], [(''a'', ''b''), (''b'', ''b'')])"
  by code_simp

text \<open>A node with outgoing connections of two types cannot be exported.\<close>

theorem toIConnections_two_types:
  "\<exists>m. toIConnections (fold put_connection [gconn n_a n_b, (gconn n_a n_c)\<lparr>g_type := ''ai_tool''\<rparr>]
     (addNodes [n_a, n_b, n_c] empty_graph)) = Inl (TypeError m)"
proof -
  have "toIConnections (fold put_connection [gconn n_a n_b, (gconn n_a n_c)\<lparr>g_type := ''ai_tool''\<rparr>]
     (addNodes [n_a, n_b, n_c] empty_graph)) = Inl (TypeError ''Cannot read properties of undefined'')"
    by code_simp
  then show ?thesis by blast
qed

end
