(* ===== verification/PartialPlan.thy ===== *)
theory PartialPlan
  imports DirectedGraph Workflow
begin

text \<open>
  How a partial execution is planned, from
  \<^verbatim>\<open>packages/core/src/execution-engine/partial-execution-utils\<close>: the graph is freed of disabled
  nodes, a trigger is chosen, the part of the graph between trigger and destination is cut
  out, cycles and stale run data are handled, and a single tool is rewired to a virtual agent.

  Node objects are shared by the graphs, so a write to a node (\<^verbatim>\<open>tool.rewireOutputLogTo\<close>) is
  a write in every graph that holds it; \<^verbatim>\<open>replace_node\<close> performs it on one of them.
\<close>

section \<open>Run data\<close>

definition getNextExecutionIndex :: "run_data \<Rightarrow> nat" where
  "getNextExecutionIndex runData =
     (if runData = [] then 0
      else let previousIndices = List.map_filter td_executionIndex (concat (ovals runData))
           in if previousIndices = [] then 0 else Max (set previousIndices) + 1)"

text \<open>
  A missing output of the requested type is read from \<^verbatim>\<open>undefined\<close> and throws; everything
  else that is missing gives \<^verbatim>\<open>null\<close>.
\<close>

definition getIncomingData ::
    "run_data \<Rightarrow> string \<Rightarrow> int \<Rightarrow> string \<Rightarrow> int \<Rightarrow> items option res" where
  "getIncomingData runData nodeName runIndex connectionType outputIndex =
     (case map_of runData nodeName of None \<Rightarrow> Inr None
      | Some tds \<Rightarrow> (case array_at tds runIndex of None \<Rightarrow> Inr None
        | Some td \<Rightarrow> (case td_data td of None \<Rightarrow> Inr None
          | Some data \<Rightarrow> (case map_of data connectionType of
              None \<Rightarrow> Inl (TypeError ''Cannot read properties of undefined'')
            | Some outputs \<Rightarrow> (case array_at outputs outputIndex of Some (Val d) \<Rightarrow> Inr (Some d) | _ \<Rightarrow> Inr None)))))"

definition getRunIndexLength :: "run_data \<Rightarrow> string \<Rightarrow> nat" where
  "getRunIndexLength runData nodeName = (case map_of runData nodeName of None \<Rightarrow> 0 | Some tds \<Rightarrow> length tds)"

primrec first_run_with_data ::
    "run_data \<Rightarrow> string \<Rightarrow> string \<Rightarrow> int \<Rightarrow> nat list \<Rightarrow> (items \<times> nat) option res" where
  "first_run_with_data runData nodeName ty outputIndex [] = Inr None"
| "first_run_with_data runData nodeName ty outputIndex (runIndex # runs) =
     bind_res (getIncomingData runData nodeName (int runIndex) ty outputIndex) (\<lambda>data.
       case data of
         Some d \<Rightarrow> if length d > 0 then Inr (Some (d, runIndex))
                   else first_run_with_data runData nodeName ty outputIndex runs
       | None \<Rightarrow> first_run_with_data runData nodeName ty outputIndex runs)"

definition getIncomingDataFromAnyRun ::
    "run_data \<Rightarrow> string \<Rightarrow> string \<Rightarrow> int \<Rightarrow> (items \<times> nat) option res" where
  "getIncomingDataFromAnyRun runData nodeName connectionType outputIndex =
     first_run_with_data runData nodeName connectionType outputIndex [0..<getRunIndexLength runData nodeName]"

definition subnodes_of :: "graph_connection list \<Rightarrow> string list" where
  "subnodes_of cs = map (\<lambda>c. n_name (g_from c)) (filter (\<lambda>c. g_type c \<noteq> Main_t) cs)"

definition clean_node :: "directed_graph \<Rightarrow> inode \<Rightarrow> run_data \<Rightarrow> run_data res" where
  "clean_node graph node rd =
     (let rd = AList.delete (n_name node) rd
      in bind_res (getParentConnections graph node) (\<lambda>cs. Inr (fold AList.delete (subnodes_of cs) rd)))"

definition clean_from :: "directed_graph \<Rightarrow> inode \<Rightarrow> run_data \<Rightarrow> run_data res" where
  "clean_from graph nodeToClean rd =
     (let rd = AList.delete (n_name nodeToClean) rd
      in bind_res (getChildren graph nodeToClean) (\<lambda>children.
           fold_res (clean_node graph) (nodeToClean # children) rd))"

definition cleanRunData :: "run_data \<Rightarrow> directed_graph \<Rightarrow> inode list \<Rightarrow> run_data res" where
  "cleanRunData runData graph nodesToClean =
     bind_res (fold_res (clean_from graph) nodesToClean runData) (\<lambda>rd.
       Inr (fold AList.delete (filter (\<lambda>nodeName. \<not> hasNode graph nodeName) (okeys rd)) rd))"

section \<open>The graph of a partial execution\<close>

definition filterDisabledNodes :: "directed_graph \<Rightarrow> directed_graph res" where
  "filterDisabledNodes graph =
     bind_res (clone graph) (\<lambda>filteredGraph.
       fold_res (\<lambda>node g. if is_disabled node
                  then bind_res (removeNodeReconnect (\<lambda>c. g_type c \<noteq> Main_t) node g) (\<lambda>(g', _). Inr g')
                  else Inr g)
         (ovals (getNodes filteredGraph)) filteredGraph)"

definition keep_connection :: "graph_connection \<Rightarrow> directed_graph \<Rightarrow> directed_graph res" where
  "keep_connection c newGraph = addConnection (input_of c) (addNodes [g_from c, g_to c] newGraph)"

lemma branch_measure:
  assumes "is_member graph cur" and "\<not> (\<exists>c \<in> set branch. g_to c = cur)"
  shows "card (set (ovals (dg_nodes graph)) - insert cur (g_to ` set branch))
    < card (set (ovals (dg_nodes graph)) - g_to ` set branch)"
proof (rule psubset_card_mono)
  have "cur \<in> set (ovals (dg_nodes graph))"
    using assms(1) by (auto simp: is_member_def intro: map_of_in_vals simp del: set_map)
  with assms(2) show "set (ovals (dg_nodes graph)) - insert cur (g_to ` set branch)
      \<subset> set (ovals (dg_nodes graph)) - g_to ` set branch" by blast
qed simp

function findSubgraphRecursive ::
    "directed_graph \<Rightarrow> inode \<Rightarrow> inode \<Rightarrow> inode \<Rightarrow> directed_graph \<Rightarrow> graph_connection list \<Rightarrow> directed_graph res" where
  "findSubgraphRecursive graph destinationNode cur trigger newGraph currentBranch =
     (if cur = trigger then fold_res keep_connection currentBranch (addNode trigger newGraph)
      else bind_res (getDirectParentConnections graph cur) (\<lambda>parentConnections.
        if parentConnections = [] then Inr newGraph
        else if cur = destinationNode \<and> (\<exists>c \<in> set currentBranch. g_to c = destinationNode) then Inr newGraph
        else if \<exists>c \<in> set currentBranch. g_to c = cur then fold_res keep_connection currentBranch newGraph
        else fold_res (\<lambda>parentConnection ng.
               if g_type parentConnection \<noteq> Main_t then Inr ng
               else findSubgraphRecursive graph destinationNode (g_from parentConnection) trigger ng
                      (currentBranch @ [parentConnection]))
             parentConnections newGraph))"
  by pat_completeness auto
termination
  by (relation "measure (\<lambda>(graph, dest, cur, trig, ng, branch).
        card (set (ovals (dg_nodes graph)) - g_to ` set branch))")
    (auto simp: getDirectParentConnections_Inr dest: branch_measure)

declare findSubgraphRecursive.simps [simp del]

definition keep_subnodes :: "directed_graph \<Rightarrow> inode \<Rightarrow> directed_graph \<Rightarrow> directed_graph res" where
  "keep_subnodes graph node subgraph =
     bind_res (getParentConnections graph node) (\<lambda>parentConnections.
       fold_res keep_connection (filter (\<lambda>c. g_type c \<noteq> Main_t) parentConnections) subgraph)"

definition findSubgraph :: "directed_graph \<Rightarrow> inode \<Rightarrow> inode \<Rightarrow> directed_graph res" where
  "findSubgraph graph destination trigger =
     bind_res (findSubgraphRecursive graph destination destination trigger empty_graph []) (\<lambda>subgraph.
       fold_res (keep_subnodes graph) (ovals (getNodes subgraph)) subgraph)"

definition handle_cycle ::
    "directed_graph \<Rightarrow> inode \<Rightarrow> inode \<Rightarrow> inode list \<Rightarrow> inode list \<Rightarrow> inode list res" where
  "handle_cycle graph trigger startNode cycle newStartNodes =
     (if startNode \<in> set cycle then
        bind_res (depthFirstSearch graph trigger (\<lambda>node. node \<in> set cycle)) (\<lambda>firstNode.
          case firstNode of
            Some n \<Rightarrow> Inr (sadd n (sdel startNode newStartNodes))
          | None \<Rightarrow> Inl (AssertionError ''the trigger must be connected to the cycle, otherwise the cycle wouldn't be part of the subgraph''))
      else Inr newStartNodes)"

definition handleCycles :: "directed_graph \<Rightarrow> inode list \<Rightarrow> inode \<Rightarrow> inode list res" where
  "handleCycles graph startNodes trigger =
     bind_res (getStronglyConnectedComponents graph) (\<lambda>components.
       let cycles = filter (\<lambda>cycle. length cycle \<ge> 1) components
       in if length cycles = 0 then Inr startNodes
          else fold_res (\<lambda>startNode. fold_res (handle_cycle graph trigger startNode) cycles) startNodes startNodes)"

section \<open>Rewiring a tool\<close>

definition TOOL_EXECUTOR_NODE_NAME :: string where
  "TOOL_EXECUTOR_NODE_NAME = ''PartialExecutionToolExecutor''"

definition subst_node :: "inode \<Rightarrow> inode \<Rightarrow> inode \<Rightarrow> inode" where
  "subst_node old new n = (if n = old then new else n)"

definition replace_node :: "inode \<Rightarrow> inode \<Rightarrow> directed_graph \<Rightarrow> directed_graph" where
  "replace_node old new g =
     \<lparr>dg_nodes = map (\<lambda>(k, n). (k, subst_node old new n)) (dg_nodes g),
      dg_connections = map (\<lambda>(k, c). (k, c\<lparr>g_from := subst_node old new (g_from c),
                                        g_to := subst_node old new (g_to c)\<rparr>)) (dg_connections g)\<rparr>"

text \<open>
  \<^verbatim>\<open>agentRequest\<close> enters through the JSON text of its query and the name of its tool.  The
  result is the graph and the tool as it is afterwards.
\<close>

definition tool_executor :: "nat \<Rightarrow> string \<Rightarrow> string \<Rightarrow> string \<Rightarrow> string \<Rightarrow> inode" where
  "tool_executor fresh_ref query toolName toolNodeName rootId =
     (plain_node fresh_ref TOOL_EXECUTOR_NODE_NAME ''@n8n/n8n-nodes-langchain.toolExecutor'')
       \<lparr>n_disabled := Some False,
        n_parameters := [(''query'', JStr query), (''toolName'', JStr toolName), (''node'', JStr toolNodeName)],
        n_id := rootId, n_typeVersion := 0, n_position := (0, 0)\<rparr>"

definition rewireGraph ::
    "nat \<Rightarrow> string \<Rightarrow> string \<Rightarrow> inode \<Rightarrow> directed_graph \<Rightarrow> (directed_graph \<times> inode) res" where
  "rewireGraph fresh_ref query toolName tool graph =
     bind_res (clone graph) (\<lambda>modifiedGraph.
     bind_res (getChildren modifiedGraph tool) (\<lambda>children.
       if children = [] then Inr (graph, tool)
       else let rootNode = last children
            in bind_res (getDirectParentConnections modifiedGraph rootNode) (\<lambda>parents.
              let allIncomingConnection = filter (\<lambda>cn. g_type cn = Main_t) parents;
                  toolExecutor = tool_executor fresh_ref query toolName (n_name tool) (n_id rootNode);
                  tool' = tool\<lparr>n_rewireOutputLogTo := Some AiTool_t\<rparr>;
                  subst = subst_node tool tool';
                  g = replace_node tool tool' (addNode toolExecutor modifiedGraph)
              in bind_res (addConnection \<lparr>ci_from = tool', ci_to = toolExecutor, ci_type = Some AiTool_t,
                                          ci_outputIndex = None, ci_inputIndex = None\<rparr> g) (\<lambda>g.
                 bind_res (fold_res (\<lambda>cn. addConnection \<lparr>ci_from = subst (g_from cn), ci_to = toolExecutor,
                             ci_type = Some (g_type cn), ci_outputIndex = None, ci_inputIndex = None\<rparr>)
                             allIncomingConnection g) (\<lambda>g.
                   Inr (removeNode (subst rootNode) g, tool'))))))"

section \<open>The trigger of a partial execution\<close>

definition has_trigger_group :: "node_type \<Rightarrow> bool" where
  "has_trigger_group nt \<longleftrightarrow> ''trigger'' \<in> set (nt_group nt)"

definition type_of_node :: "node_types \<Rightarrow> inode \<Rightarrow> node_type res" where
  "type_of_node types n =
     (case types (n_type n) (n_typeVersion n) of
        Some nt \<Rightarrow> Inr nt | None \<Rightarrow> Inl (TypeError ''Cannot read properties of undefined''))"

definition findAllParentTriggers :: "node_types \<Rightarrow> workflow \<Rightarrow> string \<Rightarrow> inode list res" where
  "findAllParentTriggers types w destinationNodeName =
     bind_res (fold_res (\<lambda>name nodes. bind_res (assert_some (getNode w name)) (\<lambda>n. Inr (nodes @ [n])))
                (w_getParentNodes w destinationNodeName (Of_type Main_t) (-1)) []) (\<lambda>parents.
       fold_res (\<lambda>n acc. bind_res (type_of_node types n) (\<lambda>nt. Inr (if has_trigger_group nt then acc @ [n] else acc)))
         parents [])"

definition anyReachableRootHasRunData :: "directed_graph \<Rightarrow> string \<Rightarrow> run_data \<Rightarrow> bool res" where
  "anyReachableRootHasRunData g destinationNodeName runData =
     (case map_of (getNodes g) destinationNodeName of None \<Rightarrow> Inr False
      | Some destinationNode \<Rightarrow>
          bind_res (getParentConnections g destinationNode) (\<lambda>cs.
          bind_res (fold_res (\<lambda>parentNode rootNodes.
                bind_res (getDirectParentConnections g parentNode) (\<lambda>ps.
                  Inr (if \<exists>c \<in> set ps. g_type c = Main_t then rootNodes else sadd parentNode rootNodes)))
              (set_of_list (map g_from cs)) []) (\<lambda>rootNodes.
            Inr (\<exists>n \<in> set rootNodes. has_key runData (n_name n)))))"

text \<open>
  The comparator of the sort answers -1 whenever its first argument is a webhook, also
  against another webhook; as the comment there says, webhooks come first, in reverse
  order, and the others keep their order.
\<close>

definition webhooks_first :: "inode list \<Rightarrow> inode list" where
  "webhooks_first ts = rev (filter (\<lambda>t. ends_with ''webhook'' (n_type t)) ts)
                         @ filter (\<lambda>t. \<not> ends_with ''webhook'' (n_type t)) ts"

definition head_option :: "'a list \<Rightarrow> 'a option" where
  "head_option xs = (case xs of [] \<Rightarrow> None | x # _ \<Rightarrow> Some x)"

definition findTriggerForPartialExecution ::
    "node_types \<Rightarrow> workflow \<Rightarrow> string \<Rightarrow> run_data \<Rightarrow> inode option res" where
  "findTriggerForPartialExecution types w destinationNodeName runData =
     (case getNode w destinationNodeName of None \<Rightarrow> Inr None
      | Some destinationNode \<Rightarrow>
          bind_res (type_of_node types destinationNode) (\<lambda>nt.
            if has_trigger_group nt \<and> \<not> is_disabled destinationNode then Inr (Some destinationNode)
            else bind_res (findAllParentTriggers types w destinationNodeName) (\<lambda>triggers.
              let parentTriggers = filter (\<lambda>t. \<not> is_disabled t) triggers;
                  pinnedTriggers = webhooks_first (filter (\<lambda>t.
                     case w_pinData w of None \<Rightarrow> False | Some pd \<Rightarrow> has_key pd (n_name t)) parentTriggers);
                  webhookTriggers = filter (\<lambda>t. ends_with ''webhook'' (n_type t)) parentTriggers
              in case List.find (\<lambda>t. has_key runData (n_name t)) parentTriggers of
                   Some t \<Rightarrow> Inr (Some t)
                 | None \<Rightarrow>
                     if pinnedTriggers \<noteq> [] then Inr (head_option pinnedTriggers)
                     else if webhookTriggers \<noteq> [] then Inr (head_option webhookTriggers)
                     else Inr (head_option parentTriggers))))"

section \<open>Cloning\<close>

lemma update_append: "k \<notin> fst ` set m \<Longrightarrow> AList.update k v m = m @ [(k, v)]"
  by (induction m) auto

lemma addNodes_append:
  assumes "distinct (map n_name ns)" and "n_name ` set ns \<inter> fst ` set (dg_nodes g) = {}"
  shows "addNodes ns g = g\<lparr>dg_nodes := dg_nodes g @ map (\<lambda>n. (n_name n, n)) ns\<rparr>"
  using assms
proof (induction ns arbitrary: g)
  case (Cons n ns)
  have update: "AList.update (n_name n) n (dg_nodes g) = dg_nodes g @ [(n_name n, n)]"
    using Cons.prems(2) by (simp add: update_append)
  have "n_name ` set ns \<inter> fst ` set (dg_nodes (addNode n g)) = {}"
    using Cons.prems by (auto simp: addNode_def update)
  from Cons.IH [OF _ this] Cons.prems(1) show ?case by (simp add: addNodes_def addNode_def update)
qed (simp add: addNodes_def)

lemma addConnections_append:
  assumes "distinct (map makeKey cs)" and "makeKey ` set cs \<inter> fst ` set (dg_connections g) = {}"
    and "\<forall>c \<in> set cs. is_member g (g_from c) \<and> is_member g (g_to c)"
  shows "addConnections (map input_of cs) g =
    Inr (g\<lparr>dg_connections := dg_connections g @ map (\<lambda>c. (makeKey c, c)) cs\<rparr>)"
  using assms
proof (induction cs arbitrary: g)
  case (Cons c cs)
  have put: "addConnection (input_of c) g = Inr (put_connection c g)"
    using Cons.prems(3) by (cases c) (simp add: addConnection_def input_of_def)
  have conns: "dg_connections (put_connection c g) = dg_connections g @ [(makeKey c, c)]"
    using Cons.prems(2) by (simp add: put_connection_def update_append)
  have "makeKey ` set cs \<inter> fst ` set (dg_connections (put_connection c g)) = {}"
    using Cons.prems(1,2) by (auto simp: conns)
  from Cons.IH [OF _ this] Cons.prems(1,3) show ?case
    by (simp add: addConnections_def put conns) (simp add: put_connection_def)
qed (simp add: addConnections_def)

lemma clone_id:
  assumes "dg_wf g"
  shows "clone g = Inr g"
proof -
  let ?ns = "ovals (dg_nodes g)" and ?cs = "ovals (dg_connections g)"
  let ?g0 = "\<lparr>dg_nodes = dg_nodes g, dg_connections = []\<rparr>"
  have nodes: "map (\<lambda>n. (n_name n, n)) ?ns = dg_nodes g" and names: "map n_name ?ns = okeys (dg_nodes g)"
    and conns: "map (\<lambda>c. (makeKey c, c)) ?cs = dg_connections g" and keys: "map makeKey ?cs = okeys (dg_connections g)"
    using assms by (auto simp: dg_wf_def intro!: map_idI)
  have "distinct (map n_name ?ns)" "distinct (map makeKey ?cs)" unfolding names keys using assms by (simp_all add: dg_wf_def)
  note dis = this
  have 1: "addNodes ?ns empty_graph = ?g0"
    using addNodes_append [OF dis(1), of empty_graph] nodes by (simp add: empty_graph_def)
  have "\<forall>c \<in> set ?cs. is_member ?g0 (g_from c) \<and> is_member ?g0 (g_to c)"
    using dg_wf_member [OF assms] by (simp add: conns_of_def is_member_def)
  from addConnections_append [OF dis(2) _ this] have "addConnections (map input_of ?cs) ?g0 = Inr g"
    using conns by simp
  moreover have "filter (\<lambda>c. True) ?cs = ?cs" by simp
  ultimately show ?thesis unfolding clone_def getConnections_def getNodes_def option.case 1 by simp
qed

section \<open>Filtering disabled nodes\<close>

definition not_main :: "graph_connection \<Rightarrow> bool" where
  "not_main c \<longleftrightarrow> g_type c \<noteq> Main_t"

abbreviation main_graph_edges :: "directed_graph \<Rightarrow> (inode \<times> inode) set" where
  "main_graph_edges g \<equiv> kept_edges not_main g"

lemma kept_edgeI: "c \<in> conns_of g \<Longrightarrow> \<not> skip c \<Longrightarrow> (g_from c, g_to c) \<in> kept_edges skip g"
  by (auto simp: kept_edges_def)

text \<open>The main connections between two disabled nodes.\<close>

definition disabled_edges :: "directed_graph \<Rightarrow> (inode \<times> inode) set" where
  "disabled_edges g = {(u, v) \<in> main_graph_edges g. is_disabled u \<and> is_disabled v}"

definition remove_disabled :: "inode \<Rightarrow> directed_graph \<Rightarrow> directed_graph res" where
  "remove_disabled node g =
     (if is_disabled node then bind_res (removeNodeReconnect not_main node g) (\<lambda>(g', _). Inr g') else Inr g)"

lemma filterDisabledNodes_eq:
  "dg_wf g \<Longrightarrow> filterDisabledNodes g = fold_res remove_disabled (ovals (dg_nodes g)) g"
proof -
  assume "dg_wf g"
  have eq: "not_main = (\<lambda>c. g_type c \<noteq> Main_t)" by (simp add: not_main_def fun_eq_iff)
  show ?thesis
    unfolding filterDisabledNodes_def remove_disabled_def [abs_def] eq by (simp add: clone_id [OF \<open>dg_wf g\<close>] getNodes_def)
qed

lemma remove_disabled_step:
  assumes "dg_wf g" "plain_keys g" "is_member g n" "is_disabled n" "acyclic (disabled_edges g)"
  shows "\<exists>g'. remove_disabled n g = Inr g' \<and> dg_wf g' \<and> plain_keys g' \<and> acyclic (disabled_edges g')
    \<and> (\<forall>m. is_member g' m \<longleftrightarrow> is_member g m \<and> m \<noteq> n)
    \<and> (\<forall>u v. u \<noteq> n \<longrightarrow> v \<noteq> n \<longrightarrow> ((u, v) \<in> (main_graph_edges g')\<^sup>*) = ((u, v) \<in> (main_graph_edges g)\<^sup>*))"
proof -
  have noself: "(n, n) \<notin> main_graph_edges g"
  proof
    assume "(n, n) \<in> main_graph_edges g"
    then have "(n, n) \<in> disabled_edges g" using assms(4) by (simp add: disabled_edges_def)
    with assms(5) show False by (auto simp: acyclic_def)
  qed
  then have loop: "no_loop not_main g n" by (auto simp: no_loop_def kept_edges_def)
  obtain g' new where run: "removeNodeReconnect not_main n g = Inr (g', new)" and wf: "dg_wf g'" "plain_keys g'"
    and mem: "\<And>m. is_member g' m \<longleftrightarrow> is_member g m \<and> m \<noteq> n"
    and conns: "conns_of g' = bridges not_main g n \<union> {c \<in> conns_of g. g_from c \<noteq> n \<and> g_to c \<noteq> n}"
    by (rule removeNodeReconnect_graph [OF assms(1-3) loop]) (rule that)
  have typed: "not_main (bridge i out) = not_main i" for i out by (simp add: not_main_def)
  note edges = bridged_edges [OF loop typed conns]
  have "disabled_edges g' \<subseteq> (disabled_edges g)\<^sup>+"
  proof (rule subrelI)
    fix u v assume "(u, v) \<in> disabled_edges g'"
    then consider "(u, v) \<in> disabled_edges g" | "(u, n) \<in> disabled_edges g" "(n, v) \<in> disabled_edges g"
      using assms(4) edges [of u v] by (auto simp: disabled_edges_def)
    then show "(u, v) \<in> (disabled_edges g)\<^sup>+" by cases (auto intro: trancl_trans)
  qed
  then have "p \<in> ((disabled_edges g)\<^sup>+)\<^sup>+" if "p \<in> (disabled_edges g')\<^sup>+" for p
    using that by (rule trancl_mono [rotated])
  then have "acyclic (disabled_edges g')" using assms(5) by (auto simp: acyclic_def)
  moreover have "((u, v) \<in> (main_graph_edges g')\<^sup>*) = ((u, v) \<in> (main_graph_edges g)\<^sup>*)" if "u \<noteq> n" "v \<noteq> n" for u v
    by (rule bypass_rtrancl [OF that(1) noself edges that(2)])
  moreover have "remove_disabled n g = Inr g'" using run assms(4) by (simp add: remove_disabled_def)
  ultimately show ?thesis using wf mem by blast
qed

lemma remove_disabled_all:
  assumes "dg_wf g" "plain_keys g" "acyclic (disabled_edges g)" "distinct ns" "\<forall>n \<in> set ns. is_member g n"
  shows "\<exists>g'. fold_res remove_disabled ns g = Inr g' \<and> dg_wf g'
    \<and> (\<forall>m. is_member g' m \<longleftrightarrow> is_member g m \<and> \<not> (m \<in> set ns \<and> is_disabled m))
    \<and> (\<forall>u v. \<not> (u \<in> set ns \<and> is_disabled u) \<longrightarrow> \<not> (v \<in> set ns \<and> is_disabled v)
         \<longrightarrow> ((u, v) \<in> (main_graph_edges g')\<^sup>*) = ((u, v) \<in> (main_graph_edges g)\<^sup>*))"
  using assms
proof (induction ns arbitrary: g)
  case (Cons n ns)
  show ?case
  proof (cases "is_disabled n")
    case True
    have n: "is_member g n" using Cons.prems(5) by simp
    from remove_disabled_step [OF Cons.prems(1,2) n True Cons.prems(3)] obtain g1 where
      g1: "remove_disabled n g = Inr g1" "dg_wf g1" "plain_keys g1" "acyclic (disabled_edges g1)"
      and mem1: "\<forall>m. is_member g1 m \<longleftrightarrow> is_member g m \<and> m \<noteq> n"
      and reach1: "\<forall>u v. u \<noteq> n \<longrightarrow> v \<noteq> n \<longrightarrow> ((u, v) \<in> (main_graph_edges g1)\<^sup>*) = ((u, v) \<in> (main_graph_edges g)\<^sup>*)"
      by blast
    have "\<forall>m \<in> set ns. is_member g1 m" using mem1 Cons.prems(4,5) by auto
    from Cons.IH [OF g1(2-4) _ this] Cons.prems(4) obtain g' where
      "fold_res remove_disabled ns g1 = Inr g'" "dg_wf g'"
      "\<forall>m. is_member g' m \<longleftrightarrow> is_member g1 m \<and> \<not> (m \<in> set ns \<and> is_disabled m)"
      and reach': "\<forall>u v. \<not> (u \<in> set ns \<and> is_disabled u) \<longrightarrow> \<not> (v \<in> set ns \<and> is_disabled v)
         \<longrightarrow> ((u, v) \<in> (main_graph_edges g')\<^sup>*) = ((u, v) \<in> (main_graph_edges g1)\<^sup>*)" by auto
    moreover have "((u, v) \<in> (main_graph_edges g')\<^sup>*) = ((u, v) \<in> (main_graph_edges g)\<^sup>*)"
      if "\<not> (u \<in> set (n # ns) \<and> is_disabled u)" "\<not> (v \<in> set (n # ns) \<and> is_disabled v)" for u v
      using reach1 [rule_format, of u v] reach' [rule_format, of u v] that True by auto
    ultimately show ?thesis using g1(1) mem1 True by (intro exI [of _ g']) auto
  next
    case False
    then have "remove_disabled n g = Inr g" by (simp add: remove_disabled_def)
    with Cons.IH [OF Cons.prems(1-3)] Cons.prems(4,5) False show ?thesis by auto
  qed
qed simp

text \<open>
  On a well formed graph whose keys do not collide and whose disabled nodes do not form a
  cycle of main connections among themselves, \<^verbatim>\<open>filterDisabledNodes\<close> succeeds: the new graph
  is well formed, its nodes are exactly the enabled ones, and between two of them there is a
  path of main connections exactly if there was one before.
\<close>

theorem filterDisabledNodes_keeps_paths:
  assumes "dg_wf g" and "plain_keys g" and "acyclic (disabled_edges g)"
  shows "\<exists>g'. filterDisabledNodes g = Inr g' \<and> dg_wf g'
    \<and> (\<forall>m. is_member g' m \<longleftrightarrow> is_member g m \<and> \<not> is_disabled m)
    \<and> (\<forall>u v. is_member g' u \<longrightarrow> is_member g' v \<longrightarrow>
         ((u, v) \<in> (kept_edges not_main g')\<^sup>*) = ((u, v) \<in> (kept_edges not_main g)\<^sup>*))"
proof -
  have "map n_name (ovals (dg_nodes g)) = okeys (dg_nodes g)" using assms(1) by (auto simp: dg_wf_def)
  then have dis: "distinct (ovals (dg_nodes g))" using assms(1) by (metis dg_wf_def distinct_map)
  have all: "\<forall>n \<in> set (ovals (dg_nodes g)). is_member g n" using is_member_iff [OF assms(1)] by blast
  obtain g' where run: "fold_res remove_disabled (ovals (dg_nodes g)) g = Inr g'" "dg_wf g'"
    and mem: "\<forall>m. is_member g' m \<longleftrightarrow> is_member g m \<and> \<not> (m \<in> set (ovals (dg_nodes g)) \<and> is_disabled m)"
    and reach: "\<forall>u v. \<not> (u \<in> set (ovals (dg_nodes g)) \<and> is_disabled u) \<longrightarrow>
      \<not> (v \<in> set (ovals (dg_nodes g)) \<and> is_disabled v)
         \<longrightarrow> ((u, v) \<in> (main_graph_edges g')\<^sup>*) = ((u, v) \<in> (main_graph_edges g)\<^sup>*)"
    using remove_disabled_all [OF assms dis all] by (elim exE conjE) (rule that)
  have mem': "is_member g' m \<longleftrightarrow> is_member g m \<and> \<not> is_disabled m" for m
    using mem [rule_format, of m] is_member_iff [OF assms(1), of m] by metis
  have "((u, v) \<in> (main_graph_edges g')\<^sup>*) = ((u, v) \<in> (main_graph_edges g)\<^sup>*)" if "is_member g' u" "is_member g' v" for u v
    using reach [rule_format, of u v] that mem' by metis
  with run mem' show ?thesis
    unfolding filterDisabledNodes_eq [OF assms(1)] by (intro exI [of _ g']) simp
qed

definition off_node :: inode where
  "off_node = (plain_node 4 ''off'' ''t'')\<lparr>n_disabled := Some True\<rparr>"

definition bypass_graph :: directed_graph where
  "bypass_graph = \<lparr>dg_nodes = [(''a'', n_a), (''off'', off_node), (''b'', n_b)],
     dg_connections = [(''a-main-0-0-off'', gconn n_a off_node), (''off-main-0-0-b'', gconn off_node n_b)]\<rparr>"

lemma off_neq [simp]: "off_node \<noteq> n_a" "off_node \<noteq> n_b" "n_a \<noteq> off_node" "n_b \<noteq> off_node"
  "n_name off_node = ''off''" "n_disabled off_node = Some True" "n_disabled n_a = None" "n_disabled n_b = None"
  by (auto simp: off_node_def n_a_def n_b_def plain_node_def)

lemma bypass_graph_ok: "dg_wf bypass_graph" "plain_keys bypass_graph" "acyclic (disabled_edges bypass_graph)"
proof -
  show "dg_wf bypass_graph" by (simp add: dg_wf_def bypass_graph_def is_member_def makeKey_gconn)
  show "plain_keys bypass_graph" by (simp add: plain_keys_def bypass_graph_def no_dash_def conns_of_def)
  have "disabled_edges bypass_graph = {}"
    by (auto simp: disabled_edges_def kept_edges_def bypass_graph_def conns_of_def)
  then show "acyclic (disabled_edges bypass_graph)" by (simp add: acyclic_def)
qed

lemma filterDisabledNodes_keeps_paths_witness:
  "\<exists>g'. filterDisabledNodes bypass_graph = Inr g' \<and> is_member g' n_a \<and> is_member g' n_b \<and> \<not> is_member g' off_node
     \<and> (n_a, n_b) \<in> (kept_edges not_main g')\<^sup>*"
proof -
  from filterDisabledNodes_keeps_paths [OF bypass_graph_ok] obtain g' where
    g': "filterDisabledNodes bypass_graph = Inr g'"
      "\<forall>m. is_member g' m \<longleftrightarrow> is_member bypass_graph m \<and> \<not> is_disabled m"
      "\<forall>u v. is_member g' u \<longrightarrow> is_member g' v \<longrightarrow>
         ((u, v) \<in> (kept_edges not_main g')\<^sup>*) = ((u, v) \<in> (kept_edges not_main bypass_graph)\<^sup>*)" by blast
  have "is_member bypass_graph n_a" "is_member bypass_graph n_b" by (simp_all add: is_member_def bypass_graph_def)
  then have mem: "is_member g' n_a" "is_member g' n_b" "\<not> is_member g' off_node" using g'(2) by simp_all
  have "(n_a, off_node) \<in> kept_edges not_main bypass_graph" "(off_node, n_b) \<in> kept_edges not_main bypass_graph"
    using kept_edgeI [of "gconn n_a off_node" bypass_graph not_main] kept_edgeI [of "gconn off_node n_b" bypass_graph not_main]
    by (simp_all add: bypass_graph_def conns_of_def not_main_def)
  then have "(n_a, n_b) \<in> (kept_edges not_main bypass_graph)\<^sup>*" by (meson r_into_rtrancl rtrancl_trans)
  with g' mem show ?thesis by blast
qed

text \<open>
  Two disabled nodes that feed each other are not covered: removing the first leaves the
  second with a connection to itself, and removing that one leaves connections to it behind.
\<close>

lemma filterDisabledNodes_dangles:
  "map_sum id (\<lambda>g. (okeys (dg_nodes g), map (\<lambda>c. (n_name (g_from c), n_name (g_to c))) (ovals (dg_connections g))))
     (filterDisabledNodes (fold put_connection
        [gconn n_a off_node, gconn off_node (n_b\<lparr>n_disabled := Some True\<rparr>), gconn (n_b\<lparr>n_disabled := Some True\<rparr>) off_node]
        (addNodes [n_a, off_node, n_b\<lparr>n_disabled := Some True\<rparr>] empty_graph)))
   = Inr ([''a''], [(''a'', ''b''), (''b'', ''b'')])"
  by code_simp

section \<open>The subgraph between trigger and destination\<close>

text \<open>\<^verbatim>\<open>sub_of g s\<close>: a well formed graph made of nodes and connections of \<^verbatim>\<open>g\<close>.\<close>

definition sub_of :: "directed_graph \<Rightarrow> directed_graph \<Rightarrow> bool" where
  "sub_of g s \<longleftrightarrow> dg_wf s \<and> conns_of s \<subseteq> conns_of g \<and> (\<forall>n. is_member s n \<longrightarrow> is_member g n)"

definition graph_le :: "directed_graph \<Rightarrow> directed_graph \<Rightarrow> bool" where
  "graph_le s t \<longleftrightarrow> conns_of s \<subseteq> conns_of t \<and> (\<forall>n. is_member s n \<longrightarrow> is_member t n)"

lemma graph_le_refl: "graph_le s s"
  by (simp add: graph_le_def)

lemma graph_le_trans: "graph_le s t \<Longrightarrow> graph_le t u \<Longrightarrow> graph_le s u"
  by (auto simp: graph_le_def)

lemma loop_total:
  assumes "P s" and "\<And>x s. x \<in> set xs \<Longrightarrow> P s \<Longrightarrow> \<exists>s'. f x s = Inr s' \<and> P s' \<and> graph_le s s'"
  shows "\<exists>s'. fold_res f xs s = Inr s' \<and> P s' \<and> graph_le s s'
    \<and> (\<forall>x \<in> set xs. \<exists>s1 s2. P s1 \<and> graph_le s s1 \<and> f x s1 = Inr s2 \<and> graph_le s2 s')"
  by (rule fold_res_total) (use assms graph_le_refl graph_le_trans in blast)+

lemma update_same: "map_of m k = Some v \<Longrightarrow> AList.update k v m = m"
  by (induction m) auto

lemma sub_of_empty: "sub_of g empty_graph"
  by (simp add: sub_of_def dg_wf_empty) (simp add: empty_graph_def conns_of_def is_member_def)

lemma sub_of_addNode:
  assumes "sub_of g s" and n: "is_member g n"
  shows "sub_of g (addNode n s) \<and> graph_le s (addNode n s) \<and> is_member (addNode n s) n"
proof -
  have same: "m = n" if "is_member s m" "n_name m = n_name n" for m
    using assms that member_name_eq [of g m n] by (auto simp: sub_of_def)
  have stored: "map_of (dg_nodes s) (n_name n) = None \<or> map_of (dg_nodes s) (n_name n) = Some n"
  proof (cases "map_of (dg_nodes s) (n_name n)")
    case (Some m)
    have "dg_wf s" using assms(1) by (simp add: sub_of_def)
    from dg_wf_node [OF this Some] same [of m] Some show ?thesis by metis
  qed simp
  then have mem: "is_member (addNode n s) m \<longleftrightarrow> is_member s m \<or> m = n" for m
    using same [of m] by (auto simp: is_member_def addNode_def)
  have conns: "conns_of (addNode n s) = conns_of s" "dg_connections (addNode n s) = dg_connections s"
    by (simp_all add: conns_of_def addNode_def)
  have "dg_wf (addNode n s)"
  proof (cases "map_of (dg_nodes s) (n_name n) = None")
    case True
    then show ?thesis using assms(1) by (intro dg_wf_addNode) (simp_all add: sub_of_def hasNode_def has_key_def)
  next
    case False
    with stored have "addNode n s = s" by (simp add: addNode_def update_same)
    then show ?thesis using assms(1) by (simp add: sub_of_def)
  qed
  with assms mem show ?thesis by (auto simp: sub_of_def graph_le_def conns)
qed

lemma sub_of_put:
  assumes "dg_wf g" "sub_of g s" "c \<in> conns_of g" "is_member s (g_from c)" "is_member s (g_to c)"
  shows "sub_of g (put_connection c s) \<and> conns_of (put_connection c s) = insert c (conns_of s)"
proof -
  have wf: "dg_wf s" and sub: "conns_of s \<subseteq> conns_of g" using assms(2) by (simp_all add: sub_of_def)
  have same: "d = c" if "d \<in> conns_of s" "makeKey d = makeKey c" for d
  proof -
    from that(1) sub have "d \<in> conns_of g" by auto
    from dg_wf_key [OF assms(1) this] dg_wf_key [OF assms(1,3)] that(2) show ?thesis by (metis option.inject)
  qed
  have "distinct (okeys (dg_connections s))" using wf by (simp add: dg_wf_def)
  then have set: "set (dg_connections (put_connection c s)) =
      insert (makeKey c, c) {e \<in> set (dg_connections s). fst e \<noteq> makeKey c}"
    by (simp add: put_connection_def set_update_distinct)
  have image: "conns_of (put_connection c s) = insert c (snd ` {e \<in> set (dg_connections s). fst e \<noteq> makeKey c})"
    unfolding conns_of_def set_map set by simp
  have "conns_of (put_connection c s) = insert c (conns_of s)"
  proof
    show "conns_of (put_connection c s) \<subseteq> insert c (conns_of s)"
      unfolding image by (rule insert_mono) (auto simp: conns_of_def)
    show "insert c (conns_of s) \<subseteq> conns_of (put_connection c s)"
    proof
      fix d assume d: "d \<in> insert c (conns_of s)"
      show "d \<in> conns_of (put_connection c s)"
      proof (cases "d = c")
        case False
        with d have "d \<in> conns_of s" by simp
        then have "(makeKey d, d) \<in> set (dg_connections s)" by (rule map_of_SomeD [OF dg_wf_key [OF wf]])
        moreover have "makeKey d \<noteq> makeKey c" using same [OF \<open>d \<in> conns_of s\<close>] False by blast
        ultimately show ?thesis unfolding image by (intro insertI2 rev_image_eqI [of "(makeKey d, d)"]) simp_all
      qed (simp add: image)
    qed
  qed
  moreover have "dg_wf (put_connection c s)" using wf assms(4,5) by (rule dg_wf_put)
  ultimately show ?thesis using assms(2,3) by (auto simp: sub_of_def)
qed

lemma keep_connection_ok:
  assumes wf: "dg_wf g" and s: "sub_of g s" and c: "c \<in> conns_of g"
  shows "\<exists>s'. keep_connection c s = Inr s' \<and> sub_of g s' \<and> graph_le s s' \<and> c \<in> conns_of s'"
proof -
  have ends: "is_member g (g_from c)" "is_member g (g_to c)" using dg_wf_member [OF wf c] by auto
  define s1 where "s1 = addNode (g_from c) s"
  define s2 where "s2 = addNode (g_to c) s1"
  have 1: "sub_of g s1" "graph_le s s1" "is_member s1 (g_from c)"
    using sub_of_addNode [OF s ends(1)] by (simp_all add: s1_def)
  have 2: "sub_of g s2" "graph_le s1 s2" "is_member s2 (g_to c)"
    using sub_of_addNode [OF 1(1) ends(2)] by (simp_all add: s2_def)
  have "is_member s2 (g_from c)" using 1(3) 2(2) by (simp add: graph_le_def)
  note put = sub_of_put [OF wf 2(1) c this 2(3)]
  have "keep_connection c s = Inr (put_connection c s2)"
    using \<open>is_member s2 (g_from c)\<close> 2(3)
    by (cases c) (simp add: keep_connection_def addNodes_def addConnection_def input_of_def s2_def s1_def)
  moreover have "graph_le s (put_connection c s2)"
    using graph_le_trans [OF 1(2) 2(2)] put by (auto simp: graph_le_def)
  ultimately show ?thesis using put by auto
qed

lemma keep_connections_ok:
  assumes "dg_wf g" and "sub_of g s" and "\<forall>c \<in> set cs. c \<in> conns_of g"
  shows "\<exists>s'. fold_res keep_connection cs s = Inr s' \<and> sub_of g s' \<and> graph_le s s' \<and> set cs \<subseteq> conns_of s'"
proof -
  have "\<exists>s'. keep_connection c s = Inr s' \<and> sub_of g s' \<and> graph_le s s'" if "c \<in> set cs" "sub_of g s" for c s
    using keep_connection_ok [OF assms(1) that(2)] that(1) assms(3) by blast
  from loop_total [where P = "sub_of g" and f = keep_connection and xs = cs, OF assms(2) this] obtain s' where
    s': "fold_res keep_connection cs s = Inr s'" "sub_of g s'" "graph_le s s'"
    and each: "\<forall>c \<in> set cs. \<exists>s1 s2. sub_of g s1 \<and> graph_le s s1 \<and> keep_connection c s1 = Inr s2 \<and> graph_le s2 s'" by auto
  have "c \<in> conns_of s'" if c: "c \<in> set cs" for c
  proof -
    from each c obtain s1 s2 where "sub_of g s1" "keep_connection c s1 = Inr s2" "graph_le s2 s'" by blast
    with keep_connection_ok [OF assms(1), of s1 c] c assms(3) show ?thesis by (auto simp: graph_le_def)
  qed
  with s' show ?thesis by auto
qed

text \<open>A path of main connections of the graph, as the list of its connections.\<close>

fun main_path :: "directed_graph \<Rightarrow> inode \<Rightarrow> graph_connection list \<Rightarrow> inode \<Rightarrow> bool" where
  "main_path g u [] v = (u = v)"
| "main_path g u (c # cs) v = (c \<in> conns_of g \<and> g_type c = Main_t \<and> g_from c = u \<and> main_path g (g_to c) cs v)"

lemma main_path_snoc:
  "main_path g u (cs @ [c]) v \<longleftrightarrow> main_path g u cs (g_from c) \<and> c \<in> conns_of g \<and> g_type c = Main_t \<and> g_to c = v"
  by (induction cs arbitrary: u) auto

lemma findSubgraphRecursive_total:
  assumes "dg_wf g" and "is_member g cur" and "\<forall>c \<in> set branch. c \<in> conns_of g" and "sub_of g ng"
  shows "\<exists>s. findSubgraphRecursive g dest cur trig ng branch = Inr s \<and> sub_of g s \<and> graph_le ng s"
  using assms
proof (induction g dest cur trig ng branch rule: findSubgraphRecursive.induct)
  case (1 g dest cur trig ng branch)
  define ps where "ps = filter (\<lambda>c. g_to c = cur) (ovals (dg_connections g))"
  have ps: "getDirectParentConnections g cur = Inr ps"
    using 1(3) by (simp add: getDirectParentConnections_def ps_def)
  have in_g: "p \<in> conns_of g" if "p \<in> set ps" for p using that by (auto simp: ps_def conns_of_def)
  note unfold = findSubgraphRecursive.simps [of g dest cur trig ng branch]
  consider "cur = trig" | "cur \<noteq> trig" "ps = [] \<or> cur = dest \<and> (\<exists>c \<in> set branch. g_to c = dest)"
    | "cur \<noteq> trig" "ps \<noteq> []" "\<not> (cur = dest \<and> (\<exists>c \<in> set branch. g_to c = dest))" "\<exists>c \<in> set branch. g_to c = cur"
    | (rec) "cur \<noteq> trig" "ps \<noteq> []" "\<not> (cur = dest \<and> (\<exists>c \<in> set branch. g_to c = dest))" "\<not> (\<exists>c \<in> set branch. g_to c = cur)"
    by blast
  then show ?case
  proof cases
    case 1
    have add: "sub_of g (addNode trig ng)" "graph_le ng (addNode trig ng)"
      using sub_of_addNode [OF \<open>sub_of g ng\<close>, of trig] \<open>is_member g cur\<close> 1 by simp_all
    from keep_connections_ok [OF \<open>dg_wf g\<close> add(1) \<open>\<forall>c \<in> set branch. c \<in> conns_of g\<close>] 1 add(2)
    show ?thesis unfolding unfold by (auto intro: graph_le_trans)
  next
    case 2
    then show ?thesis unfolding unfold using \<open>sub_of g ng\<close> by (auto simp: ps graph_le_refl)
  next
    case 3
    with keep_connections_ok [OF \<open>dg_wf g\<close> \<open>sub_of g ng\<close> \<open>\<forall>c \<in> set branch. c \<in> conns_of g\<close>]
    show ?thesis unfolding unfold by (auto simp: ps)
  next
    case rec
    define f where "f = (\<lambda>p ng. if g_type p \<noteq> Main_t then Inr ng
      else findSubgraphRecursive g dest (g_from p) trig ng (branch @ [p]))"
    have step: "\<exists>s'. f p s = Inr s' \<and> sub_of g s' \<and> graph_le s s'" if "p \<in> set ps" "sub_of g s" for p s
    proof (cases "g_type p = Main_t")
      case True
      have "is_member g (g_from p)" "\<forall>c \<in> set (branch @ [p]). c \<in> conns_of g"
        using dg_wf_member [OF \<open>dg_wf g\<close> in_g [OF that(1)]] in_g [OF that(1)] \<open>\<forall>c \<in> set branch. c \<in> conns_of g\<close> by auto
      with 1(1) [OF rec(1) ps rec(2,3,4) that(1), of s] True that(2) \<open>dg_wf g\<close> show ?thesis by (simp add: f_def)
    qed (use that in \<open>auto simp: f_def graph_le_refl\<close>)
    from loop_total [where P = "sub_of g" and f = f and xs = ps, OF \<open>sub_of g ng\<close> step] obtain s where
      "fold_res f ps ng = Inr s" "sub_of g s" "graph_le ng s" by blast
    then show ?thesis unfolding unfold using rec by (auto simp: ps f_def)
  qed
qed

lemma findSubgraphRecursive_complete:
  assumes wf: "dg_wf g" and "is_member g cur" and "\<forall>c \<in> set branch. c \<in> conns_of g" and "sub_of g ng"
    and "main_path g trig cs cur" and "trig \<notin> g_to ` set cs" and "distinct (map g_to cs)"
    and "g_to ` set cs \<inter> g_to ` set branch = {}"
    and "findSubgraphRecursive g dest cur trig ng branch = Inr s"
  shows "set cs \<union> set branch \<subseteq> conns_of s"
  using assms(2-)
proof (induction cs arbitrary: cur branch ng s rule: rev_induct)
  case Nil
  then have "cur = trig" by simp
  have add: "sub_of g (addNode trig ng)"
    using sub_of_addNode [OF Nil(3), of trig] Nil(1) \<open>cur = trig\<close> by simp
  have "fold_res keep_connection branch (addNode trig ng) = Inr s"
    using Nil(8) \<open>cur = trig\<close> unfolding findSubgraphRecursive.simps [of g dest cur trig ng branch] by simp
  with keep_connections_ok [OF wf add Nil(2)] show ?case by auto
next
  case (snoc pc cs)
  from snoc.prems(4) have path: "main_path g trig cs (g_from pc)" "pc \<in> conns_of g" "g_type pc = Main_t" "g_to pc = cur"
    by (simp_all add: main_path_snoc)
  define ps where "ps = filter (\<lambda>c. g_to c = cur) (ovals (dg_connections g))"
  have ps: "getDirectParentConnections g cur = Inr ps"
    using snoc.prems(1) by (simp add: getDirectParentConnections_def ps_def)
  have pc: "pc \<in> set ps" using path(2,4) by (simp add: ps_def conns_of_def)
  have "cur \<noteq> trig" and cur: "\<not> (\<exists>c \<in> set branch. g_to c = cur)" and fresh: "cur \<notin> g_to ` set cs"
    using snoc.prems(5,6,7) path(4) by (auto simp: image_iff)
  define f where "f = (\<lambda>p ng. if g_type p \<noteq> Main_t then Inr ng
      else findSubgraphRecursive g dest (g_from p) trig ng (branch @ [p]))"
  have step: "\<exists>s'. f p s = Inr s' \<and> sub_of g s' \<and> graph_le s s'" if "p \<in> set ps" "sub_of g s" for p s
  proof -
    have p: "p \<in> conns_of g" using that(1) by (auto simp: ps_def conns_of_def)
    then have "is_member g (g_from p)" "\<forall>c \<in> set (branch @ [p]). c \<in> conns_of g"
      using dg_wf_member [OF wf p] snoc.prems(2) by auto
    from findSubgraphRecursive_total [OF wf this that(2), of dest trig] that(2) show ?thesis
      by (auto simp: f_def graph_le_refl)
  qed
  from loop_total [where P = "sub_of g" and f = f and xs = ps, OF snoc.prems(3) step] obtain s' where
    s': "fold_res f ps ng = Inr s'"
    and each: "\<forall>p \<in> set ps. \<exists>s1 s2. sub_of g s1 \<and> graph_le ng s1 \<and> f p s1 = Inr s2 \<and> graph_le s2 s'" by blast
  have "(cur = trig) = False" "(ps = []) = False" "(cur = dest \<and> (\<exists>c \<in> set branch. g_to c = dest)) = False"
    "(\<exists>c \<in> set branch. g_to c = cur) = False" using \<open>cur \<noteq> trig\<close> pc cur by auto
  then have "fold_res f ps ng = Inr s"
    using snoc.prems(8) unfolding findSubgraphRecursive.simps [of g dest cur trig ng branch] ps bind_res.simps f_def
    by (simp only: if_False)
  with s' have "s = s'" by simp
  from each pc obtain s1 s2 where s2: "sub_of g s1" "f pc s1 = Inr s2" "graph_le s2 s'" by blast
  have 1: "is_member g (g_from pc)" "\<forall>c \<in> set (branch @ [pc]). c \<in> conns_of g"
    using dg_wf_member [OF wf path(2)] snoc.prems(2) path(2) by auto
  have 2: "trig \<notin> g_to ` set cs" "distinct (map g_to cs)" "g_to ` set cs \<inter> g_to ` set (branch @ [pc]) = {}"
    using snoc.prems(5,6,7) fresh path(4) by auto
  have "findSubgraphRecursive g dest (g_from pc) trig s1 (branch @ [pc]) = Inr s2"
    using s2(2) path(3) by (simp add: f_def)
  from snoc.IH [OF 1 s2(1) path(1) 2 this] have "set cs \<union> set (branch @ [pc]) \<subseteq> conns_of s2" .
  with s2(3) \<open>s = s'\<close> show ?case by (auto simp: graph_le_def)
qed

definition leads_to_node :: "directed_graph \<Rightarrow> graph_connection \<Rightarrow> inode \<Rightarrow> bool" where
  "leads_to_node g c n \<longleftrightarrow> (g_to c, n) \<in> (graph_edges g)\<^sup>*"

lemma parents_of_node:
  assumes "dg_wf g" and "is_member g n"
  shows "\<exists>r. getParentConnections g n = Inr r \<and> set r = {c \<in> conns_of g. leads_to_node g c n}"
  unfolding leads_to_node_def using getParentConnections_set [OF assms] by blast

lemma keep_subnodes_ok:
  assumes wf: "dg_wf g" and n: "is_member g n" and s: "sub_of g s"
  shows "\<exists>s'. keep_subnodes g n s = Inr s' \<and> sub_of g s' \<and> graph_le s s'
    \<and> {c \<in> conns_of g. g_type c \<noteq> Main_t \<and> leads_to_node g c n} \<subseteq> conns_of s'"
proof -
  from parents_of_node [OF wf n] obtain r where r: "getParentConnections g n = Inr r"
    "set r = {c \<in> conns_of g. leads_to_node g c n}" by blast
  have "\<forall>c \<in> set (filter (\<lambda>c. g_type c \<noteq> Main_t) r). c \<in> conns_of g" using r(2) by auto
  from keep_connections_ok [OF wf s this] r show ?thesis by (auto simp: keep_subnodes_def)
qed

text \<open>
  C36. Between a trigger and a destination of a well formed graph \<^verbatim>\<open>findSubgraph\<close> succeeds.
  The result is a well formed part of the graph, it holds every connection of every path of
  main connections from the trigger to the destination that visits no node twice, and for
  each of the nodes on such a path every connection of another type that leads to it.
\<close>

theorem findSubgraph_complete:
  assumes wf: "dg_wf g" and "is_member g dest" and "is_member g trig"
  shows "\<exists>s. findSubgraph g dest trig = Inr s \<and> dg_wf s \<and> conns_of s \<subseteq> conns_of g
    \<and> (\<forall>n. is_member s n \<longrightarrow> is_member g n)
    \<and> (\<forall>cs c. main_path g trig cs dest \<longrightarrow> trig \<notin> g_to ` set cs \<longrightarrow> distinct (map g_to cs) \<longrightarrow> c \<in> set cs \<longrightarrow>
         c \<in> conns_of s \<and>
         (\<forall>d \<in> conns_of g. g_type d \<noteq> Main_t \<longrightarrow> leads_to_node g d (g_to c) \<longrightarrow> d \<in> conns_of s))"
proof -
  from findSubgraphRecursive_total [OF wf assms(2) _ sub_of_empty, of "[]" dest trig] obtain s0 where
    s0: "findSubgraphRecursive g dest dest trig empty_graph [] = Inr s0" "sub_of g s0" by auto
  have mem0: "is_member g n" if "n \<in> set (ovals (dg_nodes s0))" for n
    using that s0(2) is_member_iff [of s0 n] by (simp add: sub_of_def)
  have step: "\<exists>s'. keep_subnodes g n s = Inr s' \<and> sub_of g s' \<and> graph_le s s'"
    if "n \<in> set (ovals (dg_nodes s0))" "sub_of g s" for n s
    using keep_subnodes_ok [OF wf mem0 [OF that(1)] that(2)] by blast
  from loop_total [where P = "sub_of g" and f = "keep_subnodes g" and xs = "ovals (dg_nodes s0)", OF s0(2) step]
  obtain s where s: "fold_res (keep_subnodes g) (ovals (dg_nodes s0)) s0 = Inr s" "sub_of g s" "graph_le s0 s"
    and each: "\<forall>n \<in> set (ovals (dg_nodes s0)). \<exists>s1 s2. sub_of g s1 \<and> graph_le s0 s1 \<and> keep_subnodes g n s1 = Inr s2 \<and> graph_le s2 s"
    by blast
  have run: "findSubgraph g dest trig = Inr s" using s0(1) s(1) by (simp add: findSubgraph_def getNodes_def)
  have on_path: "c \<in> conns_of s0"
    if "main_path g trig cs dest" "trig \<notin> g_to ` set cs" "distinct (map g_to cs)" "c \<in> set cs" for cs c
    using findSubgraphRecursive_complete [OF wf assms(2) _ sub_of_empty that(1,2,3) _ s0(1)] that(4) by auto
  have sub: "d \<in> conns_of s" if "c \<in> conns_of s0" "d \<in> conns_of g" "g_type d \<noteq> Main_t" "leads_to_node g d (g_to c)" for c d
  proof -
    have "is_member s0 (g_to c)" using s0(2) that(1) dg_wf_member by (auto simp: sub_of_def)
    then have "g_to c \<in> set (ovals (dg_nodes s0))" using s0(2) is_member_iff [of s0] unfolding sub_of_def by blast
    with each obtain s1 s2 where "sub_of g s1" "keep_subnodes g (g_to c) s1 = Inr s2" "graph_le s2 s" by blast
    with keep_subnodes_ok [OF wf mem0 [OF \<open>g_to c \<in> set _\<close>] \<open>sub_of g s1\<close>] that(2-4) show ?thesis
      by (auto simp: graph_le_def)
  qed
  have "c \<in> conns_of s" if "c \<in> conns_of s0" for c using that s(3) by (auto simp: graph_le_def)
  with run s(2) on_path sub show ?thesis unfolding sub_of_def by blast
qed

lemma findSubgraph_complete_witness:
  "\<exists>s. findSubgraph chain_graph n_c n_a = Inr s \<and> gconn n_a n_b \<in> conns_of s \<and> gconn n_b n_c \<in> conns_of s"
proof -
  from findSubgraph_complete [OF chain_graph_wf, of n_c n_a] obtain s where s: "findSubgraph chain_graph n_c n_a = Inr s"
    and all: "\<forall>cs c. main_path chain_graph n_a cs n_c \<longrightarrow> n_a \<notin> g_to ` set cs \<longrightarrow> distinct (map g_to cs) \<longrightarrow> c \<in> set cs \<longrightarrow>
         c \<in> conns_of s" by auto
  have "main_path chain_graph n_a [gconn n_a n_b, gconn n_b n_c] n_c"
    by (simp add: chain_graph_def conns_of_def)
  with s all [rule_format, of "[gconn n_a n_b, gconn n_b n_c]"] show ?thesis by auto
qed

section \<open>Cleaning run data\<close>

text \<open>A loop whose body deletes keys.\<close>

lemma fold_res_deletes:
  assumes "\<And>x rd. x \<in> set xs \<Longrightarrow> \<exists>rd'. f x rd = Inr rd' \<and> (\<forall>k. map_of rd' k = (if D x k then None else map_of rd k))"
  shows "\<exists>rd'. fold_res f xs rd = Inr rd' \<and> (\<forall>k. map_of rd' k = (if \<exists>x \<in> set xs. D x k then None else map_of rd k))"
  using assms
proof (induction xs arbitrary: rd)
  case (Cons x xs)
  from Cons.prems [of x rd] obtain rd1 where rd1: "f x rd = Inr rd1"
    "\<And>k. map_of rd1 k = (if D x k then None else map_of rd k)" by auto
  from Cons.IH [of rd1] Cons.prems obtain rd' where "fold_res f xs rd1 = Inr rd'"
    "\<And>k. map_of rd' k = (if \<exists>x \<in> set xs. D x k then None else map_of rd1 k)" by auto
  with rd1 show ?case by auto
qed simp

definition clean_key :: "directed_graph \<Rightarrow> inode \<Rightarrow> string \<Rightarrow> bool" where
  "clean_key g m k \<longleftrightarrow> k = n_name m \<or>
     (\<exists>c \<in> conns_of g. g_type c \<noteq> Main_t \<and> leads_to_node g c m \<and> k = n_name (g_from c))"

lemma clean_node_deletes:
  assumes "dg_wf g" and "is_member g m"
  shows "\<exists>rd'. clean_node g m rd = Inr rd' \<and> (\<forall>k. map_of rd' k = (if clean_key g m k then None else map_of rd k))"
proof -
  from parents_of_node [OF assms] obtain r where r: "getParentConnections g m = Inr r"
    "set r = {c \<in> conns_of g. leads_to_node g c m}" by blast
  have "k \<in> set (subnodes_of r) \<longleftrightarrow>
      (\<exists>c \<in> conns_of g. g_type c \<noteq> Main_t \<and> leads_to_node g c m \<and> k = n_name (g_from c))" for k
    using r(2) by (auto simp: subnodes_of_def)
  then show ?thesis using r(1) by (auto simp: clean_node_def Let_def omap.get_del_all clean_key_def)
qed

definition stale_key :: "directed_graph \<Rightarrow> inode \<Rightarrow> string \<Rightarrow> bool" where
  "stale_key g n k \<longleftrightarrow> (\<exists>m. (m = n \<or> (n, m) \<in> (graph_edges g)\<^sup>+) \<and> clean_key g m k)"

lemma clean_from_deletes:
  assumes "dg_wf g" and "is_member g n"
  shows "\<exists>rd'. clean_from g n rd = Inr rd' \<and> (\<forall>k. map_of rd' k = (if stale_key g n k then None else map_of rd k))"
proof -
  from getChildren_set [OF assms] obtain cs where cs: "getChildren g n = Inr cs" "set cs = {v. (n, v) \<in> (graph_edges g)\<^sup>+}"
    by blast
  have mem: "is_member g m" if "m \<in> set (n # cs)" for m
    using that assms cs(2) dg_wf_reach [of n m g] by auto
  from fold_res_deletes [of "n # cs" "clean_node g" "clean_key g", OF clean_node_deletes [OF assms(1) mem]] obtain rd' where
    rd': "fold_res (clean_node g) (n # cs) (AList.delete (n_name n) rd) = Inr rd'"
    "\<And>k. map_of rd' k = (if \<exists>m \<in> set (n # cs). clean_key g m k then None else map_of (AList.delete (n_name n) rd) k)"
    by blast
  have "(\<exists>m \<in> set (n # cs). clean_key g m k) \<longleftrightarrow> stale_key g n k" for k
    using cs(2) by (auto simp: stale_key_def)
  moreover have "stale_key g n (n_name n)" by (auto simp: stale_key_def clean_key_def)
  ultimately have "map_of rd' k = (if stale_key g n k then None else map_of rd k)" for k
    using rd'(2) [of k] by auto
  with rd'(1) cs(1) show ?thesis by (auto simp: clean_from_def Let_def)
qed


definition some_task :: task_data where
  "some_task = \<lparr>td_startTime = 0, td_executionIndex = Some 0, td_source = [], td_hints = [], td_executionTime = 0,
     td_executionStatus = Some Success, td_data = Some [(Main_t, [Val [empty_item]])], td_inputOverride = None,
     td_error = None, td_metadata = None, td_usedDynamicCredentials = None, td_attemptedDynamicCredentials = None\<rparr>"


section \<open>The choice of the trigger\<close>

lemma fold_res_lookup:
  assumes "fold_res (\<lambda>name nodes. bind_res (assert_some (getNode w name)) (\<lambda>n. Inr (nodes @ [n]))) names acc = Inr r"
  shows "set r = set acc \<union> {n. \<exists>name \<in> set names. getNode w name = Some n}"
  using assms
proof (induction names arbitrary: acc)
  case (Cons name names)
  then obtain n where n: "getNode w name = Some n"
    by (cases "getNode w name") (auto simp: assert_some_def)
  with Cons.prems have "fold_res (\<lambda>name nodes. bind_res (assert_some (getNode w name)) (\<lambda>n. Inr (nodes @ [n])))
      names (acc @ [n]) = Inr r" by (simp add: assert_some_def)
  from Cons.IH [OF this] n show ?case by auto
qed simp

definition is_trigger_of :: "node_types \<Rightarrow> inode \<Rightarrow> bool" where
  "is_trigger_of types n \<longleftrightarrow> (\<exists>nt. types (n_type n) (n_typeVersion n) = Some nt \<and> has_trigger_group nt)"

lemma fold_res_triggers:
  assumes "fold_res (\<lambda>n acc. bind_res (type_of_node types n) (\<lambda>nt. Inr (if has_trigger_group nt then acc @ [n] else acc)))
    ns acc = Inr r"
  shows "set r = set acc \<union> {n \<in> set ns. is_trigger_of types n}"
  using assms
proof (induction ns arbitrary: acc)
  case (Cons n ns)
  then obtain nt where nt: "types (n_type n) (n_typeVersion n) = Some nt"
    by (cases "types (n_type n) (n_typeVersion n)") (auto simp: type_of_node_def)
  with Cons.prems have "fold_res (\<lambda>n acc. bind_res (type_of_node types n) (\<lambda>nt. Inr (if has_trigger_group nt then acc @ [n] else acc)))
      ns (if has_trigger_group nt then acc @ [n] else acc) = Inr r" by (simp add: type_of_node_def)
  note IH = Cons.IH [OF this]
  have "is_trigger_of types n \<longleftrightarrow> has_trigger_group nt" using nt by (simp add: is_trigger_of_def)
  with IH show ?case by (cases "has_trigger_group nt") auto
qed simp

lemma findAllParentTriggers_set:
  assumes "findAllParentTriggers types w d = Inr ts"
  shows "set ts = {t. is_trigger_of types t \<and> (\<exists>name \<in> set (w_getParentNodes w d (Of_type Main_t) (-1)). getNode w name = Some t)}"
  using assms by (auto simp: findAllParentTriggers_def dest!: fold_res_lookup fold_res_triggers)

lemma set_webhooks_first [simp]: "set (webhooks_first ts) = set ts"
  by (auto simp: webhooks_first_def)

lemma head_option_in: "head_option xs = Some x \<Longrightarrow> x \<in> set xs"
  by (cases xs) (auto simp: head_option_def)

lemma head_option_None [simp]: "head_option xs = None \<longleftrightarrow> xs = []"
  by (cases xs) (auto simp: head_option_def)

definition candidate_triggers :: "node_types \<Rightarrow> workflow \<Rightarrow> string \<Rightarrow> inode set" where
  "candidate_triggers types w d =
     {t. is_trigger_of types t \<and> \<not> is_disabled t \<and>
        (getNode w d = Some t \<or> (\<exists>name \<in> set (w_getParentNodes w d (Of_type Main_t) (-1)). getNode w name = Some t))}"

text \<open>
  The trigger \<^verbatim>\<open>findTriggerForPartialExecution\<close> answers is an enabled trigger that is the
  destination itself or one of its ancestors; it answers none only if there is none; and if
  the destination is not a trigger itself but an enabled trigger among its ancestors has run
  data, then the answer has run data.
\<close>

theorem findTrigger_candidate:
  assumes "findTriggerForPartialExecution types w d runData = Inr r" and "getNode w d = Some node"
  shows "(r \<noteq> None \<longrightarrow> the r \<in> candidate_triggers types w d)
    \<and> (r = None \<longrightarrow> candidate_triggers types w d = {})
    \<and> (\<not> (is_trigger_of types node \<and> \<not> is_disabled node) \<longrightarrow>
        (\<exists>t \<in> candidate_triggers types w d. has_key runData (n_name t)) \<longrightarrow> r \<noteq> None \<and> has_key runData (n_name (the r)))"
proof -
  obtain nt where nt: "types (n_type node) (n_typeVersion node) = Some nt"
    using assms by (cases "types (n_type node) (n_typeVersion node)")
      (auto simp: findTriggerForPartialExecution_def type_of_node_def)
  then have is_trig: "is_trigger_of types node \<longleftrightarrow> has_trigger_group nt" by (simp add: is_trigger_of_def)
  show ?thesis
  proof (cases "has_trigger_group nt \<and> \<not> is_disabled node")
    case True
    then have "r = Some node" using assms nt by (simp add: findTriggerForPartialExecution_def type_of_node_def)
    then show ?thesis using True is_trig assms(2) by (simp add: candidate_triggers_def)
  next
    case False
    with assms nt obtain ts where ts: "findAllParentTriggers types w d = Inr ts"
      by (auto simp: findTriggerForPartialExecution_def type_of_node_def)
    define parents where "parents = filter (\<lambda>t. \<not> is_disabled t) ts"
    define pinned where "pinned = webhooks_first (filter (\<lambda>t.
      case w_pinData w of None \<Rightarrow> False | Some pd \<Rightarrow> has_key pd (n_name t)) parents)"
    define hooks where "hooks = filter (\<lambda>t. ends_with ''webhook'' (n_type t)) parents"
    have r: "r = (case List.find (\<lambda>t. has_key runData (n_name t)) parents of Some t \<Rightarrow> Some t
        | None \<Rightarrow> if pinned \<noteq> [] then head_option pinned else if hooks \<noteq> [] then head_option hooks else head_option parents)"
    proof -
      have F: "(has_trigger_group nt \<and> \<not> is_disabled node) = False" using False by blast
      have "(Inr r :: inode option res) = (case List.find (\<lambda>t. has_key runData (n_name t)) parents of Some t \<Rightarrow> Inr (Some t)
        | None \<Rightarrow> if pinned \<noteq> [] then Inr (head_option pinned) else if hooks \<noteq> [] then Inr (head_option hooks)
                  else Inr (head_option parents))"
        unfolding assms(1) [symmetric] findTriggerForPartialExecution_def assms(2) type_of_node_def nt option.case
          bind_res.simps ts F if_False Let_def parents_def pinned_def hooks_def by (rule refl)
      then show ?thesis by (auto split: option.splits if_splits)
    qed
    have cand: "candidate_triggers types w d = set parents"
      using findAllParentTriggers_set [OF ts] False is_trig assms(2) by (auto simp: candidate_triggers_def parents_def)
    have sub: "set pinned \<subseteq> set parents" "set hooks \<subseteq> set parents" by (auto simp: pinned_def hooks_def)
    show ?thesis
    proof (cases "List.find (\<lambda>t. has_key runData (n_name t)) parents")
      case None
      then have "\<forall>t \<in> set parents. \<not> has_key runData (n_name t)" by (auto simp: find_None_iff)
      moreover have "r = None \<longrightarrow> parents = []" using r None by (auto split: if_splits)
      moreover have "\<forall>t. r = Some t \<longrightarrow> t \<in> set parents"
        using r None sub by (auto split: if_splits dest: head_option_in)
      ultimately show ?thesis unfolding cand by auto
    next
      case (Some t)
      with find_in_set [OF Some] r show ?thesis unfolding cand by auto
    qed
  qed
qed

definition trigger_types :: node_types where
  "trigger_types ty v = Some (if ty = ''trig'' then plain_type ty [''trigger''] else plain_type ty [])"

definition trigger_workflow :: workflow where
  "trigger_workflow = two_node_workflow\<lparr>w_nodes := [(''a'', plain_node 1 ''a'' ''trig''), (''b'', plain_node 2 ''b'' ''t'')]\<rparr>"

lemma findTrigger_candidate_witness:
  "findTriggerForPartialExecution trigger_types trigger_workflow ''b'' [] = Inr (Some (plain_node 1 ''a'' ''trig''))
   \<and> plain_node 1 ''a'' ''trig'' \<in> candidate_triggers trigger_types trigger_workflow ''b''"
proof -
  have run: "findTriggerForPartialExecution trigger_types trigger_workflow ''b'' [] = Inr (Some (plain_node 1 ''a'' ''trig''))"
    by code_simp
  have "getNode trigger_workflow ''b'' = Some (plain_node 2 ''b'' ''t'')" by (simp add: getNode_def trigger_workflow_def)
  from findTrigger_candidate [OF run this] run show ?thesis by simp
qed

end
