(* ===== verification/StartNodes.thy ===== *)
theory StartNodes
  imports PartialPlan
begin

text \<open>
  \<^verbatim>\<open>partial-execution-utils/find-start-nodes.ts\<close>: the nodes a partial execution starts from.
  The recursion walks the graph from the trigger, stops at nodes that must run again and
  only follows outputs that have data.  Its path is the set \<^verbatim>\<open>seen\<close>.
\<close>

section \<open>Definitions\<close>

definition isDirty :: "inode \<Rightarrow> run_data \<Rightarrow> pin_data \<Rightarrow> bool" where
  "isDirty node runData pinData =
     (let propertiesOrOptionsChanged = False;
          parentNodeGotDisabled = False;
          hasAnError = (case map_of runData (n_name node) of None \<Rightarrow> False
                        | Some tds \<Rightarrow> (\<exists>td \<in> set tds. td_error td \<noteq> None));
          hasPinnedData = has_key pinData (n_name node);
          hasRunData = has_key runData (n_name node)
      in if propertiesOrOptionsChanged then True
         else if parentNodeGotDisabled then True
         else if hasAnError then True
         else if hasPinnedData then False
         else if hasRunData then False
         else True)"

definition isALoop :: "directed_graph \<Rightarrow> inode \<Rightarrow> bool res" where
  "isALoop graph node = bind_res (getChildren graph node) (\<lambda>cs. Inr (node \<in> set cs))"

definition split_in_batches :: string where
  "split_in_batches = ''n8n-nodes-base.splitInBatches''"

text \<open>The check of a loop node: whether its relevant output lacks data on the last run.\<close>

definition loop_unfinished :: "directed_graph \<Rightarrow> inode \<Rightarrow> run_data \<Rightarrow> bool res" where
  "loop_unfinished graph cur runData =
     bind_res (isALoop graph cur) (\<lambda>isLoop.
     bind_res (getIncomingData runData (n_name cur) (-1) Main_t (if isLoop then 0 else 1)) (\<lambda>nodeRunData.
       Inr (case nodeRunData of None \<Rightarrow> True | Some d \<Rightarrow> length d = 0)))"

definition follows :: "run_data \<Rightarrow> pin_data \<Rightarrow> graph_connection \<Rightarrow> bool res" where
  "follows runData pinData outGoingConnection =
     bind_res (getIncomingDataFromAnyRun runData (n_name (g_from outGoingConnection))
                 (g_type outGoingConnection) (int (g_outputIndex outGoingConnection))) (\<lambda>nodeRunData.
       let hasNoRunData = (case nodeRunData of None \<Rightarrow> True | Some (data, _) \<Rightarrow> length data = 0);
           hasNoPinnedData = \<not> has_key pinData (n_name (g_from outGoingConnection))
       in Inr (\<not> (hasNoRunData \<and> hasNoPinnedData)))"

lemma seen_measure:
  assumes "cur \<notin> set seen" and "c \<in> set ds" and "getDirectChildConnections graph cur = Inr ds"
  shows "card (target_universe graph \<union> {g_to c} - set (sadd cur seen)) < card (target_universe graph \<union> {cur} - set seen)"
proof (rule psubset_card_mono)
  have "g_to c \<in> target_universe graph"
    using assms(2,3) by (auto simp: getDirectChildConnections_Inr target_universe_def)
  then show "target_universe graph \<union> {g_to c} - set (sadd cur seen) \<subset> target_universe graph \<union> {cur} - set seen"
    using assms(1) by auto
qed simp

function findStartNodesRecursive ::
    "directed_graph \<Rightarrow> inode \<Rightarrow> inode \<Rightarrow> run_data \<Rightarrow> pin_data \<Rightarrow> inode list \<Rightarrow> inode list \<Rightarrow> inode list res" where
  "findStartNodesRecursive graph cur destination runData pinData startNodes seen =
     (if isDirty cur runData pinData then Inr (sadd cur startNodes)
      else if cur = destination then Inr (sadd cur startNodes)
      else bind_res (if n_type cur = split_in_batches then loop_unfinished graph cur runData else Inr False) (\<lambda>unfinished.
        if unfinished then Inr (sadd cur startNodes)
        else if cur \<in> set seen then Inr startNodes
        else bind_res (getDirectChildConnections graph cur) (\<lambda>outGoingConnections.
          fold_res (\<lambda>outGoingConnection sn.
            bind_res (follows runData pinData outGoingConnection) (\<lambda>follow.
              if \<not> follow then Inr sn
              else findStartNodesRecursive graph (g_to outGoingConnection) destination runData pinData sn (sadd cur seen)))
            outGoingConnections startNodes)))"
  by pat_completeness auto
termination
  by (relation "measure (\<lambda>(graph, cur, dest, rd, pd, sn, seen). card (target_universe graph \<union> {cur} - set seen))")
    (auto dest: seen_measure)

declare findStartNodesRecursive.simps [simp del]

definition findStartNodes ::
    "directed_graph \<Rightarrow> inode \<Rightarrow> inode \<Rightarrow> pin_data \<Rightarrow> run_data \<Rightarrow> inode list res" where
  "findStartNodes graph trigger destination pinData runData =
     findStartNodesRecursive graph trigger destination runData pinData [] []"

section \<open>What is found\<close>

text \<open>A node the walk stops at, and the connections it follows.\<close>

definition stops_at :: "directed_graph \<Rightarrow> inode \<Rightarrow> run_data \<Rightarrow> pin_data \<Rightarrow> inode \<Rightarrow> bool" where
  "stops_at g dest rd pd n \<longleftrightarrow>
     isDirty n rd pd \<or> n = dest \<or> n_type n = split_in_batches \<and> loop_unfinished g n rd = Inr True"

definition walk_edges :: "directed_graph \<Rightarrow> inode \<Rightarrow> run_data \<Rightarrow> pin_data \<Rightarrow> (inode \<times> inode) set" where
  "walk_edges g dest rd pd =
     {(g_from c, g_to c) | c. c \<in> conns_of g \<and> \<not> stops_at g dest rd pd (g_from c) \<and> follows rd pd c = Inr True}"

text \<open>Run data that has an entry for every type the walk reads: then nothing throws.\<close>

definition readable :: "directed_graph \<Rightarrow> run_data \<Rightarrow> bool" where
  "readable g rd \<longleftrightarrow>
     (\<forall>(name, tds) \<in> set rd. \<forall>td \<in> set tds. \<forall>data. td_data td = Some data \<longrightarrow>
        has_key data Main_t \<and> (\<forall>c \<in> conns_of g. has_key data (g_type c)))"

lemma array_at_in: "array_at xs i = Some x \<Longrightarrow> x \<in> set xs"
  by (auto simp: array_at_def Let_def split: if_splits)

lemma getIncomingData_total:
  assumes "\<And>tds td data. map_of rd name = Some tds \<Longrightarrow> td \<in> set tds \<Longrightarrow> td_data td = Some data \<Longrightarrow> has_key data ty"
  shows "\<exists>d. getIncomingData rd name ri ty oi = Inr d"
proof (cases "map_of rd name")
  case (Some tds)
  show ?thesis
  proof (cases "array_at tds ri")
    case td: (Some td)
    show ?thesis
    proof (cases "td_data td")
      case data: (Some data)
      from assms [OF Some array_at_in [OF td] data] obtain outs where "map_of data ty = Some outs"
        by (auto simp: has_key_def)
      then show ?thesis by (auto simp: getIncomingData_def Some td data split: option.split js.split)
    qed (simp add: getIncomingData_def Some td)
  qed (simp add: getIncomingData_def Some)
qed (simp add: getIncomingData_def)

lemma readable_key:
  assumes "readable g rd" "map_of rd name = Some tds" "td \<in> set tds" "td_data td = Some data"
    and "ty = Main_t \<or> (\<exists>c \<in> conns_of g. g_type c = ty)"
  shows "has_key data ty"
proof -
  have "(name, tds) \<in> set rd" using assms(2) by (rule map_of_SomeD)
  with assms(1,3,4) have "has_key data Main_t \<and> (\<forall>c \<in> conns_of g. has_key data (g_type c))"
    unfolding readable_def by blast
  with assms(5) show ?thesis by auto
qed

lemma first_run_total:
  assumes "\<And>ri. \<exists>d. getIncomingData rd name ri ty oi = Inr d"
  shows "\<exists>d. first_run_with_data rd name ty oi runs = Inr d"
proof (induction runs)
  case (Cons r runs)
  obtain d where "getIncomingData rd name (int r) ty oi = Inr d" using assms by blast
  with Cons show ?case by (auto split: option.split)
qed simp

lemma follows_total: "readable g rd \<Longrightarrow> c \<in> conns_of g \<Longrightarrow> \<exists>b. follows rd pd c = Inr b"
proof -
  assume "readable g rd" and "c \<in> conns_of g"
  then have "\<exists>d. getIncomingData rd (n_name (g_from c)) ri (g_type c) oi = Inr d" for ri oi
    by (intro getIncomingData_total) (auto intro: readable_key)
  from first_run_total [OF this] show ?thesis
    by (fastforce simp: follows_def getIncomingDataFromAnyRun_def Let_def)
qed

lemma loop_unfinished_total:
  assumes "dg_wf g" and "is_member g n" and "readable g rd"
  shows "\<exists>b. loop_unfinished g n rd = Inr b"
proof -
  from getChildren_set [OF assms(1,2)] obtain cs where "getChildren g n = Inr cs" by blast
  moreover have "\<exists>d. getIncomingData rd (n_name n) (-1) Main_t oi = Inr d" for oi
    by (rule getIncomingData_total) (use assms(3) in \<open>auto intro: readable_key\<close>)
  ultimately show ?thesis by (fastforce simp: loop_unfinished_def isALoop_def)
qed

lemma start_stop:
  assumes "stops_at g dest rd pd cur"
  shows "findStartNodesRecursive g cur dest rd pd sn seen = Inr (sadd cur sn)"
  using assms by (auto simp: findStartNodesRecursive.simps [of g cur dest rd pd sn seen] stops_at_def)

lemma start_go:
  assumes "dg_wf g" "is_member g cur" "readable g rd" and "\<not> stops_at g dest rd pd cur"
  shows "findStartNodesRecursive g cur dest rd pd sn seen =
    (if cur \<in> set seen then Inr sn
     else fold_res (\<lambda>c sn. bind_res (follows rd pd c) (\<lambda>follow.
              if \<not> follow then Inr sn else findStartNodesRecursive g (g_to c) dest rd pd sn (sadd cur seen)))
            (filter (\<lambda>c. g_from c = cur) (ovals (dg_connections g))) sn)"
proof -
  from loop_unfinished_total [OF assms(1-3)] obtain b where b: "loop_unfinished g cur rd = Inr b" by blast
  then have "(if n_type cur = split_in_batches then loop_unfinished g cur rd else Inr False) = Inr False"
    using assms(4) by (auto simp: stops_at_def)
  moreover have "\<not> isDirty cur rd pd" "cur \<noteq> dest" using assms(4) by (simp_all add: stops_at_def)
  ultimately show ?thesis
    using assms(2) by (simp add: findStartNodesRecursive.simps [of g cur dest rd pd sn seen] getDirectChildConnections_def)
qed

lemma grow_total:
  assumes "P s" and "\<And>x s. x \<in> set xs \<Longrightarrow> P s \<Longrightarrow> \<exists>s'. f x s = Inr s' \<and> P s' \<and> set s \<subseteq> set s'"
  shows "\<exists>s'. fold_res f xs s = Inr s' \<and> P s' \<and> set s \<subseteq> set s'
    \<and> (\<forall>x \<in> set xs. \<exists>s1 s2. P s1 \<and> set s \<subseteq> set s1 \<and> f x s1 = Inr s2 \<and> set s2 \<subseteq> set s')"
  by (rule fold_res_total [where R = "\<lambda>s t. set s \<subseteq> set t"]) (use assms in auto)

definition start_sound ::
    "directed_graph \<Rightarrow> inode \<Rightarrow> run_data \<Rightarrow> pin_data \<Rightarrow> inode \<Rightarrow> inode list \<Rightarrow> inode list \<Rightarrow> bool" where
  "start_sound g dest rd pd cur sn r \<longleftrightarrow> (distinct sn \<longrightarrow> distinct r) \<and> set sn \<subseteq> set r
     \<and> set r \<subseteq> set sn \<union> {n. stops_at g dest rd pd n \<and> (cur, n) \<in> (walk_edges g dest rd pd)\<^sup>*}"

lemma start_sound_step:
  assumes "start_sound g dest rd pd cur sn s" and "start_sound g dest rd pd w s r"
    and edge: "(cur, w) \<in> walk_edges g dest rd pd"
  shows "start_sound g dest rd pd cur sn r"
proof -
  have "(cur, n) \<in> (walk_edges g dest rd pd)\<^sup>*" if "(w, n) \<in> (walk_edges g dest rd pd)\<^sup>*" for n
    using edge that by (rule converse_rtrancl_into_rtrancl)
  with assms(1,2) show ?thesis unfolding start_sound_def by blast
qed

definition start_spec ::
    "directed_graph \<Rightarrow> inode \<Rightarrow> run_data \<Rightarrow> pin_data \<Rightarrow> inode \<Rightarrow> inode list \<Rightarrow> inode list \<Rightarrow> inode list \<Rightarrow> bool" where
  "start_spec g dest rd pd cur seen sn r \<longleftrightarrow> start_sound g dest rd pd cur sn r
     \<and> (\<forall>ws n. node_path (walk_edges g dest rd pd) cur ws n \<longrightarrow> distinct (cur # ws) \<longrightarrow>
          set (cur # ws) \<inter> set seen = {} \<longrightarrow> stops_at g dest rd pd n \<longrightarrow> n \<in> set r)"

lemma findStartNodesRecursive_ok:
  assumes "dg_wf g" "is_member g cur" "readable g rd"
  shows "\<exists>r. findStartNodesRecursive g cur dest rd pd sn seen = Inr r \<and> start_spec g dest rd pd cur seen sn r"
  using assms
proof (induction g cur dest rd pd sn seen rule: findStartNodesRecursive.induct)
  case (1 g cur dest rd pd sn seen)
  note wf = 1(2) and mem = 1(3) and rd = 1(4)
  let ?R = "walk_edges g dest rd pd"
  show ?case
  proof (cases "stops_at g dest rd pd cur")
    case True
    have "ws = []" if "node_path ?R cur ws n" for ws n
      using that True by (cases ws) (auto simp: walk_edges_def)
    then have "start_spec g dest rd pd cur seen sn (sadd cur sn)" using True by (fastforce simp: start_spec_def start_sound_def)
    with start_stop [OF True] show ?thesis by blast
  next
    case go: False
    show ?thesis
    proof (cases "cur \<in> set seen")
      case True
      then have "start_spec g dest rd pd cur seen sn sn" by (simp add: start_spec_def start_sound_def)
      with True start_go [OF wf mem rd go] show ?thesis by auto
    next
      case new: False
      define ds where "ds = filter (\<lambda>c. g_from c = cur) (ovals (dg_connections g))"
      define f where "f = (\<lambda>c sn. bind_res (follows rd pd c) (\<lambda>follow.
              if \<not> follow then Inr sn else findStartNodesRecursive g (g_to c) dest rd pd sn (sadd cur seen)))"
      have ds: "c \<in> set ds \<longleftrightarrow> c \<in> conns_of g \<and> g_from c = cur" for c by (auto simp: ds_def conns_of_def)
      have children: "getDirectChildConnections g cur = Inr ds" using mem by (simp add: getDirectChildConnections_def ds_def)
      have stop: "\<not> isDirty cur rd pd" "cur \<noteq> dest" using go by (simp_all add: stops_at_def)
      have fin: "(if n_type cur = split_in_batches then loop_unfinished g cur rd else Inr False) = Inr False"
        using go loop_unfinished_total [OF wf mem rd] by (auto simp: stops_at_def)
      have rec: "\<exists>r. findStartNodesRecursive g (g_to c) dest rd pd sn' (sadd cur seen) = Inr r
          \<and> start_spec g dest rd pd (g_to c) (sadd cur seen) sn' r"
        if "c \<in> set ds" "follows rd pd c = Inr True" for c sn'
        using 1(1) [OF stop fin _ new children that(1) that(2)] that(1) wf rd dg_wf_member [of g c] by (simp add: ds)
      let ?P = "start_sound g dest rd pd cur sn"
      let ?le = "\<lambda>s t. set s \<subseteq> set t"
      have step: "\<exists>s'. f c s = Inr s' \<and> ?P s' \<and> ?le s s'" if c: "c \<in> set ds" and s: "?P s" for c s
      proof -
        from follows_total [OF rd, of c pd] c ds obtain b where b: "follows rd pd c = Inr b" by blast
        show ?thesis
        proof (cases b)
          case True
          with rec [OF c, of s] b obtain r where r: "findStartNodesRecursive g (g_to c) dest rd pd s (sadd cur seen) = Inr r"
            "start_sound g dest rd pd (g_to c) s r" by (auto simp: start_spec_def)
          have "(cur, g_to c) \<in> ?R" using c b True go by (auto simp: walk_edges_def ds)
          with s r(2) have "?P r" by (rule start_sound_step)
          with r b True show ?thesis by (simp add: f_def start_sound_def)
        qed (use b s in \<open>simp add: f_def\<close>)
      qed
      have start: "?P sn" by (simp add: start_sound_def)
      obtain r where r: "fold_res f ds sn = Inr r" "?P r"
        and each: "\<forall>c \<in> set ds. \<exists>s1 s2. ?P s1 \<and> ?le sn s1 \<and> f c s1 = Inr s2 \<and> ?le s2 r"
        using grow_total [where P = ?P and f = f and xs = ds, OF start step] by auto
      have "n \<in> set r" if path: "node_path ?R cur ws n" "distinct (cur # ws)" "set (cur # ws) \<inter> set seen = {}"
        and n: "stops_at g dest rd pd n" for ws n
      proof (cases ws)
        case Nil
        with path(1) n go show ?thesis by simp
      next
        case (Cons w ws')
        with path(1) obtain c where c: "c \<in> conns_of g" "g_from c = cur" "g_to c = w" "follows rd pd c = Inr True"
          by (auto simp: walk_edges_def)
        then have "c \<in> set ds" by (simp add: ds)
        with each obtain s1 s2 where s2: "f c s1 = Inr s2" "?le s2 r" by blast
        from rec [OF \<open>c \<in> set ds\<close> c(4), of s1] s2(1) c(4) have
          "start_spec g dest rd pd w (sadd cur seen) s1 s2" by (simp add: f_def c(3))
        then have "n \<in> set s2" using path n Cons unfolding start_spec_def by auto
        with s2(2) show ?thesis by blast
      qed
      with r(2) have "start_spec g dest rd pd cur seen sn r" unfolding start_spec_def by blast
      with r(1) start_go [OF wf mem rd go] new show ?thesis by (auto simp: f_def ds_def)
    qed
  qed
qed



end
