(* ===== verification/ExecutionStack.thy ===== *)
theory ExecutionStack
  imports StartNodes
begin

text \<open>
  The execution stack a partial execution begins with, from
  \<^verbatim>\<open>partial-execution-utils/get-source-data-groups.ts\<close> and
  \<^verbatim>\<open>recreate-node-execution-stack.ts\<close>.  \<^verbatim>\<open>localeCompare\<close> depends on the locale of the
  host: it is the parameter \<^verbatim>\<open>lc\<close> of the definitions that sort.
\<close>

section \<open>Groups of source data\<close>

definition sortByInputIndexThenByName ::
    "(string \<Rightarrow> string \<Rightarrow> int) \<Rightarrow> graph_connection \<Rightarrow> graph_connection \<Rightarrow> int" where
  "sortByInputIndexThenByName lc connection1 connection2 =
     (if g_inputIndex connection1 = g_inputIndex connection2
      then lc (n_name (g_from connection1)) (n_name (g_from connection2))
      else int (g_inputIndex connection1) - int (g_inputIndex connection2))"

record source_group =
  sg_complete :: bool
  sg_connections :: "graph_connection list"

definition newGroup :: source_group where
  "newGroup = \<lparr>sg_complete = True, sg_connections = []\<rparr>"

definition has_source_data :: "run_data \<Rightarrow> pin_data \<Rightarrow> graph_connection \<Rightarrow> bool" where
  "has_source_data runData pinnedData c \<longleftrightarrow>
     has_key runData (n_name (g_from c)) \<or> has_key pinnedData (n_name (g_from c))"

text \<open>\<^verbatim>\<open>findIndex\<close> and \<^verbatim>\<open>splice\<close>: the first connection of an input, and the others.\<close>

fun take_at :: "int \<Rightarrow> graph_connection list \<Rightarrow> (graph_connection \<times> graph_connection list) option" where
  "take_at i [] = None"
| "take_at i (c # cs) =
     (if int (g_inputIndex c) = i then Some (c, cs)
      else map_option (\<lambda>(d, ds). (d, c # ds)) (take_at i cs))"

definition first_input :: "graph_connection list \<Rightarrow> graph_connection list \<Rightarrow> int" where
  "first_input withData withoutData = Min (int ` g_inputIndex ` set (withData @ withoutData)) - 1"

lemma take_at_mset: "take_at i cs = Some (c, ds) \<Longrightarrow> mset cs = add_mset c (mset ds) \<and> int (g_inputIndex c) = i"
  by (induction cs arbitrary: ds) (auto split: if_splits)

lemma take_at_size: "take_at i cs = Some (c, ds) \<Longrightarrow> length cs = Suc (length ds)"
  by (induction cs arbitrary: ds) (auto split: if_splits)

lemma take_at_None: "take_at i cs = None \<longleftrightarrow> i \<notin> int ` g_inputIndex ` set cs"
  by (induction cs) auto

lemma first_input_in:
  assumes "withData \<noteq> [] \<or> withoutData \<noteq> []"
  shows "first_input withData withoutData + 1 \<in> int ` g_inputIndex ` set (withData @ withoutData)"
proof -
  have "Min (int ` g_inputIndex ` set (withData @ withoutData)) \<in> int ` g_inputIndex ` set (withData @ withoutData)"
    using assms by (intro Min_in) auto
  then show ?thesis by (simp add: first_input_def)
qed

function group_loop ::
    "int \<Rightarrow> graph_connection list \<Rightarrow> graph_connection list \<Rightarrow> source_group \<Rightarrow> source_group list \<Rightarrow> source_group list" where
  "group_loop currentInputIndex withData withoutData currentGroup groups =
     (if withData = [] \<and> withoutData = [] then groups @ [currentGroup]
      else case take_at (currentInputIndex + 1) withData of
        Some (c, rest) \<Rightarrow>
          group_loop (currentInputIndex + 1) rest withoutData
            (currentGroup\<lparr>sg_connections := sg_connections currentGroup @ [c]\<rparr>) groups
      | None \<Rightarrow> (case take_at (currentInputIndex + 1) withoutData of
          Some (c, rest) \<Rightarrow>
            group_loop (currentInputIndex + 1) withData rest
              (currentGroup\<lparr>sg_connections := sg_connections currentGroup @ [c], sg_complete := False\<rparr>) groups
        | None \<Rightarrow>
            group_loop (first_input withData withoutData) withData withoutData newGroup (groups @ [currentGroup])))"
  by pat_completeness auto
termination
  by (relation "measures [\<lambda>(i, wd, wo, cur, groups). length wd + length wo,
        \<lambda>(i, wd, wo, cur, groups). if i + 1 \<in> int ` g_inputIndex ` set (wd @ wo) then 0 else 1]")
    (use first_input_in in \<open>auto simp: take_at_None dest: take_at_size\<close>)

declare group_loop.simps [simp del]

definition getSourceDataGroups ::
    "(string \<Rightarrow> string \<Rightarrow> int) \<Rightarrow> directed_graph \<Rightarrow> inode \<Rightarrow> run_data \<Rightarrow> pin_data \<Rightarrow> source_group list" where
  "getSourceDataGroups lc graph node runData pinnedData =
     (let connections = getConnections graph (Some node);
          withData = filter (has_source_data runData pinnedData) connections;
          withoutData = filter (\<lambda>c. \<not> has_source_data runData pinnedData c \<and> g_type c = Main_t) connections
      in if withData = [] \<and> withoutData = [] then []
         else let withData = sort_cmp (sortByInputIndexThenByName lc) withData;
                  withoutData = sort_cmp (sortByInputIndexThenByName lc) withoutData
              in group_loop (first_input withData withoutData) withData withoutData newGroup [])"

section \<open>The stack\<close>

definition addWaitingExecution ::
    "waiting_execution \<Rightarrow> string \<Rightarrow> nat \<Rightarrow> string \<Rightarrow> nat \<Rightarrow> items js \<Rightarrow> waiting_execution" where
  "addWaitingExecution waitingExecution nodeName runIndex inputType inputIndex executionData =
     (let waitingExecutionObject = (case map_of waitingExecution nodeName of Some o' \<Rightarrow> o' | None \<Rightarrow> []);
          taskDataConnections = (case map_of waitingExecutionObject runIndex of Some t \<Rightarrow> t | None \<Rightarrow> []);
          executionDataList = (case map_of taskDataConnections inputType of Some l \<Rightarrow> l | None \<Rightarrow> []);
          executionDataList = array_set Undef executionDataList inputIndex executionData
      in AList.update nodeName
           (nput runIndex (AList.update inputType executionDataList taskDataConnections) waitingExecutionObject)
           waitingExecution)"

definition addWaitingExecutionSource ::
    "waiting_execution_source \<Rightarrow> string \<Rightarrow> nat \<Rightarrow> string \<Rightarrow> nat \<Rightarrow> source_data option \<Rightarrow> waiting_execution_source" where
  "addWaitingExecutionSource waitingExecutionSource nodeName runIndex inputType inputIndex sourceData =
     (let waitingExecutionSourceObject = (case map_of waitingExecutionSource nodeName of Some o' \<Rightarrow> o' | None \<Rightarrow> []);
          taskDataConnectionsSource = (case map_of waitingExecutionSourceObject runIndex of Some t \<Rightarrow> t | None \<Rightarrow> []);
          sourceDataList = (case map_of taskDataConnectionsSource inputType of Some l \<Rightarrow> l | None \<Rightarrow> []);
          sourceDataList = array_set None sourceDataList inputIndex sourceData
      in AList.update nodeName
           (nput runIndex (AList.update inputType sourceDataList taskDataConnectionsSource) waitingExecutionSourceObject)
           waitingExecutionSource)"

text \<open>The body of the loop over the connections of a complete group.\<close>

definition push_source ::
    "inode \<Rightarrow> run_data \<Rightarrow> pin_data \<Rightarrow> graph_connection \<Rightarrow> items js list \<times> source_data option list \<Rightarrow>
     (items js list \<times> source_data option list) res" where
  "push_source startNode runData pinData c st =
     (case st of (incomingData, sources) \<Rightarrow>
       let name = n_name (g_from c);
           source = (\<lambda>runIndex. Some \<lparr>sd_previousNode = name, sd_previousNodeOutput = Some (g_outputIndex c),
                                       sd_previousNodeRun = Some (int runIndex)\<rparr>)
       in (case map_of pinData name of
             Some pinned \<Rightarrow> Inr (incomingData @ [Val pinned], sources @ [source 0])
           | None \<Rightarrow>
               if \<not> has_key runData name
               then Inl (AssertionError (''Start node('' @ n_name (g_to c) @ '') has an incoming connection with no run or pinned data. This is not supported. The connection in question is \"''
                      @ name @ ''->'' @ n_name startNode @ ''\". Are you sure the start nodes come from the \"findStartNodes\" function?''))
               else bind_res (getIncomingDataFromAnyRun runData name (g_type c) (int (g_outputIndex c))) (\<lambda>found.
                 case found of
                   Some (data, runIndex) \<Rightarrow> Inr (incomingData @ [Val data], sources @ [source runIndex])
                 | None \<Rightarrow> Inr (incomingData, sources @ [source 0]))))"

definition stack_entry :: "run_data \<Rightarrow> pin_data \<Rightarrow> inode \<Rightarrow> graph_connection list \<Rightarrow> execute_data res" where
  "stack_entry runData pinData startNode connections =
     bind_res (fold_res (push_source startNode runData pinData) connections ([], [])) (\<lambda>(incomingData, sources).
       Inr \<lparr>ed_data = [(Main_t, incomingData)], ed_metadata = None, ed_node = startNode,
            ed_source = Some [(Main_t, sources)], ed_runIndex = None\<rparr>)"

text \<open>The body of the loop over the connections of an incomplete group.\<close>

definition add_waiting ::
    "run_data \<Rightarrow> string \<Rightarrow> nat \<Rightarrow> graph_connection \<Rightarrow> waiting_execution \<times> waiting_execution_source \<Rightarrow>
     (waiting_execution \<times> waiting_execution_source) res" where
  "add_waiting runData nodeName nextRunIndex c st =
     (case st of (waitingExecution, waitingExecutionSource) \<Rightarrow>
       bind_res (getIncomingDataFromAnyRun runData (n_name (g_from c)) (g_type c) (int (g_outputIndex c))) (\<lambda>found.
         case found of
           None \<Rightarrow> Inr (waitingExecution, waitingExecutionSource)
         | Some (data, _) \<Rightarrow>
             Inr (addWaitingExecution waitingExecution nodeName nextRunIndex (g_type c) (g_inputIndex c) (Val data),
                  addWaitingExecutionSource waitingExecutionSource nodeName nextRunIndex (g_type c) (g_inputIndex c)
                    (Some \<lparr>sd_previousNode = n_name (g_from c), sd_previousNodeOutput = Some (g_outputIndex c),
                           sd_previousNodeRun = Some (int nextRunIndex)\<rparr>))))"

type_synonym stack_state = "execute_data list \<times> waiting_execution \<times> waiting_execution_source"

definition add_group ::
    "run_data \<Rightarrow> pin_data \<Rightarrow> inode \<Rightarrow> source_group \<Rightarrow> stack_state \<Rightarrow> stack_state res" where
  "add_group runData pinData startNode sourceData st =
     (case st of (stack, waitingExecution, waitingExecutionSource) \<Rightarrow>
       if sg_complete sourceData
       then bind_res (stack_entry runData pinData startNode (sg_connections sourceData)) (\<lambda>entry.
              Inr (stack @ [entry], waitingExecution, waitingExecutionSource))
       else let nodeName = n_name startNode;
                nextRunIndex = (case map_of waitingExecution nodeName of Some runs \<Rightarrow> length runs | None \<Rightarrow> 0)
            in bind_res (fold_res (add_waiting runData nodeName nextRunIndex) (sg_connections sourceData)
                           (waitingExecution, waitingExecutionSource)) (\<lambda>(we, wes). Inr (stack, we, wes)))"

definition add_start_node ::
    "(string \<Rightarrow> string \<Rightarrow> int) \<Rightarrow> directed_graph \<Rightarrow> run_data \<Rightarrow> pin_data \<Rightarrow> inode \<Rightarrow> stack_state \<Rightarrow> stack_state res" where
  "add_start_node lc graph runData pinData startNode st =
     bind_res (getDirectParentConnections graph startNode) (\<lambda>parents.
       if filter (\<lambda>c. g_type c = Main_t) parents = []
       then (case st of (stack, we, wes) \<Rightarrow>
              Inr (stack @ [\<lparr>ed_data = [(Main_t, [Val [empty_item]])], ed_metadata = None, ed_node = startNode,
                             ed_source = None, ed_runIndex = None\<rparr>], we, wes))
       else fold_res (add_group runData pinData startNode) (getSourceDataGroups lc graph startNode runData pinData) st)"

definition recreateNodeExecutionStack ::
    "(string \<Rightarrow> string \<Rightarrow> int) \<Rightarrow> directed_graph \<Rightarrow> inode list \<Rightarrow> run_data \<Rightarrow> pin_data \<Rightarrow> stack_state res" where
  "recreateNodeExecutionStack lc graph startNodes runData pinData =
     (case List.find is_disabled (ovals (getNodes graph)) of
        Some node \<Rightarrow> Inl (AssertionError (''Graph contains disabled nodes. This is not supported. Make sure to pass the graph through \"findSubgraph\" before calling \"recreateNodeExecutionStack\". The node in question is \"'' @ n_name node @ ''\"''))
      | None \<Rightarrow> fold_res (add_start_node lc graph runData pinData) startNodes ([], [], []))"

section \<open>The groups partition the connections\<close>

text \<open>
  A group is well formed if it has a connection, takes consecutive inputs, one connection
  each, and is complete exactly if every source has data.
\<close>

definition group_ok :: "run_data \<Rightarrow> pin_data \<Rightarrow> source_group \<Rightarrow> bool" where
  "group_ok rd pd grp \<longleftrightarrow> sg_connections grp \<noteq> []
     \<and> (\<exists>k. map g_inputIndex (sg_connections grp) = [k..<k + length (sg_connections grp)])
     \<and> sg_complete grp = list_all (has_source_data rd pd) (sg_connections grp)"

definition growing :: "run_data \<Rightarrow> pin_data \<Rightarrow> int \<Rightarrow> source_group \<Rightarrow> bool" where
  "growing rd pd i grp \<longleftrightarrow>
     map (\<lambda>c. int (g_inputIndex c)) (sg_connections grp) = [i - int (length (sg_connections grp)) + 1..i]
     \<and> sg_complete grp = list_all (has_source_data rd pd) (sg_connections grp)"

lemma growing_add:
  assumes "growing rd pd i grp" and "int (g_inputIndex c) = i + 1"
  shows "growing rd pd (i + 1) (grp\<lparr>sg_connections := sg_connections grp @ [c],
           sg_complete := sg_complete grp \<and> has_source_data rd pd c\<rparr>)"
proof -
  let ?n = "int (length (sg_connections grp))"
  have "[i - ?n + 1..i + 1] = [i - ?n + 1..i] @ [i + 1]" by (subst upto_rec2) auto
  then show ?thesis using assms by (simp add: growing_def algebra_simps)
qed

lemma growing_ok:
  assumes "growing rd pd i grp" and "sg_connections grp \<noteq> []"
  shows "group_ok rd pd grp"
proof -
  let ?cs = "sg_connections grp" and ?k = "g_inputIndex (hd (sg_connections grp))"
  have ints: "map (\<lambda>c. int (g_inputIndex c)) ?cs = [i - int (length ?cs) + 1..i]"
    using assms(1) by (simp add: growing_def)
  have nth: "int (g_inputIndex (?cs ! j)) = i - int (length ?cs) + 1 + int j" if "j < length ?cs" for j
  proof -
    have "map (\<lambda>c. int (g_inputIndex c)) ?cs ! j = [i - int (length ?cs) + 1..i] ! j" by (simp add: ints)
    with that show ?thesis by (simp add: nth_upto)
  qed
  have "int ?k = i - int (length ?cs) + 1" using nth [of 0] assms(2) by (simp add: hd_conv_nth)
  then have "map g_inputIndex ?cs = [?k..<?k + length ?cs]"
    by (intro nth_equalityI) (use nth in \<open>fastforce+\<close>)
  with assms show ?thesis unfolding group_ok_def growing_def by blast
qed

lemma group_loop_ok:
  assumes "list_all (has_source_data rd pd) wd" and "list_all (\<lambda>c. \<not> has_source_data rd pd c) wo"
    and "growing rd pd i cur"
    and "sg_connections cur \<noteq> [] \<or> i + 1 \<in> int ` g_inputIndex ` set (wd @ wo)"
    and "list_all (group_ok rd pd) groups"
  shows "list_all (group_ok rd pd) (group_loop i wd wo cur groups)
    \<and> mset (concat (map sg_connections (group_loop i wd wo cur groups))) =
        mset (concat (map sg_connections groups)) + mset (sg_connections cur) + mset wd + mset wo"
  using assms
proof (induction i wd wo cur groups rule: group_loop.induct)
  case (1 i wd wo cur groups)
  note data = 1(4) and nodata = 1(5) and grow = 1(6) and nonempty = 1(7) and gs = 1(8)
  consider (stop) "wd = [] \<and> wo = []"
    | (with_data) c rest where "\<not> (wd = [] \<and> wo = [])" "take_at (i + 1) wd = Some (c, rest)"
    | (without) c rest where "\<not> (wd = [] \<and> wo = [])" "take_at (i + 1) wd = None" "take_at (i + 1) wo = Some (c, rest)"
    | (restart) "\<not> (wd = [] \<and> wo = [])" "take_at (i + 1) wd = None" "take_at (i + 1) wo = None"
    by (cases "take_at (i + 1) wd"; cases "take_at (i + 1) wo") auto
  then show ?case
  proof cases
    case stop
    then have "group_ok rd pd cur" using growing_ok [OF grow] nonempty by simp
    with stop gs show ?thesis by (simp add: group_loop.simps)
  next
    case with_data
    from take_at_mset [OF with_data(2)] have wd: "mset wd = add_mset c (mset rest)" "int (g_inputIndex c) = i + 1" by auto
    then have all: "has_source_data rd pd c" "list_all (has_source_data rd pd) rest"
      using data by (metis list_all_iff set_mset_mset add_mset_add_single set_mset_add_mset_insert insert_iff)+
    have "growing rd pd (i + 1) (cur\<lparr>sg_connections := sg_connections cur @ [c]\<rparr>)"
      using growing_add [OF grow wd(2)] all(1) by (simp add: growing_def)
    from 1(3) [OF with_data(1,2) refl all(2) nodata this _ gs] with_data wd(1)
    show ?thesis by (simp add: group_loop.simps [of i wd])
  next
    case without
    from take_at_mset [OF without(3)] have wo: "mset wo = add_mset c (mset rest)" "int (g_inputIndex c) = i + 1" by auto
    then have all: "\<not> has_source_data rd pd c" "list_all (\<lambda>c. \<not> has_source_data rd pd c) rest"
      using nodata by (metis list_all_iff set_mset_mset add_mset_add_single set_mset_add_mset_insert insert_iff)+
    have "growing rd pd (i + 1) (cur\<lparr>sg_connections := sg_connections cur @ [c], sg_complete := False\<rparr>)"
      using growing_add [OF grow wo(2)] all(1) by (simp add: growing_def)
    from 1(2) [OF without(1,2,3) refl data all(2) this _ gs] without wo(1)
    show ?thesis by (simp add: group_loop.simps [of i wd])
  next
    case restart
    then have "group_ok rd pd cur"
      using growing_ok [OF grow] nonempty by (auto simp: take_at_None)
    then have "list_all (group_ok rd pd) (groups @ [cur])" using gs by simp
    moreover have "growing rd pd (first_input wd wo) newGroup" by (simp add: growing_def newGroup_def)
    ultimately show ?thesis
      using 1(1) [OF restart(1,2,3) data nodata] first_input_in [of wd wo] restart
      by (simp add: group_loop.simps [of i wd] newGroup_def)
  qed
qed

lemma groups_partition:
  "mset (concat (map sg_connections (getSourceDataGroups lc g node rd pd))) =
     filter_mset (\<lambda>c. has_source_data rd pd c \<or> g_type c = Main_t) (mset (getConnections g (Some node)))
   \<and> list_all (group_ok rd pd) (getSourceDataGroups lc g node rd pd)"
proof -
  let ?cs = "getConnections g (Some node)"
  let ?wd = "filter (has_source_data rd pd) ?cs"
  let ?wo = "filter (\<lambda>c. \<not> has_source_data rd pd c \<and> g_type c = Main_t) ?cs"
  let ?s = "sort_cmp (sortByInputIndexThenByName lc)"
  have parts: "filter_mset (\<lambda>c. has_source_data rd pd c \<or> g_type c = Main_t) (mset ?cs) = mset ?wd + mset ?wo"
    by (rule multiset_eqI) simp
  show ?thesis
  proof (cases "?wd = [] \<and> ?wo = []")
    case True
    then have "getSourceDataGroups lc g node rd pd = []" by (simp add: getSourceDataGroups_def)
    moreover have "mset ?wd + mset ?wo = {#}" using True by simp
    ultimately show ?thesis by (simp add: parts del: mset_filter)
  next
    case False
    have eq: "getSourceDataGroups lc g node rd pd = group_loop (first_input (?s ?wd) (?s ?wo)) (?s ?wd) (?s ?wo) newGroup []"
      unfolding getSourceDataGroups_def Let_def if_not_P [OF False] by (rule refl)
    have ne: "?s ?wd \<noteq> [] \<or> ?s ?wo \<noteq> []"
    proof -
      have "sort_cmp f xs = [] \<longleftrightarrow> xs = []" for f :: "graph_connection \<Rightarrow> graph_connection \<Rightarrow> int" and xs
        by (metis mset_sort_cmp mset_zero_iff)
      with False show ?thesis by blast
    qed
    have "list_all (has_source_data rd pd) (?s ?wd)" "list_all (\<lambda>c. \<not> has_source_data rd pd c) (?s ?wo)"
      by (auto simp: list_all_iff)
    moreover have "growing rd pd (first_input (?s ?wd) (?s ?wo)) newGroup" by (simp add: growing_def newGroup_def)
    ultimately show ?thesis
      using group_loop_ok [of rd pd "?s ?wd" "?s ?wo" _ newGroup "[]"] first_input_in [OF ne]
      by (simp add: eq parts newGroup_def del: mset_filter)
  qed
qed

text \<open>
  The groups partition the incoming connections that have data or are main connections:
  each is in exactly one group.  Every group takes consecutive inputs, one connection for
  each, and is marked complete exactly if all its sources have run data or pinned data.
\<close>

theorem getSourceDataGroups_partition:
  "mset (concat (map sg_connections (getSourceDataGroups lc g node rd pd))) =
     filter_mset (\<lambda>c. has_source_data rd pd c \<or> g_type c = Main_t) (mset (getConnections g (Some node)))
   \<and> list_all (group_ok rd pd) (getSourceDataGroups lc g node rd pd)"
  by (rule groups_partition)

section \<open>What is recreated\<close>

text \<open>
  The waiting data and the waiting sources, reduced to which inputs are filled, and the
  operation both are filled with.
\<close>

abbreviation map_vals :: "('a \<Rightarrow> 'b) \<Rightarrow> ('k, 'a) omap \<Rightarrow> ('k, 'b) omap" where
  "map_vals f m \<equiv> map (\<lambda>(k, v). (k, f v)) m"

type_synonym waiting_shape = "(string, (nat, (string, bool list) omap) omap) omap"

fun is_value :: "'a js \<Rightarrow> bool" where
  "is_value (Val _) = True"
| "is_value _ = False"

definition wshape :: "waiting_execution \<Rightarrow> waiting_shape" where
  "wshape = map_vals (map_vals (map_vals (map is_value)))"

definition sshape :: "waiting_execution_source \<Rightarrow> waiting_shape" where
  "sshape = map_vals (map_vals (map_vals (map (\<lambda>s. s \<noteq> None))))"

definition fill_shape :: "string \<Rightarrow> nat \<Rightarrow> string \<Rightarrow> nat \<Rightarrow> bool \<Rightarrow> waiting_shape \<Rightarrow> waiting_shape" where
  "fill_shape nodeName ri ty i b sh =
     (let runs = (case map_of sh nodeName of Some o' \<Rightarrow> o' | None \<Rightarrow> []);
          types = (case map_of runs ri of Some t \<Rightarrow> t | None \<Rightarrow> []);
          inputs = (case map_of types ty of Some l \<Rightarrow> l | None \<Rightarrow> [])
      in AList.update nodeName (nput ri (AList.update ty (array_set False inputs i b) types) runs) sh)"

lemma map_vals_update: "map_vals f (AList.update k v m) = AList.update k (f v) (map_vals f m)"
  by (induction m) auto

lemma map_vals_nput: "map_vals f (nput k v m) = nput k (f v) (map_vals f m)"
  by (induction k v m rule: nput.induct) auto

lemma map_array_set: "map f (array_set h xs i v) = array_set (f h) (map f xs) i (f v)"
  by (simp add: array_set_def map_update)

lemmas map_vals_simps = map_vals_update map_vals_nput map_array_set map_of_map_value

lemma wshape_add:
  "wshape (addWaitingExecution we n ri ty i d) = fill_shape n ri ty i (is_value d) (wshape we)"
  unfolding addWaitingExecution_def fill_shape_def wshape_def Let_def map_vals_simps
  by (auto simp: map_of_map_value split: option.splits)

lemma sshape_add:
  "sshape (addWaitingExecutionSource wes n ri ty i s) = fill_shape n ri ty i (s \<noteq> None) (sshape wes)"
  unfolding addWaitingExecutionSource_def fill_shape_def sshape_def Let_def map_vals_simps
  by (auto simp: map_of_map_value split: option.splits)

lemma any_run_total:
  "readable g rd \<Longrightarrow> c \<in> conns_of g \<Longrightarrow>
   \<exists>d. getIncomingDataFromAnyRun rd (n_name (g_from c)) (g_type c) (int (g_outputIndex c)) = Inr d"
  unfolding getIncomingDataFromAnyRun_def
  by (intro first_run_total getIncomingData_total) (auto intro: readable_key)

lemma group_connections:
  assumes "grp \<in> set (getSourceDataGroups lc g n rd pd)" and "c \<in> set (sg_connections grp)"
  shows "c \<in> conns_of g \<and> (sg_complete grp \<longrightarrow> has_source_data rd pd c)"
proof -
  have "c \<in># mset (concat (map sg_connections (getSourceDataGroups lc g n rd pd)))" using assms by auto
  then have "c \<in> set (getConnections g (Some n))" unfolding groups_partition [THEN conjunct1] by simp
  moreover have "group_ok rd pd grp"
    using groups_partition [of lc g n rd pd] assms(1) by (simp add: list_all_iff)
  ultimately show ?thesis using assms(2) by (auto simp: getConnections_def conns_of_def group_ok_def list_all_iff)
qed

text \<open>The start nodes that go on the stack, and what holds of the state while they are added.\<close>

definition ready ::
    "(string \<Rightarrow> string \<Rightarrow> int) \<Rightarrow> directed_graph \<Rightarrow> run_data \<Rightarrow> pin_data \<Rightarrow> inode \<Rightarrow> bool" where
  "ready lc g rd pd n \<longleftrightarrow> (\<forall>c \<in> conns_of g. g_to c = n \<longrightarrow> g_type c \<noteq> Main_t)
     \<or> (\<exists>grp \<in> set (getSourceDataGroups lc g n rd pd). sg_complete grp)"

fun stack_ok :: "inode set \<Rightarrow> stack_state \<Rightarrow> bool" where
  "stack_ok N (stack, we, wes) \<longleftrightarrow> ed_node ` set stack \<subseteq> N \<and> wshape we = sshape wes"

abbreviation stack_le :: "stack_state \<Rightarrow> stack_state \<Rightarrow> bool" where
  "stack_le s t \<equiv> set (fst s) \<subseteq> set (fst t)"

lemma stack_fold_total:
  assumes "P s" and "\<forall>x s. x \<in> set xs \<longrightarrow> P s \<longrightarrow> (\<exists>s'. f x s = Inr s' \<and> P s' \<and> stack_le s s')"
  shows "\<exists>s'. fold_res f xs s = Inr s' \<and> P s' \<and> stack_le s s'
    \<and> (\<forall>x \<in> set xs. \<exists>s1 s2. P s1 \<and> stack_le s s1 \<and> f x s1 = Inr s2 \<and> stack_le s2 s')"
  by (rule fold_res_total [where R = stack_le]) (use assms in auto)

lemma push_source_total:
  assumes "readable g rd" and "c \<in> conns_of g" and "has_source_data rd pd c"
  shows "\<exists>st'. push_source n rd pd c st = Inr st'"
proof -
  from any_run_total [OF assms(1,2)] obtain d where
    "getIncomingDataFromAnyRun rd (n_name (g_from c)) (g_type c) (int (g_outputIndex c)) = Inr d" ..
  then show ?thesis
    using assms(3) by (cases st; cases d) (auto simp: push_source_def has_source_data_def has_key_def Let_def split: option.split)
qed

lemma stack_entry_total:
  assumes "readable g rd" and "\<forall>c \<in> set cs. c \<in> conns_of g \<and> has_source_data rd pd c"
  shows "\<exists>e. stack_entry rd pd n cs = Inr e \<and> ed_node e = n"
proof -
  have "\<exists>st'. fold_res (push_source n rd pd) cs st = Inr st'" for st
    using assms(2)
  proof (induction cs arbitrary: st)
    case (Cons c cs)
    have "c \<in> conns_of g" "has_source_data rd pd c" using Cons.prems by simp_all
    from push_source_total [OF assms(1) this] obtain st' where "push_source n rd pd c st = Inr st'" ..
    with Cons show ?case by simp
  qed simp
  then obtain st' where "fold_res (push_source n rd pd) cs ([], []) = Inr st'" by blast
  then show ?thesis by (cases st') (simp add: stack_entry_def)
qed

lemma add_waiting_total:
  assumes "readable g rd" and "\<forall>c \<in> set cs. c \<in> conns_of g" and "wshape we = sshape wes"
  shows "\<exists>we' wes'. fold_res (add_waiting rd n ri) cs (we, wes) = Inr (we', wes') \<and> wshape we' = sshape wes'"
  using assms(2,3)
proof (induction cs arbitrary: we wes)
  case (Cons c cs)
  then obtain d where d: "getIncomingDataFromAnyRun rd (n_name (g_from c)) (g_type c) (int (g_outputIndex c)) = Inr d"
    using any_run_total [OF assms(1)] by force
  have "\<exists>we' wes'. add_waiting rd n ri c (we, wes) = Inr (we', wes') \<and> wshape we' = sshape wes'"
    using Cons.prems(2) by (cases d) (auto simp: add_waiting_def d wshape_add sshape_add)
  then obtain we' wes' where "add_waiting rd n ri c (we, wes) = Inr (we', wes')" "wshape we' = sshape wes'" by blast
  with Cons.IH [of we' wes'] Cons.prems(1) show ?case by auto
qed simp

lemma add_group_ok:
  assumes "readable g rd" and "n \<in> N" and grp: "grp \<in> set (getSourceDataGroups lc g n rd pd)" and "stack_ok N s"
  shows "\<exists>s'. add_group rd pd n grp s = Inr s' \<and> stack_ok N s' \<and> stack_le s s'
    \<and> (sg_complete grp \<longrightarrow> n \<in> ed_node ` set (fst s'))"
proof -
  obtain stack we wes where s: "s = (stack, we, wes)" by (cases s)
  show ?thesis
  proof (cases "sg_complete grp")
    case True
    then obtain e where "stack_entry rd pd n (sg_connections grp) = Inr e" "ed_node e = n"
      using stack_entry_total [OF assms(1)] group_connections [OF grp] by blast
    then show ?thesis using True s assms(2,4) by (auto simp: add_group_def)
  next
    case False
    let ?ri = "case map_of we (n_name n) of Some runs \<Rightarrow> length runs | None \<Rightarrow> 0"
    have cs: "\<forall>c \<in> set (sg_connections grp). c \<in> conns_of g" using group_connections [OF grp] by blast
    have sh: "wshape we = sshape wes" using assms(4) by (simp add: s)
    obtain we' wes' where "fold_res (add_waiting rd (n_name n) ?ri) (sg_connections grp) (we, wes) = Inr (we', wes')"
      "wshape we' = sshape wes'"
      using add_waiting_total [OF assms(1) cs sh, of "n_name n" ?ri] by (elim exE conjE) (rule that)
    then show ?thesis using False s assms(4) by (auto simp: add_group_def Let_def)
  qed
qed

lemma add_start_node_ok:
  assumes "dg_wf g" and "is_member g n" and "readable g rd" and "n \<in> N" and "stack_ok N s"
  shows "\<exists>s'. add_start_node lc g rd pd n s = Inr s' \<and> stack_ok N s' \<and> stack_le s s'
    \<and> (ready lc g rd pd n \<longrightarrow> n \<in> ed_node ` set (fst s'))"
proof -
  obtain stack we wes where s: "s = (stack, we, wes)" by (cases s)
  let ?ps = "filter (\<lambda>c. g_to c = n) (ovals (dg_connections g))"
  have parents: "getDirectParentConnections g n = Inr ?ps"
    using assms(2) by (simp add: getDirectParentConnections_def)
  have no_main: "filter (\<lambda>c. g_type c = Main_t) ?ps = [] \<longleftrightarrow> (\<forall>c \<in> conns_of g. g_to c = n \<longrightarrow> g_type c \<noteq> Main_t)"
    by (auto simp: conns_of_def filter_empty_conv)
  show ?thesis
  proof (cases "filter (\<lambda>c. g_type c = Main_t) ?ps = []")
    case True
    then show ?thesis using assms(4,5) s parents by (auto simp: add_start_node_def)
  next
    case False
    let ?f = "add_group rd pd n" and ?gs = "getSourceDataGroups lc g n rd pd"
    have step: "\<forall>grp t. grp \<in> set ?gs \<longrightarrow> stack_ok N t \<longrightarrow> (\<exists>s'. ?f grp t = Inr s' \<and> stack_ok N s' \<and> stack_le t s')"
      using add_group_ok [OF assms(3,4)] by blast
    obtain s' where s': "fold_res ?f ?gs s = Inr s'" "stack_ok N s'" "stack_le s s'"
      and each: "\<forall>grp \<in> set ?gs. \<exists>s1 s2. stack_ok N s1 \<and> stack_le s s1 \<and> ?f grp s1 = Inr s2 \<and> stack_le s2 s'"
      using stack_fold_total [where P = "stack_ok N" and f = ?f and xs = ?gs, OF assms(5) step] by (elim exE conjE) (rule that)
    have "n \<in> ed_node ` set (fst s')" if r: "ready lc g rd pd n"
    proof -
      from r False no_main obtain grp where grp: "grp \<in> set ?gs" "sg_complete grp" by (auto simp: ready_def)
      with each obtain s1 s2 where "stack_ok N s1" "?f grp s1 = Inr s2" "stack_le s2 s'" by blast
      with add_group_ok [OF assms(3,4) grp(1), of s1] grp(2) show ?thesis by auto
    qed
    with s' False parents show ?thesis by (auto simp: add_start_node_def)
  qed
qed

lemma recreate_total:
  assumes "dg_wf g" and "list_all (is_member g) ns" and "readable g rd"
    and "list_all (\<lambda>n. \<not> is_disabled n) (ovals (dg_nodes g))"
  shows "\<exists>s. recreateNodeExecutionStack lc g ns rd pd = Inr s \<and> stack_ok (set ns) s
    \<and> {n \<in> set ns. ready lc g rd pd n} \<subseteq> ed_node ` set (fst s)"
proof -
  let ?f = "add_start_node lc g rd pd"
  have mem: "is_member g n" if "n \<in> set ns" for n using assms(2) that by (simp add: list_all_iff)
  have step: "\<forall>n s. n \<in> set ns \<longrightarrow> stack_ok (set ns) s \<longrightarrow> (\<exists>s'. ?f n s = Inr s' \<and> stack_ok (set ns) s' \<and> stack_le s s')"
    using add_start_node_ok [OF assms(1) mem assms(3)] by blast
  have "stack_ok (set ns) ([], [], [])" by (simp add: wshape_def sshape_def)
  from stack_fold_total [where P = "stack_ok (set ns)" and f = ?f and xs = ns, OF this step]
  obtain s where s: "fold_res ?f ns ([], [], []) = Inr s" "stack_ok (set ns) s"
    and each: "\<forall>n \<in> set ns. \<exists>s1 s2. stack_ok (set ns) s1 \<and> stack_le ([], [], []) s1 \<and> ?f n s1 = Inr s2 \<and> stack_le s2 s"
    by (elim exE conjE) (rule that)
  have "n \<in> ed_node ` set (fst s)" if n: "n \<in> set ns" "ready lc g rd pd n" for n
  proof -
    from each n(1) obtain s1 s2 where "stack_ok (set ns) s1" "?f n s1 = Inr s2" "stack_le s2 s" by blast
    with add_start_node_ok [OF assms(1) mem [OF n(1)] assms(3) n(1), of s1 lc pd] n(2) show ?thesis by auto
  qed
  moreover have "List.find is_disabled (ovals (getNodes g)) = None"
    using assms(4) unfolding find_None_iff by (auto simp: list_all_iff getNodes_def)
  ultimately show ?thesis using s by (auto simp: recreateNodeExecutionStack_def)
qed



section \<open>Where the recreated stack is not the one of a full run\<close>

text \<open>
  Node c takes input 0 from a and input 1 from b.  Run data of a has no items on the
  output, run data of b has one.
\<close>

definition merge_graph :: directed_graph where
  "merge_graph = \<lparr>dg_nodes = [(''a'', n_a), (''b'', n_b), (''c'', n_c)],
     dg_connections = [(makeKey (gconn n_a n_c), gconn n_a n_c),
       (makeKey ((gconn n_b n_c)\<lparr>g_inputIndex := 1\<rparr>), (gconn n_b n_c)\<lparr>g_inputIndex := 1\<rparr>)]\<rparr>"

definition no_items_task :: task_data where
  "no_items_task = some_task\<lparr>td_data := Some [(Main_t, [Val []])]\<rparr>"

text \<open>
  Counterexample: if an earlier input's source ran but put no items on the output, the
  entry recreated for a merging node has its data one input too early (the item of b, which is
  connected to input 1, is at input 0) and lists two sources for one data set, so that the
  data is attributed to a.
\<close>

theorem recreated_data_misaligned:
  "recreateNodeExecutionStack (\<lambda>_ _. 0) merge_graph [n_c] [(''a'', [no_items_task]), (''b'', [some_task])] [] =
     Inr ([\<lparr>ed_data = [(Main_t, [Val [empty_item]])], ed_metadata = None, ed_node = n_c,
            ed_source = Some [(Main_t,
              [Some \<lparr>sd_previousNode = ''a'', sd_previousNodeOutput = Some 0, sd_previousNodeRun = Some 0\<rparr>,
               Some \<lparr>sd_previousNode = ''b'', sd_previousNodeOutput = Some 0, sd_previousNodeRun = Some 0\<rparr>])],
            ed_runIndex = None\<rparr>], [], [])"
  by code_simp

text \<open>
  Inputs 0 and 2 of one node, input 1 not connected: the two sources have data, but the gap
  splits them into two complete groups, and the node is put on the stack twice.
\<close>

lemma gap_splits_groups:
  "map sg_complete (getSourceDataGroups (\<lambda>_ _. 0)
     (merge_graph\<lparr>dg_connections := [(''x'', gconn n_a n_c), (''y'', (gconn n_b n_c)\<lparr>g_inputIndex := 2\<rparr>)]\<rparr>)
     n_c [(''a'', [some_task]), (''b'', [some_task])] []) = [True, True]"
  by code_simp

text \<open>The pinned data of a source is not used for an incomplete group.\<close>

lemma pinned_data_ignored:
  "recreateNodeExecutionStack (\<lambda>_ _. 0) merge_graph [n_c] [] [(''b'', [empty_item])] = Inr ([], [], [])"
  by code_simp

end
