(* ===== verification/EngineRun.thy ===== *)
theory EngineRun
  imports ExecutionLoop ExecutionStack
begin

text \<open>
  A whole execution (\<^verbatim>\<open>workflow-execute.ts\<close>): the loop over the stack, what happens before and
  after it, and the two ways to start one, \<^verbatim>\<open>run\<close> and \<^verbatim>\<open>runPartialWorkflow2\<close>.  The loop need not
  end (a workflow may have cycles): it has fuel, one unit for each iteration, and \<^verbatim>\<open>None\<close> means
  that the fuel did not suffice.  The loop is also given as a step relation, in which a
  cancellation may come between two iterations; \<^verbatim>\<open>no_aborted\<close> of a node's answer is one that
  comes while a node runs.  The hooks other than the first are taken not to throw.
\<close>

section \<open>The loop\<close>

fun run_loop :: "env \<Rightarrow> nat \<Rightarrow> engine \<Rightarrow> iteration option" where
  "run_loop env fuel s =
     (if en_stack s = [] then Some (Finished s)
      else case fuel of
          0 \<Rightarrow> None
        | Suc fuel' \<Rightarrow> (case iterate env s of
            Continue s' \<Rightarrow> run_loop env fuel' s'
          | result \<Rightarrow> Some result))"

declare run_loop.simps [simp del]

inductive loop_step :: "env \<Rightarrow> engine \<Rightarrow> engine \<Rightarrow> bool" for env where
  "loop_step env s s'" if "en_stack s \<noteq> []" and "iterate env s = Continue s'"

inductive engine_step :: "env \<Rightarrow> engine \<Rightarrow> engine \<Rightarrow> bool" for env where
  Iterate: "engine_step env s s'" if "loop_step env s s'"
| Cancel: "engine_step env s (onCancel s)" if "\<not> en_aborted s"

inductive engine_end :: "env \<Rightarrow> engine \<Rightarrow> iteration \<Rightarrow> bool" for env where
  Empty_stack: "engine_end env s (Finished s)" if "en_stack s = []"
| Stops: "engine_end env s (Finished s')" if "en_stack s \<noteq> []" and "iterate env s = Finished s'"
| Throws: "engine_end env s (Threw e s')" if "en_stack s \<noteq> []" and "iterate env s = Threw e s'"

inductive_cases loop_stepE: "loop_step env s s'"
inductive_cases engine_stepE: "engine_step env s s'"
inductive_simps engine_end_Finished: "engine_end env s (Finished s')"
  and engine_end_Threw: "engine_end env s (Threw e s')"
  and engine_end_Continue: "engine_end env s (Continue s')"

inductive reachable :: "env \<Rightarrow> engine \<Rightarrow> engine \<Rightarrow> bool" for env where
  Here: "reachable env s s"
| Later: "reachable env s s''" if "reachable env s s'" and "engine_step env s' s''"

section \<open>The end of an execution\<close>

text \<open>\<^verbatim>\<open>s.includes(p)\<close>\<close>

fun text_includes :: "string \<Rightarrow> string \<Rightarrow> bool" where
  "text_includes p [] = (p = [])"
| "text_includes p (c # cs) = (starts_with p (c # cs) \<or> text_includes p cs)"

text \<open>
  What a run resolves to.  Its data are those of the execution itself, so they are the final
  ones; status, end marker and waiting time are taken when the record is made.
\<close>

record irun =
  ir_data :: engine
  ir_status :: execution_status
  ir_finished :: bool
  ir_waitTill :: "int option"

definition getFullRunData :: "engine \<Rightarrow> irun" where
  "getFullRunData s = \<lparr>ir_data = s, ir_status = en_status s, ir_finished = False, ir_waitTill = None\<rparr>"

definition TimeoutExecutionCancelledError :: js_error where
  "TimeoutExecutionCancelledError =
     JsError ''TimeoutExecutionCancelledError'' ''The execution was cancelled because it timed out'' None"

definition ManualExecutionCancelledError :: js_error where
  "ManualExecutionCancelledError =
     JsError ''ManualExecutionCancelledError'' ''The execution was cancelled manually'' None"

text \<open>
  The name of an error counts where it is a property of the error itself, as it is for the
  classes that derive from \<^verbatim>\<open>ExecutionBaseError\<close>.
\<close>

definition is_cancellation :: "js_error \<Rightarrow> bool" where
  "is_cancellation e \<longleftrightarrow> text_includes ''canceled'' (err_message e) \<or> text_includes ''Cancelled'' (err_name e)"

definition final_status :: "js_error option \<Rightarrow> engine \<Rightarrow> execution_status" where
  "final_status executionError s =
     (case executionError of
        Some e \<Rightarrow> if is_cancellation e then Canceled else Error_status
      | None \<Rightarrow> if en_waitTill s \<noteq> None then Waiting else Success)"

definition processSuccessExecution :: "js_error option \<Rightarrow> engine \<Rightarrow> irun" where
  "processSuccessExecution executionError s =
     (let s = moveNodeMetadata (s\<lparr>en_status := final_status executionError s\<rparr>);
          full = getFullRunData s;
          full = (case executionError of
              Some e \<Rightarrow> full\<lparr>ir_data := s\<lparr>en_error := Some e\<rparr>\<rparr>
            | None \<Rightarrow> if en_waitTill s \<noteq> None then full\<lparr>ir_waitTill := en_waitTill s\<rparr> else full\<lparr>ir_finished := True\<rparr>)
      in if en_aborted s then full
         else full\<lparr>ir_data := emit (WorkflowExecuteAfter (ir_status full)) (ir_data full)\<rparr>)"

text \<open>The loop or the start has thrown; the status stays what it was.\<close>

definition processRejection :: "js_error \<Rightarrow> engine \<Rightarrow> irun" where
  "processRejection e s =
     (let full = getFullRunData s;
          s = moveNodeMetadata (s\<lparr>en_error := Some e\<rparr>)
      in full\<lparr>ir_data := emit (WorkflowExecuteAfter (ir_status full)) s\<rparr>)"

definition cancellation_error :: "engine \<Rightarrow> js_error option" where
  "cancellation_error s =
     (if en_status s = Canceled \<and> en_executionError s = None
      then Some (if en_timedOut s then TimeoutExecutionCancelledError else ManualExecutionCancelledError)
      else en_executionError s)"

fun settle :: "iteration \<Rightarrow> irun" where
  "settle (Finished s) = processSuccessExecution (cancellation_error s) s"
| "settle (Threw e s) = processRejection e s"
| "settle (Continue s) = processSuccessExecution (cancellation_error s) s"

section \<open>The start of an execution\<close>

definition setupExecution :: "engine \<Rightarrow> engine" where
  "setupExecution s =
     s\<lparr>en_status := Running, en_startData := Some (or_else (en_startData s) empty_start_data)\<rparr>"

definition workflow_issues :: "env \<Rightarrow> engine \<Rightarrow> (string, node_issues) omap option" where
  "workflow_issues env s =
     checkReadyForExecution (e_types env) (e_issuesOf env) (en_workflow s)
       (map_option (n_name \<circ> ed_node) (array_get (en_stack s) 0))
       (case en_startData s of None \<Rightarrow> None | Some sd \<Rightarrow> st_destinationNode sd)
       (okeys (or_else (en_pinData s) []))"

definition checkForWorkflowIssues :: "env \<Rightarrow> engine \<Rightarrow> engine run" where
  "checkForWorkflowIssues env s =
     (case workflow_issues env s of
        Some issues \<Rightarrow> raised (JsError ''WorkflowHasIssuesError'' (e_issuesText env issues) None) s
      | None \<Rightarrow> normal s)"

text \<open>
  The execution context or the first hook has thrown: the first node of the stack is recorded
  as the one that failed, in place of all that was known before.
\<close>

definition failed_start :: "env \<Rightarrow> js_error \<Rightarrow> engine \<Rightarrow> iteration" where
  "failed_start env e s =
     (let s = s\<lparr>en_executionError := Some e\<rparr>
      in case en_stack s of
           [] \<Rightarrow> Threw undefined_error s
         | ed # _ \<Rightarrow>
             (case read_clock env s of (s, now) \<Rightarrow>
               (let name = n_name (ed_node ed);
                    taskData = (started_task (Some 0) [])\<lparr>td_startTime := now,
                      td_executionStatus := Some Error_status,
                      td_data := Some (case map_of (ed_data ed) Main_t of Some main \<Rightarrow> [(Main_t, main)] | None \<Rightarrow> [])\<rparr>
                in Threw e (s\<lparr>en_runData := [(name, [taskData])], en_pinData := None,
                     en_lastNodeExecuted := Some name, en_error := Some e\<rparr>))))"

text \<open>The variables of the loop.\<close>

definition fresh_variables :: "engine \<Rightarrow> engine" where
  "fresh_variables s = s\<lparr>en_executionError := None, en_closeFunction := False, en_lastTry := []\<rparr>"

definition execution_begins :: "env \<Rightarrow> engine \<Rightarrow> engine" where
  "execution_begins env s = emit (if e_restart env then WorkflowExecuteResume else WorkflowExecuteBefore) s"

definition processRunExecutionData :: "env \<Rightarrow> nat \<Rightarrow> js_error option \<Rightarrow> engine \<Rightarrow> irun option res" where
  "processRunExecutionData env fuel startError s =
     (case and_then (checkForWorkflowIssues env (setupExecution s)) handleWaitingState of
        (s, Some e) \<Rightarrow> Inl e
      | (s, None) \<Rightarrow>
          (let s = fresh_variables s
           in Inr (map_option settle (case startError of
                Some e \<Rightarrow> Some (failed_start env e s)
              | None \<Rightarrow> run_loop env fuel (execution_begins env s)))))"

text \<open>The fields of the run execution data.\<close>

definition load_run_data :: "run_execution_data_v1 \<Rightarrow> engine \<Rightarrow> engine" where
  "load_run_data rx s =
     (let r = rx_resultData rx;
          s = s\<lparr>en_startData := rx_startData rx, en_error := rs_error r, en_runData := or_else (rs_runData r) [],
                en_pinData := rs_pinData r, en_lastNodeExecuted := rs_lastNodeExecuted r, en_waitTill := rx_waitTill rx\<rparr>
      in case rx_executionData rx of
           None \<Rightarrow> s\<lparr>en_stack := [], en_metadata := [], en_waiting := [], en_waitingSource := None\<rparr>
         | Some x \<Rightarrow> s\<lparr>en_stack := ex_nodeExecutionStack x, en_metadata := ex_metadata x,
             en_waiting := ex_waitingExecution x, en_waitingSource := ex_waitingExecutionSource x\<rparr>)"

text \<open>The object as it is constructed, with the data of \<^verbatim>\<open>createRunExecutionData()\<close>.\<close>

definition new_engine :: "workflow \<Rightarrow> engine" where
  "new_engine w = load_run_data (createRunExecutionData [] no_create_options)
     \<lparr>en_workflow = w, en_status = New, en_timedOut = False, en_aborted = False, en_startData = None,
      en_error = None, en_runData = [], en_pinData = None, en_lastNodeExecuted = None, en_stack = [],
      en_metadata = [], en_waiting = [], en_waitingSource = None, en_waitTill = None, en_executionIndex = 0,
      en_usedDynamic = False, en_attemptedDynamic = False, en_executionError = None, en_closeFunction = False,
      en_lastTry = [], en_calls = 0, en_reads = 0, en_events = []\<rparr>"

section \<open>Running a workflow\<close>

record run_options =
  op_startNode :: "inode option"
  op_destinationNode :: "destination_node option"
  op_pinData :: "pin_data option"
  op_triggerData :: "task_data_connections option"
  op_additionalRunFilterNodes :: "string list"

definition run_node_filter :: "workflow \<Rightarrow> destination_node \<Rightarrow> string list \<Rightarrow> string list" where
  "run_node_filter w d additional =
     set_of_list (w_getParentNodes w (d_nodeName d) (Of_type Main_t) (-1)
       @ w_getParentNodes w (d_nodeName d) All_non_main (-1)
       @ (if d_mode d = Inclusive then [d_nodeName d] else [])
       @ additional)"

definition start_entry :: "inode \<Rightarrow> task_data_connections option \<Rightarrow> execute_data" where
  "start_entry startNode triggerData =
     \<lparr>ed_data = or_else triggerData [(Main_t, [Val [empty_item]])], ed_metadata = None, ed_node = startNode,
      ed_source = None, ed_runIndex = None\<rparr>"

definition new_run_data :: "string \<Rightarrow> run_options \<Rightarrow> workflow \<Rightarrow> inode \<Rightarrow> run_execution_data_v1" where
  "new_run_data token ops w startNode =
     createRunExecutionData token (no_create_options\<lparr>
       co_startData := Some (empty_start_data\<lparr>st_destinationNode := op_destinationNode ops,
         st_runNodeFilter := map_option (\<lambda>d. run_node_filter w d (op_additionalRunFilterNodes ops)) (op_destinationNode ops)\<rparr>),
       co_executionData := Val (no_execution_options\<lparr>
         eo_nodeExecutionStack := Some [start_entry startNode (op_triggerData ops)]\<rparr>),
       co_resultData := Some (no_result_options\<lparr>ro_pinData := op_pinData ops\<rparr>)\<rparr>)"

text \<open>\<^verbatim>\<open>Inr None\<close> also where the search for the start node does not return.\<close>

definition run :: "env \<Rightarrow> nat \<Rightarrow> string \<Rightarrow> js_error option \<Rightarrow> run_options \<Rightarrow> engine \<Rightarrow> irun option res" where
  "run env fuel token startError ops s =
     (let s = s\<lparr>en_status := Running\<rparr>; w = en_workflow s
      in case (case op_startNode ops of
            Some n \<Rightarrow> Some (Inr (Some n))
          | None \<Rightarrow> getStartNode (e_types env) w (map_option d_nodeName (op_destinationNode ops))) of
           None \<Rightarrow> Inr None
         | Some found \<Rightarrow> bind_res found (\<lambda>startNode.
             case startNode of
               None \<Rightarrow> Inl (UserError ''No node to start the workflow from could be found'')
             | Some node \<Rightarrow>
                 processRunExecutionData env fuel startError (load_run_data (new_run_data token ops w node) s)))"

section \<open>Running a part of a workflow\<close>

text \<open>\<^verbatim>\<open>NodeHelpers.isTool\<close>; an output given by its name decides at once.\<close>

fun has_tool_output :: "node_io list \<Rightarrow> bool" where
  "has_tool_output [] = False"
| "has_tool_output (Io_type ty # _) = (ty = AiTool_t)"
| "has_tool_output (Io_config ty # ios) = (ty = AiTool_t \<or> has_tool_output ios)"

definition isTool :: "node_type \<Rightarrow> data_object \<Rightarrow> bool" where
  "isTool nt parameters =
     (if text_includes ''vectorStore'' (nt_name nt) then map_of parameters ''mode'' = Some (JStr ''retrieve-as-tool'')
      else case nt_outputs nt of Io_list ios \<Rightarrow> has_tool_output ios | Io_expr _ \<Rightarrow> False)"

text \<open>
  The constructor of \<^verbatim>\<open>Workflow\<close> fills in the default parameters of the node objects, which
  the graph shares.
\<close>

definition fill_parameters ::
    "node_types \<Rightarrow> (node_type \<Rightarrow> inode \<Rightarrow> data_object option) \<Rightarrow> directed_graph \<Rightarrow> directed_graph" where
  "fill_parameters types getNodeParameters g =
     (let f = default_parameters types getNodeParameters
      in \<lparr>dg_nodes = map (\<lambda>(k, n). (k, f n)) (dg_nodes g),
          dg_connections = map (\<lambda>(k, c). (k, c\<lparr>g_from := f (g_from c), g_to := f (g_to c)\<rparr>)) (dg_connections g)\<rparr>)"

definition toWorkflow ::
    "node_types \<Rightarrow> (node_type \<Rightarrow> inode \<Rightarrow> data_object option) \<Rightarrow> workflow \<Rightarrow> directed_graph \<Rightarrow> workflow res" where
  "toWorkflow types getNodeParameters w graph =
     bind_res (toIConnections graph) (\<lambda>conns.
       Inr (new_workflow types getNodeParameters
         \<lparr>wp_nodes = ovals (dg_nodes graph), wp_connections = conns, wp_active = w_active w,
          wp_settings = Some (w_settings w), wp_pinData = w_pinData w\<rparr>))"

text \<open>The request of an agent: the query as JSON text and the name of the tool.\<close>

record tool_rewiring =
  tr_fresh_ref :: nat
  tr_query :: string
  tr_toolName :: string

record partial_target =
  pt_workflow :: workflow
  pt_graph :: directed_graph
  pt_destination :: inode
  pt_destinationNode :: destination_node

definition rewire_tool ::
    "env \<Rightarrow> (node_type \<Rightarrow> inode \<Rightarrow> data_object option) \<Rightarrow> tool_rewiring \<Rightarrow> partial_target \<Rightarrow> partial_target res" where
  "rewire_tool env getNodeParameters request t =
     bind_res (type_of_node (e_types env) (pt_destination t)) (\<lambda>nt.
       if \<not> isTool nt (n_parameters (pt_destination t)) then Inr t
       else bind_res (rewireGraph (tr_fresh_ref request) (tr_query request) (tr_toolName request)
              (pt_destination t) (pt_graph t)) (\<lambda>(graph, _).
         bind_res (toWorkflow (e_types env) getNodeParameters (pt_workflow t) graph) (\<lambda>w.
           case getNode w TOOL_EXECUTOR_NODE_NAME of
             None \<Rightarrow> Inl (OperationalError ''ToolExecutor can not be found'')
           | Some toolExecutorNode \<Rightarrow>
               Inr \<lparr>pt_workflow = w, pt_graph = fill_parameters (e_types env) getNodeParameters graph,
                    pt_destination = toolExecutorNode,
                    pt_destinationNode = \<lparr>d_nodeName = n_name toolExecutorNode, d_mode = Inclusive\<rparr>\<rparr>)))"

text \<open>The closest parent with run data, where there is no trigger to start from.\<close>

definition parent_with_data :: "workflow \<Rightarrow> run_data \<Rightarrow> string \<Rightarrow> inode option" where
  "parent_with_data w runData nodeName =
     (case List.find (\<lambda>name. case getNode w name of
           Some n \<Rightarrow> \<not> is_disabled n \<and> has_key runData name | None \<Rightarrow> False)
         (w_getParentNodes w nodeName (Of_type Main_t) (-1)) of
        Some name \<Rightarrow> getNode w name | None \<Rightarrow> None)"

definition choose_trigger :: "env \<Rightarrow> workflow \<Rightarrow> run_data \<Rightarrow> string \<Rightarrow> inode res" where
  "choose_trigger env w runData nodeName =
     bind_res (findTriggerForPartialExecution (e_types env) w nodeName runData) (\<lambda>trigger.
       case trigger of
         Some t \<Rightarrow> Inr t
       | None \<Rightarrow> (case parent_with_data w runData nodeName of
           Some n \<Rightarrow> Inr n
         | None \<Rightarrow> Inl (UserError ''Connect a trigger and make sure it's enabled to run this node'')))"

record partial_plan =
  pp_filter :: "string list"
  pp_runData :: run_data
  pp_stack :: "execute_data list"
  pp_waiting :: waiting_execution
  pp_waitingSource :: waiting_execution_source

text \<open>Steps 2 to 7: subgraph, start nodes, cycles, run data and stack.\<close>

definition plan_partial ::
    "(string \<Rightarrow> string \<Rightarrow> int) \<Rightarrow> directed_graph \<Rightarrow> inode \<Rightarrow> inode \<Rightarrow> run_data \<Rightarrow> pin_data \<Rightarrow> string list \<Rightarrow> partial_plan res" where
  "plan_partial lc graph destination trigger runData pinData dirtyNodeNames =
     bind_res (filterDisabledNodes graph) (\<lambda>filteredGraph.
       if is_disabled destination then Inl (UserError ''Cannot execute a disabled node'')
       else bind_res (findSubgraph filteredGraph destination trigger) (\<lambda>graph.
         bind_res (cleanRunData runData graph (getNodesByNames graph dirtyNodeNames)) (\<lambda>runData.
         bind_res (findStartNodes graph trigger destination pinData runData) (\<lambda>startNodes.
         bind_res (handleCycles graph startNodes trigger) (\<lambda>startNodes.
         bind_res (cleanRunData runData graph startNodes) (\<lambda>runData.
         bind_res (recreateNodeExecutionStack lc graph startNodes runData pinData) (\<lambda>(stack, waiting, waitingSource).
           Inr \<lparr>pp_filter = map n_name (ovals (getNodes graph)), pp_runData = runData, pp_stack = stack,
                pp_waiting = waiting, pp_waitingSource = waitingSource\<rparr>)))))))"

definition partial_execution_data ::
    "string \<Rightarrow> destination_node \<Rightarrow> destination_node \<Rightarrow> pin_data \<Rightarrow> partial_plan \<Rightarrow> run_execution_data_v1" where
  "partial_execution_data token destinationNode originalDestination pinData plan =
     createRunExecutionData token (no_create_options\<lparr>
       co_startData := Some (empty_start_data\<lparr>st_destinationNode := Some destinationNode,
         st_originalDestinationNode := Some originalDestination, st_runNodeFilter := Some (pp_filter plan)\<rparr>),
       co_resultData := Some (no_result_options\<lparr>ro_runData := Val (pp_runData plan), ro_pinData := Some pinData\<rparr>),
       co_executionData := Val (no_execution_options\<lparr>eo_nodeExecutionStack := Some (pp_stack plan),
         eo_waitingExecution := Some (pp_waiting plan), eo_waitingExecutionSource := Some (pp_waitingSource plan)\<rparr>)\<rparr>)"

text \<open>The state in which the partial execution is handed to the loop.\<close>

definition prepare_partial ::
    "env \<Rightarrow> (node_type \<Rightarrow> inode \<Rightarrow> data_object option) \<Rightarrow> (string \<Rightarrow> string \<Rightarrow> int) \<Rightarrow> tool_rewiring \<Rightarrow> string \<Rightarrow>
     run_data \<Rightarrow> pin_data \<Rightarrow> string list \<Rightarrow> destination_node \<Rightarrow> engine \<Rightarrow> engine res" where
  "prepare_partial env getNodeParameters lc request token runData pinData dirtyNodeNames destinationNode s =
     (let w = en_workflow s
      in case getNode w (d_nodeName destinationNode) of
           None \<Rightarrow> Inl (AssertionError (''Could not find a node with the name '' @ d_nodeName destinationNode @ '' in the workflow.''))
         | Some destination \<Rightarrow>
             bind_res (fromWorkflow (w_nodes w) (w_connectionsBySourceNode w)) (\<lambda>graph.
             bind_res (rewire_tool env getNodeParameters request
               \<lparr>pt_workflow = w, pt_graph = graph, pt_destination = destination, pt_destinationNode = destinationNode\<rparr>) (\<lambda>t.
             bind_res (choose_trigger env (pt_workflow t) runData (d_nodeName (pt_destinationNode t))) (\<lambda>trigger.
             bind_res (plan_partial lc (pt_graph t) (pt_destination t) trigger runData pinData dirtyNodeNames) (\<lambda>plan.
               Inr (load_run_data (partial_execution_data token (pt_destinationNode t) destinationNode pinData plan)
                 (s\<lparr>en_workflow := pt_workflow t, en_status := Running,
                    en_executionIndex := getNextExecutionIndex (pp_runData plan)\<rparr>)))))))"

definition runPartialWorkflow2 ::
    "env \<Rightarrow> nat \<Rightarrow> (node_type \<Rightarrow> inode \<Rightarrow> data_object option) \<Rightarrow> (string \<Rightarrow> string \<Rightarrow> int) \<Rightarrow> tool_rewiring \<Rightarrow> string \<Rightarrow>
     js_error option \<Rightarrow> run_data \<Rightarrow> pin_data \<Rightarrow> string list \<Rightarrow> destination_node \<Rightarrow> engine \<Rightarrow> irun option res" where
  "runPartialWorkflow2 env fuel getNodeParameters lc request token startError runData pinData dirtyNodeNames destinationNode s =
     bind_res (prepare_partial env getNodeParameters lc request token runData pinData dirtyNodeNames destinationNode s)
       (processRunExecutionData env fuel startError)"

end
