(* ===== verification/EngineFrame.thy ===== *)
theory EngineFrame
  imports EngineRun
begin

text \<open>
  What the parts of an iteration leave alone.  The run of a node touches neither the queues
  (the stack and the waiting nodes) nor the trace of started nodes; the scheduling touches
  the queues only.  The effect of a whole iteration is stated once, as the few ways in which
  it can go on.
\<close>

section \<open>What is left alone\<close>

definition topology :: "workflow \<Rightarrow> iconnections \<times> iconnections \<times> workflow_settings \<times> (string \<times> string) list" where
  "topology w = (w_connectionsBySourceNode w, w_connectionsByDestinationNode w, w_settings w,
     map (\<lambda>(k, n). (k, n_name n)) (w_nodes w))"

fun start_of :: "hook_event \<Rightarrow> (string \<times> nat) option" where
  "start_of (NodeExecuteBefore name i) = Some (name, i)"
| "start_of _ = None"

definition node_starts :: "engine \<Rightarrow> (string \<times> nat) list" where
  "node_starts s = List.map_filter start_of (en_events s)"

definition queues :: "engine \<Rightarrow> workflow \<times> execute_data list \<times> waiting_execution \<times> waiting_execution_source option" where
  "queues s = (en_workflow s, en_stack s, en_waiting s, en_waitingSource s)"

definition fixed :: "engine \<Rightarrow> destination_node start_data option \<times> pin_data option \<times> nat \<times> (string \<times> nat) list" where
  "fixed s = (en_startData s, en_pinData s, en_executionIndex s, node_starts s)"

definition frame ::
    "engine \<Rightarrow> (workflow \<times> execute_data list \<times> waiting_execution \<times> waiting_execution_source option) \<times>
      (destination_node start_data option \<times> pin_data option \<times> nat \<times> (string \<times> nat) list)" where
  "frame s = (queues s, fixed s)"

lemmas frame_defs = frame_def queues_def fixed_def

lemma node_starts_simps [simp]:
  "node_starts (emit ev s) = node_starts s @ (case start_of ev of None \<Rightarrow> [] | Some x \<Rightarrow> [x])"
  by (simp add: node_starts_def emit_def map_filter_def split: option.splits)

lemma node_starts_cong: "en_events s = en_events t \<Longrightarrow> node_starts s = node_starts t"
  by (simp add: node_starts_def)

lemma onCancel_frame [simp]: "frame (onCancel s) = frame s"
proof -
  have "node_starts ((updateTaskStatusesToCancelled (s\<lparr>en_status := Canceled\<rparr>))\<lparr>en_aborted := True\<rparr>) = node_starts s"
    by (rule node_starts_cong) (simp add: updateTaskStatusesToCancelled_def)
  then show ?thesis
    by (simp add: frame_defs onCancel_def) (simp add: emit_def updateTaskStatusesToCancelled_def)
qed

lemma call_node_frame: "call_node env call s = (s', o') \<Longrightarrow> frame s' = frame s"
  by (auto simp: call_node_def Let_def frame_defs node_starts_def split: if_splits option.splits)
    (simp_all add: onCancel_frame [unfolded frame_defs node_starts_def, simplified])

lemma read_clock_frame: "read_clock env s = (s', t) \<Longrightarrow> frame s' = frame s"
  by (auto simp: read_clock_def frame_defs node_starts_def)

lemma executeNode_frame: "executeNode env call s = (s', r) \<Longrightarrow> frame s' = frame s"
  by (auto simp: executeNode_def split: prod.splits node_answer.splits option.splits dest: call_node_frame)

lemma executePollNode_frame: "executePollNode env call s = (s', r) \<Longrightarrow> frame s' = frame s"
  by (auto simp: executePollNode_def split: prod.splits node_answer.splits if_splits dest: call_node_frame)

lemma executeTriggerNode_frame: "executeTriggerNode env call s = (s', r) \<Longrightarrow> frame s' = frame s"
  by (auto simp: executeTriggerNode_def split: prod.splits node_answer.splits option.splits if_splits dest: call_node_frame)

lemma executeDeclarative_frame: "executeDeclarativeNodeInTest env call s = (s', r) \<Longrightarrow> frame s' = frame s"
  by (auto simp: executeDeclarativeNodeInTest_def split: prod.splits node_answer.splits dest: call_node_frame)

lemma runNode_frame: "runNode env ed runIndex response s = (s', r) \<Longrightarrow> frame s' = frame s"
  unfolding runNode_def Let_def
  by (auto split: option.splits if_splits
      dest: executeNode_frame executePollNode_frame executeTriggerNode_frame executeDeclarative_frame)

lemma rerun_failed_frame: "rerun_failed env ed runIndex tries t s r = ((s', t'), r') \<Longrightarrow> frame s' = frame s"
proof (induction env ed runIndex tries t s r rule: rerun_failed.induct)
  case (1 env ed runIndex tries t s r)
  show ?case
  proof (cases "checkFailure r \<and> t < tries - 1")
    case True
    obtain s1 r1 where run: "runNode env ed runIndex None s = (s1, r1)" by fastforce
    note frame1 = runNode_frame [OF run]
    show ?thesis
    proof (cases r1)
      case (Inl e)
      with 1(2) True run frame1 show ?thesis by (simp add: rerun_failed.simps [of env ed runIndex tries t s r])
    next
      case (Inr x)
      with 1(2) True run have "rerun_failed env ed runIndex tries (Suc t) s1 x = ((s', t'), r')"
        by (simp add: rerun_failed.simps [of env ed runIndex tries t s r])
      with 1(1) True run Inr frame1 show ?thesis by metis
    qed
  next
    case False
    with 1(2) show ?thesis by (auto simp: rerun_failed.simps [of env ed runIndex tries t s r])
  qed
qed

lemma base_task_frame: "base_task env ed start i hints s = (s', td) \<Longrightarrow> frame s' = frame s"
  by (auto simp: base_task_def split: prod.splits dest: read_clock_frame)

lemma record_task_frame [simp]: "frame (record_task name i td s) = frame s"
  by (simp add: record_task_def Let_def frame_defs node_starts_def)

lemma ensure_runs_frame [simp]: "frame (ensure_runs name s) = frame s"
  by (simp add: ensure_runs_def frame_defs node_starts_def)

lemma check_timeout_frame [simp]: "frame (check_timeout env s) = frame s"
proof -
  obtain s1 t where "read_clock env s = (s1, t)" by fastforce
  with read_clock_frame [OF this] show ?thesis
    by (simp add: check_timeout_def frame_defs node_starts_def split: option.splits)
qed

section \<open>The tries\<close>

definition requests :: "env \<Rightarrow> bool" where
  "requests env \<longleftrightarrow> (\<exists>k call request. no_answer (e_behaviour env k call) = Requested request)"

lemma executeNode_request: "executeNode env call s = (s', Inr (Run_request r)) \<Longrightarrow> requests env"
  by (auto simp: executeNode_def call_node_def requests_def Let_def
      split: prod.splits node_answer.splits option.splits)

lemma runNode_request: "runNode env ed runIndex response s = (s', Inr (Run_request r)) \<Longrightarrow> requests env"
  unfolding runNode_def Let_def
  by (auto simp: executePollNode_def executeTriggerNode_def executeDeclarativeNodeInTest_def
      split: option.splits if_splits prod.splits node_answer.splits dest: executeNode_request)

lemma rerun_failed_request:
  "rerun_failed env ed runIndex tries t s r = ((s', t'), Inr (Run_request q)) \<Longrightarrow> r = Run_request q \<or> requests env"
proof (induction env ed runIndex tries t s r rule: rerun_failed.induct)
  case (1 env ed runIndex tries t s r)
  obtain s1 r1 where run: "runNode env ed runIndex None s = (s1, r1)" by fastforce
  with 1 show ?case
    by (auto simp: rerun_failed.simps [of env ed runIndex tries t s r] split: if_splits sum.splits dest: runNode_request)
qed

text \<open>What the tries of a node may do: nothing to the frame, or requests of other nodes.\<close>

inductive tries_effect :: "env \<Rightarrow> execute_data \<Rightarrow> nat \<Rightarrow> engine \<Rightarrow> engine \<Rightarrow> bool" for env ed runIndex where
  Same: "tries_effect env ed runIndex s s'" if "frame s' = frame s"
| Request: "tries_effect env ed runIndex s s'"
    if "tries_effect env ed runIndex s s1" and "requests env"
      and "frame s' = frame (fst (handleEngineRequest (ed_node ed) request runIndex ed s1))"

lemma tries_effect_frame: "tries_effect env ed runIndex s s1 \<Longrightarrow> frame s2 = frame s1 \<Longrightarrow> tries_effect env ed runIndex s s2"
  by (induction rule: tries_effect.induct) (auto intro: tries_effect.intros)

lemma tries_effect_trans:
  "tries_effect env ed runIndex s1 s2 \<Longrightarrow> tries_effect env ed runIndex s s1 \<Longrightarrow> tries_effect env ed runIndex s s2"
proof (induction rule: tries_effect.induct)
  case (Same s s')
  then show ?case by (metis tries_effect_frame)
next
  case (Request s s1 s' request)
  then show ?case by (metis tries_effect.Request)
qed

lemma tries_effect_no_requests: "tries_effect env ed runIndex s s' \<Longrightarrow> \<not> requests env \<Longrightarrow> frame s' = frame s"
  by (induction rule: tries_effect.induct) auto

fun outcome_state :: "try_outcome \<Rightarrow> engine" where
  "outcome_state (Try_continue s) = s"
| "outcome_state (Try_break ts) = ts_engine ts"
| "outcome_state (Try_failed e t ts) = ts_engine ts"

lemma set_last_frame [simp]: "frame (set_last ed s) = frame s"
  by (simp add: set_last_def frame_defs node_starts_def)

lemma frame_updates [simp]:
  "frame (s\<lparr>en_closeFunction := b\<rparr>) = frame s"
  "frame (s\<lparr>en_executionError := e\<rparr>) = frame s"
  "frame (s\<lparr>en_lastTry := l\<rparr>) = frame s"
  by (simp_all add: frame_defs node_starts_def)

lemma finish_try_frame [simp]: "frame (outcome_state (finish_try ed t ts)) = frame (ts_engine ts)"
  by (auto simp: finish_try_def Let_def split: sum.splits)

lemma accept_data_frame [simp]: "frame (outcome_state (accept_data env ed data hints hasClose t ts)) = frame (ts_engine ts)"
  by (auto simp: accept_data_def Let_def split: js.splits option.splits on_error.splits sum.splits)

lemma one_try_effect:
  "tries_effect env ed runIndex (ts_engine ts) (outcome_state (one_try env ed runIndex tries t ts))"
proof -
  let ?s = "if t \<noteq> 0 then (ts_engine ts)\<lparr>en_executionError := None\<rparr> else ts_engine ts"
  let ?out = "one_try env ed runIndex tries t ts"
  have start: "frame ?s = frame (ts_engine ts)" by simp
  show ?thesis
  proof (cases "pinned_data ?s (ed_node ed)")
    case (Some items)
    then show ?thesis by (intro tries_effect.Same) (simp add: one_try_def Let_def)
  next
    case None
    define ts0 where "ts0 = ts\<lparr>ts_engine := ?s, ts_response := collect_responses ed ?s (ts_response ts)\<rparr>"
    obtain s1 r1 where run: "runNode env ed runIndex (Some (collect_responses ed ?s (ts_response ts))) ?s = (s1, r1)"
      by fastforce
    have f1: "frame s1 = frame (ts_engine ts)" using runNode_frame [OF run] start by simp
    show ?thesis
    proof (cases r1)
      case (Inl e)
      with None run f1 show ?thesis by (intro tries_effect.Same) (simp add: one_try_def Let_def)
    next
      case (Inr r)
      obtain s2 t2 r2 where rerun: "rerun_failed env ed runIndex tries t s1 r = ((s2, t2), r2)"
        by (metis prod.collapse)
      have f2: "frame s2 = frame (ts_engine ts)" using rerun_failed_frame [OF rerun] f1 by simp
      show ?thesis
      proof (cases "\<exists>q. r2 = Inr (Run_request q)")
        case False
        with None run Inr rerun f2 show ?thesis
          by (intro tries_effect.Same) (auto simp: one_try_def Let_def split: sum.splits run_response.splits)
      next
        case True
        then obtain q where q: "r2 = Inr (Run_request q)" by blast
        have "requests env"
          using rerun_failed_request [OF rerun [unfolded q]] runNode_request run Inr by blast
        moreover have "frame (outcome_state ?out) = frame (fst (handleEngineRequest (ed_node ed) q runIndex ed s2))"
          using None run Inr rerun q by (auto simp: one_try_def Let_def split: prod.splits option.splits)
        ultimately show ?thesis by (intro tries_effect.Request [OF tries_effect.Same [OF f2]])
      qed
    qed
  qed
qed

fun tries_state :: "engine + try_state \<Rightarrow> engine" where
  "tries_state (Inl s) = s"
| "tries_state (Inr ts) = ts_engine ts"

lemma catch_try_frame [simp]: "frame (ts_engine (catch_try ed e ts)) = frame (ts_engine ts)"
  by (simp add: catch_try_def)

lemma run_tries_effect:
  "tries_effect env ed runIndex (ts_engine ts) (tries_state (run_tries env ed runIndex tries indices ts))"
proof (induction env ed runIndex tries indices ts rule: run_tries.induct)
  case (1 env ed runIndex tries ts)
  then show ?case by (simp add: tries_effect.Same)
next
  case (2 env ed runIndex tries t indices ts)
  have one: "tries_effect env ed runIndex (ts_engine ts) (outcome_state (one_try env ed runIndex tries t ts))"
    by (rule one_try_effect)
  show ?case
  proof (cases "one_try env ed runIndex tries t ts")
    case (Try_failed e t' ts')
    have "tries_effect env ed runIndex (ts_engine ts) (ts_engine (catch_try ed e ts'))"
      using one Try_failed by (auto intro: tries_effect_frame)
    with 2 [OF Try_failed] show ?thesis using Try_failed by (simp add: tries_effect_trans)
  qed (use one in simp_all)
qed

section \<open>An iteration\<close>

fun iteration_state :: "iteration \<Rightarrow> engine" where
  "iteration_state (Continue s) = s"
| "iteration_state (Finished s) = s"
| "iteration_state (Threw e s) = s"

fun goes_on :: "iteration \<Rightarrow> bool" where
  "goes_on (Continue s) = True"
| "goes_on _ = False"

abbreviation current :: "engine \<Rightarrow> execute_data" where
  "current s \<equiv> pair_inputs (hd (en_stack s))"

text \<open>The entry is off the stack, and the start of its node is announced, unless it resumes.\<close>

definition started :: "engine \<Rightarrow> engine \<Rightarrow> bool" where
  "started s s' \<longleftrightarrow> \<not> filtered_out s (n_name (ed_node (current s)))
     \<and> (frame s' = frame (take_entry s)
       \<or> frame s' = frame (emit (NodeExecuteBefore (n_name (ed_node (current s))) (en_executionIndex s)) (take_entry s)))"

definition schedule_and_release :: "env \<Rightarrow> string \<Rightarrow> items js list \<Rightarrow> nat \<Rightarrow> engine \<Rightarrow> engine run" where
  "schedule_and_release env name outputs runIndex s =
     and_then (schedule_next name outputs runIndex s)
       (\<lambda>s. release_if_idle env (emit (NodeExecuteAfter name runIndex) s))"

text \<open>
  The effect of an iteration on the frame; the flag says whether the loop goes on.
\<close>

inductive iteration_effect :: "env \<Rightarrow> engine \<Rightarrow> bool \<Rightarrow> engine \<Rightarrow> bool" for env s where
  Stopped: "iteration_effect env s False s'" if "frame s' = frame s"
| Skipped: "iteration_effect env s b s'" if "frame s' = frame (take_entry s)"
| Postponed: "iteration_effect env s b s'"
    if "\<not> snd (ensureInputData (current s) s1)" and "frame s1 = frame (take_entry s)"
      and "frame s' = frame (push_back (current s) (take_entry s))"
| Ran: "iteration_effect env s b s'"
    if "started s s1" and "tries_effect env (current s) runIndex s1 s'"
| Put_back: "iteration_effect env s False s'"
    if "started s s1" and "tries_effect env (current s) runIndex s1 s2"
      and "frame s' = frame (s2\<lparr>en_stack := current s # en_stack s2\<rparr>)"
| Scheduled: "iteration_effect env s b s'"
    if "started s s1" and "tries_effect env (current s) runIndex s1 s2"
      and "schedule_and_release env (n_name (ed_node (current s))) outputs runIndex s2 = (s', err)"
      and "b \<longrightarrow> err = None"

lemma frame_stack: "frame s = frame t \<Longrightarrow> frame (s\<lparr>en_stack := f (en_stack s)\<rparr>) = frame (t\<lparr>en_stack := f (en_stack t)\<rparr>)"
  by (simp add: frame_defs node_starts_def)

lemma frame_emit: "start_of ev = None \<Longrightarrow> frame (emit ev s) = frame s"
  by (simp add: frame_defs) (simp add: emit_def)

lemma frame_take_entry: "frame s = frame t \<Longrightarrow> frame (take_entry s) = frame (take_entry t)"
  by (simp add: frame_defs take_entry_def node_starts_def)

lemma frame_fields:
  assumes "frame s = frame t"
  shows "en_workflow s = en_workflow t" "en_stack s = en_stack t" "en_waiting s = en_waiting t"
    "en_waitingSource s = en_waitingSource t" "en_startData s = en_startData t"
    "en_executionIndex s = en_executionIndex t" "node_starts s = node_starts t"
  using assms by (simp_all add: frame_defs)

lemma filtered_out_frame: "frame s = frame t \<Longrightarrow> filtered_out s name = filtered_out t name"
  unfolding filtered_out_def by (drule frame_fields(5)) (simp only:)

lemma filtered_out_take_entry [simp]: "filtered_out (take_entry s) name = filtered_out s name"
  by (simp add: filtered_out_def take_entry_def)

lemma started_cong: "frame s = frame t \<Longrightarrow> started s s' \<Longrightarrow> started t s'"
proof -
  assume f: "frame s = frame t"
  have "frame (emit ev (take_entry s)) = frame (emit ev (take_entry t))" for ev
    using frame_take_entry [OF f] by (simp add: frame_defs) (simp add: emit_def)
  then show "started s s' \<Longrightarrow> started t s'"
    using filtered_out_frame [OF f] frame_take_entry [OF f] by (simp add: started_def frame_fields(2,6) [OF f])
qed

lemma iteration_effect_cong:
  assumes "iteration_effect env s b s'" and f: "frame s = frame t"
  shows "iteration_effect env t b s'"
proof -
  note stack = frame_fields(2) [OF f]
  note taken = frame_take_entry [OF f]
  have pushed: "frame (push_back x (take_entry s)) = frame (push_back x (take_entry t))" for x
    using frame_stack [OF taken] by (simp add: push_back_def)
  from assms(1) show ?thesis
  proof cases
    case Stopped
    then show ?thesis using f iteration_effect.Stopped by metis
  next
    case Skipped
    then show ?thesis using taken iteration_effect.Skipped by metis
  next
    case (Postponed s1)
    then show ?thesis using taken stack pushed iteration_effect.Postponed by metis
  next
    case (Ran s1 runIndex)
    then show ?thesis using started_cong [OF f] stack iteration_effect.Ran by metis
  next
    case (Put_back s1 runIndex s2)
    then show ?thesis using started_cong [OF f] stack iteration_effect.Put_back by metis
  next
    case (Scheduled s1 runIndex s2 outputs err)
    then show ?thesis using started_cong [OF f] stack iteration_effect.Scheduled by metis
  qed
qed

lemma complete_node_effect:
  assumes "started s s1" and "tries_effect env (current s) runIndex s1 s2"
  shows "iteration_effect env s (goes_on (complete_node env (current s) runIndex d td s2))
    (iteration_state (complete_node env (current s) runIndex d td s2))"
proof (cases "merge_output_errors d")
  case (Inl e)
  then show ?thesis using iteration_effect.Ran [OF assms] by (simp add: complete_node_def Let_def)
next
  case (Inr outputs)
  let ?name = "n_name (ed_node (current s))"
  define s3 where "s3 = record_task ?name runIndex (success_task (current s) runIndex outputs td s2) s2"
  have f3: "frame s3 = frame s2" by (simp add: s3_def)
  have after: "frame (emit (NodeExecuteAfter ?name runIndex) s3) = frame s2" using f3 by (simp add: frame_emit)
  have eff: "tries_effect env (current s) runIndex s1 s3" by (rule tries_effect_frame [OF assms(2) f3])
  consider "en_waitTill s3 \<noteq> None" | "en_waitTill s3 = None" "is_destination s3 ?name"
    | "en_waitTill s3 = None" "\<not> is_destination s3 ?name" by blast
  then show ?thesis
  proof cases
    case 1
    let ?s = "emit (NodeExecuteAfter ?name runIndex) s3"
    have eff2: "tries_effect env (current s) runIndex s1 ?s" by (rule tries_effect_frame [OF assms(2) after])
    have "iteration_effect env s False (?s\<lparr>en_stack := current s # en_stack ?s\<rparr>)"
      by (rule iteration_effect.Put_back [OF assms(1) eff2]) simp
    with 1 Inr show ?thesis by (simp add: complete_node_def Let_def s3_def [symmetric]) (simp add: emit_def)
  next
    case 2
    have "iteration_effect env s True (emit (NodeExecuteAfter ?name runIndex) s3)"
      by (rule iteration_effect.Ran [OF assms(1) tries_effect_frame [OF assms(2) after]])
    with 2 Inr show ?thesis by (simp add: complete_node_def Let_def s3_def [symmetric])
  next
    case 3
    obtain s' err where run: "schedule_and_release env ?name outputs runIndex s3 = (s', err)" by fastforce
    have "iteration_effect env s b s'" if "b \<longrightarrow> err = None" for b
      by (rule iteration_effect.Scheduled [OF assms(1) eff run that])
    with 3 Inr run show ?thesis
      by (cases err) (simp_all add: complete_node_def Let_def s3_def [symmetric] schedule_and_release_def [symmetric] continue_run_def)
  qed
qed

lemma stop_with_error_frame:
  "frame (stop_with_error ed runIndex e td s) = frame (s\<lparr>en_stack := ed # en_stack s\<rparr>)"
proof -
  have "frame ((record_task name i t s)\<lparr>en_stack := ed # en_stack (record_task name i t s)\<rparr>)
      = frame (s\<lparr>en_stack := ed # en_stack s\<rparr>)" for name i t
    by (rule frame_stack) simp
  then show ?thesis by (simp add: stop_with_error_def Let_def frame_emit)
qed

lemma after_tries_effect:
  assumes "started s s1" and "tries_effect env (current s) runIndex s1 (ts_engine ts)"
  shows "iteration_effect env s (goes_on (after_tries env (current s) runIndex startTime i ts))
    (iteration_state (after_tries env (current s) runIndex startTime i ts))"
proof -
  let ?name = "n_name (ed_node (current s))"
  obtain s2 td where base: "base_task env (current s) startTime i (ts_hints ts) (ensure_runs ?name (ts_engine ts)) = (s2, td)"
    by fastforce
  have f2: "frame s2 = frame (ts_engine ts)" using base_task_frame [OF base] by simp
  note eff2 = tries_effect_frame [OF assms(2) f2]
  show ?thesis
  proof (cases "en_executionError s2")
    case None
    with base show ?thesis by (simp add: after_tries_def complete_node_effect [OF assms(1) eff2])
  next
    case (Some e)
    let ?s = "emit (SendChunk ?name runIndex) s2"
    have eff3: "tries_effect env (current s) runIndex s1 ?s"
      by (rule tries_effect_frame [OF assms(2)]) (simp add: f2 frame_emit)
    have stop: "iteration_effect env s False (stop_with_error (current s) runIndex e t ?s)" for t
      by (rule iteration_effect.Put_back [OF assms(1) eff3]) (rule stop_with_error_frame)
    from base Some show ?thesis
      by (simp add: after_tries_def Let_def complete_node_effect [OF assms(1) eff3] stop)
  qed
qed

lemma push_back_cong: "frame s = frame t \<Longrightarrow> frame (push_back e s) = frame (push_back e t)"
  unfolding push_back_def by (rule frame_stack)

lemma ensureInputData_state: "fst (ensureInputData e s) = (if snd (ensureInputData e s) then s else push_back e s)"
proof -
  have "fst (ensure_inputs e is s) = (if snd (ensure_inputs e is s) then s else push_back e s)" for "is"
    by (induction e "is" s rule: ensure_inputs.induct) (auto simp: Let_def split: option.splits)
  then show ?thesis by (simp add: ensureInputData_def)
qed

text \<open>Every iteration is one of these, whatever the nodes do.\<close>

lemma iterate_effect: "iteration_effect env s (goes_on (iterate env s)) (iteration_state (iterate env s))"
proof -
  define s0 where "s0 = check_timeout env s"
  have f0: "frame s0 = frame s" by (simp add: s0_def)
  show ?thesis
  proof (cases "en_status s0 = Canceled")
    case True
    then show ?thesis using f0 by (simp add: iterate_def Let_def s0_def [symmetric] iteration_effect.Stopped)
  next
    case running: False
    let ?ed = "current s0"
    obtain s1 startTime where clock: "read_clock env (take_entry s0) = (s1, startTime)" by fastforce
    have f1: "frame s1 = frame (take_entry s0)" by (rule read_clock_frame [OF clock])
    let ?ri = "run_index_of ?ed s1"
    note unfolded = iterate_def Let_def s0_def [symmetric] running clock
    have "iteration_effect env s0 (goes_on (iterate env s)) (iteration_state (iterate env s))"
    proof (cases "try_name ?ed ?ri = en_lastTry s1 \<or> filtered_out s1 (n_name (ed_node ?ed))")
      case True
      then show ?thesis using iteration_effect.Skipped [OF f1] by (auto simp: unfolded)
    next
      case False
      then have not_filtered: "\<not> filtered_out s0 (n_name (ed_node ?ed))"
        using filtered_out_frame [OF f1] by simp
      obtain s2 ok where ensured: "ensureInputData ?ed s1 = (s2, ok)" by fastforce
      have s2: "s2 = (if ok then s1 else push_back ?ed s1)" using ensureInputData_state [of ?ed s1] ensured by simp
      show ?thesis
      proof (cases ok)
        case no: False
        have "frame (s2\<lparr>en_lastTry := l\<rparr>) = frame (push_back ?ed (take_entry s0))" for l
          using no s2 push_back_cong [OF f1] by simp
        then show ?thesis
          using False ensured no iteration_effect.Postponed [of s0 s1, OF _ f1] by (simp add: unfolded)
      next
        case yes: True
        define s3 where "s3 = (if was_resumed ?ed then s1
          else emit (NodeExecuteBefore (n_name (ed_node ?ed)) (en_executionIndex s0)) s1)"
        have "frame s3 = frame (take_entry s0) \<or>
          frame s3 = frame (emit (NodeExecuteBefore (n_name (ed_node ?ed)) (en_executionIndex s0)) (take_entry s0))"
          using f1 by (simp add: s3_def frame_defs) (simp add: emit_def)
        then have start: "started s0 s3" using not_filtered by (simp add: started_def)
        define ts where "ts = \<lparr>ts_engine = s3, ts_data = Null, ts_response = makeEngineResponse, ts_hints = []\<rparr>"
        let ?tries = "run_tries env ?ed ?ri (maxTries ?ed) [0..<maxTries ?ed] ts"
        have eff: "tries_effect env ?ed ?ri s3 (tries_state ?tries)"
          using run_tries_effect [of env ?ed ?ri ts] by (simp add: ts_def)
        have shape: "iterate env s = (case ?tries of Inl s \<Rightarrow> Continue s
          | Inr ts \<Rightarrow> after_tries env ?ed ?ri startTime (en_executionIndex s0) ts)"
          using False ensured yes s2 by (simp add: unfolded s3_def ts_def)
        show ?thesis
        proof (cases ?tries)
          case (Inl s4)
          with eff shape show ?thesis using iteration_effect.Ran [OF start] by simp
        next
          case (Inr ts')
          with eff shape show ?thesis using after_tries_effect [OF start, of env ?ri ts'] by simp
        qed
      qed
    qed
    then show ?thesis by (rule iteration_effect_cong [OF _ f0])
  qed
qed

end
