(* ===== verification/Scheduling.thy ===== *)
theory Scheduling
  imports EngineFrame
begin

text \<open>
  What scheduling does to the queues.  The operations on the stack and the waiting nodes are
  made of two elementary ones, so a property that both keep is kept by all of them.  The
  contract of an invariant of the waiting nodes is a locale: what \<^verbatim>\<open>addNodeToBeExecuted\<close> and the
  removal of an entry keep, every iteration and every reachable state keeps.  It is
  interpreted for the alignment of the waiting data with their sources.
\<close>

section \<open>Elementary operations\<close>

lemma reading_invariant:
  "P s \<Longrightarrow> (\<And>x. r = Inr x \<Longrightarrow> P (fst (f x s))) \<Longrightarrow> P (fst (reading r f s))"
  by (auto simp: reading_def split: sum.splits)

lemma reading_normal: "reading r f s = (s', None) \<longleftrightarrow> (\<exists>x. r = Inr x \<and> f x s = (s', None))"
  by (auto simp: reading_def split: sum.splits)

definition queue_closed :: "(engine \<Rightarrow> bool) \<Rightarrow> bool" where
  "queue_closed P \<longleftrightarrow> (\<forall>s x. P s \<longrightarrow> P (s\<lparr>en_stack := x\<rparr>))
     \<and> (\<forall>s x. P s \<longrightarrow> P (s\<lparr>en_waiting := x\<rparr>)) \<and> (\<forall>s x. P s \<longrightarrow> P (s\<lparr>en_waitingSource := x\<rparr>))"

lemma queue_closedD:
  assumes "queue_closed P" and "P s"
  shows "P (s\<lparr>en_stack := x\<rparr>)" "P (s\<lparr>en_waiting := y\<rparr>)" "P (s\<lparr>en_waitingSource := z\<rparr>)"
    "P (s\<lparr>en_waiting := y, en_waitingSource := z\<rparr>)" "P (s\<lparr>en_stack := x, en_waiting := y, en_waitingSource := z\<rparr>)"
proof -
  show stack: "P (s\<lparr>en_stack := x\<rparr>)" and w: "P (s\<lparr>en_waiting := y\<rparr>)" and "P (s\<lparr>en_waitingSource := z\<rparr>)"
    using assms by (auto simp: queue_closed_def)
  show "P (s\<lparr>en_waiting := y, en_waitingSource := z\<rparr>)"
    using assms(1) w unfolding queue_closed_def by (elim conjE allE) (erule mp, assumption)
  have "P (s\<lparr>en_stack := x, en_waiting := y\<rparr>)"
    using assms(1) stack unfolding queue_closed_def by blast
  then show "P (s\<lparr>en_stack := x, en_waiting := y, en_waitingSource := z\<rparr>)"
    using assms(1) unfolding queue_closed_def by blast
qed

lemmas elementary_defs = enqueue_def set_waiting_def set_waiting_source_def prepareWaitingToExecution_def
  drop_waiting_def start_waiting_def push_back_def

lemma elementary_closed:
  assumes "queue_closed P" and "P s"
  shows "P (enqueue e s)" "P (set_waiting n i x s)" "P (set_waiting_source n i y s)"
    "P (prepareWaitingToExecution n k i s)" "P (drop_waiting n i s)" "P (start_waiting n s)" "P (push_back e s)"
proof -
  note closed = queue_closedD [OF assms(1)]
  show "P (enqueue e s)" and sw: "P (set_waiting n i x s)" and "P (set_waiting_source n i y s)"
    and "P (drop_waiting n i s)" and "P (start_waiting n s)" and "P (push_back e s)"
    using assms(2) by (simp_all add: elementary_defs Let_def closed)
  show "P (prepareWaitingToExecution n k i s)"
    using assms(2) by (simp add: prepareWaitingToExecution_def set_waiting_def set_waiting_source_def closed)
qed

lemma put_waiting_closed: "queue_closed P \<Longrightarrow> P s \<Longrightarrow> P (fst (put_waiting n i inp v s))"
  by (simp add: put_waiting_def reading_invariant elementary_closed)

lemma put_waiting_source_closed: "queue_closed P \<Longrightarrow> P s \<Longrightarrow> P (fst (put_waiting_source n i inp v s))"
  by (simp add: put_waiting_source_def reading_invariant elementary_closed)

lemma place_data_closed: "queue_closed P \<Longrightarrow> P s \<Longrightarrow> P (fst (place_data n i inp d out src s))"
  by (simp add: place_data_def reading_invariant and_then_invariant put_waiting_closed put_waiting_source_closed)

lemma complete_waiting_closed: "queue_closed P \<Longrightarrow> P s \<Longrightarrow> P (fst (complete_waiting n i s))"
  by (simp add: complete_waiting_def reading_invariant elementary_closed split: option.splits)

lemma force_input_closed: "queue_closed P \<Longrightarrow> P s \<Longrightarrow> P (fst (force_input cs pn d out ri c s))"
  by (simp add: force_input_def Let_def reading_invariant elementary_closed split: option.splits)

lemma force_inputs_closed: "queue_closed P \<Longrightarrow> P s \<Longrightarrow> P (fst (force_inputs n pn d out ri s))"
  by (simp add: force_inputs_def reading_invariant fold_run_invariant force_input_closed)

lemma store_waiting_closed: "queue_closed P \<Longrightarrow> P s \<Longrightarrow> P (fst (store_waiting n i inp d out s))"
  by (simp add: store_waiting_def reading_invariant elementary_closed)

lemma add_directly_closed: "queue_closed P \<Longrightarrow> P s \<Longrightarrow> P (fst (add_directly c d out src nri md s))"
  by (simp add: add_directly_def reading_invariant elementary_closed split: option.splits)

lemma addNode_closed:
  assumes "queue_closed P" and "P s"
  shows "P (fst (addNodeToBeExecuted c out pn d ri nri md s))"
  using assms
  by (simp add: addNodeToBeExecuted_def Let_def reading_invariant and_then_invariant elementary_closed place_data_closed
      complete_waiting_closed force_inputs_closed store_waiting_closed add_directly_closed)

lemma add_sorted_closed: "queue_closed P \<Longrightarrow> P s \<Longrightarrow> P (fst (add_sorted name outs ri n s))"
  by (simp add: add_sorted_def addNode_closed)

lemma add_legacy_closed: "queue_closed P \<Longrightarrow> P s \<Longrightarrow> P (fst (add_legacy name outs ri e s))"
  by (simp add: add_legacy_def addNode_closed split: prod.splits)

lemma schedule_next_closed: "queue_closed P \<Longrightarrow> P s \<Longrightarrow> P (fst (schedule_next name outs ri s))"
  by (simp add: schedule_next_def Let_def reading_invariant fold_run_invariant add_sorted_closed add_legacy_closed)

lemma push_released_closed: "queue_closed P \<Longrightarrow> P s \<Longrightarrow> P (fst (push_released n i main node s))"
  by (simp add: push_released_def reading_invariant queue_closedD)

lemma release_waiting_closed: "queue_closed P \<Longrightarrow> P s \<Longrightarrow> P (fst (release_waiting env ws names s))"
proof (induction env ws names s rule: release_waiting.induct)
  case (2 env ws nodeName names s)
  then show ?case
    by (simp add: and_then_invariant push_released_closed elementary_closed Let_def split: sum.splits release.splits)
qed simp

lemma release_if_idle_closed: "queue_closed P \<Longrightarrow> P s \<Longrightarrow> P (fst (release_if_idle env s))"
  by (simp add: release_if_idle_def release_waiting_closed)

section \<open>What scheduling leaves alone\<close>

lemma fixed_closed: "queue_closed (\<lambda>s. fixed s = F)"
  by (simp add: queue_closed_def fixed_def node_starts_def)

lemma workflow_closed: "queue_closed (\<lambda>s. en_workflow s = W)"
  by (simp add: queue_closed_def)

lemma fixed_frame: "frame s = frame t \<Longrightarrow> fixed s = fixed t \<and> en_workflow s = en_workflow t"
  by (simp add: frame_defs)

lemma schedule_and_release_fixed:
  "fixed (fst (schedule_and_release env name outs ri s)) = fixed s
    \<and> en_workflow (fst (schedule_and_release env name outs ri s)) = en_workflow s"
proof -
  have emitted: "fixed (emit (NodeExecuteAfter n i) t) = fixed t \<and> en_workflow (emit (NodeExecuteAfter n i) t) = en_workflow t" for n i t
    by (rule fixed_frame) (simp add: frame_emit)
  let ?P = "\<lambda>t. fixed t = fixed s \<and> en_workflow t = en_workflow s"
  have closed: "queue_closed ?P" by (simp add: queue_closed_def fixed_def node_starts_def)
  have step1: "?P (fst (schedule_next name outs ri s))" by (rule schedule_next_closed [OF closed]) simp
  have release: "?P (fst (release_if_idle env (emit (NodeExecuteAfter name ri) t)))" if "?P t" for t
    by (rule release_if_idle_closed [OF closed]) (simp add: emitted that)
  show ?thesis
    unfolding schedule_and_release_def by (rule and_then_invariant [where P = ?P, OF step1 release])
qed

lemma map_names_update:
  "map_of m k = Some n \<Longrightarrow> n_name n' = n_name n \<Longrightarrow> map_vals n_name (AList.update k n' m) = map_vals n_name m"
  by (induction m) (auto split: if_splits)

lemma set_rewire_topology: "getNode w key = Some node \<Longrightarrow> topology (set_rewire key ty node w) = topology w"
  by (simp add: topology_def set_rewire_def getNode_def map_names_update)

lemma prepare_action_topology:
  "topology (rq_workflow (fst (prepare_action cur ri ed a st))) = topology (rq_workflow st)"
proof (cases "getNode (rq_workflow st) (a_nodeName a)")
  case None
  then show ?thesis by (simp add: prepare_action_def)
next
  case (Some node)
  then have "rq_workflow (fst (prepare_action cur ri ed a st)) = set_rewire (a_nodeName a) (a_type a) node (rq_workflow st)"
    by (simp add: prepare_action_def Let_def split_def)
  with Some show ?thesis by (simp add: set_rewire_topology)
qed

lemma handleRequest_topology:
  "topology (rq_workflow (fst (handleRequest w cur req ri ed rd))) = topology w"
proof -
  let ?P = "\<lambda>st. topology (rq_workflow st) = topology w"
  have prep: "?P (fst (prepareRequestedNodesForExecution w cur req (int ri) rd ed))"
    unfolding prepareRequestedNodesForExecution_def
    by (rule fold_run_invariant [where P = ?P]) (simp_all add: prepare_action_topology)
  show ?thesis
    unfolding handleRequest_def
    by (rule and_then_invariant [where P = ?P, OF prep]) (simp split: option.split)
qed

lemma handleEngineRequest_fixed:
  "fixed (fst (handleEngineRequest cur req ri ed s)) = fixed s
    \<and> topology (en_workflow (fst (handleEngineRequest cur req ri ed s))) = topology (en_workflow s)"
proof -
  obtain st err where req: "handleRequest (en_workflow s) cur req ri ed (en_runData s) = (st, err)" by fastforce
  have top: "topology (rq_workflow st) = topology (en_workflow s)"
    using handleRequest_topology [of "en_workflow s" cur req ri ed "en_runData s"] req by simp
  let ?s = "s\<lparr>en_workflow := rq_workflow st, en_runData := rq_runData st,
      en_stack := map (\<lambda>e. e\<lparr>ed_node := rewire_stacked (rq_workflow st) (ed_node e)\<rparr>) (en_stack s)\<rparr>"
  have s: "fixed ?s = fixed s \<and> en_workflow ?s = rq_workflow st" by (simp add: fixed_def node_starts_def)
  let ?P = "\<lambda>t. fixed t = fixed s \<and> en_workflow t = rq_workflow st"
  have closed: "queue_closed ?P" by (simp add: queue_closed_def fixed_def node_starts_def)
  have "?P (fst (fold_run schedule_requested (rq_nodes st) ?s))"
    by (rule fold_run_invariant [where P = ?P]) (simp_all add: s schedule_requested_def addNode_closed [OF closed])
  with s top req show ?thesis by (simp add: handleEngineRequest_def Let_def split: option.split)
qed

lemma tries_effect_fixed:
  "tries_effect env ed ri s s' \<Longrightarrow> fixed s' = fixed s \<and> topology (en_workflow s') = topology (en_workflow s)"
proof (induction rule: tries_effect.induct)
  case (Same s s')
  with fixed_frame [OF Same] show ?case by simp
next
  case (Request s s1 s' request)
  with handleEngineRequest_fixed [of "ed_node ed" request ri ed s1] fixed_frame [OF Request(3)] show ?case by simp
qed

text \<open>What an iteration does to the trace of started nodes.\<close>

definition starts_step :: "engine \<Rightarrow> engine \<Rightarrow> bool" where
  "starts_step s s' \<longleftrightarrow> en_startData s' = en_startData s \<and> en_executionIndex s \<le> en_executionIndex s'
     \<and> (node_starts s' = node_starts s
       \<or> (\<exists>name. \<not> filtered_out s name \<and> node_starts s' = node_starts s @ [(name, en_executionIndex s)]
             \<and> en_executionIndex s < en_executionIndex s'))"

lemma starts_step_fixed: "fixed s' = fixed t \<Longrightarrow> starts_step s t \<Longrightarrow> starts_step s s'"
  by (simp add: starts_step_def fixed_def)

lemma take_entry_starts: "starts_step s (take_entry s)"
proof -
  have "node_starts (take_entry s) = node_starts s" by (rule node_starts_cong) (simp add: take_entry_def)
  then show ?thesis by (simp add: starts_step_def) (simp add: take_entry_def)
qed

lemma started_starts: "started s s1 \<Longrightarrow> starts_step s s1"
proof -
  let ?ev = "NodeExecuteBefore (n_name (ed_node (current s))) (en_executionIndex s)"
  assume st: "started s s1"
  have taken: "node_starts (take_entry s) = node_starts s" by (rule node_starts_cong) (simp add: take_entry_def)
  have "starts_step s (emit ?ev (take_entry s))"
    using st taken by (simp add: starts_step_def started_def) (auto simp: take_entry_def emit_def)
  with st take_entry_starts [of s] show ?thesis
    by (auto simp: started_def dest: fixed_frame intro: starts_step_fixed)
qed

lemma iteration_starts: "iteration_effect env s b s' \<Longrightarrow> starts_step s s' \<and> topology (en_workflow s') = topology (en_workflow s)"
proof (induction rule: iteration_effect.induct)
  case (Stopped s' )
  then show ?case using fixed_frame [OF Stopped] by (simp add: starts_step_def fixed_def)
next
  case (Skipped s' b)
  then show ?case using fixed_frame [OF Skipped] starts_step_fixed [OF _ take_entry_starts] by (simp add: take_entry_def)
next
  case (Postponed s1 s' b)
  have "fixed (push_back (current s) (take_entry s)) = fixed (take_entry s)"
    by (rule elementary_closed(7) [OF fixed_closed]) simp
  with fixed_frame [OF Postponed(3)] show ?case
    using starts_step_fixed [OF _ take_entry_starts] by (simp add: take_entry_def push_back_def)
next
  case (Ran s1 runIndex s' b)
  have "en_workflow s1 = en_workflow s" using Ran(1) by (auto simp: started_def frame_defs take_entry_def emit_def)
  with tries_effect_fixed [OF Ran(2)] starts_step_fixed [OF _ started_starts [OF Ran(1)]] show ?case by simp
next
  case (Put_back s1 runIndex s2 s')
  have "en_workflow s1 = en_workflow s" using Put_back(1) by (auto simp: started_def frame_defs take_entry_def emit_def)
  moreover have "fixed (s2\<lparr>en_stack := current s # en_stack s2\<rparr>) = fixed s2"
    by (rule queue_closedD(1) [OF fixed_closed]) simp
  ultimately show ?case
    using tries_effect_fixed [OF Put_back(2)] fixed_frame [OF Put_back(3)]
      starts_step_fixed [OF _ started_starts [OF Put_back(1)]] by simp
next
  case (Scheduled s1 runIndex s2 outputs s' err b)
  have "en_workflow s1 = en_workflow s" using Scheduled(1) by (auto simp: started_def frame_defs take_entry_def emit_def)
  with tries_effect_fixed [OF Scheduled(2)] schedule_and_release_fixed [of env _ outputs runIndex s2] Scheduled(3)
    starts_step_fixed [OF _ started_starts [OF Scheduled(1)]] show ?case by (metis fst_conv)
qed

section \<open>Invariants of the waiting nodes\<close>

text \<open>
  The contract: a property of the waiting nodes that survives \<^verbatim>\<open>addNodeToBeExecuted\<close> and the
  removal of an entry.
\<close>

locale waiting_invariant =
  fixes inv :: "engine \<Rightarrow> bool"
  assumes inv_cong: "en_waiting s = en_waiting t \<Longrightarrow> en_waitingSource s = en_waitingSource t \<Longrightarrow> inv s \<Longrightarrow> inv t"
    and inv_add: "inv s \<Longrightarrow> inv (fst (addNodeToBeExecuted c out pn d ri nri md s))"
    and inv_drop: "inv s \<Longrightarrow> inv (drop_waiting n i s)"
begin

lemma inv_frame: "frame s = frame t \<Longrightarrow> inv s \<Longrightarrow> inv t"
  by (rule inv_cong) (simp_all add: frame_defs)

lemma inv_emit: "inv s \<Longrightarrow> inv (emit ev s)"
  by (rule inv_cong [of s]) (simp_all add: emit_def)

lemma inv_stack: "inv s \<Longrightarrow> inv (s\<lparr>en_stack := x\<rparr>)"
  by (rule inv_cong [of s]) simp_all

lemma inv_schedule_next: "inv s \<Longrightarrow> inv (fst (schedule_next name outs ri s))"
proof -
  assume s: "inv s"
  have "inv (fst (fold_run (add_legacy name outs ri) xs s))" for xs
    by (rule fold_run_invariant [where P = inv, OF s]) (auto simp: add_legacy_def inv_add split: prod.splits)
  moreover have "inv (fst (fold_run (add_sorted name outs ri) xs s))" for xs
    by (rule fold_run_invariant [where P = inv, OF s]) (simp add: add_sorted_def inv_add)
  ultimately show ?thesis using s by (simp add: schedule_next_def Let_def reading_invariant)
qed

lemma inv_push_released: "inv s \<Longrightarrow> inv (fst (push_released n i main node s))"
  by (simp add: push_released_def reading_invariant inv_stack)

lemma inv_release_waiting: "inv s \<Longrightarrow> inv (fst (release_waiting env ws names s))"
proof (induction env ws names s rule: release_waiting.induct)
  case (2 env ws nodeName names s)
  have "inv (fst (and_then (push_released nodeName i main node s) (\<lambda>s. normal (drop_waiting nodeName i s))))" for i main node
    by (rule and_then_invariant [where P = inv]) (simp_all add: 2 inv_push_released inv_drop)
  with 2 show ?case by (simp add: inv_drop Let_def split: sum.splits release.splits)
qed simp

lemma inv_schedule_and_release: "inv s \<Longrightarrow> inv (fst (schedule_and_release env name outs ri s))"
  unfolding schedule_and_release_def
  by (rule and_then_invariant [where P = inv])
    (simp_all add: inv_schedule_next release_if_idle_def inv_release_waiting inv_emit)

lemma inv_request: "inv s \<Longrightarrow> inv (fst (handleEngineRequest cur req ri ed s))"
proof -
  assume s: "inv s"
  obtain st err where req: "handleRequest (en_workflow s) cur req ri ed (en_runData s) = (st, err)" by fastforce
  let ?s = "s\<lparr>en_workflow := rq_workflow st, en_runData := rq_runData st,
      en_stack := map (\<lambda>e. e\<lparr>ed_node := rewire_stacked (rq_workflow st) (ed_node e)\<rparr>) (en_stack s)\<rparr>"
  have s1: "inv ?s" by (rule inv_cong [OF _ _ s]) simp_all
  then have "inv (fst (fold_run schedule_requested (rq_nodes st) ?s))"
    by (rule fold_run_invariant [where P = inv]) (simp add: schedule_requested_def inv_add)
  with s1 req show ?thesis by (simp add: handleEngineRequest_def Let_def split: option.split)
qed

lemma inv_tries: "tries_effect env ed ri s s' \<Longrightarrow> inv s \<Longrightarrow> inv s'"
proof (induction rule: tries_effect.induct)
  case (Same s s')
  then show ?case using inv_frame [OF Same(1) [symmetric]] by simp
next
  case (Request s s1 s' request)
  then show ?case using inv_frame [OF Request(3) [symmetric]] inv_request by blast
qed

lemma inv_taken: "inv s \<Longrightarrow> inv (take_entry s)"
  by (rule inv_cong [of s]) (simp_all add: take_entry_def)

lemma inv_started: "started s s1 \<Longrightarrow> inv s \<Longrightarrow> inv s1"
  unfolding started_def by (metis inv_frame inv_taken inv_emit)

lemma inv_iteration: "iteration_effect env s b s' \<Longrightarrow> inv s \<Longrightarrow> inv s'"
proof (induction rule: iteration_effect.induct)
  case (Stopped s')
  then show ?case using inv_frame [of s s'] by simp
next
  case (Skipped s' b)
  then show ?case using inv_frame [of "take_entry s" s'] by (simp add: inv_taken)
next
  case (Postponed s1 s' b)
  then show ?case using inv_frame [OF Postponed(3) [symmetric]] by (simp add: push_back_def inv_stack inv_taken)
next
  case (Ran s1 runIndex s' b)
  then show ?case by (metis inv_tries inv_started)
next
  case (Put_back s1 runIndex s2 s')
  then show ?case using inv_frame [OF Put_back(3) [symmetric]] by (metis inv_tries inv_started inv_stack)
next
  case (Scheduled s1 runIndex s2 outputs s' err b)
  then show ?case by (metis inv_tries inv_started inv_schedule_and_release fst_conv)
qed

lemma inv_iterate: "inv s \<Longrightarrow> inv (iteration_state (iterate env s))"
  by (rule inv_iteration [OF iterate_effect])

lemma inv_reachable: "reachable env s s' \<Longrightarrow> inv s \<Longrightarrow> inv s'"
proof (induction rule: reachable.induct)
  case (Later s s' s'')
  from Later(2) show ?case
  proof cases
    case Iterate
    then show ?thesis using inv_iterate [of s' env] Later by (auto elim!: loop_stepE)
  next
    case Cancel
    then have "frame s' = frame s''" by simp
    with Later show ?thesis using inv_frame by blast
  qed
qed

end

end
