(* ===== verification/WaitingNodes.thy ===== *)
theory WaitingNodes
  imports Scheduling
begin

text \<open>
  The waiting nodes: the data that came so far and where each piece came from are two tables
  of the same shape, in every state that a run can reach; data that arrives for a node is
  delivered; and the ways in which the code departs from that, as concrete runs.
\<close>

section \<open>The two tables have one shape\<close>

type_synonym table_shape = "(string, (nat, (string, nat) omap) omap) omap"

definition waiting_shape :: "(string, (nat, (string, 'a list) omap) omap) omap \<Rightarrow> table_shape" where
  "waiting_shape = map_vals (map_vals (map_vals length))"

definition waiting_aligned :: "engine \<Rightarrow> bool" where
  "waiting_aligned s \<longleftrightarrow> waiting_shape (en_waiting s) = waiting_shape (or_else (en_waitingSource s) [])"

lemma map_vals_delete: "map_vals f (AList.delete k m) = AList.delete k (map_vals f m)"
  by (induction m) auto

lemma map_of_nput_same [simp]: "map_of (nput k v m) k = Some v"
  by (induction k v m rule: nput.induct) auto

lemma aligned_runs:
  "waiting_aligned s \<Longrightarrow> map_vals (map_vals length) (waiting_runs s n) = map_vals (map_vals length) (waiting_source_runs s n)"
proof -
  assume "waiting_aligned s"
  then have "map_of (waiting_shape (en_waiting s)) n = map_of (waiting_shape (or_else (en_waitingSource s) [])) n"
    by (simp add: waiting_aligned_def)
  then show ?thesis
    by (auto simp: waiting_shape_def waiting_runs_def waiting_source_runs_def map_of_map_value split: option.splits)
qed

lemma aligned_set:
  assumes "waiting_aligned s" and "map_vals length x = map_vals length y"
  shows "waiting_aligned (set_waiting_source n i y (set_waiting n i x s))"
proof -
  have "waiting_source_runs (set_waiting n i x s) n = waiting_source_runs s n"
    by (simp add: waiting_source_runs_def set_waiting_def)
  with assms aligned_runs [OF assms(1), of n] show ?thesis
    by (simp add: waiting_aligned_def waiting_shape_def set_waiting_def set_waiting_source_def map_vals_update map_vals_nput)
qed

lemma aligned_drop: "waiting_aligned s \<Longrightarrow> waiting_aligned (drop_waiting n i s)"
  using aligned_runs [of s n]
  by (simp add: waiting_aligned_def waiting_shape_def drop_waiting_def Let_def map_vals_update map_vals_delete)

lemma aligned_start: "waiting_aligned s \<Longrightarrow> waiting_aligned (start_waiting n s)"
  by (simp add: waiting_aligned_def waiting_shape_def start_waiting_def Let_def map_vals_update)

lemma aligned_prepare: "waiting_aligned s \<Longrightarrow> waiting_aligned (prepareWaitingToExecution n k i s)"
  unfolding prepareWaitingToExecution_def by (rule aligned_set) simp_all

lemma aligned_cong:
  "en_waiting s = en_waiting t \<Longrightarrow> en_waitingSource s = en_waitingSource t \<Longrightarrow> waiting_aligned s \<Longrightarrow> waiting_aligned t"
  by (simp add: waiting_aligned_def)

text \<open>A waiting entry that can be read has its sources beside it.\<close>

lemma waiting_main_entry:
  "waiting_main s n i = Inr main \<longleftrightarrow> (\<exists>entry. map_of (waiting_runs s n) i = Some entry \<and> map_of entry Main_t = Some main)"
  by (auto simp: waiting_main_def lookup_def waiting_runs_def split: option.splits)

lemma waiting_source_main_entry:
  "waiting_source_main s n i = Inr srcs \<longleftrightarrow>
    (\<exists>entry. map_of (waiting_source_runs s n) i = Some entry \<and> map_of entry Main_t = Some srcs)"
  by (auto simp: waiting_source_main_def lookup_def waiting_source_runs_def split: option.splits)

lemma aligned_sources:
  assumes "waiting_aligned s" and "waiting_main s n i = Inr main"
  obtains entry sentry srcs where "map_of (waiting_runs s n) i = Some entry" "map_of entry Main_t = Some main"
    "map_of (waiting_source_runs s n) i = Some sentry" "map_of sentry Main_t = Some srcs"
    "length srcs = length main" "map_vals length entry = map_vals length sentry" "waiting_source_main s n i = Inr srcs"
proof -
  obtain entry where entry: "map_of (waiting_runs s n) i = Some entry" "map_of entry Main_t = Some main"
    using assms(2) by (auto simp: waiting_main_entry)
  have "map_option (map_vals length) (map_of (waiting_runs s n) i)
      = map_option (map_vals length) (map_of (waiting_source_runs s n) i)"
    using arg_cong [OF aligned_runs [OF assms(1), of n], of "\<lambda>m. map_of m i"] by (simp add: map_of_map_value)
  with entry(1) obtain sentry where sentry: "map_of (waiting_source_runs s n) i = Some sentry"
    "map_vals length entry = map_vals length sentry" by (cases "map_of (waiting_source_runs s n) i") auto
  have "map_option length (map_of entry Main_t) = map_option length (map_of sentry Main_t)"
    using arg_cong [OF sentry(2), of "\<lambda>m. map_of m Main_t"] by (simp add: map_of_map_value)
  with entry(2) obtain srcs where srcs: "map_of sentry Main_t = Some srcs" "length srcs = length main" by (cases "map_of sentry Main_t") auto
  with sentry(1) have "waiting_source_main s n i = Inr srcs" by (simp add: waiting_source_main_entry)
  with entry sentry srcs show thesis by (intro that)
qed

lemma runs_after_set [simp]:
  "waiting_runs (set_waiting n i x s) n = nput i x (waiting_runs s n)"
  "waiting_source_runs (set_waiting n i x s) m = waiting_source_runs s m"
  "waiting_source_runs (set_waiting_source n i y s) n = nput i y (waiting_source_runs s n)"
  "waiting_runs (set_waiting_source n i y s) m = waiting_runs s m"
  by (simp_all add: waiting_runs_def waiting_source_runs_def set_waiting_def set_waiting_source_def)

text \<open>What placing data does: it fails before it has changed anything, or fills the input.\<close>

lemma place_data_cases:
  assumes "waiting_aligned s"
  shows "(\<exists>e. place_data n i inp d out src s = raised e s)
    \<or> (\<exists>s' v main. place_data n i inp d out src s = normal s' \<and> success_at d out = Inr v
        \<and> waiting_main s n i = Inr main \<and> waiting_aligned s' \<and> en_stack s' = en_stack s
        \<and> waiting_main s' n i = Inr (array_set Undef main inp v))"
proof (cases "success_at d out")
  case (Inl e)
  then show ?thesis by (simp add: place_data_def reading_def)
next
  case v: (Inr v)
  show ?thesis
  proof (cases "waiting_main s n i")
    case (Inl e)
    with v show ?thesis by (simp add: place_data_def reading_def put_waiting_def)
  next
    case main: (Inr main)
    obtain entry sentry srcs where e: "map_of (waiting_runs s n) i = Some entry" "map_of entry Main_t = Some main"
      "map_of (waiting_source_runs s n) i = Some sentry" "map_of sentry Main_t = Some srcs"
      "length srcs = length main" "map_vals length entry = map_vals length sentry" "waiting_source_main s n i = Inr srcs"
      using aligned_sources [OF assms main] .
    define x where "x = AList.update Main_t (array_set Undef main inp v) entry"
    define y where "y = AList.update Main_t (array_set None srcs inp (if d = Null then None else Some src)) sentry"
    define s' where "s' = set_waiting_source n i y (set_waiting n i x s)"
    have "waiting_source_main (set_waiting n i x s) n i = Inr srcs"
      using e(7) by (simp add: waiting_source_main_entry)
    then have run: "place_data n i inp d out src s = normal s'"
      using v main e by (simp add: place_data_def put_waiting_def put_waiting_source_def reading_def x_def y_def s'_def)
    have "waiting_aligned s'"
      unfolding s'_def by (rule aligned_set [OF assms]) (simp add: x_def y_def map_vals_update e(5,6))
    moreover have "waiting_main s' n i = Inr (array_set Undef main inp v)"
      by (simp add: waiting_main_entry s'_def x_def)
    moreover have "en_stack s' = en_stack s" by (simp add: s'_def set_waiting_def set_waiting_source_def)
    ultimately show ?thesis using run v main by blast
  qed
qed

lemma force_input_enqueues:
  "(\<And>s e. P s \<Longrightarrow> P (enqueue e s)) \<Longrightarrow> P s \<Longrightarrow> P (fst (force_input cs pn d out ri c s))"
  by (simp add: force_input_def Let_def reading_invariant split: option.splits)

lemma force_inputs_enqueues:
  "(\<And>s e. P s \<Longrightarrow> P (enqueue e s)) \<Longrightarrow> P s \<Longrightarrow> P (fst (force_inputs n pn d out ri s))"
  by (simp add: force_inputs_def reading_invariant fold_run_invariant force_input_enqueues)

lemma force_inputs_waiting:
  "en_waiting (fst (force_inputs n pn d out ri s)) = en_waiting s
    \<and> en_waitingSource (fst (force_inputs n pn d out ri s)) = en_waitingSource s"
  by (rule force_inputs_enqueues [where P = "\<lambda>t. en_waiting t = en_waiting s \<and> en_waitingSource t = en_waitingSource s"])
    (simp_all add: enqueue_def)

lemma waiting_reads_cong:
  "en_waiting s = en_waiting t \<Longrightarrow> waiting_main s n i = waiting_main t n i"
  "en_waitingSource s = en_waitingSource t \<Longrightarrow> waiting_source_main s n i = waiting_source_main t n i"
  by (simp_all add: waiting_main_def waiting_source_main_def)

lemma array_set_same: "i < length xs \<Longrightarrow> xs ! i = v \<Longrightarrow> array_set h xs i v = xs"
  by (auto simp: array_set_def list_update_same_conv)

text \<open>The data is in place, so writing the entry back leaves it as it is.\<close>

lemma store_waiting_effect:
  assumes "waiting_aligned s" and "waiting_main s n i = Inr main" and "inp < length main" and "main ! inp = v"
    and "success_at d out = Inr v"
  shows "\<exists>s'. store_waiting n i inp d out s = normal s' \<and> waiting_aligned s' \<and> waiting_main s' n i = Inr main
    \<and> en_stack s' = en_stack s"
proof -
  obtain srcs where srcs: "waiting_source_main s n i = Inr srcs" "length srcs = length main"
    using aligned_sources [OF assms(1,2)] by metis
  define s' where "s' = set_waiting_source n i [(Main_t, srcs)] (set_waiting n i [(Main_t, main)] s)"
  have "store_waiting n i inp d out s = normal s'"
    using assms srcs by (simp add: store_waiting_def reading_def s'_def array_set_same)
  moreover have "waiting_aligned s'"
    unfolding s'_def by (rule aligned_set [OF assms(1)]) (simp add: srcs)
  moreover have "waiting_main s' n i = Inr main" by (simp add: waiting_main_entry s'_def)
  moreover have "en_stack s' = en_stack s" by (simp add: s'_def set_waiting_def set_waiting_source_def)
  ultimately show ?thesis by blast
qed

definition all_inputs_came :: "items js list \<Rightarrow> bool" where
  "all_inputs_came main \<longleftrightarrow> Null \<notin> set main"

text \<open>Where the data for an input of a node is: waiting with others, or on the stack.\<close>

definition data_waits :: "engine \<Rightarrow> string \<Rightarrow> nat \<Rightarrow> items js \<Rightarrow> bool" where
  "data_waits s n inp v \<longleftrightarrow> (\<exists>i main. waiting_main s n i = Inr main \<and> inp < length main \<and> main ! inp = v
     \<and> \<not> all_inputs_came main)"

definition data_on_stack :: "engine \<Rightarrow> string \<Rightarrow> nat \<Rightarrow> items js \<Rightarrow> bool" where
  "data_on_stack s n inp v \<longleftrightarrow> (\<exists>e \<in> set (en_stack s). map_of (w_nodes (en_workflow s)) n = Some (ed_node e)
     \<and> (\<exists>main. map_of (ed_data e) Main_t = Some main \<and> inp < length main \<and> main ! inp = v
          \<and> (number_of_inputs (en_workflow s) n > 1 \<longrightarrow> all_inputs_came main)))"

lemma complete_waiting_effect:
  assumes "waiting_main s n i = Inr main" and "inp < length main" and "main ! inp = v" and "all_inputs_came main"
  shows "(\<exists>e. complete_waiting n i s = raised e s)
    \<or> (\<exists>s'. complete_waiting n i s = normal s' \<and> data_on_stack s' n inp v \<and> (waiting_aligned s \<longrightarrow> waiting_aligned s'))"
proof (cases "map_of (w_nodes (en_workflow s)) n")
  case None
  then show ?thesis by (simp add: complete_waiting_def)
next
  case (Some node)
  obtain entry where entry: "map_of (waiting_runs s n) i = Some entry" "map_of entry Main_t = Some main"
    using assms(1) by (auto simp: waiting_main_entry)
  define e where "e = \<lparr>ed_data = entry, ed_metadata = None, ed_node = node,
     ed_source = map_of (waiting_source_runs s n) i, ed_runIndex = None\<rparr>"
  define s' where "s' = drop_waiting n i (enqueue e s)"
  have "complete_waiting n i s = normal s'"
    using Some entry by (simp add: complete_waiting_def reading_def lookup_def s'_def e_def)
  moreover have "data_on_stack s' n inp v"
    unfolding data_on_stack_def
    by (rule bexI [of _ e])
      (use Some entry assms in \<open>simp_all add: s'_def e_def drop_waiting_def enqueue_def Let_def\<close>)
  moreover have "waiting_aligned s'" if "waiting_aligned s"
    unfolding s'_def by (rule aligned_drop, rule aligned_cong [OF _ _ that]) (simp_all add: enqueue_def)
  ultimately show ?thesis by blast
qed

lemma data_on_stack_enqueue:
  assumes "map_of (w_nodes (en_workflow s)) n = Some (ed_node e)" and "map_of (ed_data e) Main_t = Some main"
    and "inp < length main" and "main ! inp = v" and "number_of_inputs (en_workflow s) n \<le> 1"
  shows "data_on_stack (enqueue e s) n inp v"
  unfolding data_on_stack_def by (rule bexI [of _ e]) (use assms in \<open>simp_all add: enqueue_def\<close>)

lemma add_directly_effect:
  assumes "number_of_inputs (en_workflow s) (c_node c) \<le> 1" and "add_directly c d out src nri md s = normal s'"
  shows "\<exists>v. success_at d out = Inr v
    \<and> (data_on_stack s' (c_node c) (c_index c) v \<or> map_of (w_nodes (en_workflow s)) (c_node c) = None)"
proof -
  obtain v where v: "success_at d out = Inr v" using assms(2) by (auto simp: add_directly_def reading_normal)
  have "data_on_stack s' (c_node c) (c_index c) v" if node: "map_of (w_nodes (en_workflow s)) (c_node c) = Some node" for node
  proof -
    let ?e = "\<lparr>ed_data = [(Main_t, replicate (c_index c) Null @ [v])], ed_metadata = md, ed_node = node,
       ed_source = Some [(Main_t, [Some src])], ed_runIndex = nri\<rparr>"
    have "s' = enqueue ?e s" using assms(2) v node by (simp add: add_directly_def reading_def)
    moreover have "data_on_stack (enqueue ?e s) (c_node c) (c_index c) v"
      by (rule data_on_stack_enqueue [where main = "replicate (c_index c) Null @ [v]"])
        (use assms(1) node in \<open>simp_all add: nth_append\<close>)
    ultimately show ?thesis by simp
  qed
  with v show ?thesis by (cases "map_of (w_nodes (en_workflow s)) (c_node c)") auto
qed

lemma aligned_enqueue [simp]: "waiting_aligned (enqueue e s) = waiting_aligned s"
  by (simp add: waiting_aligned_def enqueue_def)

lemma add_directly_aligned: "waiting_aligned s \<Longrightarrow> waiting_aligned (fst (add_directly c d out src nri md s))"
  by (simp add: add_directly_def reading_invariant split: option.split)

lemma workflow_same:
  "en_workflow (start_waiting n s) = en_workflow s" "en_workflow (prepareWaitingToExecution n k i s) = en_workflow s"
  by (rule elementary_closed [OF workflow_closed], simp)+

text \<open>
  The outcome of adding data for a node: an exception, or the data is delivered; either way
  the two tables keep their common shape.
\<close>

definition delivered :: "iconnection \<Rightarrow> items js list js \<Rightarrow> nat \<Rightarrow> engine \<Rightarrow> engine \<Rightarrow> bool" where
  "delivered c d out s s' \<longleftrightarrow> (\<exists>v. success_at d out = Inr v
     \<and> (data_waits s' (c_node c) (c_index c) v \<or> data_on_stack s' (c_node c) (c_index c) v
       \<or> map_of (w_nodes (en_workflow s)) (c_node c) = None))"

definition add_ok :: "iconnection \<Rightarrow> items js list js \<Rightarrow> nat \<Rightarrow> engine \<Rightarrow> engine run \<Rightarrow> bool" where
  "add_ok c d out s r \<longleftrightarrow> waiting_aligned (fst r) \<and> (snd r = None \<longrightarrow> delivered c d out s (fst r))"

lemma add_ok_raised: "waiting_aligned t \<Longrightarrow> add_ok c d out s (raised e t)"
  by (simp add: add_ok_def)

lemma fill_or_complete_ok:
  fixes c d out s t i ri pn wasWaiting
  defines "n \<equiv> c_node c" and "inp \<equiv> c_index c"
  assumes "waiting_aligned t"
  shows "add_ok c d out s (and_then (place_data n i inp d out src t) (\<lambda>s.
     reading (waiting_main s n i) (\<lambda>main s.
       if Null \<notin> set main then complete_waiting n i s
       else and_then (if wasWaiting then normal s else force_inputs n pn d out ri s) (store_waiting n i inp d out)) s))"
    (is "add_ok c d out s (and_then _ ?rest)")
proof -
  consider e where "place_data n i inp d out src t = raised e t"
    | t' v main where "place_data n i inp d out src t = normal t'" "success_at d out = Inr v" "waiting_aligned t'"
      "waiting_main t' n i = Inr (array_set Undef main inp v)"
    using place_data_cases [OF assms(3), of n i inp d out src] by blast
  then show ?thesis
  proof cases
    case 1
    then show ?thesis by (simp add: add_ok_raised assms(3))
  next
    case 2
    define filled where "filled = array_set Undef main inp v"
    have at: "inp < length filled" "filled ! inp = v" by (simp_all add: filled_def)
    note main = 2(4) [folded filled_def]
    show ?thesis
    proof (cases "Null \<in> set filled")
      case False
      with complete_waiting_effect [OF main at] 2(1-3) main show ?thesis
        by (auto simp: add_ok_def delivered_def all_inputs_came_def reading_def n_def inp_def)
    next
      case True
      define t2 where "t2 = (if wasWaiting then normal t' else force_inputs n pn d out ri t')"
      have same: "en_waiting (fst t2) = en_waiting t' \<and> en_waitingSource (fst t2) = en_waitingSource t'"
        by (simp add: t2_def force_inputs_waiting)
      then have al: "waiting_aligned (fst t2)" and m2: "waiting_main (fst t2) n i = Inr filled"
        using aligned_cong [of t' "fst t2"] 2(3) main waiting_reads_cong(1) [of "fst t2" t'] by simp_all
      obtain t3 where t3: "store_waiting n i inp d out (fst t2) = normal t3" "waiting_aligned t3" "waiting_main t3 n i = Inr filled"
        using store_waiting_effect [OF al m2 at 2(2)] by blast
      have waits: "data_waits t3 n inp v"
        unfolding data_waits_def all_inputs_came_def using t3(3) at True by blast
      have "?rest t' = and_then t2 (store_waiting n i inp d out)"
        using True main by (simp add: reading_def t2_def)
      then show ?thesis
        using t3 waits al 2(1,2)
        by (cases t2; cases "snd t2") (auto simp: add_ok_def delivered_def n_def inp_def)
    qed
  qed
qed

lemma addNode_ok:
  assumes "waiting_aligned s"
  shows "add_ok c d out s (addNodeToBeExecuted c out pn d ri nri md s)"
proof (cases "number_of_inputs (en_workflow s) (c_node c) > 1")
  case True
  let ?s = "start_waiting (c_node c) s"
  have al: "waiting_aligned ?s" by (rule aligned_start [OF assms])
  show ?thesis
  proof (cases "first_free (c_index c) (waiting_runs ?s (c_node c))")
    case (Inl e)
    with True al show ?thesis by (simp add: addNodeToBeExecuted_def Let_def reading_def add_ok_raised)
  next
    case (Inr free)
    let ?i = "or_else free (length (waiting_runs ?s (c_node c)))"
    let ?t = "if free = None
      then prepareWaitingToExecution (c_node c) (number_of_inputs (en_workflow s) (c_node c)) ?i ?s else ?s"
    have "waiting_aligned ?t" using al by (simp add: aligned_prepare)
    from fill_or_complete_ok [OF this] show ?thesis
      using True Inr by (simp add: addNodeToBeExecuted_def Let_def reading_def [of "Inr free"])
  qed
next
  case False
  then show ?thesis
    using add_directly_effect [of s c d out "source_entry pn out ri" nri md] add_directly_aligned [OF assms]
    by (fastforce simp: addNodeToBeExecuted_def Let_def add_ok_def delivered_def prod_eq_iff)
qed

interpretation alignment: waiting_invariant waiting_aligned
proof unfold_locales
  fix s t :: engine
  assume "en_waiting s = en_waiting t" "en_waitingSource s = en_waitingSource t" "waiting_aligned s"
  then show "waiting_aligned t" by (rule aligned_cong)
next
  fix s c out pn d ri nri md
  assume "waiting_aligned s"
  then show "waiting_aligned (fst (addNodeToBeExecuted c out pn d ri nri md s))"
    using addNode_ok [of s c d out] by (simp add: add_ok_def)
next
  fix s n i
  assume "waiting_aligned s"
  then show "waiting_aligned (drop_waiting n i s)" by (rule aligned_drop)
qed

section \<open>The recreated stack starts aligned\<close>

lemma shapes_aligned: "wshape we = sshape wes \<Longrightarrow> waiting_shape we = waiting_shape wes"
proof -
  assume "wshape we = sshape wes"
  then have "map_vals (map_vals (map_vals length)) (wshape we) = map_vals (map_vals (map_vals length)) (sshape wes)" by simp
  then show ?thesis by (simp add: wshape_def sshape_def waiting_shape_def comp_def split_def)
qed

fun tables_match :: "stack_state \<Rightarrow> bool" where
  "tables_match (stack, we, wes) = (wshape we = sshape wes)"

lemma add_waiting_match:
  "add_waiting rd n i c st = Inr st' \<Longrightarrow> wshape (fst st) = sshape (snd st) \<Longrightarrow> wshape (fst st') = sshape (snd st')"
  by (auto simp: add_waiting_def wshape_add sshape_add split: prod.splits option.splits)

lemma add_group_match: "add_group rd pd n g st = Inr st' \<Longrightarrow> tables_match st \<Longrightarrow> tables_match st'"
proof -
  assume add: "add_group rd pd n g st = Inr st'" and "tables_match st"
  obtain stack we wes where st: "st = (stack, we, wes)" by (cases st)
  obtain i where i: "i = (case map_of we (n_name n) of Some runs \<Rightarrow> length runs | None \<Rightarrow> 0)" by blast
  show ?thesis
  proof (cases "sg_complete g")
    case True
    with add \<open>tables_match st\<close> show ?thesis by (auto simp: add_group_def st)
  next
    case False
    with add st i obtain r where r: "fold_res (add_waiting rd (n_name n) i) (sg_connections g) (we, wes) = Inr r"
      and st': "st' = (stack, fst r, snd r)" by (auto simp: add_group_def Let_def split: prod.splits)
    have "wshape (fst r) = sshape (snd r)"
      by (rule fold_res_invariant [where P = "\<lambda>r. wshape (fst r) = sshape (snd r)", OF r])
        (use \<open>tables_match st\<close> st in \<open>auto intro: add_waiting_match\<close>)
    then show ?thesis by (cases r) (simp add: st')
  qed
qed

lemma recreate_match:
  assumes "recreateNodeExecutionStack lc g ns rd pd = Inr st"
  shows "tables_match st"
proof -
  have group: "tables_match s'" if "tables_match s" "fold_res (add_group rd pd n) gs s = Inr s'" for n gs s s'
    by (rule fold_res_invariant [where P = tables_match, OF that(2,1)]) (rule add_group_match)
  have "tables_match s'" if "tables_match s" "add_start_node lc g rd pd n s = Inr s'" for n s s'
    using that group [OF that(1), of n _ s'] by (cases s) (auto simp: add_start_node_def simp del: bind_res.simps split: if_splits)
  moreover have "fold_res (add_start_node lc g rd pd) ns ([], [], []) = Inr st"
    using assms by (simp add: recreateNodeExecutionStack_def split: option.splits)
  ultimately show ?thesis
    by (rule fold_res_invariant [where P = tables_match, rotated 2]) (simp_all add: wshape_def sshape_def)
qed

lemma plan_partial_aligned:
  "plan_partial lc g d t rd pd dirty = Inr plan \<Longrightarrow> waiting_shape (pp_waiting plan) = waiting_shape (pp_waitingSource plan)"
  by (auto simp: plan_partial_def split: if_splits intro!: shapes_aligned dest!: recreate_match)

lemma prepare_partial_aligned:
  "prepare_partial env gnp lc rq tok rd pd dirty dn s = Inr s0 \<Longrightarrow> waiting_aligned s0"
  by (auto simp: prepare_partial_def Let_def load_run_data_def partial_execution_data_def createRunExecutionData_def
      buildExecutionData_def no_create_options_def no_execution_options_def waiting_aligned_def
      dest!: plan_partial_aligned split: option.splits)

lemma start_queues:
  assumes "and_then (checkForWorkflowIssues env (setupExecution s)) handleWaitingState = normal s1"
  shows "en_waiting s1 = en_waiting s \<and> en_waitingSource s1 = en_waitingSource s
    \<and> map ed_data (en_stack s1) = map ed_data (en_stack s) \<and> topology (en_workflow s1) = topology (en_workflow s)"
  using assms
  by (auto simp: and_then_normal checkForWorkflowIssues_def setupExecution_def handleWaitingState_def Let_def
      reading_normal disable_node_def write_node_def topology_def comp_def split_def split: option.splits list.splits if_splits)

section \<open>Properties\<close>

text \<open>
  C4. The data of the waiting nodes and the table of their sources have the same shape (the
  same nodes, run indexes, connection types and numbers of inputs) in every state that the
  execution of a planned partial run can reach, however nodes behave and whenever the
  execution is cancelled.
\<close>

theorem partial_run_aligned:
  assumes "prepare_partial env gnp lc request token runData pinData dirty destination s = Inr s0"
    and "and_then (checkForWorkflowIssues env (setupExecution s0)) handleWaitingState = normal s1"
    and "reachable env (execution_begins env (fresh_variables s1)) s'"
  shows "waiting_aligned s'"
proof (rule alignment.inv_reachable [OF assms(3)])
  have "waiting_aligned s0" by (rule prepare_partial_aligned [OF assms(1)])
  then have "waiting_aligned s1" using start_queues [OF assms(2)] by (auto intro: aligned_cong)
  then show "waiting_aligned (execution_begins env (fresh_variables s1))"
    by (rule aligned_cong [rotated 2]) (simp_all add: execution_begins_def fresh_variables_def emit_def)
qed

text \<open>An environment whose nodes hand on what they get.\<close>

definition hand_on :: "nat \<Rightarrow> node_call \<Rightarrow> node_outcome" where
  "hand_on k call = \<lparr>no_answer = Returned (Val [Val (nc_connectionInputData call)]) [], no_closing = [],
     no_waitTill = None, no_aborted = False, no_usedDynamic = False, no_attemptedDynamic = False\<rparr>"

definition simple_env :: "node_types \<Rightarrow> (nat \<Rightarrow> node_call \<Rightarrow> node_outcome) \<Rightarrow> env" where
  "simple_env types behaviour = \<lparr>e_types = types, e_manual = True, e_behaviour = behaviour, e_clock = int,
     e_timeout = None, e_restart = False, e_nodeOutputs = (\<lambda>w n. [Io_type Main_t]),
     e_getPairedItem = (\<lambda>s name sd pi. Inr None), e_convertBinary = (\<lambda>d. d), e_requiredInputs = (\<lambda>n e. None),
     e_issuesOf = (\<lambda>n nt names. None), e_issuesText = (\<lambda>i. [])\<rparr>"

lemma partial_run_aligned_witness:
  "\<exists>s0 s1. prepare_partial (simple_env trigger_types hand_on) (\<lambda>nt n. None) (\<lambda>a b. 0)
       \<lparr>tr_fresh_ref = 9, tr_query = [], tr_toolName = []\<rparr> [] [] [] [] \<lparr>d_nodeName = ''b'', d_mode = Inclusive\<rparr>
       (new_engine trigger_workflow) = Inr s0
     \<and> and_then (checkForWorkflowIssues (simple_env trigger_types hand_on) (setupExecution s0)) handleWaitingState = normal s1
     \<and> waiting_aligned (execution_begins (simple_env trigger_types hand_on) (fresh_variables s1))"
proof -
  let ?env = "simple_env trigger_types hand_on"
  let ?r = "prepare_partial ?env (\<lambda>nt n. None) (\<lambda>a b. 0) \<lparr>tr_fresh_ref = 9, tr_query = [], tr_toolName = []\<rparr>
     [] [] [] [] \<lparr>d_nodeName = ''b'', d_mode = Inclusive\<rparr> (new_engine trigger_workflow)"
  have planned: "\<not> isl ?r" by code_simp
  have begun: "snd (and_then (checkForWorkflowIssues ?env (setupExecution (projr ?r))) handleWaitingState) = None" by code_simp
  from planned have s0: "?r = Inr (projr ?r)" by (rule sum.collapse(2) [symmetric])
  from begun obtain s1 where "and_then (checkForWorkflowIssues ?env (setupExecution (projr ?r))) handleWaitingState = normal s1"
    by (metis prod.collapse)
  with partial_run_aligned [OF s0 this reachable.Here] s0 show ?thesis by blast
qed

text \<open>
  C5. Data added for an input of a node is delivered: unless an exception is thrown, it is
  afterwards at that input of a waiting entry whose inputs have not all come, or at that
  input of an entry of the stack (all of whose inputs have come, where the node has
  several), unless the workflow has no such node.
\<close>

theorem addNode_delivers:
  assumes "waiting_aligned s" and "addNodeToBeExecuted c out pn d ri nri md s = normal s'"
  shows "\<exists>v. success_at d out = Inr v
    \<and> (data_waits s' (c_node c) (c_index c) v \<or> data_on_stack s' (c_node c) (c_index c) v
      \<or> map_of (w_nodes (en_workflow s)) (c_node c) = None)"
  using addNode_ok [OF assms(1), of c d out pn ri nri md] by (simp add: assms(2) add_ok_def delivered_def)

text \<open>Node c takes its two inputs from a and b.\<close>

definition to_c :: "nat \<Rightarrow> iconnection" where
  "to_c i = \<lparr>c_node = ''c'', c_type = Main_t, c_index = i\<rparr>"

definition merge_workflow :: workflow where
  "merge_workflow = setSettings \<lparr>ws_executionOrder = Some ''v1''\<rparr>
     (setConnections [(''a'', [(Main_t, [Some [to_c 0]])]), (''b'', [(Main_t, [Some [to_c 1]])])]
       (setNodes [n_a, n_b, n_c] empty_workflow))"

definition one_item :: "string \<Rightarrow> items" where
  "one_item v = [empty_item\<lparr>i_json := [(''v'', JStr v)]\<rparr>]"

text \<open>Data \<^verbatim>\<open>v\<close> arrives from a (at input 0) or from b (at input 1).\<close>

definition arrives :: "nat \<times> string \<Rightarrow> engine \<Rightarrow> engine run" where
  "arrives iv s = addNodeToBeExecuted (to_c (fst iv)) 0 (if fst iv = 0 then ''a'' else ''b'')
     (Val [Val (one_item (snd iv))]) 0 None None s"

lemma addNode_delivers_witness:
  "\<exists>s'. arrives (0, ''A'') (new_engine merge_workflow) = normal s' \<and> data_waits s' ''c'' 0 (Val (one_item ''A''))"
proof -
  let ?s = "new_engine merge_workflow"
  have al: "waiting_aligned ?s" by code_simp
  have no_raise: "snd (arrives (0, ''A'') ?s) = None" by code_simp
  have stack: "en_stack (fst (arrives (0, ''A'') ?s)) = []" by code_simp
  have node: "map_of (w_nodes (en_workflow ?s)) ''c'' \<noteq> None" by code_simp
  obtain s' where s': "arrives (0, ''A'') ?s = normal s'" using no_raise by (cases "arrives (0, ''A'') ?s") simp
  from addNode_delivers [OF al s' [unfolded arrives_def]] stack node s'
  show ?thesis by (auto simp: to_c_def success_at_def js_get_def data_on_stack_def)
qed

text \<open>
  Data that waits can be lost.  A new waiting entry is numbered by the number of entries,
  and entries leave in any order: after two values from a and one from b the first pair has
  run and the second value waits under the number 1; the next value from a finds one entry,
  takes the number 1 again and overwrites it.
\<close>

theorem waiting_data_overwritten:
  "let (s, err) = fold_run arrives [(0, ''A1''), (0, ''A2''), (1, ''B1'')] (new_engine merge_workflow);
       (s', err') = arrives (0, ''A3'') s
   in err = None \<and> err' = None
      \<and> en_waiting s = [(''c'', [(1, [(Main_t, [Val (one_item ''A2''), Null])])])]
      \<and> en_waiting s' = [(''c'', [(1, [(Main_t, [Val (one_item ''A3''), Null])])])]
      \<and> map ed_data (en_stack s') = [[(Main_t, [Val (one_item ''A1''), Val (one_item ''B1'')])]]"
  by code_simp

end
