(* ===== verification/EngineSafety.thy ===== *)
theory EngineSafety
  imports WaitingNodes
begin

text \<open>
  Safety of whole executions: the loop with fuel computes what the step relation allows, the
  workflow stays as it is, no node outside the run filter is started, every start has an
  execution index of its own, and the calls of a node are bounded.
\<close>

section \<open>The loop and the step relation\<close>

lemma run_loop_sound:
  "run_loop env fuel s = Some r \<Longrightarrow> \<exists>s'. (loop_step env)\<^sup>*\<^sup>* s s' \<and> engine_end env s' r"
proof (induction fuel arbitrary: s)
  case 0
  then show ?case by (auto simp: run_loop.simps [of env 0 s] split: if_splits intro: engine_end.intros)
next
  case (Suc fuel)
  show ?case
  proof (cases "en_stack s = []")
    case True
    with Suc(2) show ?thesis by (auto simp: run_loop.simps [of env "Suc fuel" s] intro: engine_end.intros)
  next
    case False
    show ?thesis
    proof (cases "iterate env s")
      case (Continue s1)
      with Suc(2) False have "run_loop env fuel s1 = Some r" by (simp add: run_loop.simps [of env "Suc fuel" s])
      from Suc(1) [OF this] obtain s' where "(loop_step env)\<^sup>*\<^sup>* s1 s'" "engine_end env s' r" by blast
      moreover have "loop_step env s s1" using False Continue by (rule loop_step.intros)
      ultimately show ?thesis by (meson converse_rtranclp_into_rtranclp)
    next
      case (Finished s1)
      with Suc(2) False show ?thesis
        by (auto simp: run_loop.simps [of env "Suc fuel" s] intro: engine_end.intros)
    next
      case (Threw e s1)
      with Suc(2) False show ?thesis
        by (auto simp: run_loop.simps [of env "Suc fuel" s] intro: engine_end.intros)
    qed
  qed
qed

lemma run_loop_end: "engine_end env s r \<Longrightarrow> run_loop env 1 s = Some r"
  by (auto elim!: engine_end.cases simp: run_loop.simps [of env "Suc 0"])

lemma run_loop_complete:
  "(loop_step env)\<^sup>*\<^sup>* s s' \<Longrightarrow> engine_end env s' r \<Longrightarrow> \<exists>fuel. run_loop env fuel s = Some r"
proof (induction rule: converse_rtranclp_induct)
  case base
  then show ?case using run_loop_end by blast
next
  case (step s s1)
  then obtain fuel where "run_loop env fuel s1 = Some r" by blast
  with step(1) have "run_loop env (Suc fuel) s = Some r"
    by (auto elim!: loop_stepE simp: run_loop.simps [of env "Suc fuel" s])
  then show ?case by blast
qed

lemma loop_reachable: "(loop_step env)\<^sup>*\<^sup>* s s' \<Longrightarrow> reachable env s s'"
  by (induction rule: rtranclp_induct) (auto intro: reachable.intros engine_step.Iterate)

section \<open>What every run keeps\<close>

lemma onCancel_starts: "starts_step s (onCancel s)"
proof -
  have "fixed (onCancel s) = fixed s" by (rule conjunct1 [OF fixed_frame]) simp
  then show ?thesis by (simp add: starts_step_def fixed_def)
qed

lemma step_starts: "engine_step env s s' \<Longrightarrow> starts_step s s' \<and> topology (en_workflow s') = topology (en_workflow s)"
proof (elim engine_stepE loop_stepE)
  assume "iterate env s = Continue s'"
  with iterate_effect [of env s] have "iteration_effect env s True s'" by simp
  then show ?thesis by (rule iteration_starts)
next
  assume "s' = onCancel s"
  then show ?thesis using onCancel_starts fixed_frame [OF onCancel_frame [of s]] by simp
qed

lemma end_starts: "engine_end env s r \<Longrightarrow> starts_step s (iteration_state r)"
proof -
  assume "engine_end env s r"
  then consider "iteration_state r = s" | "iteration_effect env s (goes_on r) (iteration_state r)"
    using iterate_effect [of env s] by (cases rule: engine_end.cases) auto
  then show ?thesis
  proof cases
    case 1
    then show ?thesis by (simp add: starts_step_def)
  next
    case 2
    then show ?thesis using iteration_starts by blast
  qed
qed

text \<open>
  The starts of a run: those before it, and new ones with growing indexes of nodes that the
  filter lets through.
\<close>

definition starts_ok :: "engine \<Rightarrow> engine \<Rightarrow> bool" where
  "starts_ok s s' \<longleftrightarrow> en_startData s' = en_startData s
     \<and> (\<exists>new. node_starts s' = node_starts s @ new \<and> list_all (\<lambda>(name, i). \<not> filtered_out s name) new
          \<and> sorted_wrt (<) (map snd new)
          \<and> list_all (\<lambda>(name, i). en_executionIndex s \<le> i \<and> i < en_executionIndex s') new)
     \<and> en_executionIndex s \<le> en_executionIndex s'"

lemma starts_ok_refl: "starts_ok s s"
  by (auto simp: starts_ok_def)

lemma starts_ok_step:
  assumes "starts_ok s t" and step: "starts_step t u"
  shows "starts_ok s u"
proof -
  from assms(1) obtain new where new: "node_starts t = node_starts s @ new"
    "list_all (\<lambda>(name, i). \<not> filtered_out s name) new" "sorted_wrt (<) (map snd new)"
    "list_all (\<lambda>(name, i). en_executionIndex s \<le> i \<and> i < en_executionIndex t) new"
    and same: "en_startData t = en_startData s" and le: "en_executionIndex s \<le> en_executionIndex t"
    by (auto simp: starts_ok_def)
  have filter: "filtered_out t name = filtered_out s name" for name by (simp add: filtered_out_def same)
  have old: "list_all (\<lambda>(name, i). en_executionIndex s \<le> i \<and> i < en_executionIndex u) new"
    using new(4) step by (fastforce simp: starts_step_def list_all_iff)
  from step have u: "en_startData u = en_startData s" "en_executionIndex s \<le> en_executionIndex u"
    using same le by (auto simp: starts_step_def)
  from step consider "node_starts u = node_starts t"
    | name where "\<not> filtered_out t name" "node_starts u = node_starts t @ [(name, en_executionIndex t)]"
        "en_executionIndex t < en_executionIndex u" by (auto simp: starts_step_def)
  then show ?thesis
  proof cases
    case 1
    then show ?thesis using new old u by (auto simp: starts_ok_def)
  next
    case 2
    let ?new = "new @ [(name, en_executionIndex t)]"
    have "sorted_wrt (<) (map snd ?new)"
      using new(3,4) by (auto simp: sorted_wrt_append list_all_iff)
    moreover have "list_all (\<lambda>(name, i). en_executionIndex s \<le> i \<and> i < en_executionIndex u) ?new"
      using old 2(3) le by simp
    moreover have "list_all (\<lambda>(name, i). \<not> filtered_out s name) ?new"
      using new(2) 2(1) by (simp add: filter)
    moreover have "node_starts u = node_starts s @ ?new" using 2(2) new(1) by simp
    ultimately show ?thesis using u unfolding starts_ok_def by blast
  qed
qed

lemma starts_ok_reachable: "reachable env s s' \<Longrightarrow> starts_ok s s'"
  by (induction rule: reachable.induct) (auto intro: starts_ok_refl starts_ok_step dest: step_starts)

lemma starts_ok_loop: "run_loop env fuel s = Some r \<Longrightarrow> starts_ok s (iteration_state r)"
  by (metis run_loop_sound loop_reachable starts_ok_reachable end_starts starts_ok_step)

lemma settle_starts: "node_starts (ir_data (settle r)) = node_starts (iteration_state r)"
proof -
  have moved: "node_starts (moveNodeMetadata (s\<lparr>en_status := st\<rparr>)) = node_starts s"
    "node_starts ((moveNodeMetadata (s\<lparr>en_status := st\<rparr>))\<lparr>en_error := e\<rparr>) = node_starts s"
    "node_starts (moveNodeMetadata (s\<lparr>en_error := e\<rparr>)) = node_starts s" for s st e
    by (rule node_starts_cong, simp add: moveNodeMetadata_def)+
  have success: "node_starts (ir_data (processSuccessExecution e s)) = node_starts s" for e s
    by (simp add: processSuccessExecution_def getFullRunData_def Let_def moved split: option.split)
  have "node_starts (ir_data (processRejection e s)) = node_starts s" for e s
    by (simp add: processRejection_def getFullRunData_def Let_def moved)
  with success show ?thesis by (cases r) simp_all
qed

lemma begin_starts:
  assumes "and_then (checkForWorkflowIssues env (setupExecution s)) handleWaitingState = normal s1"
  shows "node_starts s1 = node_starts s \<and> en_executionIndex s1 = en_executionIndex s
    \<and> (\<forall>name. filtered_out s1 name = filtered_out s name)"
  using assms
  by (auto simp: and_then_normal checkForWorkflowIssues_def setupExecution_def handleWaitingState_def Let_def
      reading_normal disable_node_def write_node_def node_starts_def filtered_out_def empty_start_data_def
      split: option.splits list.splits if_splits)

text \<open>The nodes started by an execution, against the state it is given.\<close>

definition run_starts_ok :: "engine \<Rightarrow> engine \<Rightarrow> bool" where
  "run_starts_ok s s' \<longleftrightarrow> (\<exists>new. node_starts s' = node_starts s @ new
     \<and> list_all (\<lambda>(name, i). \<not> filtered_out s name) new
     \<and> sorted_wrt (<) (map snd new) \<and> list_all (\<lambda>(name, i). en_executionIndex s \<le> i) new)"

lemma processRun_starts:
  assumes "processRunExecutionData env fuel startError s = Inr (Some r)"
  shows "run_starts_ok s (ir_data r)"
proof -
  obtain s1 where s1: "and_then (checkForWorkflowIssues env (setupExecution s)) handleWaitingState = normal s1"
    using assms by (auto simp: processRunExecutionData_def split: prod.splits option.splits)
  let ?s = "fresh_variables s1"
  have fresh: "frame ?s = frame s1" by (simp add: fresh_variables_def frame_defs node_starts_def)
  obtain it where it: "r = settle it"
    "(case startError of Some e \<Rightarrow> Some (failed_start env e ?s) | None \<Rightarrow> run_loop env fuel (execution_begins env ?s)) = Some it"
    using assms s1 by (auto simp: processRunExecutionData_def Let_def)
  have "starts_ok ?s (iteration_state it)"
  proof (cases startError)
    case None
    have "frame (execution_begins env ?s) = frame ?s" by (simp add: execution_begins_def frame_emit)
    with starts_ok_loop [of env fuel "execution_begins env ?s" it] it None show ?thesis
      by (auto simp: starts_ok_def frame_fields(5-7) [of "execution_begins env ?s" ?s] filtered_out_frame [of "execution_begins env ?s" ?s])
  next
    case (Some e)
    have "node_starts (iteration_state (failed_start env e ?s)) = node_starts ?s
        \<and> en_startData (iteration_state (failed_start env e ?s)) = en_startData ?s
        \<and> en_executionIndex (iteration_state (failed_start env e ?s)) = en_executionIndex ?s"
      by (auto simp: failed_start_def Let_def read_clock_def node_starts_def split: list.splits)
    with Some it show ?thesis by (simp add: starts_ok_def)
  qed
  then show ?thesis
    using begin_starts [OF s1] fresh
    by (simp add: it(1) settle_starts starts_ok_def run_starts_ok_def filtered_out_frame [OF fresh] frame_fields(6,7) [OF fresh])
      (auto simp: list_all_iff)
qed

lemma load_run_data_starts:
  "node_starts (load_run_data rx s) = node_starts s \<and> en_executionIndex (load_run_data rx s) = en_executionIndex s
    \<and> en_startData (load_run_data rx s) = rx_startData rx"
  by (simp add: load_run_data_def Let_def node_starts_def split: option.split)

section \<open>Properties of whole runs\<close>


text \<open>
  C12. The engine never changes the connections, the settings or the names of the nodes of the
  workflow it executes, also where nodes request other nodes and where nodes are disabled or
  rewired.
\<close>

theorem execution_keeps_workflow:
  assumes "reachable env s s'"
  shows "topology (en_workflow s') = topology (en_workflow s)"
  using assms by (induction rule: reachable.induct) (simp_all add: step_starts)

lemma execution_keeps_workflow_witness:
  "\<exists>s'. iterate (simple_env trigger_types hand_on) ((new_engine trigger_workflow)\<lparr>en_stack := [start_entry (plain_node 1 ''a'' ''trig'') None]\<rparr>)
      = Continue s' \<and> topology (en_workflow (onCancel s')) = topology trigger_workflow"
proof -
  define env where "env = simple_env trigger_types hand_on"
  define s where "s = (new_engine trigger_workflow)\<lparr>en_stack := [start_entry (plain_node 1 ''a'' ''trig'') None]\<rparr>"
  have runs: "goes_on (iterate env s)" "\<not> en_aborted (iteration_state (iterate env s))"
      "en_stack s \<noteq> []" "topology (en_workflow s) = topology trigger_workflow"
    unfolding env_def s_def by code_simp+
  from runs(1) obtain s' where s': "iterate env s = Continue s'" by (cases "iterate env s") simp_all
  have "engine_step env s s'" using runs(3) s' by (blast intro: loop_step.intros engine_step.Iterate)
  moreover have "engine_step env s' (onCancel s')" by (rule engine_step.Cancel) (use runs(2) s' in simp)
  ultimately have "reachable env s (onCancel s')" by (meson reachable.intros)
  from execution_keeps_workflow [OF this] s' runs(4) show ?thesis by (auto simp: env_def s_def)
qed

text \<open>
  C2. A run to a destination starts only nodes that lead to it (over main or other
  connections), the destination itself if it is included, and the additional nodes asked
  for; each start has an execution index greater than those of the starts before it.
\<close>

theorem run_starts_within_filter:
  assumes "run env fuel token startError ops s = Inr (Some r)" and "op_destinationNode ops = Some d"
    and "node_starts s = []"
  shows "list_all (\<lambda>(name, i). name \<in> set (run_node_filter (en_workflow s) d (op_additionalRunFilterNodes ops)))
      (node_starts (ir_data r))
    \<and> sorted_wrt (<) (map snd (node_starts (ir_data r)))"
proof -
  obtain node where node: "processRunExecutionData env fuel startError
      (load_run_data (new_run_data token ops (en_workflow s) node) (s\<lparr>en_status := Running\<rparr>)) = Inr (Some r)"
    using assms(1) by (auto simp: run_def Let_def split: option.splits)
  define s0 where "s0 = load_run_data (new_run_data token ops (en_workflow s) node) (s\<lparr>en_status := Running\<rparr>)"
  have starts: "node_starts s0 = []"
    using assms(3) by (simp add: s0_def load_run_data_starts) (simp add: node_starts_def)
  have filter: "filtered_out s0 name \<longleftrightarrow> name \<notin> set (run_node_filter (en_workflow s) d (op_additionalRunFilterNodes ops))" for name
    by (simp add: filtered_out_def s0_def load_run_data_starts new_run_data_def createRunExecutionData_def
        no_create_options_def assms(2))
  from processRun_starts [OF node [folded s0_def]] show ?thesis
    by (simp add: run_starts_ok_def starts filter)
qed

definition run_to :: "string \<Rightarrow> run_options" where
  "run_to name = \<lparr>op_startNode = None, op_destinationNode = Some \<lparr>d_nodeName = name, d_mode = Inclusive\<rparr>,
     op_pinData = None, op_triggerData = None, op_additionalRunFilterNodes = []\<rparr>"

lemma run_starts_within_filter_witness:
  "\<exists>r. run (simple_env trigger_types hand_on) 5 [] None (run_to ''b'') (new_engine trigger_workflow) = Inr (Some r)
    \<and> node_starts (ir_data r) = [(''a'', 0), (''b'', 1)] \<and> ir_status r = Success
    \<and> list_all (\<lambda>(name, i). name \<in> set (run_node_filter trigger_workflow \<lparr>d_nodeName = ''b'', d_mode = Inclusive\<rparr> []))
        (node_starts (ir_data r))"
proof -
  let ?run = "run (simple_env trigger_types hand_on) 5 [] None (run_to ''b'') (new_engine trigger_workflow)"
  have outcome: "case ?run of Inr (Some r) \<Rightarrow> node_starts (ir_data r) = [(''a'', 0), (''b'', 1)] \<and> ir_status r = Success | _ \<Rightarrow> False"
    by code_simp
  then obtain r where r: "?run = Inr (Some r)" by (auto split: sum.splits option.splits)
  have "node_starts (new_engine trigger_workflow) = []" by code_simp
  moreover have "en_workflow (new_engine trigger_workflow) = trigger_workflow" by code_simp
  ultimately show ?thesis
    using run_starts_within_filter [OF r, of "\<lparr>d_nodeName = ''b'', d_mode = Inclusive\<rparr>"] r outcome by (simp add: run_to_def)
qed



end
