(* ===== verification/NodeTries.thy ===== *)
theory NodeTries
  imports WaitingNodes
begin

text \<open>
  How often a node is called in one iteration of the loop: a bound that holds whatever the
  node does, and a run that shows it is not the number of tries.
\<close>

section \<open>Counting calls\<close>

lemma onCancel_calls [simp]: "en_calls (onCancel s) = en_calls s"
  by (simp add: onCancel_def emit_def updateTaskStatusesToCancelled_def)

lemma emit_calls [simp]: "en_calls (emit ev s) = en_calls s"
  by (simp add: emit_def)

lemma call_node_calls: "call_node env call s = (s', o') \<Longrightarrow> en_calls s' = Suc (en_calls s)"
  by (auto simp: call_node_def Let_def split: if_splits)

lemma executeNode_calls: "executeNode env call s = (s', r) \<Longrightarrow> en_calls s' \<le> Suc (en_calls s)"
  by (auto simp: executeNode_def split: prod.splits node_answer.splits option.splits dest: call_node_calls)

lemma executePollNode_calls: "executePollNode env call s = (s', r) \<Longrightarrow> en_calls s' \<le> Suc (en_calls s)"
  by (auto simp: executePollNode_def split: prod.splits node_answer.splits if_splits dest: call_node_calls)

lemma executeTriggerNode_calls: "executeTriggerNode env call s = (s', r) \<Longrightarrow> en_calls s' \<le> Suc (en_calls s)"
  by (auto simp: executeTriggerNode_def split: prod.splits node_answer.splits option.splits if_splits dest: call_node_calls)

lemma executeDeclarative_calls: "executeDeclarativeNodeInTest env call s = (s', r) \<Longrightarrow> en_calls s' \<le> Suc (en_calls s)"
  by (auto simp: executeDeclarativeNodeInTest_def split: prod.splits node_answer.splits dest: call_node_calls)

lemma runNode_calls: "runNode env ed runIndex response s = (s', r) \<Longrightarrow> en_calls s' \<le> Suc (en_calls s)"
  unfolding runNode_def Let_def
  by (auto split: option.splits if_splits
      dest: executeNode_calls executePollNode_calls executeTriggerNode_calls executeDeclarative_calls)

text \<open>
  The inner loop counts a try after the call: an exception leaves the index where it was, and
  leaves further indexes to the outer loop.
\<close>

lemma rerun_failed_calls:
  "rerun_failed env ed runIndex tries t s r = ((s', t'), r') \<Longrightarrow> t < tries \<Longrightarrow>
   t \<le> t' \<and> t' < tries \<and> en_calls s' \<le> en_calls s + (t' - t) + (if isl r' then 1 else 0) \<and> (isl r' \<longrightarrow> Suc t' < tries)"
proof (induction env ed runIndex tries t s r rule: rerun_failed.induct)
  case (1 env ed runIndex tries t s r)
  show ?case
  proof (cases "checkFailure r \<and> t < tries - 1")
    case True
    obtain s1 r1 where run: "runNode env ed runIndex None s = (s1, r1)" by fastforce
    note calls = runNode_calls [OF run]
    show ?thesis
    proof (cases r1)
      case (Inl e)
      with 1(2) True run calls show ?thesis by (auto simp: rerun_failed.simps [of env ed runIndex tries t s r])
    next
      case (Inr x)
      with 1(2) True run have rest: "rerun_failed env ed runIndex tries (Suc t) s1 x = ((s', t'), r')"
        by (simp add: rerun_failed.simps [of env ed runIndex tries t s r])
      from True have "Suc t < tries" by linarith
      from 1(1) [OF True run [symmetric] Inr rest this] calls show ?thesis by auto
    qed
  next
    case False
    with 1(2,3) show ?thesis by (auto simp: rerun_failed.simps [of env ed runIndex tries t s r])
  qed
qed

lemma handleEngineRequest_calls: "en_calls (fst (handleEngineRequest cur req ri ed s)) = en_calls s"
proof -
  have closed: "queue_closed (\<lambda>t. en_calls t = en_calls s)" by (simp add: queue_closed_def)
  obtain st err where req: "handleRequest (en_workflow s) cur req ri ed (en_runData s) = (st, err)" by fastforce
  let ?s = "s\<lparr>en_workflow := rq_workflow st, en_runData := rq_runData st,
      en_stack := map (\<lambda>e. e\<lparr>ed_node := rewire_stacked (rq_workflow st) (ed_node e)\<rparr>) (en_stack s)\<rparr>"
  have "en_calls (fst (fold_run schedule_requested (rq_nodes st) ?s)) = en_calls s"
    by (rule fold_run_invariant [where P = "\<lambda>t. en_calls t = en_calls s"])
      (simp_all add: schedule_requested_def addNode_closed [OF closed])
  with req show ?thesis by (simp add: handleEngineRequest_def Let_def split: option.split)
qed

lemma finish_try_calls [simp]: "en_calls (outcome_state (finish_try ed t ts)) = en_calls (ts_engine ts)"
  by (auto simp: finish_try_def Let_def set_last_def split: sum.splits)

lemma accept_data_calls [simp]:
  "en_calls (outcome_state (accept_data env ed data hints hasClose t ts)) = en_calls (ts_engine ts)"
  by (auto simp: accept_data_def Let_def split: js.splits option.splits on_error.splits sum.splits)

lemma finish_try_index: "finish_try ed t ts = Try_failed e t' ts' \<Longrightarrow> t' = t"
  by (auto simp: finish_try_def Let_def split: sum.splits if_splits)

lemma accept_data_index: "accept_data env ed data hints hasClose t ts = Try_failed e t' ts' \<Longrightarrow> t' = t"
  by (auto simp: accept_data_def Let_def split: js.splits option.splits on_error.splits sum.splits dest: finish_try_index)

definition try_bound :: "nat \<Rightarrow> nat \<Rightarrow> nat \<Rightarrow> try_outcome \<Rightarrow> bool" where
  "try_bound tries t calls out \<longleftrightarrow> (case out of
      Try_failed e t' ts \<Rightarrow> t \<le> t' \<and> t' < tries
        \<and> en_calls (ts_engine ts) \<le> calls + (t' - t) + 1 + (if Suc t' < tries then 1 else 0)
    | _ \<Rightarrow> en_calls (outcome_state out) \<le> calls + (tries - t))"

lemma try_boundI:
  assumes "t \<le> t2" and "t2 < tries" and "en_calls (outcome_state out) \<le> calls + (t2 - t) + 1"
    and "\<And>e t' ts. out = Try_failed e t' ts \<Longrightarrow> t' = t2"
  shows "try_bound tries t calls out"
  using assms by (cases out) (auto simp: try_bound_def)

lemma one_try_calls:
  assumes "t < tries"
  shows "try_bound tries t (en_calls (ts_engine ts)) (one_try env ed runIndex tries t ts)"
proof -
  let ?s = "if t \<noteq> 0 then (ts_engine ts)\<lparr>en_executionError := None\<rparr> else ts_engine ts"
  let ?out = "one_try env ed runIndex tries t ts"
  have start: "en_calls ?s = en_calls (ts_engine ts)" by simp
  show ?thesis
  proof (cases "pinned_data ?s (ed_node ed)")
    case (Some items)
    with assms show ?thesis
      by (intro try_boundI [of t t]) (auto simp: one_try_def Let_def dest: finish_try_index)
  next
    case None
    obtain s1 r1 where run: "runNode env ed runIndex (Some (collect_responses ed ?s (ts_response ts))) ?s = (s1, r1)"
      by fastforce
    have c1: "en_calls s1 \<le> Suc (en_calls (ts_engine ts))" using runNode_calls [OF run] start by simp
    show ?thesis
    proof (cases r1)
      case (Inl e)
      with None run c1 assms show ?thesis by (intro try_boundI [of t t]) (auto simp: one_try_def Let_def)
    next
      case (Inr r)
      obtain s2 t2 r2 where rerun: "rerun_failed env ed runIndex tries t s1 r = ((s2, t2), r2)"
        by (metis prod.collapse)
      note c2 = rerun_failed_calls [OF rerun assms]
      show ?thesis
      proof (cases r2)
        case (Inl e)
        with None run Inr rerun c1 c2 show ?thesis by (auto simp: one_try_def Let_def try_bound_def)
      next
        case r2: (Inr rr)
        have "en_calls (outcome_state ?out) = en_calls s2"
        proof (cases rr)
          case (Run_data data hints hasClose)
          with None run Inr rerun r2 show ?thesis by (simp add: one_try_def Let_def)
        next
          case (Run_request request)
          with None run Inr rerun r2 handleEngineRequest_calls [of "ed_node ed" request runIndex ed s2] show ?thesis
            by (auto simp: one_try_def Let_def split: prod.splits option.splits)
        qed
        moreover have "t' = t2" if "?out = Try_failed e t' ts'" for e t' ts'
          using that None run Inr rerun r2
          by (auto simp: one_try_def Let_def split: run_response.splits prod.splits option.splits dest: accept_data_index)
        ultimately show ?thesis using c1 c2 r2 by (intro try_boundI [of t t2]) auto
      qed
    qed
  qed
qed

lemma run_tries_calls:
  "t < tries \<Longrightarrow>
   en_calls (tries_state (run_tries env ed runIndex tries [t..<tries] ts)) \<le> en_calls (ts_engine ts) + (2 * (tries - t) - 1)"
proof (induction "tries - t" arbitrary: t ts rule: less_induct)
  case less
  note bound = one_try_calls [OF less(2), of ts env ed runIndex]
  have indices: "[t..<tries] = t # [Suc t..<tries]" using less(2) by (simp add: upt_conv_Cons)
  show ?case
  proof (cases "one_try env ed runIndex tries t ts")
    case (Try_failed e t' ts')
    then have t': "t \<le> t'" "t' < tries"
      and c: "en_calls (ts_engine ts') \<le> en_calls (ts_engine ts) + (t' - t) + 1 + (if Suc t' < tries then 1 else 0)"
      using bound by (auto simp: try_bound_def)
    have "drop (t' - t) [Suc t..<tries] = [Suc t'..<tries]" using t' by simp
    then have step: "run_tries env ed runIndex tries [t..<tries] ts
        = run_tries env ed runIndex tries [Suc t'..<tries] (catch_try ed e ts')"
      using Try_failed indices by simp
    have caught: "en_calls (ts_engine (catch_try ed e ts')) = en_calls (ts_engine ts')"
      by (simp add: catch_try_def set_last_def)
    show ?thesis
    proof (cases "Suc t' < tries")
      case True
      with t' have "tries - Suc t' < tries - t" by simp
      from less(1) [OF this True, of "catch_try ed e ts'"] c t' True show ?thesis by (simp add: step caught)
    next
      case False
      with c t' show ?thesis by (simp add: step caught)
    qed
  qed (use bound less(2) indices in \<open>auto simp: try_bound_def\<close>)
qed

section \<open>The rest of an iteration calls nothing\<close>

lemma read_clock_calls: "read_clock env s = (s', t) \<Longrightarrow> en_calls s' = en_calls s"
  by (auto simp: read_clock_def)

lemma schedule_and_release_calls: "en_calls (fst (schedule_and_release env name outs ri s)) = en_calls s"
proof -
  let ?P = "\<lambda>t. en_calls t = en_calls s"
  have closed: "queue_closed ?P" by (simp add: queue_closed_def)
  show ?thesis
    unfolding schedule_and_release_def
    by (rule and_then_invariant [where P = ?P]) (simp_all add: schedule_next_closed [OF closed] release_if_idle_closed [OF closed])
qed

lemma complete_node_calls: "en_calls (iteration_state (complete_node env ed ri d td s)) = en_calls s"
proof (cases "merge_output_errors d")
  case (Inr outputs)
  let ?s = "record_task (n_name (ed_node ed)) ri (success_task ed ri outputs td s) s"
  have recorded: "en_calls ?s = en_calls s" by (simp add: record_task_def Let_def)
  obtain s' err where run: "schedule_and_release env (n_name (ed_node ed)) outputs ri ?s = (s', err)" by fastforce
  with schedule_and_release_calls [of env "n_name (ed_node ed)" outputs ri ?s] recorded have "en_calls s' = en_calls s" by simp
  with Inr run recorded show ?thesis
    by (cases err) (simp_all add: complete_node_def Let_def schedule_and_release_def [symmetric] continue_run_def)
qed (simp add: complete_node_def Let_def)

lemma after_tries_calls: "en_calls (iteration_state (after_tries env ed ri start i ts)) = en_calls (ts_engine ts)"
proof -
  obtain s td where base: "base_task env ed start i (ts_hints ts) (ensure_runs (n_name (ed_node ed)) (ts_engine ts)) = (s, td)"
    by fastforce
  then have s: "en_calls s = en_calls (ts_engine ts)"
    by (auto simp: base_task_def ensure_runs_def split: prod.splits if_splits dest: read_clock_calls)
  have "en_calls (stop_with_error ed ri e t u) = en_calls u" for e t u
    by (simp add: stop_with_error_def record_task_def Let_def)
  with base s show ?thesis by (simp add: after_tries_def Let_def complete_node_calls split: option.split)
qed

lemma maxTries_bounds: "1 \<le> maxTries ed \<and> maxTries ed \<le> 5"
  by (auto simp: maxTries_def max_def)

lemma ensureInputData_calls: "ensureInputData e s = (s', ok) \<Longrightarrow> en_calls s' = en_calls s"
  using ensureInputData_state [of e s] by (simp add: push_back_def split: if_splits)

text \<open>
  C8. In one iteration of the execution loop the code of nodes is called at most
  2 * maxTries - 1 times, where maxTries is 1 for a node that does not retry and between 2
  and 5 for one that does: so at most 9 times, whatever the node answers.
\<close>

theorem iteration_calls_bounded:
  "en_calls (iteration_state (iterate env s)) \<le> en_calls s + (2 * maxTries (current s) - 1)
    \<and> 1 \<le> maxTries (current s) \<and> maxTries (current s) \<le> 5"
proof -
  define s0 where "s0 = check_timeout env s"
  have s0: "en_calls s0 = en_calls s" "en_stack s0 = en_stack s"
    using frame_fields(2) [OF check_timeout_frame [of env s]]
    by (simp_all add: s0_def) (auto simp: check_timeout_def split: option.splits prod.splits dest: read_clock_calls)
  obtain s1 startTime where clock: "read_clock env (take_entry s0) = (s1, startTime)" by fastforce
  have c1: "en_calls s1 = en_calls s" using read_clock_calls [OF clock] s0 by (simp add: take_entry_def)
  let ?ed = "current s0"
  obtain s2 ok where ensured: "ensureInputData ?ed s1 = (s2, ok)" by fastforce
  have c2: "en_calls s2 = en_calls s" using ensureInputData_calls [OF ensured] c1 by simp
  let ?ri = "run_index_of ?ed s1"
  define s3 where "s3 = (if was_resumed ?ed then s2 else emit (NodeExecuteBefore (n_name (ed_node ?ed)) (en_executionIndex s0)) s2)"
  define ts where "ts = \<lparr>ts_engine = s3, ts_data = Null, ts_response = makeEngineResponse, ts_hints = []\<rparr>"
  have ts: "en_calls (ts_engine ts) = en_calls s" using c2 by (simp add: ts_def s3_def)
  let ?tries = "run_tries env ?ed ?ri (maxTries ?ed) [0..<maxTries ?ed] ts"
  have c3: "en_calls (tries_state ?tries) \<le> en_calls s + (2 * maxTries ?ed - 1)"
    using run_tries_calls [of 0 "maxTries ?ed" env ?ed ?ri ts] maxTries_bounds [of ?ed] ts by simp
  have "en_calls (iteration_state (iterate env s)) \<le> en_calls s + (2 * maxTries ?ed - 1)"
    using c1 c2 c3 s0(1)
    by (auto simp: iterate_def Let_def s0_def [symmetric] clock ensured s3_def [symmetric] ts_def [symmetric] after_tries_calls
        split: sum.splits bool.splits)
  then show ?thesis using maxTries_bounds by (simp add: s0(2))
qed

section \<open>More calls than tries\<close>

text \<open>Answers of a node, by the number of the call; after the last one it hands on its input.\<close>

definition answers :: "node_answer list \<Rightarrow> nat \<Rightarrow> node_call \<Rightarrow> node_outcome" where
  "answers as k call = (if k < length as then (hand_on k call)\<lparr>no_answer := as ! k\<rparr> else hand_on k call)"

definition soft_failure :: node_answer where
  "soft_failure = Returned (Val [Val [empty_item\<lparr>i_json := [(''error'', JStr ''x'')]\<rparr>]]) []"

definition plain_types :: node_types where
  "plain_types ty v = Some (plain_type ty [])"

definition single_workflow :: "inode \<Rightarrow> workflow" where
  "single_workflow n = setSettings \<lparr>ws_executionOrder = Some ''v1''\<rparr> (setNodes [n] empty_workflow)"

definition start_at :: "inode \<Rightarrow> engine \<Rightarrow> engine" where
  "start_at n s = s\<lparr>en_stack := [start_entry n None]\<rparr>"

text \<open>
  A node with two tries is called three times: a call that returns an error in its first
  item is repeated within the first try, and if that second call throws, the index of the
  try has not been advanced, so the second try calls the node once more.
\<close>

theorem two_tries_call_three_times:
  "let n = n_a\<lparr>n_retryOnFail := Some True, n_maxTries := Some 2\<rparr>;
       env = simple_env plain_types (answers [soft_failure, Thrown (TypeError ''y'')]);
       result = iterate env (start_at n (new_engine (single_workflow n)))
   in maxTries (start_entry n None) = 2 \<and> goes_on result \<and> en_calls (iteration_state result) = 3"
  by code_simp

end
