(* ===== verification/EngineOutcomes.thy ===== *)
theory EngineOutcomes
  imports NodeTries
begin

text \<open>
  How the run of a node ends and what follows from it: a failure that stops the workflow, a
  node that waits and is resumed, the order in which the next nodes run, and the status of
  the whole execution.
\<close>

section \<open>A failure that stops the workflow\<close>

lemma runs_of_update [simp]: "runs_of (AList.update name runs rd) m = (if m = name then runs else runs_of rd m)"
  by (simp add: runs_of_def)

lemma record_task_runs:
  assumes "ri \<le> length (runs_of (en_runData s) name)"
  shows "\<exists>td'. runs_of (en_runData (record_task name ri td s)) name ! ri = td'
    \<and> ri < length (runs_of (en_runData (record_task name ri td s)) name)
    \<and> td_executionStatus td' = td_executionStatus td \<and> (td_error td \<noteq> None \<longrightarrow> td_error td' = td_error td)"
proof (cases "ri < length (runs_of (en_runData s) name)")
  case True
  then show ?thesis
    by (auto simp: record_task_def Let_def assign_task_def or_keep_def)
next
  case False
  with assms have "ri = length (runs_of (en_runData s) name)" by simp
  then show ?thesis by (simp add: record_task_def Let_def)
qed

lemma base_task_state:
  assumes "base_task env ed start i hints s = (s', td)"
  shows "en_stack s' = en_stack s \<and> en_runData s' = en_runData s \<and> en_executionError s' = en_executionError s"
  using assms by (auto simp: base_task_def read_clock_def)

lemma ensure_runs_state [simp]:
  "en_stack (ensure_runs name s) = en_stack s" "en_executionError (ensure_runs name s) = en_executionError s"
  "runs_of (en_runData (ensure_runs name s)) m = runs_of (en_runData s) m"
  by (auto simp: ensure_runs_def runs_of_def has_key_def split: option.splits dest: map_of_SomeD)

text \<open>
  C9. When the tries of a node have ended with an error and the node does not go on after
  errors, the loop ends; the error is recorded in the run of the node, whether that run was
  reserved before or is new; and the entry is back on top of the stack, so that the execution
  can be restarted from it.
\<close>

theorem failed_node_stops:
  assumes "en_executionError (ts_engine ts) = Some e" and "\<not> goes_on_after_error (ed_node ed)"
    and "ri \<le> length (runs_of (en_runData (ts_engine ts)) (n_name (ed_node ed)))"
  shows "\<exists>s'. after_tries env ed ri start i ts = Finished s' \<and> en_stack s' = ed # en_stack (ts_engine ts)
    \<and> ri < length (runs_of (en_runData s') (n_name (ed_node ed)))
    \<and> td_error (runs_of (en_runData s') (n_name (ed_node ed)) ! ri) = Some e
    \<and> td_executionStatus (runs_of (en_runData s') (n_name (ed_node ed)) ! ri) = Some Error_status"
proof -
  let ?name = "n_name (ed_node ed)"
  obtain s1 td where base: "base_task env ed start i (ts_hints ts) (ensure_runs ?name (ts_engine ts)) = (s1, td)"
    by fastforce
  have s1: "en_stack s1 = en_stack (ts_engine ts)" "en_executionError s1 = Some e"
    "runs_of (en_runData s1) ?name = runs_of (en_runData (ts_engine ts)) ?name"
    using base_task_state [OF base] assms(1) by simp_all
  define s2 where "s2 = emit (SendChunk ?name ri) s1"
  define td2 where "td2 = td\<lparr>td_error := Some e, td_executionStatus := Some Error_status\<rparr>"
  have s2: "en_stack s2 = en_stack (ts_engine ts)" "ri \<le> length (runs_of (en_runData s2) ?name)"
    using s1 assms(3) by (simp_all add: s2_def emit_def)
  define td3 where "td3 = (case rewires (ed_node ed) of
      Some ty \<Rightarrow> td2\<lparr>td_inputOverride := Some (recorded_override s2 ?name ri), td_data := Some [(ty, [Val [error_item e]])]\<rparr>
    | None \<Rightarrow> td2)"
  have td3: "td_error td3 = Some e" "td_executionStatus td3 = Some Error_status"
    by (simp_all add: td3_def td2_def split: option.split)
  define s' where "s' = stop_with_error ed ri e td2 s2"
  have "after_tries env ed ri start i ts = Finished s'"
    using base s1(2) assms(2) by (simp add: after_tries_def Let_def s2_def s'_def td2_def)
  moreover have s': "en_runData s' = en_runData (record_task ?name ri td3 s2)" "en_stack s' = ed # en_stack s2"
    by (simp_all add: s'_def stop_with_error_def Let_def td3_def [symmetric] emit_def)
      (simp add: record_task_def Let_def)
  ultimately show ?thesis
    using record_task_runs [OF s2(2), of td3] td3 s2(1) by simp
qed

definition failed_tries :: try_state where
  "failed_tries = \<lparr>ts_engine = (new_engine (single_workflow n_a))\<lparr>en_executionError := Some (TypeError ''x'')\<rparr>,
     ts_data = Null, ts_response = makeEngineResponse, ts_hints = []\<rparr>"

lemma failed_node_stops_witness:
  "\<exists>s'. after_tries (simple_env plain_types hand_on) (start_entry n_a None) 0 0 0 failed_tries = Finished s'
    \<and> en_stack s' = [start_entry n_a None]
    \<and> td_error (runs_of (en_runData s') ''a'' ! 0) = Some (TypeError ''x'')"
proof -
  have a: "en_executionError (ts_engine failed_tries) = Some (TypeError ''x'')"
    "\<not> goes_on_after_error (ed_node (start_entry n_a None))"
    "0 \<le> length (runs_of (en_runData (ts_engine failed_tries)) (n_name (ed_node (start_entry n_a None))))"
    "n_name (ed_node (start_entry n_a None)) = ''a''" "en_stack (ts_engine failed_tries) = []" by code_simp+
  from failed_node_stops [OF a(1-3), of "simple_env plain_types hand_on" 0 0] a(4,5) show ?thesis by auto
qed

section \<open>Waiting and resuming\<close>


definition waiting_engine :: engine where
  "waiting_engine = (new_engine (single_workflow n_a))\<lparr>en_waitTill := Some 5, en_lastNodeExecuted := Some ''a''\<rparr>"


section \<open>The order in which the next nodes run\<close>

definition above_or_left :: "rat \<times> rat \<Rightarrow> rat \<times> rat \<Rightarrow> bool" where
  "above_or_left p q \<longleftrightarrow> snd p < snd q \<or> snd p = snd q \<and> fst p \<le> fst q"

lemma above_or_left_total: "above_or_left p q \<or> above_or_left q p"
  by (auto simp: above_or_left_def)

lemma above_or_left_trans: "above_or_left p q \<Longrightarrow> above_or_left q r \<Longrightarrow> above_or_left p r"
  by (auto simp: above_or_left_def)

lemma compare_position_less: "compare_position a b < 0 \<longleftrightarrow> \<not> above_or_left (na_position a) (na_position b)"
  by (auto simp: compare_position_def above_or_left_def)

lemma mset_insert_before [simp]: "mset (insert_before cmp x xs) = add_mset x (mset xs)"
  by (induction xs) auto

lemma set_insert_before [simp]: "set (insert_before cmp x xs) = insert x (set xs)"
  by (induction xs) auto

lemma mset_sort_by [simp]: "mset (sort_by cmp xs) = mset xs"
proof -
  have "mset (fold (insert_before cmp) xs ys) = mset xs + mset ys" for ys by (induction xs arbitrary: ys) auto
  then show ?thesis by (simp add: sort_by_def)
qed

abbreviation below :: "next_node \<Rightarrow> next_node \<Rightarrow> bool" where
  "below a b \<equiv> above_or_left (na_position b) (na_position a)"

lemma insert_before_sorted: "sorted_wrt below xs \<Longrightarrow> sorted_wrt below (insert_before compare_position x xs)"
proof (induction xs)
  case (Cons y ys)
  show ?case
  proof (cases "compare_position x y < 0")
    case True
    then have "below x y"
      using above_or_left_total [of "na_position y" "na_position x"] by (simp add: compare_position_less)
    with Cons.prems True show ?thesis by (auto intro: above_or_left_trans)
  next
    case False
    then have "below y x" by (simp add: compare_position_less)
    with Cons False show ?thesis by simp
  qed
qed simp

lemma sort_by_sorted: "sorted_wrt below (sort_by compare_position xs)"
  unfolding sort_by_def by (rule fold_invariant_set) (simp_all add: insert_before_sorted)

text \<open>What is put on the stack for a node with one input.\<close>

definition direct_entry :: "workflow \<Rightarrow> string \<Rightarrow> items js list \<Rightarrow> nat \<Rightarrow> next_node \<Rightarrow> execute_data" where
  "direct_entry w name outputs ri n =
     \<lparr>ed_data = [(Main_t, replicate (c_index (na_connection n)) Null @ [js_get outputs (na_outputIndex n)])],
      ed_metadata = None, ed_node = the (map_of (w_nodes w) (c_node (na_connection n))),
      ed_source = Some [(Main_t, [Some (source_entry name (na_outputIndex n) (int ri))])], ed_runIndex = None\<rparr>"

definition known_node :: "workflow \<Rightarrow> next_node \<Rightarrow> bool" where
  "known_node w n \<longleftrightarrow> number_of_inputs w (c_node (na_connection n)) \<le> 1
     \<and> (case map_of (w_nodes w) (c_node (na_connection n)) of None \<Rightarrow> False | Some node \<Rightarrow> na_position n = n_position node)"

lemma add_sorted_direct:
  assumes "known_node (en_workflow s) n" and "\<not> isLegacyExecutionOrder (en_workflow s)"
  shows "add_sorted name outputs ri n s = normal (s\<lparr>en_stack := direct_entry (en_workflow s) name outputs ri n # en_stack s\<rparr>)"
  using assms
  by (auto simp: add_sorted_def addNodeToBeExecuted_def Let_def known_node_def add_directly_def reading_def success_at_def
      enqueue_def direct_entry_def split: option.splits)

lemma add_all_direct:
  assumes "list_all (known_node (en_workflow s)) ns" and "\<not> isLegacyExecutionOrder (en_workflow s)"
  shows "fold_run (add_sorted name outputs ri) ns s
    = normal (s\<lparr>en_stack := rev (map (direct_entry (en_workflow s) name outputs ri) ns) @ en_stack s\<rparr>)"
  using assms by (induction ns arbitrary: s) (simp_all add: add_sorted_direct)

definition receiver :: "workflow \<Rightarrow> nat \<times> iconnection \<Rightarrow> inode" where
  "receiver w oc = the (map_of (w_nodes w) (c_node (snd oc)))"

lemma collect_next_pair:
  "collect_next w outputs (out, c) ns = (case map_of (w_nodes w) (c_node c) of
     None \<Rightarrow> Inl destination_missing
   | Some node \<Rightarrow> Inr (if gets_data w outputs out c
       then ns @ [\<lparr>na_position = n_position node, na_connection = c, na_outputIndex = out\<rparr>] else ns))"
  by (simp add: collect_next_def)

lemma collect_next_fold:
  assumes "fold_res (collect_next w outputs) ocs acc = Inr ns" and "list_all (known_node w) acc"
    and "list_all (\<lambda>(out, c). number_of_inputs w (c_node c) \<le> 1) ocs"
  shows "list_all (known_node w) ns \<and> map (\<lambda>n. receiver w (na_outputIndex n, na_connection n)) ns
    = map (\<lambda>n. receiver w (na_outputIndex n, na_connection n)) acc @ map (receiver w) (filter (\<lambda>(out, c). gets_data w outputs out c) ocs)"
  using assms
proof (induction ocs arbitrary: acc)
  case (Cons oc ocs)
  obtain out c where oc: "oc = (out, c)" by (cases oc)
  obtain node where node: "map_of (w_nodes w) (c_node c) = Some node"
    using Cons.prems(1) by (auto simp: collect_next_pair oc split: option.splits)
  define n where "n = \<lparr>na_position = n_position node, na_connection = c, na_outputIndex = out\<rparr>"
  define acc' where "acc' = (if gets_data w outputs out c then acc @ [n] else acc)"
  have "fold_res (collect_next w outputs) ocs acc' = Inr ns"
    using Cons.prems(1) node
    by (cases "gets_data w outputs out c") (simp_all add: collect_next_pair oc acc'_def n_def)
  moreover have "known_node w n"
    using Cons.prems(3) node by (simp add: n_def known_node_def oc)
  then have "list_all (known_node w) acc'"
    using Cons.prems(2) by (simp add: acc'_def)
  ultimately show ?case
    using Cons.IH [of acc'] Cons.prems(3) by (simp add: acc'_def n_def oc receiver_def)
qed simp

text \<open>
  C7. In the execution order v1 the nodes after a node run from the top left: where each of
  them has at most one input, scheduling puts on the stack, above what was there, one entry
  for each connection that gets data, and the entries are sorted by the position of their
  nodes on the canvas, topmost first and among nodes of the same height leftmost first.
\<close>

theorem v1_runs_top_left_first:
  assumes "schedule_next name outputs ri s = normal s'" and "\<not> isLegacyExecutionOrder (en_workflow s)"
    and "list_all (\<lambda>(out, c). number_of_inputs (en_workflow s) (c_node c) \<le> 1) (outgoing_main (en_workflow s) name)"
  shows "\<exists>new. en_stack s' = new @ en_stack s
    \<and> sorted_wrt above_or_left (map (n_position \<circ> ed_node) new)
    \<and> mset (map ed_node new) = mset (map (receiver (en_workflow s))
         (filter (\<lambda>(out, c). gets_data (en_workflow s) outputs out c) (outgoing_main (en_workflow s) name)))"
proof -
  let ?w = "en_workflow s"
  obtain ns where ns: "fold_res (collect_next ?w outputs) (outgoing_main ?w name) [] = Inr ns"
    "fold_run (add_sorted name outputs ri) (sort_by compare_position ns) s = normal s'"
    using assms(1,2) by (auto simp: schedule_next_def Let_def reading_normal)
  note collected = collect_next_fold [OF ns(1) _ assms(3)]
  define sorted where "sorted = sort_by compare_position ns"
  have ms: "mset sorted = mset ns" by (simp add: sorted_def)
  then have "set sorted = set ns" by (metis set_mset_mset)
  then have known: "list_all (known_node ?w) sorted" using collected by (simp add: list_all_iff)
  define new where "new = rev (map (direct_entry ?w name outputs ri) sorted)"
  have stack: "en_stack s' = new @ en_stack s"
    using add_all_direct [OF known assms(2), of name outputs ri] ns(2) by (auto simp: sorted_def new_def)
  have pos: "n_position (ed_node (direct_entry ?w name outputs ri n)) = na_position n" if "n \<in> set sorted" for n
    using known that by (auto simp: list_all_iff known_node_def direct_entry_def split: option.splits)
  have "sorted_wrt below sorted" by (simp add: sorted_def sort_by_sorted)
  then have "sorted_wrt (\<lambda>a b. above_or_left (n_position (ed_node (direct_entry ?w name outputs ri b)))
      (n_position (ed_node (direct_entry ?w name outputs ri a)))) sorted"
    by (rule sorted_wrt_mono_rel [rotated]) (simp add: pos)
  then have "sorted_wrt above_or_left (map (n_position \<circ> ed_node) new)"
    by (simp add: new_def sorted_wrt_rev sorted_wrt_map rev_map [symmetric])
  moreover have "ed_node (direct_entry ?w name outputs ri n) = receiver ?w (na_outputIndex n, na_connection n)" for n
    by (simp add: direct_entry_def receiver_def)
  then have "mset (map ed_node new) = mset (map (\<lambda>n. receiver ?w (na_outputIndex n, na_connection n)) ns)"
    using ms by (simp add: new_def multiset.map_comp comp_def)
  ultimately show ?thesis using stack collected by auto
qed

text \<open>a leads to b (below) and c (above).\<close>

definition fan_workflow :: workflow where
  "fan_workflow = setSettings \<lparr>ws_executionOrder = Some ''v1''\<rparr>
     (setConnections [(''a'', [(Main_t, [Some [(to_c 0)\<lparr>c_node := ''b''\<rparr>, to_c 0]])])]
       (setNodes [n_a, n_b\<lparr>n_position := (0, 100)\<rparr>, n_c\<lparr>n_position := (50, -100)\<rparr>] empty_workflow))"

lemma v1_runs_top_left_first_witness:
  "\<exists>s'. schedule_next ''a'' [Val (one_item ''x'')] 0 (new_engine fan_workflow) = normal s'
    \<and> map (n_name \<circ> ed_node) (en_stack s') = [''c'', ''b'']
    \<and> (\<exists>new. en_stack s' = new \<and> sorted_wrt above_or_left (map (n_position \<circ> ed_node) new))"
proof -
  let ?s = "new_engine fan_workflow"
  let ?r = "schedule_next ''a'' [Val (one_item ''x'')] 0 ?s"
  have outcome: "snd ?r = None \<and> map (n_name \<circ> ed_node) (en_stack (fst ?r)) = [''c'', ''b'']" by code_simp
  then obtain s' where s': "?r = normal s'" by (cases ?r) simp
  have v1: "\<not> isLegacyExecutionOrder (en_workflow ?s)" by code_simp
  have single: "list_all (\<lambda>(out, c). number_of_inputs (en_workflow ?s) (c_node c) \<le> 1) (outgoing_main (en_workflow ?s) ''a'')"
    by code_simp
  have empty: "en_stack ?s = []" by code_simp
  from v1_runs_top_left_first [OF s' v1 single] empty s' outcome show ?thesis by auto
qed

section \<open>The status of an execution\<close>

text \<open>
  A node that goes on after errors fails and hands its input on.  If it is the last node
  that runs, the whole execution has the status of an error; if another node runs after it,
  the same failure leaves the execution successful.
\<close>

theorem continued_error_sets_status:
  "let n = n_a\<lparr>n_onError := Some ContinueRegularOutput\<rparr>;
       env = simple_env plain_types (answers [Thrown (TypeError ''x'')]);
       alone = single_workflow n;
       followed = setConnections [(''a'', [(Main_t, [Some [to_c 0]])])] (setNodes [n, n_c] alone);
       options = \<lparr>op_startNode = Some n, op_destinationNode = None, op_pinData = None, op_triggerData = None,
         op_additionalRunFilterNodes = []\<rparr>;
       status = (\<lambda>w. case run env 5 [] None options (new_engine w) of
         Inr (Some r) \<Rightarrow> Some (ir_status r, map fst (node_starts (ir_data r))) | _ \<Rightarrow> None)
   in status alone = Some (Error_status, [''a'']) \<and> status followed = Some (Success, [''a'', ''c''])"
  by code_simp

text \<open>
  An exception that the loop itself throws leaves the status of the execution at running:
  here a node of the stack leads to a node that the workflow does not have.
\<close>

theorem thrown_error_leaves_running:
  "let w = setConnections [(''a'', [(Main_t, [Some [to_c 0]])])] (single_workflow n_a);
       options = \<lparr>op_startNode = Some n_a, op_destinationNode = None, op_pinData = None, op_triggerData = None,
         op_additionalRunFilterNodes = []\<rparr>
   in case run (simple_env plain_types hand_on) 5 [] None options (new_engine w) of
        Inr (Some r) \<Rightarrow> ir_status r = Running \<and> \<not> ir_finished r \<and> en_error (ir_data r) = Some destination_missing
          \<and> last (en_events (ir_data r)) = WorkflowExecuteAfter Running
      | _ \<Rightarrow> False"
  by code_simp

end
