(* ===== verification/EngineTermination.thy ===== *)
theory EngineTermination
  imports EngineSafety EngineOutcomes "HOL-Library.Multiset"
begin

text \<open>
  Executions end: in the execution order v1, on a workflow whose main connections have no
  cycle, and with nodes that do not request other nodes, the loop ends after finitely many
  iterations.  The measure is the multiset of the names of the nodes on the stack and of the
  waiting entries, ordered along the connections.
\<close>

section \<open>The load of the queues\<close>

text \<open>The number of waiting entries of a node.\<close>

definition entries :: "(nat, 'v) omap \<Rightarrow> nat" where
  "entries runs = card (fst ` set runs)"

lemma entries_nput: "entries (nput i x runs) = (if i \<in> fst ` set runs then entries runs else Suc (entries runs))"
  by (simp add: entries_def insert_absorb)

lemma entries_Nil [simp]: "entries [] = 0"
  by (simp add: entries_def)

lemma keys_delete: "fst ` set (AList.delete i runs) = fst ` set runs - {i}"
  by (induction runs) auto

lemma entries_delete: "i \<in> fst ` set runs \<Longrightarrow> Suc (entries (AList.delete i runs)) = entries runs"
  unfolding entries_def keys_delete by (rule card_Suc_Diff1) simp_all

definition waiting_load :: "(string, (nat, 'v) omap) omap \<Rightarrow> string multiset" where
  "waiting_load m = sum_list (map (\<lambda>(k, runs). replicate_mset (entries runs) k) m)"

definition stack_load :: "execute_data list \<Rightarrow> string multiset" where
  "stack_load es = mset (map (n_name \<circ> ed_node) es)"

definition load :: "engine \<Rightarrow> string multiset" where
  "load s = stack_load (en_stack s) + waiting_load (en_waiting s)"

lemma waiting_load_update:
  "waiting_load (AList.update k runs m) + replicate_mset (entries (or_else (map_of m k) [])) k
    = waiting_load m + replicate_mset (entries runs) k"
  by (induction m) (auto simp: waiting_load_def add.assoc add.commute add.left_commute)

lemma waiting_load_delete_le: "waiting_load (AList.delete k m) \<subseteq># waiting_load m"
  by (induction m) (auto simp: waiting_load_def intro: subset_mset.add_mono subset_mset.order_trans)

lemma waiting_load_delete:
  "map_of m k = Some runs \<Longrightarrow> waiting_load (AList.delete k m) + replicate_mset (entries runs) k \<subseteq># waiting_load m"
proof (induction m)
  case (Cons e m)
  obtain k' r where e: "e = (k', r)" by (cases e)
  show ?case
  proof (cases "k' = k")
    case True
    with Cons.prems waiting_load_delete_le [of k m] show ?thesis
      by (simp add: e waiting_load_def add.commute)
  next
    case False
    with Cons show ?thesis by (simp add: e waiting_load_def add.assoc)
  qed
qed simp

lemma load_cong: "en_stack s = en_stack t \<Longrightarrow> en_waiting s = en_waiting t \<Longrightarrow> load s = load t"
  by (simp add: load_def)

lemma load_set_waiting:
  "load (set_waiting n i x s) = load s + (if i \<in> fst ` set (waiting_runs s n) then {#} else {#n#})"
proof -
  have "waiting_load (en_waiting (set_waiting n i x s)) + replicate_mset (entries (waiting_runs s n)) n
      = waiting_load (en_waiting s) + replicate_mset (entries (nput i x (waiting_runs s n))) n"
    using waiting_load_update [of n "nput i x (waiting_runs s n)" "en_waiting s"]
    by (simp add: set_waiting_def waiting_runs_def)
  then have "waiting_load (en_waiting (set_waiting n i x s))
      = waiting_load (en_waiting s) + (if i \<in> fst ` set (waiting_runs s n) then {#} else {#n#})"
    by (simp add: entries_nput split: if_splits)
  then show ?thesis by (simp add: load_def set_waiting_def)
qed

lemma load_set_waiting_source [simp]: "load (set_waiting_source n i y s) = load s"
  by (rule load_cong) (simp_all add: set_waiting_source_def)

lemma load_start_waiting [simp]: "load (start_waiting n s) = load s"
proof (cases "has_key (en_waiting s) n")
  case True
  then show ?thesis by (intro load_cong) (simp_all add: start_waiting_def)
next
  case False
  then have "map_of (en_waiting s) n = None" by (simp add: has_key_def map_of_eq_None_iff)
  with False waiting_load_update [of n "[]" "en_waiting s"] show ?thesis
    by (simp add: load_def start_waiting_def Let_def)
qed

lemma load_prepare: "load (prepareWaitingToExecution n k i s) \<subseteq># add_mset n (load s)"
  by (simp add: prepareWaitingToExecution_def load_set_waiting)

lemma load_enqueue: "load (enqueue e s) = add_mset (n_name (ed_node e)) (load s)"
  by (simp add: load_def stack_load_def enqueue_def)

lemma load_drop:
  assumes "i \<in> fst ` set (waiting_runs s n)"
  shows "add_mset n (load (drop_waiting n i s)) \<subseteq># load s"
proof -
  let ?runs = "AList.delete i (waiting_runs s n)"
  have key: "map_of (en_waiting s) n = Some (waiting_runs s n)"
    using assms by (cases "map_of (en_waiting s) n") (auto simp: waiting_runs_def)
  have fewer: "Suc (entries ?runs) = entries (waiting_runs s n)" by (rule entries_delete [OF assms])
  show ?thesis
  proof (cases "?runs = []")
    case True
    have "add_mset n (waiting_load (AList.delete n (en_waiting s))) \<subseteq># waiting_load (en_waiting s)"
    proof -
      have "add_mset n (waiting_load (AList.delete n (en_waiting s))) + replicate_mset (entries ?runs) n
          \<subseteq># waiting_load (en_waiting s)"
        using waiting_load_delete [OF key] by (simp flip: fewer)
      then show ?thesis using subset_mset.order_trans mset_subset_eq_add_left by blast
    qed
    with True show ?thesis by (simp add: load_def drop_waiting_def Let_def)
  next
    case False
    have "waiting_load (AList.update n ?runs (en_waiting s)) + replicate_mset (Suc (entries ?runs)) n
        = waiting_load (en_waiting s) + replicate_mset (entries ?runs) n"
      using waiting_load_update [of n ?runs "en_waiting s"] by (simp add: key fewer)
    then have "add_mset n (waiting_load (AList.update n ?runs (en_waiting s))) = waiting_load (en_waiting s)" by simp
    with False show ?thesis by (simp add: load_def drop_waiting_def Let_def)
  qed
qed

section \<open>What scheduling adds\<close>

text \<open>The nodes are filed under their names; every entry of the stack has main data.\<close>

definition filed :: "workflow \<Rightarrow> bool" where
  "filed w \<longleftrightarrow> list_all (\<lambda>(k, n). n_name n = k) (w_nodes w)"

definition main_ready :: "engine \<Rightarrow> bool" where
  "main_ready s \<longleftrightarrow> list_all (\<lambda>e. has_key (ed_data e) Main_t) (en_stack s)"

definition adds :: "string multiset \<Rightarrow> engine \<Rightarrow> engine \<Rightarrow> bool" where
  "adds N s s' \<longleftrightarrow> load s' \<subseteq># load s + N \<and> (main_ready s \<longrightarrow> main_ready s') \<and> en_workflow s' = en_workflow s"

lemma adds_refl: "adds {#} s s"
  by (simp add: adds_def)

lemma adds_trans: "adds M s t \<Longrightarrow> adds N t u \<Longrightarrow> adds (M + N) s u"
  unfolding adds_def by (metis (no_types, lifting) add.assoc subset_mset.add_right_mono subset_mset.order_trans)

lemma filed_name: "filed w \<Longrightarrow> map_of (w_nodes w) k = Some n \<Longrightarrow> n_name n = k"
  by (auto simp: filed_def list_all_iff dest!: map_of_SomeD)

lemma main_ready_simps [simp]:
  "main_ready (set_waiting n i x s) = main_ready s" "main_ready (set_waiting_source n i y s) = main_ready s"
  "main_ready (start_waiting n s) = main_ready s" "main_ready (prepareWaitingToExecution n k i s) = main_ready s"
  "main_ready (drop_waiting n i s) = main_ready s" "main_ready (emit ev s) = main_ready s"
  by (simp_all add: main_ready_def elementary_defs Let_def emit_def)

lemma main_ready_enqueue: "main_ready (enqueue e s) \<longleftrightarrow> has_key (ed_data e) Main_t \<and> main_ready s"
  by (auto simp: main_ready_def enqueue_def)

lemma entry_key: "waiting_main s n i = Inr main \<Longrightarrow> i \<in> fst ` set (waiting_runs s n)"
  by (force simp: waiting_main_entry dest: map_of_SomeD)

lemma place_data_adds:
  assumes "place_data n i inp d out src s = normal s'"
  shows "adds {#} s s'"
proof -
  obtain v s1 where put: "put_waiting n i inp v s = normal s1"
    "put_waiting_source n i inp (if d = Null then None else Some src) s1 = normal s'"
    using assms by (auto simp: place_data_def reading_normal and_then_normal)
  obtain main where main: "waiting_main s n i = Inr main"
    and s1: "s1 = set_waiting n i (AList.update Main_t (array_set Undef main inp v) (or_else (map_of (waiting_runs s n) i) [])) s"
    using put(1) by (auto simp: put_waiting_def reading_normal)
  obtain y where s': "s' = set_waiting_source n i y s1"
    using put(2) by (auto simp: put_waiting_source_def reading_normal)
  show ?thesis
    unfolding adds_def s' s1
    by (simp add: load_set_waiting entry_key [OF main]) (simp add: set_waiting_def set_waiting_source_def)
qed

lemma store_waiting_adds:
  assumes "store_waiting n i inp d out s = normal s'"
  shows "adds {#} s s'"
proof -
  obtain main srcs v where main: "waiting_main s n i = Inr main"
    and s': "s' = set_waiting_source n i [(Main_t, srcs)] (set_waiting n i [(Main_t, array_set Undef main inp v)] s)"
    using assms by (auto simp: store_waiting_def reading_normal)
  show ?thesis
    unfolding adds_def s'
    by (simp add: load_set_waiting entry_key [OF main]) (simp add: set_waiting_def set_waiting_source_def)
qed

lemma complete_waiting_adds:
  assumes "complete_waiting n i s = normal s'" and "waiting_main s n i = Inr main" and "filed (en_workflow s)"
  shows "adds {#} s s'"
proof -
  obtain node entry where node: "map_of (w_nodes (en_workflow s)) n = Some node"
    and entry: "map_of (waiting_runs s n) i = Some entry"
    and s': "s' = drop_waiting n i (enqueue \<lparr>ed_data = entry, ed_metadata = None, ed_node = node,
       ed_source = map_of (waiting_source_runs s n) i, ed_runIndex = None\<rparr> s)"
    using assms(1) by (auto simp: complete_waiting_def reading_normal lookup_def split: option.splits)
  define e where "e = \<lparr>ed_data = entry, ed_metadata = None, ed_node = node,
       ed_source = map_of (waiting_source_runs s n) i, ed_runIndex = None\<rparr>"
  have has_main: "has_key entry Main_t"
    using assms(2) entry by (auto simp: waiting_main_entry has_key_def dest: map_of_SomeD)
  have "waiting_runs (enqueue e s) n = waiting_runs s n" by (simp add: waiting_runs_def enqueue_def)
  then have "add_mset n (load s') \<subseteq># add_mset n (load s)"
    using load_drop [of i "enqueue e s" n] entry_key [OF assms(2)] filed_name [OF assms(3) node]
    by (simp add: load_enqueue s' e_def [symmetric]) (simp add: e_def)
  then have "load s' \<subseteq># load s" by simp
  moreover have "en_workflow s' = en_workflow s" by (simp add: s' drop_waiting_def enqueue_def Let_def)
  ultimately show ?thesis using has_main by (simp add: adds_def s' main_ready_enqueue)
qed

lemma first_free_key: "first_free inp runs = Inr (Some i) \<Longrightarrow> i \<in> fst ` set runs"
proof (induction inp runs rule: first_free.induct)
  case (2 inp k entry runs)
  then obtain main where main: "lookup entry Main_t = Inr main" by auto
  with 2 show ?case by (cases "js_get main inp") simp_all
qed simp

lemma add_directly_adds:
  assumes "add_directly c d out src nri md s = normal s'" and "filed (en_workflow s)"
  shows "adds {#c_node c#} s s'"
proof (cases "map_of (w_nodes (en_workflow s)) (c_node c)")
  case None
  with assms(1) have "s' = s" by (auto simp: add_directly_def reading_normal)
  then show ?thesis by (simp add: adds_def)
next
  case (Some node)
  with assms(1) obtain v where
    s': "s' = enqueue \<lparr>ed_data = [(Main_t, replicate (c_index c) Null @ [v])], ed_metadata = md, ed_node = node,
            ed_source = Some [(Main_t, [Some src])], ed_runIndex = nri\<rparr> s"
    by (auto simp: add_directly_def reading_normal)
  show ?thesis
    unfolding adds_def s'
    by (simp add: load_enqueue main_ready_enqueue filed_name [OF assms(2) Some]) (simp add: has_key_def enqueue_def)
qed

text \<open>In the order v1 no input is forced.\<close>

lemma force_inputs_v1:
  assumes "\<not> isLegacyExecutionOrder (en_workflow s)"
  shows "fst (force_inputs n pn d out ri s) = s"
proof -
  have body: "fst (force_input cs pn d out ri c s) = s" for cs c
    using assms by (auto simp: force_input_def Let_def reading_def split: sum.splits)
  have loop: "fst (fold_run (force_input cs pn d out ri) xs s) = s" for cs xs
    by (rule fold_run_invariant [where P = "\<lambda>t. t = s"]) (simp_all add: body)
  show ?thesis by (simp add: force_inputs_def reading_def loop split: sum.splits)
qed

lemma addNode_adds:
  assumes "addNodeToBeExecuted c out pn d ri nri md s = normal s'"
    and "\<not> isLegacyExecutionOrder (en_workflow s)" and "filed (en_workflow s)"
  shows "adds {#c_node c#} s s'"
proof (cases "number_of_inputs (en_workflow s) (c_node c) > 1")
  case False
  with assms(1) have "add_directly c d out (source_entry pn out ri) nri md s = normal s'"
    by (simp add: addNodeToBeExecuted_def Let_def)
  then show ?thesis by (rule add_directly_adds [OF _ assms(3)])
next
  case True
  let ?n = "c_node c"
  let ?s1 = "start_waiting ?n s"
  obtain free where free: "first_free (c_index c) (waiting_runs ?s1 ?n) = Inr free"
    using assms(1) True by (auto simp: addNodeToBeExecuted_def Let_def reading_normal)
  define i where "i = or_else free (length (waiting_runs ?s1 ?n))"
  define s2 where "s2 = (if free = None then prepareWaitingToExecution ?n (number_of_inputs (en_workflow s) ?n) i ?s1 else ?s1)"
  obtain s3 main where place: "place_data ?n i (c_index c) d out (source_entry pn out ri) s2 = normal s3"
    and main: "waiting_main s3 ?n i = Inr main"
    and rest: "(if Null \<notin> set main then complete_waiting ?n i s3
       else and_then (if has_key (en_waiting s) ?n then normal s3 else force_inputs ?n pn d out ri s3)
              (store_waiting ?n i (c_index c) d out)) = normal s'"
  proof -
    have "addNodeToBeExecuted c out pn d ri nri md s =
      and_then (place_data ?n i (c_index c) d out (source_entry pn out ri) s2) (\<lambda>s3.
        reading (waiting_main s3 ?n i) (\<lambda>main s3. if Null \<notin> set main then complete_waiting ?n i s3
          else and_then (if has_key (en_waiting s) ?n then normal s3 else force_inputs ?n pn d out ri s3)
                 (store_waiting ?n i (c_index c) d out)) s3)"
      unfolding i_def s2_def using True free by (simp add: addNodeToBeExecuted_def Let_def reading_def [of "Inr free"])
    with assms(1) show thesis by (auto simp: and_then_normal reading_normal intro: that)
  qed
  have w2: "en_workflow s2 = en_workflow s" by (simp add: s2_def workflow_same)
  have "load s2 \<subseteq># add_mset ?n (load s)"
    using load_prepare [of ?n "number_of_inputs (en_workflow s) ?n" i ?s1] by (simp add: s2_def)
  then have a2: "adds {#?n#} s s2" using w2 by (simp add: adds_def s2_def)
  have a3: "adds {#} s2 s3" by (rule place_data_adds [OF place])
  then have w3: "en_workflow s3 = en_workflow s" using w2 by (simp add: adds_def)
  have a4: "adds {#} s3 s'"
  proof (cases "Null \<in> set main")
    case False
    with rest show ?thesis using complete_waiting_adds [OF _ main] assms(3) w3 by simp
  next
    case True
    obtain s4 where s4: "(if has_key (en_waiting s) ?n then normal s3 else force_inputs ?n pn d out ri s3) = normal s4"
      and store: "store_waiting ?n i (c_index c) d out s4 = normal s'"
      using rest True by (auto simp: and_then_normal)
    have "s4 = s3" using s4 force_inputs_v1 [of s3 ?n pn d out ri] assms(2) w3 by (auto split: if_splits)
    with store_waiting_adds [OF store] show ?thesis by simp
  qed
  show ?thesis using adds_trans [OF adds_trans [OF a2 a3] a4] by simp
qed

text \<open>The nodes that a node leads to by a main connection.\<close>

definition workflow_edges :: "workflow \<Rightarrow> (string \<times> string) set" where
  "workflow_edges w = {(c_node c, u) | u out c. (out, c) \<in> set (outgoing_main w u)}"

definition adds_below :: "string \<Rightarrow> engine \<Rightarrow> engine \<Rightarrow> bool" where
  "adds_below name s s' \<longleftrightarrow> (\<exists>N. adds N s s' \<and> (\<forall>k \<in># N. (k, name) \<in> workflow_edges (en_workflow s)))"

lemma collect_next_targets:
  assumes "fold_res (collect_next w outputs) ocs acc = Inr ns"
    and "\<forall>n \<in> set acc. (na_outputIndex n, na_connection n) \<in> A" and "set ocs \<subseteq> A"
  shows "\<forall>n \<in> set ns. (na_outputIndex n, na_connection n) \<in> A"
  using assms
proof (induction ocs arbitrary: acc)
  case (Cons oc ocs)
  obtain out c where oc: "oc = (out, c)" by (cases oc)
  obtain acc' where acc': "collect_next w outputs oc acc = Inr acc'" using Cons.prems(1) by auto
  with Cons.prems(2,3) have "\<forall>n \<in> set acc'. (na_outputIndex n, na_connection n) \<in> A"
    by (auto simp: collect_next_def oc split: option.splits if_splits)
  with Cons acc' show ?case by simp
qed simp

lemma add_sorted_adds:
  assumes "fold_run (add_sorted name outputs ri) ns s = normal s'"
    and "\<not> isLegacyExecutionOrder (en_workflow s)" and "filed (en_workflow s)"
  shows "adds (mset (map (c_node \<circ> na_connection) ns)) s s'"
  using assms
proof (induction ns arbitrary: s)
  case Nil
  then show ?case by (simp add: adds_refl)
next
  case (Cons n ns)
  then obtain s1 where s1: "add_sorted name outputs ri n s = normal s1" "fold_run (add_sorted name outputs ri) ns s1 = normal s'"
    by (auto simp: and_then_normal)
  have a: "adds {#c_node (na_connection n)#} s s1"
    by (rule addNode_adds [OF s1(1) [unfolded add_sorted_def] Cons.prems(2,3)])
  have w: "en_workflow s1 = en_workflow s" using a by (simp add: adds_def)
  have "adds (mset (map (c_node \<circ> na_connection) ns)) s1 s'"
    by (rule Cons.IH [OF s1(2)]) (simp_all add: w Cons.prems(2,3))
  from adds_trans [OF a this] show ?case by (simp add: comp_def)
qed

lemma schedule_next_adds:
  assumes "schedule_next name outputs ri s = normal s'"
    and "\<not> isLegacyExecutionOrder (en_workflow s)" and "filed (en_workflow s)"
  shows "adds_below name s s'"
proof -
  let ?w = "en_workflow s"
  obtain ns where ns: "fold_res (collect_next ?w outputs) (outgoing_main ?w name) [] = Inr ns"
    "fold_run (add_sorted name outputs ri) (sort_by compare_position ns) s = normal s'"
    using assms(1,2) by (auto simp: schedule_next_def Let_def reading_normal)
  have "\<forall>n \<in> set ns. (na_outputIndex n, na_connection n) \<in> set (outgoing_main ?w name)"
    using collect_next_targets [OF ns(1), of "set (outgoing_main ?w name)"] by simp
  then have "\<forall>k \<in># mset (map (c_node \<circ> na_connection) (sort_by compare_position ns)). (k, name) \<in> workflow_edges ?w"
    by (force simp: workflow_edges_def)
  with add_sorted_adds [OF ns(2) assms(2,3)] show ?thesis unfolding adds_below_def by blast
qed

lemma push_released_adds:
  assumes "push_released n i main node s = normal s1" and "map_of (waiting_runs s n) i = Some entry" and "n_name node = n"
  shows "adds {#} s (drop_waiting n i s1)"
proof -
  obtain src where s1: "s1 = s\<lparr>en_stack := en_stack s @ [\<lparr>ed_data = [(Main_t, main)], ed_metadata = None, ed_node = node,
      ed_source = src, ed_runIndex = None\<rparr>]\<rparr>"
    using assms(1) by (auto simp: push_released_def reading_normal)
  have "waiting_runs s1 n = waiting_runs s n" by (simp add: s1 waiting_runs_def)
  moreover have "i \<in> fst ` set (waiting_runs s n)" using assms(2) by (force dest: map_of_SomeD)
  moreover have "load s1 = add_mset n (load s)" by (simp add: s1 load_def stack_load_def assms(3))
  ultimately have "add_mset n (load (drop_waiting n i s1)) \<subseteq># add_mset n (load s)" using load_drop [of i s1 n] by simp
  moreover have "main_ready s1 = main_ready s" by (simp add: s1 main_ready_def has_key_def)
  moreover have "en_workflow (drop_waiting n i s1) = en_workflow s" by (simp add: s1 drop_waiting_def Let_def)
  ultimately show ?thesis by (simp add: adds_def)
qed

lemma drop_waiting_adds:
  assumes "map_of (waiting_runs s n) i = Some entry"
  shows "adds {#} s (drop_waiting n i s)"
proof -
  have "i \<in> fst ` set (waiting_runs s n)" using assms by (force dest: map_of_SomeD)
  from load_drop [OF this] have "load (drop_waiting n i s) \<subseteq># load s"
    by (meson subset_mset.order_trans multi_psub_of_add_self subset_mset.less_imp_le)
  then show ?thesis by (simp add: adds_def drop_waiting_def Let_def main_ready_def)
qed

lemma taken_node:
  assumes "consider_waiting env ws n s = Inr (Take_entry i main node)"
  shows "map_of (w_nodes (en_workflow s)) n = Some node"
  using assms by (auto simp: consider_waiting_def Let_def getNode_def split: option.splits if_splits)

lemma release_waiting_adds:
  "release_waiting env ws names s = normal s' \<Longrightarrow> filed (en_workflow s) \<Longrightarrow> adds {#} s s'"
proof (induction env ws names s rule: release_waiting.induct)
  case (1 env ws s)
  then show ?case by (simp add: adds_refl)
next
  case (2 env ws n names s)
  show ?case
  proof (cases "consider_waiting env ws n s")
    case (Inl e)
    with 2 show ?thesis by simp
  next
    case (Inr r)
    show ?thesis
    proof (cases r)
      case Skip_node
      with 2 Inr show ?thesis by simp
    next
      case (Take_entry i main node)
      note taken = Inr [unfolded Take_entry]
      obtain entry where entry: "map_of (waiting_runs s n) i = Some entry" using consider_waiting_entry [OF taken] by blast
      have name: "n_name node = n" by (rule filed_name [OF 2(4) taken_node [OF taken]])
      show ?thesis
      proof (cases "\<exists>d \<in> set main. js_nonempty d")
        case True
        with 2(3) taken obtain s1 where "push_released n i main node s = normal s1" "s' = drop_waiting n i s1"
          by (auto simp: and_then_normal)
        with push_released_adds [OF _ entry name] show ?thesis by simp
      next
        case False
        have d: "adds {#} s (drop_waiting n i s)" by (rule drop_waiting_adds [OF entry])
        then have "filed (en_workflow (drop_waiting n i s))" using 2(4) by (simp add: adds_def)
        with 2(2) [OF taken refl False refl] 2(3) taken False
        have "adds {#} (drop_waiting n i s) s'" by (simp add: Let_def)
        from adds_trans [OF d this] show ?thesis by simp
      qed
    qed
  qed
qed

lemma schedule_and_release_adds:
  assumes "schedule_and_release env name outputs ri s = normal s'"
    and "\<not> isLegacyExecutionOrder (en_workflow s)" and "filed (en_workflow s)"
  shows "adds_below name s s'"
proof -
  obtain s1 where s1: "schedule_next name outputs ri s = normal s1"
    "release_if_idle env (emit (NodeExecuteAfter name ri) s1) = normal s'"
    using assms(1) by (auto simp: schedule_and_release_def and_then_normal)
  obtain N where N: "adds N s s1" "\<forall>k \<in># N. (k, name) \<in> workflow_edges (en_workflow s)"
    using schedule_next_adds [OF s1(1) assms(2,3)] by (auto simp: adds_below_def)
  let ?s = "emit (NodeExecuteAfter name ri) s1"
  have "adds {#} s1 ?s"
    using load_cong [of ?s s1] by (simp add: adds_def emit_def main_ready_def)
  moreover have "adds {#} ?s s'"
  proof (cases "en_stack ?s = []")
    case True
    have "filed (en_workflow ?s)" using N(1) assms(3) by (simp add: adds_def emit_def)
    with True s1(2) show ?thesis by (simp add: release_if_idle_def release_waiting_adds)
  next
    case False
    with s1(2) show ?thesis by (simp add: release_if_idle_def adds_refl)
  qed
  ultimately have "adds N s s'" using adds_trans [OF adds_trans [OF N(1)]] by fastforce
  with N(2) show ?thesis unfolding adds_below_def by blast
qed

section \<open>An iteration decreases the load\<close>

lemma mult_below:
  assumes "N \<subseteq># M + K" and "\<forall>k \<in># K. (k, p) \<in> r"
  shows "(N, add_mset p M) \<in> mult r"
proof -
  have N: "N = N \<inter># M + (N - M)" by (rule multiset_eqI) simp
  have M: "add_mset p M = N \<inter># M + add_mset p (M - N)" by (rule multiset_eqI) simp
  have "N - M \<subseteq># K" using assms(1) by (simp add: subset_eq_diff_conv add.commute)
  then have "\<forall>k \<in># N - M. (k, p) \<in> r" using assms(2) by (meson mset_subset_eqD)
  then have "(N \<inter># M + (N - M), N \<inter># M + add_mset p (M - N)) \<in> mult r"
    by (intro one_step_implies_mult) auto
  with N M show ?thesis by simp
qed

lemma ensureInputData_v1:
  assumes "has_key (ed_data e) Main_t" and "\<not> isLegacyExecutionOrder (en_workflow s)"
  shows "snd (ensureInputData e s)"
proof -
  have "snd (ensure_inputs e is s)" for "is"
    using assms by (induction e "is" s rule: ensure_inputs.induct) (auto simp: Let_def has_key_def split: option.splits)
  then show ?thesis by (simp add: ensureInputData_def)
qed

lemma pair_inputs_simps [simp]:
  "ed_node (pair_inputs e) = ed_node e" "has_key (ed_data (pair_inputs e)) k = has_key (ed_data e) k"
  by (simp_all add: pair_inputs_def has_key_def map_of_map_value)

lemma frame_load: "frame s = frame t \<Longrightarrow> load s = load t \<and> main_ready s = main_ready t \<and> en_workflow s = en_workflow t"
  using frame_fields [of s t] load_cong [of s t] by (simp add: main_ready_def)

text \<open>What the termination argument needs of a state.\<close>

definition v1_ready :: "engine \<Rightarrow> bool" where
  "v1_ready s \<longleftrightarrow> \<not> isLegacyExecutionOrder (en_workflow s) \<and> filed (en_workflow s) \<and> main_ready s"

lemma started_load:
  assumes "started s s1" and "en_stack s \<noteq> []"
  shows "load s = add_mset (n_name (ed_node (current s))) (load s1) \<and> (v1_ready s \<longrightarrow> v1_ready s1)
    \<and> en_workflow s1 = en_workflow s"
proof -
  let ?t = "take_entry s"
  have taken: "load s = add_mset (n_name (ed_node (current s))) (load ?t)" "main_ready s \<longrightarrow> main_ready ?t"
    "en_workflow ?t = en_workflow s"
    using assms(2) by (auto simp: load_def stack_load_def take_entry_def main_ready_def neq_Nil_conv)
  have emitted: "load (emit ev ?t) = load ?t" "en_workflow (emit ev ?t) = en_workflow ?t" for ev
    using load_cong [of "emit ev ?t" ?t] by (simp_all add: emit_def)
  have same: "load s1 = load ?t \<and> main_ready s1 = main_ready ?t \<and> en_workflow s1 = en_workflow ?t"
    using assms(1) unfolding started_def
  proof (elim conjE disjE)
    assume "frame s1 = frame ?t"
    then show ?thesis by (rule frame_load)
  next
    assume "frame s1 = frame (emit (NodeExecuteBefore (n_name (ed_node (current s))) (en_executionIndex s)) ?t)"
    from frame_load [OF this] show ?thesis by (simp add: emitted)
  qed
  with taken show ?thesis by (simp add: v1_ready_def)
qed

lemma continue_decreases:
  assumes "iteration_effect env s True s'" and "en_stack s \<noteq> []" and "v1_ready s" and "\<not> requests env"
  shows "(load s', load s) \<in> mult (workflow_edges (en_workflow s)) \<and> v1_ready s' \<and> en_workflow s' = en_workflow s"
  using assms(1)
proof cases
  case Skipped
  have "frame s' = frame (take_entry s)" by fact
  with frame_load [OF this] assms(2,3) mult_below [of "load s'" "load s'" "{#}"] show ?thesis
    by (auto simp: v1_ready_def load_def stack_load_def take_entry_def main_ready_def neq_Nil_conv)
next
  case (Postponed s1)
  have "has_key (ed_data (current s)) Main_t"
    using assms(2,3) by (auto simp: v1_ready_def main_ready_def neq_Nil_conv)
  moreover have "en_workflow s1 = en_workflow s" using frame_load [OF Postponed(2)] by (simp add: take_entry_def)
  ultimately have "snd (ensureInputData (current s) s1)"
    using ensureInputData_v1 [of "current s" s1] assms(3) by (simp add: v1_ready_def)
  with Postponed(1) show ?thesis by simp
next
  case (Ran s1 runIndex)
  have "frame s' = frame s1" by (rule tries_effect_no_requests [OF Ran(2) assms(4)])
  with frame_load [OF this] started_load [OF Ran(1) assms(2)] assms(3) mult_below [of "load s1" "load s1" "{#}"]
  show ?thesis by (simp add: v1_ready_def)
next
  case (Scheduled s1 runIndex s2 outputs err)
  let ?name = "n_name (ed_node (current s))"
  have "frame s2 = frame s1" by (rule tries_effect_no_requests [OF Scheduled(2) assms(4)])
  note same = frame_load [OF this]
  note start = started_load [OF Scheduled(1) assms(2)]
  have run: "schedule_and_release env ?name outputs runIndex s2 = normal s'" using Scheduled(3,4) by simp
  have "v1_ready s2" using start same assms(3) by (simp add: v1_ready_def)
  with schedule_and_release_adds [OF run] obtain N where
    N: "adds N s2 s'" "\<forall>k \<in># N. (k, ?name) \<in> workflow_edges (en_workflow s2)"
    by (auto simp: v1_ready_def adds_below_def)
  from N(1) have "load s' \<subseteq># load s1 + N" using same by (simp add: adds_def)
  from mult_below [OF this N(2)] start same N(1) \<open>v1_ready s2\<close> show ?thesis by (auto simp: adds_def v1_ready_def)
qed simp_all

section \<open>Executions end\<close>

lemma typed_inputs_none: "u \<notin> fst ` set conns \<Longrightarrow> typed_inputs conns u ty = []"
  by (simp add: typed_inputs_def map_of_eq_None_iff [THEN iffD2])

lemma finite_main_edges: "finite (workflow_edges w)"
proof -
  have "workflow_edges w \<subseteq> (\<Union>u \<in> fst ` set (w_connectionsBySourceNode w). (\<lambda>(out, c). (c_node c, u)) ` set (outgoing_main w u))"
  proof
    fix e
    assume "e \<in> workflow_edges w"
    then obtain u out c where e: "e = (c_node c, u)" "(out, c) \<in> set (outgoing_main w u)" by (auto simp: workflow_edges_def)
    have "u \<in> fst ` set (w_connectionsBySourceNode w)"
      by (rule ccontr) (use e(2) in \<open>simp add: outgoing_main_def typed_inputs_none\<close>)
    with e show "e \<in> (\<Union>u \<in> fst ` set (w_connectionsBySourceNode w). (\<lambda>(out, c). (c_node c, u)) ` set (outgoing_main w u))"
      by force
  qed
  then show ?thesis by (rule finite_subset) simp
qed

lemma run_loop_ends:
  assumes "acyclic (workflow_edges (en_workflow s))" and "v1_ready s" and "\<not> requests env"
  shows "\<exists>fuel. run_loop env fuel s \<noteq> None"
proof -
  let ?R = "mult (workflow_edges (en_workflow s))"
  have "wf ?R" using assms(1) finite_main_edges by (intro wf_mult finite_acyclic_wf)
  then have "v1_ready t \<Longrightarrow> en_workflow t = en_workflow s \<Longrightarrow> \<exists>fuel. run_loop env fuel t \<noteq> None" for t
  proof (induction "load t" arbitrary: t rule: wf_induct_rule)
    case less
    show ?case
    proof (cases "en_stack t = [] \<or> \<not> goes_on (iterate env t)")
      case True
      then have "run_loop env 1 t \<noteq> None"
        by (cases "iterate env t") (auto simp: run_loop.simps [of env "Suc 0" t])
      then show ?thesis by blast
    next
      case False
      then obtain t' where t': "iterate env t = Continue t'" by (cases "iterate env t") simp_all
      then have "iteration_effect env t True t'" using iterate_effect [of env t] by simp
      from continue_decreases [OF this _ less(2) assms(3)] False
      have "(load t', load t) \<in> ?R" "v1_ready t'" "en_workflow t' = en_workflow s" by (simp_all add: less(3))
      from less(1) [OF this] obtain fuel where "run_loop env fuel t' \<noteq> None" by blast
      with t' False have "run_loop env (Suc fuel) t \<noteq> None" by (simp add: run_loop.simps [of env "Suc fuel" t])
      then show ?thesis by blast
    qed
  qed
  with assms(2) show ?thesis by blast
qed

lemma begun_ready:
  assumes "and_then (checkForWorkflowIssues env (setupExecution s)) handleWaitingState = normal s1" and "en_waitTill s = None"
  shows "s1 = setupExecution s"
  using assms
  by (auto simp: and_then_normal checkForWorkflowIssues_def handleWaitingState_def setupExecution_def split: option.splits if_splits)

text \<open>
  C1. Executions end: in the execution order v1, on a workflow whose main connections have
  no cycle and whose nodes are filed under their names, and with nodes that do not request
  other nodes, a run from a given node returns (with enough fuel for the loop), whatever else
  the nodes answer, and whether or not the start fails.
\<close>

theorem acyclic_run_ends:
  assumes "acyclic (workflow_edges (en_workflow s))" and "\<not> isLegacyExecutionOrder (en_workflow s)"
    and "filed (en_workflow s)" and "\<not> requests env" and "op_startNode ops = Some node" and "op_triggerData ops = None"
  shows "\<exists>fuel. run env fuel token startError ops s \<noteq> Inr None"
proof -
  define s0 where "s0 = load_run_data (new_run_data token ops (en_workflow s) node) (s\<lparr>en_status := Running\<rparr>)"
  have s0: "en_workflow s0 = en_workflow s" "en_stack s0 = [start_entry node None]" "en_waitTill s0 = None"
    by (simp_all add: s0_def load_run_data_def Let_def new_run_data_def createRunExecutionData_def
        no_create_options_def buildExecutionData_def no_execution_options_def assms(6))
  have run: "run env fuel token startError ops s = processRunExecutionData env fuel startError s0" for fuel
    using assms(5) by (simp add: run_def Let_def s0_def)
  obtain s1 err where begun: "and_then (checkForWorkflowIssues env (setupExecution s0)) handleWaitingState = (s1, err)" by fastforce
  show ?thesis
  proof (cases "err = None \<and> startError = None")
    case False
    with begun have "processRunExecutionData env 0 startError s0 \<noteq> Inr None"
      by (auto simp: processRunExecutionData_def Let_def split: option.splits)
    then show ?thesis by (auto simp: run)
  next
    case True
    with begun_ready [of env s0 s1] begun s0(3) have "s1 = setupExecution s0" by simp
    define s2 where "s2 = execution_begins env (fresh_variables s1)"
    have s2: "en_workflow s2 = en_workflow s" "en_stack s2 = [start_entry node None]"
      using \<open>s1 = setupExecution s0\<close> s0
      by (simp_all add: s2_def execution_begins_def fresh_variables_def setupExecution_def emit_def)
    then have "v1_ready s2" using assms(2,3) by (simp add: v1_ready_def main_ready_def start_entry_def has_key_def)
    with run_loop_ends [of s2 env] assms(1,4) s2(1) obtain fuel where "run_loop env fuel s2 \<noteq> None" by auto
    with begun True have "processRunExecutionData env fuel startError s0 \<noteq> Inr None"
      by (simp add: processRunExecutionData_def Let_def s2_def)
    then show ?thesis by (auto simp: run)
  qed
qed

lemma fan_acyclic: "acyclic (workflow_edges fan_workflow)"
proof (rule acyclicI_order [where f = "\<lambda>name. if name = ''a'' then 0 else (1 :: nat)"])
  fix c u
  assume "(c, u) \<in> workflow_edges fan_workflow"
  then show "(if u = ''a'' then 0 else (1 :: nat)) < (if c = ''a'' then 0 else 1)"
    by (auto simp: workflow_edges_def outgoing_main_def typed_inputs_def fan_workflow_def setSettings_def setConnections_def
        setNodes_def to_c_def split: if_splits)
qed

lemma acyclic_run_ends_witness:
  "\<exists>fuel. run (simple_env plain_types hand_on) fuel [] None
     \<lparr>op_startNode = Some n_a, op_destinationNode = None, op_pinData = None, op_triggerData = None,
      op_additionalRunFilterNodes = []\<rparr> (new_engine fan_workflow) \<noteq> Inr None"
proof -
  let ?s = "new_engine fan_workflow"
  have w: "en_workflow ?s = fan_workflow" by code_simp
  have v1: "\<not> isLegacyExecutionOrder (en_workflow ?s)" by code_simp
  have named: "filed (en_workflow ?s)" by code_simp
  have quiet: "\<not> requests (simple_env plain_types hand_on)" by (simp add: requests_def simple_env_def hand_on_def)
  have acyclic: "acyclic (workflow_edges (en_workflow ?s))" unfolding w by (rule fan_acyclic)
  show ?thesis
    by (rule acyclic_run_ends [OF acyclic v1 named quiet, of "\<lparr>op_startNode = Some n_a, op_destinationNode = None,
      op_pinData = None, op_triggerData = None, op_additionalRunFilterNodes = []\<rparr>" n_a "[]" None]) simp_all
qed

end
