(* ===== verification/TaskBroker.thy ===== *)
theory TaskBroker
  imports Interfaces
begin

text \<open>
  \<^verbatim>\<open>packages/cli/src/task-runners/task-broker/task-broker.service.ts\<close>: the broker between the
  requesters of tasks (the Code node) and the runners that execute them.  Runners offer to take a
  task, requesters ask for one; \<^verbatim>\<open>settleTasks\<close> matches both, and \<^verbatim>\<open>acceptOffer\<close> lets first the runner
  and then the requester agree.

  The handlers are functions on the record \<^verbatim>\<open>broker\<close>.  What an \<^verbatim>\<open>async\<close> method does after an
  \<^verbatim>\<open>await\<close> is a step of its own, at any later time: the calls of \<^verbatim>\<open>acceptOffer\<close> are the list
  \<^verbatim>\<open>br_acceptances\<close>, with the promises they wait for, the other methods that wait are
  \<^verbatim>\<open>br_waiting\<close>.  Timers are numbered and may fire at any time.  The callbacks of runners and
  requesters only send: they do not throw and do not call the broker before they return; what is
  sent is the trace \<^verbatim>\<open>br_sent\<close>.  Logging is left out.
\<close>

section \<open>Messages\<close>

datatype task_failure = Runner_error jval | Broker_error js_error

datatype to_runner =
    Runner_registered
  | Task_offer_accept string string
  | Task_cancel string string
  | Task_settings string jval
  | Rpc_response string string string jval
  | Task_data_response string string jval
  | Node_types string string jval

datatype to_requester =
    Task_ready string string
  | Task_done string jval
  | Task_error string task_failure
  | Request_expired string string
  | Task_data_request string string jval
  | Node_types_request string string jval
  | Rpc string string string "jval list"

datatype from_runner =
    R_info
  | R_taskaccepted string
  | R_taskrejected string string
  | R_taskdeferred string
  | R_taskoffer string string int
  | R_taskdone string jval
  | R_taskerror string jval
  | R_taskdatarequest string string jval
  | R_nodetypesrequest string string jval
  | R_rpc string string string "jval list"

datatype from_requester =
    Q_tasksettings string jval
  | Q_taskcancel string string
  | Q_taskrequest string string
  | Q_taskdataresponse string string jval
  | Q_nodetypesresponse string string jval
  | Q_rpcresponse string string string jval

datatype sent = To_runner string to_runner | To_requester string to_requester

section \<open>State\<close>

record task_runner =
  tr_id :: string
  tr_name :: "string option"
  tr_taskTypes :: "string list"

record task =
  tk_id :: string
  tk_runnerId :: string
  tk_requesterId :: string
  tk_taskType :: string
  tk_timeout :: "nat option"

record task_offer =
  to_offerId :: string
  to_runnerId :: string
  to_taskType :: string
  to_validFor :: int
  to_validUntil :: int

record task_request =
  tq_requestId :: string
  tq_requesterId :: string
  tq_taskType :: string
  tq_timeout :: "nat option"
  tq_acceptInProgress :: bool

datatype timer =
    Request_timeout string
  | Runner_accept_timeout nat
  | Requester_accept_timeout nat
  | Task_timeout string

text \<open>The two promises an acceptance waits for, and how far it is.\<close>

datatype runner_answer = Runner_accepted | Runner_rejected string | Runner_deferred | Runner_timed_out

datatype requester_answer = Requester_accepted jval | Requester_rejected string | Requester_timed_out

datatype phase = Awaits_runner | Refused | Awaits_requester | Ended

record acceptance =
  ap_taskId :: string
  ap_offer :: task_offer
  ap_request :: nat
  ap_runner :: "runner_answer option"
  ap_requester :: "requester_answer option"
  ap_phase :: phase

text \<open>What the other methods still do after an \<^verbatim>\<open>await\<close>.\<close>

datatype continuation =
    Delete_task string
  | Message_runner string to_runner
  | Throw js_error
  | Send_settings string string jval
  | Settings_failed string js_error
  | Fail_timed_out_task string

text \<open>What an \<^verbatim>\<open>async\<close> method throws.\<close>

datatype thrown = Thrown js_error | Thrown_string string

datatype runner_mode = Internal | External

record broker_config =
  bc_taskTimeout :: nat
  bc_mode :: runner_mode
  bc_selfHosted :: bool
  bc_taskId :: "nat \<Rightarrow> string"

text \<open>
  \<^verbatim>\<open>br_requests\<close> are the request objects ever made, as the code changes them in place;
  \<^verbatim>\<open>pendingTaskRequests\<close> refers to them.  \<^verbatim>\<open>br_errors\<close> are the errors thrown out of \<^verbatim>\<open>async\<close>
  methods, \<^verbatim>\<open>br_timedOut\<close> counts the lifecycle events \<^verbatim>\<open>runner:timed-out-during-task\<close>.
\<close>

record broker =
  br_knownRunners :: "(string, task_runner) omap"
  br_requesters :: "string list"
  br_tasks :: "(string, task) omap"
  br_isDraining :: bool
  br_runnerAcceptRejects :: "(string, nat) omap"
  br_requesterAcceptRejects :: "(string, nat) omap"
  br_pendingTaskOffers :: "task_offer list"
  br_pendingTaskRequests :: "nat list"
  br_mismatchWarned :: "string list"
  br_requests :: "task_request list"
  br_acceptances :: "acceptance list"
  br_waiting :: "continuation list"
  br_timers :: "(nat, timer) omap"
  br_nextTimer :: nat
  br_sent :: "sent list"
  br_errors :: "thrown list"
  br_timedOut :: nat

definition new_broker :: "broker_config \<Rightarrow> broker res" where
  "new_broker cfg =
     (if bc_taskTimeout cfg \<le> 0 then Inl (UserError ''Task timeout must be greater than 0'')
      else Inr \<lparr>br_knownRunners = [], br_requesters = [], br_tasks = [], br_isDraining = False,
        br_runnerAcceptRejects = [], br_requesterAcceptRejects = [], br_pendingTaskOffers = [],
        br_pendingTaskRequests = [], br_mismatchWarned = [], br_requests = [], br_acceptances = [],
        br_waiting = [], br_timers = [], br_nextTimer = 0, br_sent = [], br_errors = [], br_timedOut = 0\<rparr>)"

section \<open>Timers, promises and messages\<close>

definition setTimeout :: "timer \<Rightarrow> broker \<Rightarrow> broker \<times> nat" where
  "setTimeout timer s =
     (s\<lparr>br_timers := br_timers s @ [(br_nextTimer s, timer)], br_nextTimer := Suc (br_nextTimer s)\<rparr>, br_nextTimer s)"

definition clearTimeout :: "nat option \<Rightarrow> broker \<Rightarrow> broker" where
  "clearTimeout timer s =
     (case timer of None \<Rightarrow> s | Some i \<Rightarrow> s\<lparr>br_timers := AList.delete i (br_timers s)\<rparr>)"

definition createRequestTimeout :: "string \<Rightarrow> broker \<Rightarrow> broker \<times> nat" where
  "createRequestTimeout requestId = setTimeout (Request_timeout requestId)"

definition later :: "continuation \<Rightarrow> broker \<Rightarrow> broker" where
  "later k s = s\<lparr>br_waiting := br_waiting s @ [k]\<rparr>"

definition messageRunner :: "string \<Rightarrow> to_runner \<Rightarrow> broker \<Rightarrow> broker" where
  "messageRunner runnerId message s =
     (if has_key (br_knownRunners s) runnerId then s\<lparr>br_sent := br_sent s @ [To_runner runnerId message]\<rparr> else s)"

definition messageRequester :: "string \<Rightarrow> to_requester \<Rightarrow> broker \<Rightarrow> broker" where
  "messageRequester requesterId message s =
     (if requesterId \<in> set (br_requesters s)
      then s\<lparr>br_sent := br_sent s @ [To_requester requesterId message]\<rparr> else s)"

text \<open>A promise is settled once; later answers change nothing.\<close>

definition settle_runner :: "nat \<Rightarrow> runner_answer \<Rightarrow> broker \<Rightarrow> broker" where
  "settle_runner n answer s =
     (let a = br_acceptances s ! n
      in if ap_runner a \<noteq> None then s
         else s\<lparr>br_acceptances := (br_acceptances s)[n := a\<lparr>ap_runner := Some answer\<rparr>]\<rparr>)"

definition settle_requester :: "nat \<Rightarrow> requester_answer \<Rightarrow> broker \<Rightarrow> broker" where
  "settle_requester n answer s =
     (let a = br_acceptances s ! n
      in if ap_requester a \<noteq> None then s
         else s\<lparr>br_acceptances := (br_acceptances s)[n := a\<lparr>ap_requester := Some answer\<rparr>]\<rparr>)"

definition answer_runner :: "string \<Rightarrow> runner_answer \<Rightarrow> broker \<Rightarrow> broker" where
  "answer_runner taskId answer s =
     (case map_of (br_runnerAcceptRejects s) taskId of
        None \<Rightarrow> s
      | Some n \<Rightarrow> (settle_runner n answer s)\<lparr>br_runnerAcceptRejects := AList.delete taskId (br_runnerAcceptRejects s)\<rparr>)"

definition answer_requester :: "string \<Rightarrow> requester_answer \<Rightarrow> broker \<Rightarrow> broker" where
  "answer_requester taskId answer s =
     (case map_of (br_requesterAcceptRejects s) taskId of
        None \<Rightarrow> s
      | Some n \<Rightarrow> (settle_requester n answer s)\<lparr>br_requesterAcceptRejects := AList.delete taskId (br_requesterAcceptRejects s)\<rparr>)"

definition handleRunnerAccept :: "string \<Rightarrow> broker \<Rightarrow> broker" where
  "handleRunnerAccept taskId = answer_runner taskId Runner_accepted"

definition handleRunnerReject :: "string \<Rightarrow> string \<Rightarrow> broker \<Rightarrow> broker" where
  "handleRunnerReject taskId reason = answer_runner taskId (Runner_rejected reason)"

definition handleRunnerDeferred :: "string \<Rightarrow> broker \<Rightarrow> broker" where
  "handleRunnerDeferred taskId = answer_runner taskId Runner_deferred"

definition handleRequesterAccept :: "string \<Rightarrow> jval \<Rightarrow> broker \<Rightarrow> broker" where
  "handleRequesterAccept taskId settings = answer_requester taskId (Requester_accepted settings)"

definition handleRequesterReject :: "string \<Rightarrow> string \<Rightarrow> broker \<Rightarrow> broker" where
  "handleRequesterReject taskId reason = answer_requester taskId (Requester_rejected reason)"

section \<open>Tasks\<close>

definition delete_task :: "string \<Rightarrow> broker \<Rightarrow> broker" where
  "delete_task taskId s = s\<lparr>br_tasks := AList.delete taskId (br_tasks s)\<rparr>"

definition cancelTask :: "string \<Rightarrow> string \<Rightarrow> broker \<Rightarrow> broker" where
  "cancelTask taskId reason s =
     (case map_of (br_tasks s) taskId of
        None \<Rightarrow> s
      | Some task \<Rightarrow> messageRunner (tk_runnerId task) (Task_cancel taskId reason) (delete_task taskId s))"

definition failTask :: "string \<Rightarrow> js_error \<Rightarrow> broker \<Rightarrow> broker" where
  "failTask taskId e s =
     (case map_of (br_tasks s) taskId of
        None \<Rightarrow> s
      | Some task \<Rightarrow>
          messageRequester (tk_requesterId task) (Task_error taskId (Broker_error e)) (delete_task taskId s))"

definition getRunnerOrFailTask :: "string \<Rightarrow> broker \<Rightarrow> broker \<times> string res" where
  "getRunnerOrFailTask taskId s =
     (case map_of (br_tasks s) taskId of
        None \<Rightarrow> (s, Inl (UnexpectedError (''Cannot find runner, failed to find task ('' @ taskId @ '')'')))
      | Some task \<Rightarrow>
          (case map_of (br_knownRunners s) (tk_runnerId task) of
             None \<Rightarrow>
               (let e = UnexpectedError (''Cannot find runner, failed to find runner ('' @ tk_runnerId task @ '')'')
                in (failTask taskId e s, Inl e))
           | Some runner \<Rightarrow> (s, Inr (tr_id runner))))"

text \<open>The requester's answers to a runner, which is looked up before an \<^verbatim>\<open>await\<close>.\<close>

definition pass_to_runner :: "string \<Rightarrow> to_runner \<Rightarrow> broker \<Rightarrow> broker" where
  "pass_to_runner taskId message s =
     (if \<not> has_key (br_tasks s) taskId then s
      else case getRunnerOrFailTask taskId s of
          (s, Inl e) \<Rightarrow> later (Throw e) s
        | (s, Inr runnerId) \<Rightarrow> later (Message_runner runnerId message) s)"

definition handleRequesterRpcResponse :: "string \<Rightarrow> string \<Rightarrow> string \<Rightarrow> jval \<Rightarrow> broker \<Rightarrow> broker" where
  "handleRequesterRpcResponse taskId callId status data = pass_to_runner taskId (Rpc_response taskId callId status data)"

definition handleRequesterDataResponse :: "string \<Rightarrow> string \<Rightarrow> jval \<Rightarrow> broker \<Rightarrow> broker" where
  "handleRequesterDataResponse taskId requestId data = pass_to_runner taskId (Task_data_response taskId requestId data)"

definition handleRequesterNodeTypesResponse :: "string \<Rightarrow> string \<Rightarrow> jval \<Rightarrow> broker \<Rightarrow> broker" where
  "handleRequesterNodeTypesResponse taskId requestId nodeTypes = pass_to_runner taskId (Node_types taskId requestId nodeTypes)"

text \<open>A runner's requests, which go to the requester of the task.\<close>

definition pass_to_requester :: "string \<Rightarrow> to_requester \<Rightarrow> broker \<Rightarrow> broker" where
  "pass_to_requester taskId message s =
     (case map_of (br_tasks s) taskId of
        None \<Rightarrow> s
      | Some task \<Rightarrow> messageRequester (tk_requesterId task) message s)"

definition handleRpcRequest :: "string \<Rightarrow> string \<Rightarrow> string \<Rightarrow> jval list \<Rightarrow> broker \<Rightarrow> broker" where
  "handleRpcRequest taskId callId name params = pass_to_requester taskId (Rpc taskId callId name params)"

definition handleDataRequest :: "string \<Rightarrow> string \<Rightarrow> jval \<Rightarrow> broker \<Rightarrow> broker" where
  "handleDataRequest taskId requestId params = pass_to_requester taskId (Task_data_request taskId requestId params)"

definition handleNodeTypesRequest :: "string \<Rightarrow> string \<Rightarrow> jval \<Rightarrow> broker \<Rightarrow> broker" where
  "handleNodeTypesRequest taskId requestId params = pass_to_requester taskId (Node_types_request taskId requestId params)"

text \<open>\<^verbatim>\<open>handleResponse\<close> sends to a runner, but by the id of the requester.\<close>

definition handleResponse :: "string \<Rightarrow> string \<Rightarrow> jval \<Rightarrow> broker \<Rightarrow> broker" where
  "handleResponse taskId requestId data s =
     (case map_of (br_tasks s) taskId of
        None \<Rightarrow> s
      | Some task \<Rightarrow> messageRunner (tk_requesterId task) (Task_data_response taskId requestId data) s)"

definition taskDoneHandler :: "string \<Rightarrow> jval \<Rightarrow> broker \<Rightarrow> broker" where
  "taskDoneHandler taskId data s =
     (case map_of (br_tasks s) taskId of
        None \<Rightarrow> s
      | Some task \<Rightarrow>
          later (Delete_task (tk_id task))
            (messageRequester (tk_requesterId task) (Task_done (tk_id task) data) (clearTimeout (tk_timeout task) s)))"

definition taskErrorHandler :: "string \<Rightarrow> task_failure \<Rightarrow> broker \<Rightarrow> broker" where
  "taskErrorHandler taskId failure s =
     (case map_of (br_tasks s) taskId of
        None \<Rightarrow> s
      | Some task \<Rightarrow>
          later (Delete_task (tk_id task))
            (messageRequester (tk_requesterId task) (Task_error (tk_id task) failure) (clearTimeout (tk_timeout task) s)))"

text \<open>\<^verbatim>\<open>errors/task-runner-execution-timeout.error.ts\<close>, with the text of its description.\<close>

definition seconds :: "nat \<Rightarrow> string" where
  "seconds n = show_nat n @ '' '' @ (if n = 1 then ''second'' else ''seconds'')"

definition timeout_suggestions :: "broker_config \<Rightarrow> string list" where
  "timeout_suggestions cfg =
     [''Optimize your script to prevent long-running tasks, e.g. by processing data in smaller batches.'',
      ''Ensure that all paths in your script are able to terminate, i.e. no infinite loops.''] @
     (if bc_selfHosted cfg
      then [''If your task can reasonably take more than '' @ seconds (bc_taskTimeout cfg) @
            '', increase the timeout using the N8N_RUNNERS_TASK_TIMEOUT environment variable.'']
      else [])"

fun join_lines :: "string list \<Rightarrow> string" where
  "join_lines [] = []"
| "join_lines [l] = l"
| "join_lines (l # ls) = l @ ''<br/>'' @ join_lines ls"

definition execution_timeout_error :: "broker_config \<Rightarrow> js_error" where
  "execution_timeout_error cfg = JsError ''TaskRunnerExecutionTimeoutError''
     (''Task execution timed out after '' @ seconds (bc_taskTimeout cfg))
     (Some ((case bc_mode cfg of
               Internal \<Rightarrow> ''The task runner was taking too long on this task, so it was suspected of being unresponsive and restarted, and the task was aborted.''
             | External \<Rightarrow> ''The task runner was taking too long on this task, so the task was aborted.'') @
        '' You can try the following:<br/><br/>'' @
        join_lines (map (\<lambda>(i, suggestion). show_nat (i + 1) @ ''. '' @ suggestion)
          (List.enumerate 0 (timeout_suggestions cfg)))))"

definition fail_timed_out :: "broker_config \<Rightarrow> string \<Rightarrow> broker \<Rightarrow> broker" where
  "fail_timed_out cfg taskId = taskErrorHandler taskId (Broker_error (execution_timeout_error cfg))"

definition handleTaskTimeout :: "broker_config \<Rightarrow> string \<Rightarrow> broker \<Rightarrow> broker" where
  "handleTaskTimeout cfg taskId s =
     (case map_of (br_tasks s) taskId of
        None \<Rightarrow> s
      | Some task \<Rightarrow>
          (case bc_mode cfg of
             Internal \<Rightarrow> fail_timed_out cfg taskId (s\<lparr>br_timedOut := Suc (br_timedOut s)\<rparr>)
           | External \<Rightarrow>
               later (Fail_timed_out_task taskId)
                 (messageRunner (tk_runnerId task) (Task_cancel taskId ''Task execution timed out'') s)))"

text \<open>\<^verbatim>\<open>sendTaskSettings\<close>, up to its \<^verbatim>\<open>await\<close> and after it.\<close>

definition sendTaskSettings :: "string \<Rightarrow> jval \<Rightarrow> broker \<Rightarrow> broker" where
  "sendTaskSettings taskId settings s =
     (if \<not> has_key (br_tasks s) taskId then s
      else case getRunnerOrFailTask taskId s of
          (s, Inl e) \<Rightarrow> later (Settings_failed taskId e) s
        | (s, Inr runnerId) \<Rightarrow> later (Send_settings taskId runnerId settings) s)"

definition send_settings :: "string \<Rightarrow> string \<Rightarrow> jval \<Rightarrow> broker \<Rightarrow> broker" where
  "send_settings taskId runnerId settings s =
     (case map_of (br_tasks s) taskId of
        None \<Rightarrow> s
      | Some task \<Rightarrow>
          (let (s, timer) = setTimeout (Task_timeout taskId) s
           in messageRunner runnerId (Task_settings taskId settings)
                (s\<lparr>br_tasks := AList.update taskId (task\<lparr>tk_timeout := Some timer\<rparr>) (br_tasks s)\<rparr>)))"

definition throw_error :: "thrown \<Rightarrow> broker \<Rightarrow> broker" where
  "throw_error e s = s\<lparr>br_errors := br_errors s @ [e]\<rparr>"

fun continue :: "broker_config \<Rightarrow> continuation \<Rightarrow> broker \<Rightarrow> broker" where
  "continue cfg (Delete_task taskId) s = delete_task taskId s"
| "continue cfg (Message_runner runnerId message) s = messageRunner runnerId message s"
| "continue cfg (Throw e) s = throw_error (Thrown e) s"
| "continue cfg (Send_settings taskId runnerId settings) s = send_settings taskId runnerId settings s"
| "continue cfg (Settings_failed taskId e) s = throw_error (Thrown e) (cancelTask taskId ''Unknown reason'' s)"
| "continue cfg (Fail_timed_out_task taskId) s = fail_timed_out cfg taskId s"

section \<open>Matching\<close>

definition request_at :: "broker \<Rightarrow> nat \<Rightarrow> task_request" where
  "request_at s r = br_requests s ! r"

definition put_request :: "nat \<Rightarrow> task_request \<Rightarrow> broker \<Rightarrow> broker" where
  "put_request r request s = s\<lparr>br_requests := (br_requests s)[r := request]\<rparr>"

definition has_requestId :: "broker \<Rightarrow> string \<Rightarrow> nat \<Rightarrow> bool" where
  "has_requestId s requestId r = (tq_requestId (request_at s r) = requestId)"

definition expireTasks :: "int \<Rightarrow> broker \<Rightarrow> broker" where
  "expireTasks now s =
     s\<lparr>br_pendingTaskOffers := filter (\<lambda>offer. to_validFor offer = - 1 \<or> now \<le> to_validUntil offer) (br_pendingTaskOffers s)\<rparr>"

text \<open>The part of \<^verbatim>\<open>acceptOffer\<close> before its first \<^verbatim>\<open>await\<close>.\<close>

definition acceptOffer :: "broker_config \<Rightarrow> task_offer \<Rightarrow> nat \<Rightarrow> broker \<Rightarrow> broker" where
  "acceptOffer cfg offer r s =
     (let n = length (br_acceptances s); taskId = bc_taskId cfg n;
          s = s\<lparr>br_acceptances := br_acceptances s @ [\<lparr>ap_taskId = taskId, ap_offer = offer, ap_request = r,
                  ap_runner = None, ap_requester = None, ap_phase = Awaits_runner\<rparr>],
                br_runnerAcceptRejects := AList.update taskId n (br_runnerAcceptRejects s)\<rparr>;
          (s, _) = setTimeout (Runner_accept_timeout n) s
      in messageRunner (to_runnerId offer) (Task_offer_accept taskId (to_offerId offer)) s)"

definition warnOnTaskTypeMismatch :: "task_request \<Rightarrow> broker \<Rightarrow> broker" where
  "warnOnTaskTypeMismatch request s =
     (if br_pendingTaskOffers s = [] \<or> tq_requestId request \<in> set (br_mismatchWarned s) then s
      else s\<lparr>br_mismatchWarned := sadd (tq_requestId request) (br_mismatchWarned s)\<rparr>)"

text \<open>The first element with a property, and the list without it (\<^verbatim>\<open>findIndex\<close> and \<^verbatim>\<open>splice\<close>).\<close>

fun take_first :: "('a \<Rightarrow> bool) \<Rightarrow> 'a list \<Rightarrow> ('a \<times> 'a list) option" where
  "take_first P [] = None"
| "take_first P (x # xs) =
     (if P x then Some (x, xs) else map_option (\<lambda>(y, ys). (y, x # ys)) (take_first P xs))"

definition settle_request :: "broker_config \<Rightarrow> nat \<Rightarrow> broker \<Rightarrow> broker" where
  "settle_request cfg r s =
     (let request = request_at s r
      in if tq_acceptInProgress request then s
         else case take_first (\<lambda>offer. to_taskType offer = tq_taskType request) (br_pendingTaskOffers s) of
             None \<Rightarrow> warnOnTaskTypeMismatch request s
           | Some (offer, offers) \<Rightarrow>
               acceptOffer cfg offer r
                 ((put_request r (request\<lparr>tq_acceptInProgress := True\<rparr>) s)
                    \<lparr>br_pendingTaskOffers := offers, br_mismatchWarned := sdel (tq_requestId request) (br_mismatchWarned s)\<rparr>))"

definition settleTasks :: "broker_config \<Rightarrow> int \<Rightarrow> broker \<Rightarrow> broker" where
  "settleTasks cfg now s =
     (let s = expireTasks now s in fold (settle_request cfg) (br_pendingTaskRequests s) s)"

definition taskRequested :: "broker_config \<Rightarrow> int \<Rightarrow> task_request \<Rightarrow> broker \<Rightarrow> broker" where
  "taskRequested cfg now request s =
     (if br_isDraining s
      then messageRequester (tq_requesterId request) (Request_expired (tq_requestId request) ''draining'')
             (clearTimeout (tq_timeout request) s)
      else settleTasks cfg now
             (s\<lparr>br_pendingTaskRequests := br_pendingTaskRequests s @ [length (br_requests s)],
                br_requests := br_requests s @ [request]\<rparr>))"

definition taskOffered :: "broker_config \<Rightarrow> int \<Rightarrow> task_offer \<Rightarrow> broker \<Rightarrow> broker" where
  "taskOffered cfg now offer s =
     settleTasks cfg now (s\<lparr>br_pendingTaskOffers := br_pendingTaskOffers s @ [offer]\<rparr>)"

section \<open>The acceptance of an offer\<close>

text \<open>The exception handler of the first part: the request can be matched again.\<close>

definition refuse :: "nat \<Rightarrow> acceptance \<Rightarrow> runner_answer \<Rightarrow> broker \<Rightarrow> broker" where
  "refuse n a answer s =
     (let r = ap_request a;
          s = put_request r ((request_at s r)\<lparr>tq_acceptInProgress := False\<rparr>) s;
          s = s\<lparr>br_acceptances := (br_acceptances s)[n := a\<lparr>ap_phase := Refused\<rparr>]\<rparr>
      in if answer = Runner_deferred
         then let request = request_at s r;
                  (s, timer) = createRequestTimeout (tq_requestId request) (clearTimeout (tq_timeout request) s)
              in put_request r (request\<lparr>tq_timeout := Some timer\<rparr>) s
         else s)"

definition make_task :: "acceptance \<Rightarrow> task_request \<Rightarrow> task" where
  "make_task a request = \<lparr>tk_id = ap_taskId a, tk_runnerId = to_runnerId (ap_offer a),
     tk_requesterId = tq_requesterId request, tk_taskType = to_taskType (ap_offer a), tk_timeout = None\<rparr>"

definition start_task :: "nat \<Rightarrow> acceptance \<Rightarrow> broker \<Rightarrow> broker" where
  "start_task n a s =
     (let request = request_at s (ap_request a); taskId = ap_taskId a;
          s = clearTimeout (tq_timeout request) s;
          s = s\<lparr>br_tasks := AList.update taskId (make_task a request) (br_tasks s)\<rparr>
      in case take_first (has_requestId s (tq_requestId request)) (br_pendingTaskRequests s) of
          None \<Rightarrow> s\<lparr>br_acceptances := (br_acceptances s)[n := a\<lparr>ap_phase := Ended\<rparr>]\<rparr>
        | Some (_, pending) \<Rightarrow>
            (let s = s\<lparr>br_pendingTaskRequests := pending,
                       br_acceptances := (br_acceptances s)[n := a\<lparr>ap_phase := Awaits_requester\<rparr>],
                       br_requesterAcceptRejects := AList.update taskId n (br_requesterAcceptRejects s)\<rparr>;
                 (s, _) = setTimeout (Requester_accept_timeout n) s
             in messageRequester (tq_requesterId request) (Task_ready (tq_requestId request) taskId) s))"

definition end_acceptance :: "nat \<Rightarrow> acceptance \<Rightarrow> requester_answer \<Rightarrow> broker \<Rightarrow> broker" where
  "end_acceptance n a answer s =
     (let taskId = ap_taskId a; s = s\<lparr>br_acceptances := (br_acceptances s)[n := a\<lparr>ap_phase := Ended\<rparr>]\<rparr>
      in case answer of
          Requester_accepted settings \<Rightarrow> sendTaskSettings taskId settings s
        | Requester_rejected reason \<Rightarrow> cancelTask taskId reason s
        | Requester_timed_out \<Rightarrow>
            throw_error (Thrown_string ''Requester timed out'') (cancelTask taskId ''Unknown reason'' s))"

text \<open>An acceptance goes on once the promise it waits for is settled.\<close>

definition resume :: "nat \<Rightarrow> broker \<Rightarrow> broker option" where
  "resume n s =
     (case array_get (br_acceptances s) n of
        None \<Rightarrow> None
      | Some a \<Rightarrow>
          (case ap_phase a of
             Awaits_runner \<Rightarrow>
               (case ap_runner a of
                  None \<Rightarrow> None
                | Some Runner_accepted \<Rightarrow> Some (start_task n a s)
                | Some answer \<Rightarrow> Some (refuse n a answer s))
           | Awaits_requester \<Rightarrow>
               (case ap_requester a of None \<Rightarrow> None | Some answer \<Rightarrow> Some (end_acceptance n a answer s))
           | _ \<Rightarrow> None))"

section \<open>Runners and requesters\<close>

definition registerRunner :: "task_runner \<Rightarrow> broker \<Rightarrow> broker" where
  "registerRunner runner s =
     messageRunner (tr_id runner) Runner_registered
       (s\<lparr>br_knownRunners := AList.update (tr_id runner) runner (br_knownRunners s)\<rparr>)"

definition fail_task_of :: "string \<Rightarrow> js_error \<Rightarrow> task \<Rightarrow> broker \<Rightarrow> broker" where
  "fail_task_of runnerId e task s =
     (if tk_runnerId task = runnerId
      then handleRunnerReject (tk_id task)
             (''The Task Runner ('' @ runnerId @ '') has disconnected: '' @ err_message e) (failTask (tk_id task) e s)
      else s)"

definition deregisterRunner :: "string \<Rightarrow> js_error \<Rightarrow> broker \<Rightarrow> broker" where
  "deregisterRunner runnerId e s =
     (let s = s\<lparr>br_knownRunners := AList.delete runnerId (br_knownRunners s),
                br_pendingTaskOffers := filter (\<lambda>offer. to_runnerId offer \<noteq> runnerId) (br_pendingTaskOffers s)\<rparr>
      in fold (fail_task_of runnerId e) (ovals (br_tasks s)) s)"

definition registerRequester :: "string \<Rightarrow> broker \<Rightarrow> broker" where
  "registerRequester requesterId s = s\<lparr>br_requesters := sadd requesterId (br_requesters s)\<rparr>"

definition deregisterRequester :: "string \<Rightarrow> broker \<Rightarrow> broker" where
  "deregisterRequester requesterId s = s\<lparr>br_requesters := sdel requesterId (br_requesters s)\<rparr>"

definition offer_of :: "string \<Rightarrow> string \<Rightarrow> string \<Rightarrow> int \<Rightarrow> int \<Rightarrow> task_offer" where
  "offer_of runnerId offerId taskType validFor now = \<lparr>to_offerId = offerId, to_runnerId = runnerId,
     to_taskType = taskType, to_validFor = validFor,
     to_validUntil = (if validFor = - 1 then 0 else now + validFor * 1000000)\<rparr>"

text \<open>The clock is read for the offer and again when the tasks are settled.\<close>

definition onRunnerMessage :: "broker_config \<Rightarrow> int \<Rightarrow> int \<Rightarrow> string \<Rightarrow> from_runner \<Rightarrow> broker \<Rightarrow> broker" where
  "onRunnerMessage cfg now settleNow runnerId message s =
     (if \<not> has_key (br_knownRunners s) runnerId then s
      else case message of
          R_taskaccepted taskId \<Rightarrow> handleRunnerAccept taskId s
        | R_taskrejected taskId reason \<Rightarrow> handleRunnerReject taskId reason s
        | R_taskdeferred taskId \<Rightarrow> handleRunnerDeferred taskId s
        | R_taskoffer offerId taskType validFor \<Rightarrow>
            taskOffered cfg settleNow (offer_of runnerId offerId taskType validFor now) s
        | R_taskdone taskId data \<Rightarrow> taskDoneHandler taskId data s
        | R_taskerror taskId e \<Rightarrow> taskErrorHandler taskId (Runner_error e) s
        | R_taskdatarequest taskId requestId params \<Rightarrow> handleDataRequest taskId requestId params s
        | R_nodetypesrequest taskId requestId params \<Rightarrow> handleNodeTypesRequest taskId requestId params s
        | R_rpc taskId callId name params \<Rightarrow> handleRpcRequest taskId callId name params s
        | R_info \<Rightarrow> s)"

definition onRequesterMessage :: "broker_config \<Rightarrow> int \<Rightarrow> string \<Rightarrow> from_requester \<Rightarrow> broker \<Rightarrow> broker" where
  "onRequesterMessage cfg now requesterId message s =
     (case message of
        Q_tasksettings taskId settings \<Rightarrow> handleRequesterAccept taskId settings s
      | Q_taskcancel taskId reason \<Rightarrow> cancelTask taskId reason s
      | Q_taskrequest requestId taskType \<Rightarrow>
          (let (s, timer) = createRequestTimeout requestId s
           in taskRequested cfg now \<lparr>tq_requestId = requestId, tq_requesterId = requesterId,
                tq_taskType = taskType, tq_timeout = Some timer, tq_acceptInProgress = False\<rparr> s)
      | Q_taskdataresponse taskId requestId data \<Rightarrow> handleRequesterDataResponse taskId requestId data s
      | Q_nodetypesresponse taskId requestId nodeTypes \<Rightarrow> handleRequesterNodeTypesResponse taskId requestId nodeTypes s
      | Q_rpcresponse taskId callId status data \<Rightarrow> handleRequesterRpcResponse taskId callId status data s)"

definition startDraining :: "broker \<Rightarrow> broker" where
  "startDraining s = s\<lparr>br_isDraining := True\<rparr>"

definition hasActiveTasks :: "broker \<Rightarrow> bool" where
  "hasActiveTasks s = (length (br_tasks s) > 0)"

definition handleRequestTimeout :: "string \<Rightarrow> broker \<Rightarrow> broker" where
  "handleRequestTimeout requestId s =
     (case take_first (has_requestId s requestId) (br_pendingTaskRequests s) of
        None \<Rightarrow> s
      | Some (r, pending) \<Rightarrow>
          (let request = request_at s r;
               s = s\<lparr>br_pendingTaskRequests := pending, br_mismatchWarned := sdel requestId (br_mismatchWarned s)\<rparr>
           in messageRequester (tq_requesterId request) (Request_expired (tq_requestId request) ''timeout'')
                (clearTimeout (tq_timeout request) s)))"

definition fire :: "broker_config \<Rightarrow> timer \<Rightarrow> broker \<Rightarrow> broker" where
  "fire cfg timer s =
     (case timer of
        Request_timeout requestId \<Rightarrow> handleRequestTimeout requestId s
      | Runner_accept_timeout n \<Rightarrow> settle_runner n Runner_timed_out s
      | Requester_accept_timeout n \<Rightarrow> settle_requester n Requester_timed_out s
      | Task_timeout taskId \<Rightarrow> handleTaskTimeout cfg taskId s)"

section \<open>Steps\<close>

datatype broker_event =
    Register_runner task_runner
  | Deregister_runner string js_error
  | Register_requester string
  | Deregister_requester string
  | From_runner int int string from_runner
  | From_requester int string from_requester
  | Reject_as_requester string string
  | Start_draining
  | Fire nat
  | Resume nat
  | Continue nat

fun broker_step :: "broker_config \<Rightarrow> broker_event \<Rightarrow> broker \<Rightarrow> broker option" where
  "broker_step cfg (Register_runner runner) s = Some (registerRunner runner s)"
| "broker_step cfg (Deregister_runner runnerId e) s = Some (deregisterRunner runnerId e s)"
| "broker_step cfg (Register_requester requesterId) s = Some (registerRequester requesterId s)"
| "broker_step cfg (Deregister_requester requesterId) s = Some (deregisterRequester requesterId s)"
| "broker_step cfg (From_runner now settleNow runnerId message) s =
     Some (onRunnerMessage cfg now settleNow runnerId message s)"
| "broker_step cfg (From_requester now requesterId message) s = Some (onRequesterMessage cfg now requesterId message s)"
| "broker_step cfg (Reject_as_requester taskId reason) s = Some (handleRequesterReject taskId reason s)"
| "broker_step cfg Start_draining s = Some (startDraining s)"
| "broker_step cfg (Fire i) s =
     (case map_of (br_timers s) i of
        None \<Rightarrow> None
      | Some timer \<Rightarrow> Some (fire cfg timer (s\<lparr>br_timers := AList.delete i (br_timers s)\<rparr>)))"
| "broker_step cfg (Resume n) s = resume n s"
| "broker_step cfg (Continue i) s =
     (case array_get (br_waiting s) i of
        None \<Rightarrow> None
      | Some k \<Rightarrow> Some (continue cfg k (s\<lparr>br_waiting := take i (br_waiting s) @ drop (Suc i) (br_waiting s)\<rparr>)))"

section \<open>What the handlers leave alone\<close>

text \<open>
  The part of the state on which the matching depends, and its history: the acceptances with
  their request, offer and phase, the requests, those that are pending, the offers, and the
  messages that conclude a match.
\<close>

definition request_id :: "task_request \<Rightarrow> string \<times> string" where
  "request_id request = (tq_requesterId request, tq_requestId request)"

definition offer_id :: "task_offer \<Rightarrow> string \<times> string" where
  "offer_id offer = (to_runnerId offer, to_offerId offer)"

fun is_ready :: "sent \<Rightarrow> (string \<times> string) list" where
  "is_ready (To_requester requesterId (Task_ready requestId taskId)) = [(requesterId, requestId)]"
| "is_ready _ = []"

fun is_accept :: "sent \<Rightarrow> (string \<times> string) list" where
  "is_accept (To_runner runnerId (Task_offer_accept taskId offerId)) = [(runnerId, offerId)]"
| "is_accept _ = []"

definition readies :: "broker \<Rightarrow> (string \<times> string) list" where
  "readies s = concat (map is_ready (br_sent s))"

definition accepts :: "broker \<Rightarrow> (string \<times> string) list" where
  "accepts s = concat (map is_accept (br_sent s))"

definition essence :: "acceptance \<Rightarrow> task_offer \<times> nat \<times> phase" where
  "essence a = (ap_offer a, ap_request a, ap_phase a)"

definition match_view where
  "match_view s = (map essence (br_acceptances s), br_requests s, br_pendingTaskRequests s,
     br_pendingTaskOffers s, readies s, accepts s)"

lemma essence_update:
  "n < length as \<Longrightarrow> essence a = essence (as ! n) \<Longrightarrow> map essence (as[n := a]) = map essence as"
  by (simp add: map_update list_update_same_conv)

lemma essence_answers [simp]:
  "essence (a\<lparr>ap_runner := x\<rparr>) = essence a" "essence (a\<lparr>ap_requester := y\<rparr>) = essence a"
  by (simp_all add: essence_def)

lemma essence_answer:
  "map essence (as[n := (as ! n)\<lparr>ap_runner := x\<rparr>]) = map essence as"
  "map essence (as[n := (as ! n)\<lparr>ap_requester := y\<rparr>]) = map essence as"
  by (metis essence_answers essence_update list_update_beyond not_less)+

lemma is_accept_any: "is_accept (To_runner r m) = [] \<Longrightarrow> is_accept (To_runner r' m) = []"
  by (cases m) simp_all

lemma messageRunner_view:
  "is_accept (To_runner runnerId message) = [] \<Longrightarrow> match_view (messageRunner runnerId message s) = match_view s"
  by (simp add: match_view_def messageRunner_def readies_def accepts_def)

lemma messageRequester_view:
  "is_ready (To_requester requesterId message) = [] \<Longrightarrow> match_view (messageRequester requesterId message s) = match_view s"
  by (simp add: match_view_def messageRequester_def readies_def accepts_def)

lemma view_simps [simp]:
  "match_view (clearTimeout timer s) = match_view s"
  "match_view (fst (setTimeout t s)) = match_view s"
  "match_view (fst (createRequestTimeout requestId s)) = match_view s"
  "match_view (later k s) = match_view s"
  "match_view (delete_task taskId s) = match_view s"
  "match_view (throw_error e s) = match_view s"
  "match_view (s\<lparr>br_tasks := tasks\<rparr>) = match_view s"
  "match_view (s\<lparr>br_timers := timers\<rparr>) = match_view s"
  "match_view (s\<lparr>br_waiting := ks\<rparr>) = match_view s"
  "match_view (s\<lparr>br_timedOut := n\<rparr>) = match_view s"
  "match_view (s\<lparr>br_runnerAcceptRejects := rs\<rparr>) = match_view s"
  "match_view (s\<lparr>br_requesterAcceptRejects := rs\<rparr>) = match_view s"
  "match_view (s\<lparr>br_mismatchWarned := ids\<rparr>) = match_view s"
  "match_view (s\<lparr>br_knownRunners := runners\<rparr>) = match_view s"
  "match_view (s\<lparr>br_requesters := requesters\<rparr>) = match_view s"
  "match_view (startDraining s) = match_view s"
  by (simp_all add: match_view_def clearTimeout_def setTimeout_def createRequestTimeout_def later_def delete_task_def
      throw_error_def readies_def accepts_def startDraining_def split: option.split)

lemma settle_view [simp]:
  "match_view (settle_runner n answer s) = match_view s"
  "match_view (settle_requester n answer' s) = match_view s"
  by (simp_all add: match_view_def settle_runner_def settle_requester_def Let_def essence_answer readies_def accepts_def)

lemma answer_view [simp]:
  "match_view (answer_runner taskId answer s) = match_view s"
  "match_view (answer_requester taskId answer' s) = match_view s"
  "match_view (handleRunnerAccept taskId s) = match_view s"
  "match_view (handleRunnerReject taskId reason s) = match_view s"
  "match_view (handleRunnerDeferred taskId s) = match_view s"
  "match_view (handleRequesterAccept taskId settings s) = match_view s"
  "match_view (handleRequesterReject taskId reason s) = match_view s"
  by (simp_all add: answer_runner_def answer_requester_def handleRunnerAccept_def handleRunnerReject_def
      handleRunnerDeferred_def handleRequesterAccept_def handleRequesterReject_def split: option.split)

lemma task_view [simp]:
  "match_view (cancelTask taskId reason s) = match_view s"
  "match_view (failTask taskId e s) = match_view s"
  "match_view (fst (getRunnerOrFailTask taskId s)) = match_view s"
  "match_view (taskDoneHandler taskId data s) = match_view s"
  "match_view (taskErrorHandler taskId failure s) = match_view s"
  "match_view (fail_timed_out cfg taskId s) = match_view s"
  "match_view (handleTaskTimeout cfg taskId s) = match_view s"
  "match_view (handleResponse taskId requestId data s) = match_view s"
  "match_view (handleRpcRequest taskId callId name params s) = match_view s"
  "match_view (handleDataRequest taskId requestId params' s) = match_view s"
  "match_view (handleNodeTypesRequest taskId requestId params' s) = match_view s"
  by (simp_all add: cancelTask_def failTask_def getRunnerOrFailTask_def Let_def taskDoneHandler_def taskErrorHandler_def
      fail_timed_out_def handleTaskTimeout_def handleResponse_def handleRpcRequest_def handleDataRequest_def
      handleNodeTypesRequest_def pass_to_requester_def messageRunner_view messageRequester_view
      split: option.split runner_mode.split)

lemma pass_view [simp]:
  "match_view (pass_to_runner taskId message s) = match_view s"
  "match_view (sendTaskSettings taskId settings s) = match_view s"
  "match_view (send_settings taskId runnerId settings s) = match_view s"
  by (auto simp: pass_to_runner_def sendTaskSettings_def send_settings_def setTimeout_def messageRunner_view
      getRunnerOrFailTask_def Let_def split: option.split)
     (simp_all add: match_view_def readies_def accepts_def)

lemma fail_task_of_view [simp]: "match_view (fail_task_of runnerId e task s) = match_view s"
  by (simp add: fail_task_of_def)

lemma fold_fail_view [simp]: "match_view (fold (fail_task_of runnerId e) tasks s) = match_view s"
  by (induction tasks arbitrary: s) simp_all

text \<open>No method waits to accept an offer.\<close>

definition harmless :: "continuation \<Rightarrow> bool" where
  "harmless k = (case k of Message_runner runnerId message \<Rightarrow> is_accept (To_runner runnerId message) = [] | _ \<Rightarrow> True)"

definition waiting_ok :: "broker \<Rightarrow> bool" where
  "waiting_ok s = (\<forall>k \<in> set (br_waiting s). harmless k)"

lemma waiting_simps [simp]:
  "waiting_ok (clearTimeout timer s) = waiting_ok s"
  "waiting_ok (fst (setTimeout t s)) = waiting_ok s"
  "waiting_ok (fst (createRequestTimeout requestId s)) = waiting_ok s"
  "waiting_ok (later k s) \<longleftrightarrow> harmless k \<and> waiting_ok s"
  "waiting_ok (delete_task taskId s) = waiting_ok s"
  "waiting_ok (throw_error e s) = waiting_ok s"
  "waiting_ok (settle_runner n answer s) = waiting_ok s"
  "waiting_ok (settle_requester n answer' s) = waiting_ok s"
  "waiting_ok (messageRunner runnerId message s) = waiting_ok s"
  "waiting_ok (messageRequester requesterId message' s) = waiting_ok s"
  by (simp_all add: waiting_ok_def clearTimeout_def setTimeout_def createRequestTimeout_def later_def delete_task_def
      throw_error_def settle_runner_def settle_requester_def Let_def messageRunner_def messageRequester_def
      split: option.split)

lemma waiting_answers [simp]:
  "waiting_ok (answer_runner taskId answer s) = waiting_ok s"
  "waiting_ok (answer_requester taskId answer' s) = waiting_ok s"
  "waiting_ok (handleRunnerAccept taskId s) = waiting_ok s"
  "waiting_ok (handleRunnerReject taskId reason s) = waiting_ok s"
  "waiting_ok (handleRunnerDeferred taskId s) = waiting_ok s"
  "waiting_ok (handleRequesterAccept taskId settings s) = waiting_ok s"
  "waiting_ok (handleRequesterReject taskId reason s) = waiting_ok s"
  by (simp_all add: waiting_ok_def answer_runner_def answer_requester_def handleRunnerAccept_def handleRunnerReject_def
      handleRunnerDeferred_def handleRequesterAccept_def handleRequesterReject_def settle_runner_def settle_requester_def
      Let_def split: option.split)

lemma waiting_tasks [simp]:
  "waiting_ok (cancelTask taskId reason s) = waiting_ok s"
  "waiting_ok (failTask taskId e s) = waiting_ok s"
  "waiting_ok (fst (getRunnerOrFailTask taskId s)) = waiting_ok s"
  "waiting_ok (taskDoneHandler taskId data s) = waiting_ok s"
  "waiting_ok (taskErrorHandler taskId failure s) = waiting_ok s"
  "waiting_ok (fail_timed_out cfg taskId s) = waiting_ok s"
  "waiting_ok (s\<lparr>br_timedOut := n\<rparr>) = waiting_ok s"
  "waiting_ok (handleTaskTimeout cfg taskId s) = waiting_ok s"
  "waiting_ok (handleResponse taskId requestId data s) = waiting_ok s"
  "waiting_ok (handleRpcRequest taskId callId name params s) = waiting_ok s"
  "waiting_ok (handleDataRequest taskId requestId params' s) = waiting_ok s"
  "waiting_ok (handleNodeTypesRequest taskId requestId params' s) = waiting_ok s"
  "waiting_ok (sendTaskSettings taskId settings s) = waiting_ok s"
  "waiting_ok (send_settings taskId runnerId settings s) = waiting_ok s"
  "is_accept (To_runner runnerId message) = [] \<Longrightarrow> waiting_ok (pass_to_runner taskId message s) = waiting_ok s"
  by (auto simp: cancelTask_def failTask_def getRunnerOrFailTask_def Let_def taskDoneHandler_def taskErrorHandler_def
      fail_timed_out_def handleTaskTimeout_def handleResponse_def handleRpcRequest_def handleDataRequest_def
      handleNodeTypesRequest_def pass_to_requester_def pass_to_runner_def sendTaskSettings_def send_settings_def
      setTimeout_def harmless_def split: option.split runner_mode.split sum.split prod.split)
     (auto simp: waiting_ok_def later_def harmless_def dest: is_accept_any)

section \<open>Every offer and every request is used once\<close>

text \<open>
  Of each request at most one acceptance is not refused, and only while it is marked as being
  accepted; the offers accepted and those that are left are among the offers \<^verbatim>\<open>made\<close>, the requests
  among those \<^verbatim>\<open>asked\<close>; and every message that concludes a match belongs to an acceptance.
\<close>

type_synonym match = "(task_offer \<times> nat \<times> phase) list \<times> task_request list \<times> nat list \<times> task_offer list
  \<times> (string \<times> string) list \<times> (string \<times> string) list"

definition live_for :: "nat \<Rightarrow> task_offer \<times> nat \<times> phase \<Rightarrow> bool" where
  "live_for r = (\<lambda>(offer, r', phase). r' = r \<and> phase \<noteq> Refused)"

definition was_accepted :: "task_offer \<times> nat \<times> phase \<Rightarrow> bool" where
  "was_accepted = (\<lambda>(offer, r, phase). phase = Awaits_requester \<or> phase = Ended)"

fun matching_ok :: "task_offer multiset \<Rightarrow> (string \<times> string) multiset \<Rightarrow> match \<Rightarrow> bool" where
  "matching_ok made asked (es, requests, pending, offers, ready, accepted) \<longleftrightarrow>
     (\<forall>r \<in> set pending. r < length requests) \<and> (\<forall>e \<in> set es. fst (snd e) < length requests)
   \<and> (\<forall>r < length requests. length (filter (live_for r) es) \<le> of_bool (tq_acceptInProgress (requests ! r)))
   \<and> mset ready \<subseteq># mset (map (\<lambda>e. request_id (requests ! fst (snd e))) (filter was_accepted es))
   \<and> mset accepted \<subseteq># mset (map (offer_id \<circ> fst) es)
   \<and> mset (map fst es) + mset offers \<subseteq># made
   \<and> mset (map request_id requests) \<subseteq># asked"

lemma take_first_Some:
  "take_first P xs = Some (x, ys) \<Longrightarrow> P x \<and> mset xs = add_mset x (mset ys)"
  by (induction xs arbitrary: ys) (auto split: if_splits)

lemma take_first_set: "take_first P xs = Some (x, ys) \<Longrightarrow> set xs = insert x (set ys)"
  using take_first_Some by (metis set_mset_add_mset_insert set_mset_mset)

lemma matching_fewer:
  assumes "matching_ok made asked (es, requests, pending, offers, ready, accepted)"
    and "set pending' \<subseteq> set pending" and "mset offers' \<subseteq># mset offers"
  shows "matching_ok made asked (es, requests, pending', offers', ready, accepted)"
  using assms subset_mset.order_trans [OF subset_mset.add_left_mono [OF assms(3)]] by auto

lemma matching_request:
  assumes ok: "matching_ok made asked (es, requests, pending, offers, ready, accepted)"
  shows "matching_ok made (asked + {#request_id request#})
    (es, requests @ [request], pending @ [length requests], offers, ready, accepted)"
proof -
  have "filter (live_for (length requests)) es = []"
    using ok by (auto simp: filter_empty_conv live_for_def)
  then have live: "length (filter (live_for r) es) \<le> of_bool (tq_acceptInProgress ((requests @ [request]) ! r))"
    if "r < Suc (length requests)" for r
    using ok that by (cases "r = length requests") (auto simp: nth_append less_Suc_eq)
  have "map (\<lambda>e. request_id ((requests @ [request]) ! fst (snd e))) (filter was_accepted es)
      = map (\<lambda>e. request_id (requests ! fst (snd e))) (filter was_accepted es)"
    using ok by (auto simp: nth_append)
  then have "mset ready \<subseteq># mset (map (\<lambda>e. request_id ((requests @ [request]) ! fst (snd e))) (filter was_accepted es))"
    using ok by (simp only:) simp
  with ok live show ?thesis by (simp del: mset_map mset_filter) auto
qed

lemma matching_offer:
  assumes "matching_ok made asked (es, requests, pending, offers, ready, accepted)"
  shows "matching_ok (made + {#offer#}) asked (es, requests, pending, offers @ [offer], ready, accepted)"
  using assms by (auto simp: add_mset_commute)

lemma matching_more:
  assumes "matching_ok made asked v" and "made \<subseteq># made'" and "asked \<subseteq># asked'"
  shows "matching_ok made' asked' v"
proof -
  obtain es requests pending offers ready accepted where v: "v = (es, requests, pending, offers, ready, accepted)"
    by (cases v)
  show ?thesis
    using assms subset_mset.order_trans [OF _ assms(2)] subset_mset.order_trans [OF _ assms(3)] unfolding v by simp
qed

text \<open>Changing an acceptance in place, and a request without its ids.\<close>

lemma request_ids_update:
  assumes "request_id request = request_id (requests ! r)"
  shows "request_id (requests[r := request] ! i) = request_id (requests ! i)"
    and "map request_id (requests[r := request]) = map request_id requests"
proof -
  show "request_id (requests[r := request] ! i) = request_id (requests ! i)" for i
    using assms by (cases "i = r"; cases "r < length requests") (auto simp: list_update_beyond)
  then show "map request_id (requests[r := request]) = map request_id requests"
    by (intro nth_equalityI) auto
qed

lemma matching_accept:
  assumes ok: "matching_ok made asked (es, requests, pending, offers, ready, accepted)"
    and r: "r \<in> set pending" "\<not> tq_acceptInProgress (requests ! r)"
    and request: "tq_acceptInProgress request" "request_id request = request_id (requests ! r)"
    and offer: "mset offers = add_mset offer (mset offers')"
    and accepted: "accepted' = accepted \<or> accepted' = accepted @ [offer_id offer]"
  shows "matching_ok made asked (es @ [(offer, r, Awaits_runner)], requests[r := request],
    pending, offers', ready, accepted')"
proof -
  have len: "r < length requests" using ok r by auto
  have "length (filter (live_for r) es) \<le> of_bool (tq_acceptInProgress (requests ! r))" using ok len by simp
  with r have none: "filter (live_for r) es = []" by simp
  have live: "length (filter (live_for i) (es @ [(offer, r, Awaits_runner)])) \<le> of_bool (tq_acceptInProgress (requests[r := request] ! i))"
    if "i < length requests" for i
    using ok none that len request by (auto simp: live_for_def nth_list_update)
  have ac: "mset accepted' \<subseteq># mset (map (offer_id \<circ> fst) (es @ [(offer, r, Awaits_runner)]))"
    using ok accepted by (auto intro: subset_mset.order_trans)
  have "filter was_accepted (es @ [(offer, r, Awaits_runner)]) = filter was_accepted es" by (simp add: was_accepted_def)
  with ok len live ac offer request_ids_update [OF request(2)] show ?thesis
    by (simp del: mset_map mset_filter list_update_append)
qed

lemma matching_phase:
  assumes ok: "matching_ok made asked (es, requests, pending, offers, ready, accepted)"
    and n: "n < length es" "es ! n = (offer, r, phase)" "phase \<noteq> Refused"
    and request: "request_id request = request_id (requests ! r)"
      "phase' = Refused \<or> tq_acceptInProgress request = tq_acceptInProgress (requests ! r)"
    and ready: "ready' = ready \<and> (phase = Awaits_runner \<or> phase' = Ended)
        \<or> phase = Awaits_runner \<and> phase' = Awaits_requester \<and> ready' = ready @ [request_id request]"
    and pending: "set pending' \<subseteq> set pending"
  shows "matching_ok made asked (es[n := (offer, r, phase')], requests[r := request], pending', offers, ready', accepted)"
proof -
  let ?e = "(offer, r, phase')"
  have "es ! n \<in> set es" using n(1) by (rule nth_mem)
  with ok n have len: "r < length requests" by auto
  have "live_for r (es ! n)" using n by (simp add: live_for_def)
  then have "length (filter (live_for r) es) > 0" using \<open>es ! n \<in> set es\<close> by (auto simp: filter_empty_conv)
  moreover have "length (filter (live_for r) es) \<le> of_bool (tq_acceptInProgress (requests ! r))" using ok len by simp
  moreover have "0 < k \<Longrightarrow> k \<le> of_bool b \<Longrightarrow> b \<and> k = 1" for k :: nat and b by (cases b) simp_all
  ultimately have flag: "tq_acceptInProgress (requests ! r)" "length (filter (live_for r) es) = 1" by blast+
  have live: "length (filter (live_for i) (es[n := ?e])) \<le> of_bool (tq_acceptInProgress (requests[r := request] ! i))"
    if "i < length requests" for i
  proof (cases "i = r")
    case True
    then show ?thesis
      using count_update [OF n(1), of "live_for r" ?e] flag n request(2) len by (auto simp: live_for_def)
  next
    case False
    have "length (filter (live_for i) es) \<le> of_bool (tq_acceptInProgress (requests ! i))" using ok that by simp
    with False show ?thesis
      using count_update [OF n(1), of "live_for i" ?e] n by (simp add: live_for_def)
  qed
  define M where "M = mset es - {#es ! n#}"
  have M: "mset es = add_mset (es ! n) M" "mset (es[n := ?e]) = add_mset ?e M"
    using n(1) by (simp_all add: M_def mset_update)
  have range: "\<forall>e \<in> set (es[n := ?e]). fst (snd e) < length requests"
    using ok len set_update_subset_insert [of es n ?e] by auto
  let ?ids = "\<lambda>es. mset (map (\<lambda>e. request_id (requests ! fst (snd e))) (filter was_accepted es))"
  have "mset ready \<subseteq># ?ids es" using ok by simp
  then have "mset ready' \<subseteq># ?ids (es[n := ?e])"
    using ready n(2,3) request(1) M by (cases phase) (auto simp: was_accepted_def intro: subset_mset.order_trans)
  moreover have "mset (map (offer_id \<circ> fst) (es[n := ?e])) = mset (map (offer_id \<circ> fst) es)"
    "mset (map fst (es[n := ?e])) = mset (map fst es)" using n(2) by (simp_all add: M)
  ultimately show ?thesis
    using ok live range pending by (simp add: request_ids_update [OF request(1)] del: mset_map mset_filter) blast
qed

declare matching_ok.simps [simp del]

text \<open>The handlers.\<close>

definition broker_ok :: "task_offer multiset \<Rightarrow> (string \<times> string) multiset \<Rightarrow> broker \<Rightarrow> bool" where
  "broker_ok made asked s \<longleftrightarrow> matching_ok made asked (match_view s) \<and> waiting_ok s"

lemma broker_ok_view:
  "match_view s' = match_view s \<Longrightarrow> waiting_ok s' = waiting_ok s \<Longrightarrow> broker_ok made asked s' = broker_ok made asked s"
  by (simp add: broker_ok_def)

lemma expire_ok: "broker_ok made asked s \<Longrightarrow> broker_ok made asked (expireTasks now s)"
  using matching_fewer [of made asked _ _ "br_pendingTaskRequests s" "br_pendingTaskOffers s"]
  by (simp add: broker_ok_def match_view_def expireTasks_def waiting_ok_def readies_def accepts_def multiset_filter_subset)

lemma acceptOffer_view:
  "match_view (acceptOffer cfg offer r s) = (map essence (br_acceptances s) @ [(offer, r, Awaits_runner)], br_requests s,
     br_pendingTaskRequests s, br_pendingTaskOffers s, readies s,
     if has_key (br_knownRunners s) (to_runnerId offer) then accepts s @ [offer_id offer] else accepts s)"
  "waiting_ok (acceptOffer cfg offer r s) = waiting_ok s"
  by (simp_all add: acceptOffer_def Let_def setTimeout_def messageRunner_def match_view_def essence_def readies_def
      accepts_def offer_id_def waiting_ok_def)

lemma settle_request_ok:
  assumes ok: "broker_ok made asked s" and r: "r \<in> set (br_pendingTaskRequests s)"
  shows "broker_ok made asked (settle_request cfg r s)"
    and "br_pendingTaskRequests (settle_request cfg r s) = br_pendingTaskRequests s"
proof -
  let ?request = "request_at s r"
  let ?split = "take_first (\<lambda>offer. to_taskType offer = tq_taskType ?request) (br_pendingTaskOffers s)"
  have "broker_ok made asked (settle_request cfg r s)
      \<and> br_pendingTaskRequests (settle_request cfg r s) = br_pendingTaskRequests s"
  proof (cases "tq_acceptInProgress ?request \<or> ?split = None")
    case True
    have "waiting_ok (warnOnTaskTypeMismatch ?request s) = waiting_ok s"
      "match_view (warnOnTaskTypeMismatch ?request s) = match_view s"
      "br_pendingTaskRequests (warnOnTaskTypeMismatch ?request s) = br_pendingTaskRequests s"
      by (simp_all add: warnOnTaskTypeMismatch_def waiting_ok_def)
    with True ok show ?thesis by (auto simp: settle_request_def Let_def broker_ok_def)
  next
    case False
    then obtain offer offers where split: "?split = Some (offer, offers)" and idle: "\<not> tq_acceptInProgress ?request" by auto
    define s1 where "s1 = (put_request r (?request\<lparr>tq_acceptInProgress := True\<rparr>) s)
      \<lparr>br_pendingTaskOffers := offers, br_mismatchWarned := sdel (tq_requestId ?request) (br_mismatchWarned s)\<rparr>"
    have settled: "settle_request cfg r s = acceptOffer cfg offer r s1"
      using idle split by (simp add: settle_request_def Let_def s1_def)
    have "mset (br_pendingTaskOffers s) = add_mset offer (mset offers)" using take_first_Some [OF split] by simp
    from matching_accept [OF _ r _ _ _ this, of made asked "map essence (br_acceptances s)" "br_requests s"
        "readies s" "accepts s" "?request\<lparr>tq_acceptInProgress := True\<rparr>"] ok idle
    have "matching_ok made asked (match_view (acceptOffer cfg offer r s1))"
      unfolding acceptOffer_view
      by (simp add: broker_ok_def match_view_def s1_def put_request_def request_at_def request_id_def readies_def accepts_def)
    moreover have "br_pendingTaskRequests (acceptOffer cfg offer r s1) = br_pendingTaskRequests s"
      using acceptOffer_view [of cfg offer r s1] by (simp add: match_view_def s1_def put_request_def)
    moreover have "waiting_ok s1" using ok by (simp add: broker_ok_def s1_def put_request_def waiting_ok_def)
    ultimately show ?thesis
      unfolding settled by (simp add: broker_ok_def acceptOffer_view(2))
  qed
  then show "broker_ok made asked (settle_request cfg r s)"
    and "br_pendingTaskRequests (settle_request cfg r s) = br_pendingTaskRequests s" by blast+
qed

lemma settleTasks_ok:
  assumes "broker_ok made asked s" shows "broker_ok made asked (settleTasks cfg now s)"
proof -
  let ?s = "expireTasks now s"
  have "broker_ok made asked (fold (settle_request cfg) (br_pendingTaskRequests ?s) ?s)
      \<and> br_pendingTaskRequests (fold (settle_request cfg) (br_pendingTaskRequests ?s) ?s) = br_pendingTaskRequests ?s"
    using expire_ok [OF assms] settle_request_ok
    by (intro fold_invariant_set [where P = "\<lambda>t. broker_ok made asked t \<and> br_pendingTaskRequests t = br_pendingTaskRequests ?s"]) auto
  then show ?thesis by (simp add: settleTasks_def Let_def)
qed

lemma taskOffered_ok:
  assumes "broker_ok made asked s" shows "broker_ok (made + {#offer#}) asked (taskOffered cfg now offer s)"
  using assms matching_offer [of made asked "map essence (br_acceptances s)" "br_requests s" "br_pendingTaskRequests s"]
  unfolding taskOffered_def
  by (intro settleTasks_ok) (simp add: broker_ok_def match_view_def waiting_ok_def readies_def accepts_def)

lemma taskRequested_ok:
  assumes "broker_ok made asked s"
  shows "broker_ok made (asked + {#request_id request#}) (taskRequested cfg now request s)"
proof (cases "br_isDraining s")
  case True
  have "broker_ok made (asked + {#request_id request#}) s"
    using assms matching_more [of made asked "match_view s" made "asked + {#request_id request#}"]
    by (simp add: broker_ok_def)
  with True show ?thesis by (simp add: taskRequested_def broker_ok_def messageRequester_view)
next
  case False
  let ?s = "s\<lparr>br_pendingTaskRequests := br_pendingTaskRequests s @ [length (br_requests s)],
      br_requests := br_requests s @ [request]\<rparr>"
  have "broker_ok made (asked + {#request_id request#}) ?s"
    using assms matching_request [of made asked "map essence (br_acceptances s)" "br_requests s" "br_pendingTaskRequests s"]
    by (simp add: broker_ok_def match_view_def waiting_ok_def readies_def accepts_def)
  with False show ?thesis by (simp add: taskRequested_def settleTasks_ok)
qed

text \<open>A phase of an acceptance ends.\<close>

lemma phase_ok:
  assumes ok: "broker_ok made asked s" and a: "array_get (br_acceptances s) n = Some a" "ap_phase a \<noteq> Refused"
    and request: "request_id request = request_id (request_at s (ap_request a))"
      "phase = Refused \<or> tq_acceptInProgress request = tq_acceptInProgress (request_at s (ap_request a))"
    and pending: "set pending \<subseteq> set (br_pendingTaskRequests s)"
    and ready: "ready = readies s \<and> (ap_phase a = Awaits_runner \<or> phase = Ended)
        \<or> ap_phase a = Awaits_runner \<and> phase = Awaits_requester \<and> ready = readies s @ [request_id request]"
    and view: "match_view s' = (map essence ((br_acceptances s)[n := a\<lparr>ap_phase := phase\<rparr>]),
      (br_requests s)[ap_request a := request], pending, br_pendingTaskOffers s, ready, accepts s)"
    and waiting: "waiting_ok s'"
  shows "broker_ok made asked s'"
proof -
  have n: "n < length (map essence (br_acceptances s))" and e: "map essence (br_acceptances s) ! n = (ap_offer a, ap_request a, ap_phase a)"
    using a by (auto simp: array_get_Some essence_def)
  have "map essence ((br_acceptances s)[n := a\<lparr>ap_phase := phase\<rparr>]) = (map essence (br_acceptances s))[n := (ap_offer a, ap_request a, phase)]"
    by (simp add: map_update essence_def)
  moreover have "matching_ok made asked (map essence (br_acceptances s), br_requests s, br_pendingTaskRequests s,
      br_pendingTaskOffers s, readies s, accepts s)" using ok by (simp add: broker_ok_def match_view_def)
  ultimately show ?thesis
    using matching_phase [OF _ n e a(2) _ _ ready pending] request waiting by (simp add: broker_ok_def view request_at_def)
qed

lemma refuse_ok:
  assumes "broker_ok made asked s" and a: "array_get (br_acceptances s) n = Some a" "ap_phase a = Awaits_runner"
  shows "broker_ok made asked (refuse n a answer s)"
proof -
  have ap: "ap_phase a \<noteq> Refused" using a(2) by simp
  let ?r = "(request_at s (ap_request a))\<lparr>tq_acceptInProgress := False\<rparr>"
  let ?request = "if answer = Runner_deferred then ?r\<lparr>tq_timeout := Some (br_nextTimer s)\<rparr> else ?r"
  have wok: "waiting_ok s" using assms(1) by (simp add: broker_ok_def)
  show ?thesis
  proof (rule phase_ok [OF assms(1) a(1) ap, of ?request Refused "br_pendingTaskRequests s" "readies s"])
    show "match_view (refuse n a answer s) = (map essence ((br_acceptances s)[n := a\<lparr>ap_phase := Refused\<rparr>]),
        (br_requests s)[ap_request a := ?request], br_pendingTaskRequests s, br_pendingTaskOffers s, readies s, accepts s)"
      by (cases "ap_request a < length (br_requests s)")
         (auto simp: refuse_def Let_def createRequestTimeout_def setTimeout_def clearTimeout_def put_request_def request_at_def
           match_view_def readies_def accepts_def list_update_beyond split: option.splits)
    show "waiting_ok (refuse n a answer s)"
      using wok by (auto simp: refuse_def Let_def createRequestTimeout_def setTimeout_def clearTimeout_def put_request_def
        waiting_ok_def split: option.splits)
  qed (use a in \<open>simp_all add: request_id_def\<close>)
qed

lemma start_task_ok:
  assumes "broker_ok made asked s" and a: "array_get (br_acceptances s) n = Some a" "ap_phase a = Awaits_runner"
  shows "broker_ok made asked (start_task n a s)"
proof -
  have ap: "ap_phase a \<noteq> Refused" using a(2) by simp
  let ?r = "request_at s (ap_request a)"
  let ?split = "take_first (has_requestId s (tq_requestId ?r)) (br_pendingTaskRequests s)"
  have same: "(br_requests s)[ap_request a := ?r] = br_requests s" by (simp add: request_at_def)
  have find: "take_first (has_requestId (t\<lparr>br_tasks := tasks\<rparr>) i) xs = take_first (has_requestId t i) xs"
    "has_requestId (clearTimeout timer s) = has_requestId s" for t tasks i xs timer
    by (simp_all add: has_requestId_def [abs_def] request_at_def clearTimeout_def split: option.split)
  have wok: "waiting_ok s" using assms(1) by (simp add: broker_ok_def)
  have "broker_ok made asked (start_task n a s)" if "?split = None"
  proof (rule phase_ok [OF assms(1) a(1) ap, of ?r Ended "br_pendingTaskRequests s" "readies s"])
    show "match_view (start_task n a s) = (map essence ((br_acceptances s)[n := a\<lparr>ap_phase := Ended\<rparr>]),
        (br_requests s)[ap_request a := ?r], br_pendingTaskRequests s, br_pendingTaskOffers s, readies s, accepts s)"
      using that by (auto simp: same start_task_def Let_def clearTimeout_def has_requestId_def [abs_def] request_at_def
        match_view_def readies_def accepts_def split: option.splits)
    show "waiting_ok (start_task n a s)"
      using that wok by (auto simp: start_task_def Let_def clearTimeout_def has_requestId_def [abs_def] request_at_def
        waiting_ok_def split: option.splits)
  qed (use a in simp_all)
  moreover have "broker_ok made asked (start_task n a s)" if split: "?split = Some (r, pending)" for r pending
  proof (rule phase_ok [OF assms(1) a(1) ap, of ?r Awaits_requester pending
        "if tq_requesterId ?r \<in> set (br_requesters s) then readies s @ [request_id ?r] else readies s"])
    show "match_view (start_task n a s) = (map essence ((br_acceptances s)[n := a\<lparr>ap_phase := Awaits_requester\<rparr>]),
        (br_requests s)[ap_request a := ?r], pending, br_pendingTaskOffers s,
        if tq_requesterId ?r \<in> set (br_requesters s) then readies s @ [request_id ?r] else readies s, accepts s)"
      using split by (auto simp: same start_task_def Let_def clearTimeout_def has_requestId_def [abs_def] request_at_def
        setTimeout_def messageRequester_def request_id_def match_view_def readies_def accepts_def split: option.splits)
    show "waiting_ok (start_task n a s)"
      using split wok by (auto simp: start_task_def Let_def clearTimeout_def has_requestId_def [abs_def] request_at_def
        setTimeout_def messageRequester_def waiting_ok_def split: option.splits)
    show "set pending \<subseteq> set (br_pendingTaskRequests s)" using take_first_set [OF split] by auto
  qed (use a in simp_all)
  ultimately show ?thesis by (cases ?split) auto
qed

lemma end_acceptance_ok:
  assumes "broker_ok made asked s" and a: "array_get (br_acceptances s) n = Some a" "ap_phase a = Awaits_requester"
  shows "broker_ok made asked (end_acceptance n a answer s)"
proof -
  have ap: "ap_phase a \<noteq> Refused" using a(2) by simp
  let ?s = "s\<lparr>br_acceptances := (br_acceptances s)[n := a\<lparr>ap_phase := Ended\<rparr>]\<rparr>"
  have "broker_ok made asked ?s"
    by (rule phase_ok [OF assms(1) a(1) ap, of "request_at s (ap_request a)" Ended "br_pendingTaskRequests s" "readies s"])
       (use assms(1) in \<open>simp_all add: match_view_def readies_def accepts_def request_at_def broker_ok_def waiting_ok_def\<close>)
  then show ?thesis
    by (cases answer) (simp_all add: end_acceptance_def Let_def broker_ok_def)
qed

lemma handleRequestTimeout_ok:
  assumes "broker_ok made asked s" shows "broker_ok made asked (handleRequestTimeout requestId s)"
proof (cases "take_first (has_requestId s requestId) (br_pendingTaskRequests s)")
  case (Some split)
  obtain r pending where split: "split = (r, pending)" by (cases split)
  have "set pending \<subseteq> set (br_pendingTaskRequests s)" using take_first_set [OF Some [unfolded split]] by auto
  then have "broker_ok made asked (s\<lparr>br_pendingTaskRequests := pending, br_mismatchWarned := ids\<rparr>)" for ids
    using assms matching_fewer [of made asked _ _ "br_pendingTaskRequests s" "br_pendingTaskOffers s"]
    by (simp add: broker_ok_def match_view_def waiting_ok_def readies_def accepts_def)
  with Some split show ?thesis
    by (simp add: handleRequestTimeout_def Let_def broker_ok_def messageRequester_view)
qed (use assms in \<open>simp add: handleRequestTimeout_def\<close>)

text \<open>What an event adds to the offers and requests.\<close>

fun offer_made :: "broker_event \<Rightarrow> task_offer list" where
  "offer_made (From_runner now settleNow runnerId (R_taskoffer offerId taskType validFor)) =
     [offer_of runnerId offerId taskType validFor now]"
| "offer_made _ = []"

fun request_asked :: "broker_event \<Rightarrow> (string \<times> string) list" where
  "request_asked (From_requester now requesterId (Q_taskrequest requestId taskType)) = [(requesterId, requestId)]"
| "request_asked _ = []"

lemma broker_ok_more:
  "broker_ok made asked s \<Longrightarrow> made \<subseteq># made' \<Longrightarrow> asked \<subseteq># asked' \<Longrightarrow> broker_ok made' asked' s"
  by (auto simp: broker_ok_def intro: matching_more)

lemma onRunnerMessage_ok:
  assumes "broker_ok made asked s"
  shows "broker_ok (made + mset (offer_made (From_runner now settleNow runnerId message))) asked
    (onRunnerMessage cfg now settleNow runnerId message s)"
proof (cases "has_key (br_knownRunners s) runnerId")
  case False
  then show ?thesis using broker_ok_more [OF assms] by (simp add: onRunnerMessage_def)
next
  case True
  show ?thesis
  proof (cases message)
    case (R_taskoffer offerId taskType validFor)
    with True show ?thesis using taskOffered_ok [OF assms] by (simp add: onRunnerMessage_def)
  qed (use True assms in \<open>simp_all add: onRunnerMessage_def broker_ok_def\<close>)
qed

lemma onRequesterMessage_ok:
  assumes "broker_ok made asked s"
  shows "broker_ok made (asked + mset (request_asked (From_requester now requesterId message)))
    (onRequesterMessage cfg now requesterId message s)"
proof (cases message)
  case (Q_taskrequest requestId taskType)
  obtain s1 timer where s1: "createRequestTimeout requestId s = (s1, timer)"
    by (cases "createRequestTimeout requestId s")
  have "broker_ok made asked (fst (createRequestTimeout requestId s))" using assms by (simp add: broker_ok_def)
  then have "broker_ok made asked s1" by (simp add: s1)
  from taskRequested_ok [OF this, of "\<lparr>tq_requestId = requestId, tq_requesterId = requesterId,
      tq_taskType = taskType, tq_timeout = Some timer, tq_acceptInProgress = False\<rparr>"] Q_taskrequest s1
  show ?thesis by (simp add: onRequesterMessage_def request_id_def)
qed (use assms in \<open>simp_all add: onRequesterMessage_def broker_ok_def handleRequesterDataResponse_def
      handleRequesterNodeTypesResponse_def handleRequesterRpcResponse_def\<close>)

lemma deregisterRunner_ok:
  assumes "broker_ok made asked s" shows "broker_ok made asked (deregisterRunner runnerId e s)"
proof -
  let ?s = "s\<lparr>br_knownRunners := AList.delete runnerId (br_knownRunners s),
      br_pendingTaskOffers := filter (\<lambda>offer. to_runnerId offer \<noteq> runnerId) (br_pendingTaskOffers s)\<rparr>"
  have "broker_ok made asked ?s"
    using assms matching_fewer [of made asked _ _ "br_pendingTaskRequests s" "br_pendingTaskOffers s"]
    by (simp add: broker_ok_def match_view_def waiting_ok_def readies_def accepts_def multiset_filter_subset)
  moreover have "waiting_ok (fold (fail_task_of runnerId e) tasks t) = waiting_ok t" for tasks t
    by (induction tasks arbitrary: t) (simp_all add: fail_task_of_def)
  ultimately show ?thesis by (simp add: deregisterRunner_def Let_def broker_ok_def)
qed

lemma fire_ok:
  assumes "broker_ok made asked s" shows "broker_ok made asked (fire cfg timer s)"
  using assms handleRequestTimeout_ok by (cases timer) (simp_all add: fire_def, simp_all add: broker_ok_def)

lemma resume_ok:
  assumes "broker_ok made asked s" and "resume n s = Some s'" shows "broker_ok made asked s'"
  using assms refuse_ok start_task_ok end_acceptance_ok
  by (auto simp: resume_def split: option.splits phase.splits runner_answer.splits)

lemma continue_ok:
  assumes "broker_ok made asked s" and "harmless k" shows "broker_ok made asked (continue cfg k s)"
  using assms by (cases k) (simp_all add: broker_ok_def harmless_def messageRunner_view)

lemma broker_step_ok:
  assumes ok: "broker_ok made asked s" and step: "broker_step cfg e s = Some s'"
  shows "broker_ok (made + mset (offer_made e)) (asked + mset (request_asked e)) s'"
proof (cases e)
  case (Continue i)
  with step obtain k where k: "i < length (br_waiting s)" "k = br_waiting s ! i"
    and s': "s' = continue cfg k (s\<lparr>br_waiting := take i (br_waiting s) @ drop (Suc i) (br_waiting s)\<rparr>)"
    by (auto simp: array_get_Some split: option.splits)
  then have "k \<in> set (br_waiting s)" by simp
  then have "harmless k" using ok by (simp add: broker_ok_def waiting_ok_def)
  moreover have "broker_ok made asked (s\<lparr>br_waiting := take i (br_waiting s) @ drop (Suc i) (br_waiting s)\<rparr>)"
    using ok by (auto simp: broker_ok_def waiting_ok_def dest: in_set_takeD in_set_dropD)
  ultimately show ?thesis using Continue s' continue_ok by simp
next
  case (Fire i)
  have "broker_ok made asked (s\<lparr>br_timers := ts\<rparr>)" for ts using ok by (simp add: broker_ok_def waiting_ok_def)
  with Fire step fire_ok show ?thesis by (auto split: option.splits)
next
  case (From_runner now settleNow runnerId message)
  with step onRunnerMessage_ok [OF ok, of now settleNow runnerId message cfg] show ?thesis by auto
next
  case (From_requester now requesterId message)
  with step onRequesterMessage_ok [OF ok, of now requesterId message cfg] show ?thesis by auto
next
  case (Register_runner runner)
  with step ok show ?thesis
    by (auto simp: registerRunner_def broker_ok_def messageRunner_view) (simp add: waiting_ok_def)
next
  case (Register_requester requesterId)
  with step ok show ?thesis by (auto simp: registerRequester_def broker_ok_def) (simp add: waiting_ok_def)
next
  case (Deregister_requester requesterId)
  with step ok show ?thesis by (auto simp: deregisterRequester_def broker_ok_def) (simp add: waiting_ok_def)
next
  case Start_draining
  with step ok show ?thesis by (auto simp: startDraining_def broker_ok_def match_view_def readies_def accepts_def waiting_ok_def)
next
  case (Reject_as_requester taskId reason)
  with step ok show ?thesis by (auto simp: broker_ok_def)
next
  case (Deregister_runner runnerId e)
  with step deregisterRunner_ok [OF ok] show ?thesis by auto
next
  case (Resume n)
  with step resume_ok [OF ok] show ?thesis by simp
qed

lemma run_broker_ok:
  assumes "broker_ok made asked s" and "run_steps (broker_step cfg) es s = Some s'"
  shows "broker_ok (made + mset (concat (map offer_made es))) (asked + mset (concat (map request_asked es))) s'"
  using assms
proof (induction es arbitrary: made asked s)
  case (Cons e es)
  from Cons.prems(2) obtain s1 where s1: "broker_step cfg e s = Some s1" "run_steps (broker_step cfg) es s1 = Some s'"
    by (auto split: option.splits)
  from Cons.IH [OF broker_step_ok [OF Cons.prems(1) s1(1)] s1(2)] show ?case by (simp add: add.assoc)
qed simp

lemma new_broker_ok: "new_broker cfg = Inr s \<Longrightarrow> broker_ok {#} {#} s"
  by (auto simp: new_broker_def broker_ok_def match_view_def matching_ok.simps readies_def accepts_def waiting_ok_def
      split: if_splits)

text \<open>
  C20. No offer is accepted more often than it was made: the messages that accept an offer of a
  runner, with the runner and the id of the offer, are among the offers that runners sent, each
  counted as often as it was sent.
\<close>

theorem offers_accepted_once:
  assumes "new_broker cfg = Inr s" and "run_steps (broker_step cfg) es s = Some s'"
  shows "mset (accepts s') \<subseteq># mset (map offer_id (concat (map offer_made es)))"
proof -
  from run_broker_ok [OF new_broker_ok [OF assms(1)] assms(2)]
  have "mset (accepts s') \<subseteq># mset (map (offer_id \<circ> fst) (map essence (br_acceptances s')))"
    and made: "mset (map fst (map essence (br_acceptances s'))) + mset (br_pendingTaskOffers s')
      \<subseteq># mset (concat (map offer_made es))"
    by (simp_all add: broker_ok_def match_view_def matching_ok.simps)
  from this(1) have "mset (accepts s') \<subseteq># image_mset offer_id (mset (map fst (map essence (br_acceptances s'))))"
    by (simp only: mset_map image_mset.compositionality o_assoc)
  also have "\<dots> \<subseteq># image_mset offer_id (mset (concat (map offer_made es)))"
    by (rule image_mset_subseteq_mono [OF subset_mset.order_trans [OF mset_subset_eq_add_left made]])
  finally show ?thesis by (simp only: mset_map)
qed

lemma filter_length_mono:
  "(\<And>x. P x \<Longrightarrow> Q x) \<Longrightarrow> length (filter P xs) \<le> length (filter Q xs)"
  by (induction xs) (auto simp: le_SucI)

lemma distinct_map_filter:
  "(\<And>y. length (filter (\<lambda>x. P x \<and> f x = y) xs) \<le> 1) \<Longrightarrow> distinct (map f (filter P xs))"
proof (induction xs)
  case (Cons x xs)
  have "length (filter (\<lambda>x. P x \<and> f x = y) xs) \<le> 1" for y
    using Cons.prems [of y] by (auto split: if_splits)
  from Cons.IH [OF this] have "distinct (map f (filter P xs))" .
  moreover have "f x \<notin> f ` set (filter P xs)" if "P x"
    using Cons.prems [of "f x"] that by (auto simp: filter_empty_conv)
  ultimately show ?case by simp
qed simp

lemma distinct_refs:
  assumes "distinct refs" and "\<And>r. r \<in> set refs \<Longrightarrow> r < length xs"
  shows "mset (map (\<lambda>r. f (xs ! r)) refs) \<subseteq># mset (map f xs)"
proof -
  have "set refs \<subseteq> set [0..<length xs]" using assms(2) by auto
  with assms(1) have "mset refs \<subseteq># mset [0..<length xs]"
    by (metis distinct_upt finite_set mset_set_set subset_imp_msubset_mset_set)
  from image_mset_subseteq_mono [OF this, of "\<lambda>r. f (xs ! r)"]
  have "mset (map (\<lambda>r. f (xs ! r)) refs) \<subseteq># mset (map (\<lambda>r. f (xs ! r)) [0..<length xs])" by simp
  moreover have "map (\<lambda>r. f (xs ! r)) [0..<length xs] = map f xs" by (rule nth_equalityI) auto
  ultimately show ?thesis by simp
qed

text \<open>
  C19. No request is given two tasks: the messages that a task is ready, with the requester and
  the id of the request, are among the requests that requesters sent, each counted as often as
  it was sent.
\<close>

theorem requests_served_once:
  assumes "new_broker cfg = Inr s" and "run_steps (broker_step cfg) es s = Some s'"
  shows "mset (readies s') \<subseteq># mset (concat (map request_asked es))"
proof -
  let ?es = "map essence (br_acceptances s')" and ?requests = "br_requests s'"
  from run_broker_ok [OF new_broker_ok [OF assms(1)] assms(2)]
  have ok: "\<forall>e \<in> set ?es. fst (snd e) < length ?requests"
    "\<forall>r < length ?requests. length (filter (live_for r) ?es) \<le> of_bool (tq_acceptInProgress (?requests ! r))"
    "mset (readies s') \<subseteq># mset (map (\<lambda>e. request_id (?requests ! fst (snd e))) (filter was_accepted ?es))"
    "mset (map request_id ?requests) \<subseteq># mset (concat (map request_asked es))"
    by (simp_all add: broker_ok_def match_view_def matching_ok.simps del: mset_map)
  let ?refs = "map (\<lambda>e. fst (snd e)) (filter was_accepted ?es)"
  have "length (filter (\<lambda>e. was_accepted e \<and> fst (snd e) = r) ?es) \<le> 1" for r
  proof (cases "r < length ?requests")
    case True
    have "length (filter (\<lambda>e. was_accepted e \<and> fst (snd e) = r) ?es) \<le> length (filter (live_for r) ?es)"
      by (rule filter_length_mono) (auto simp: was_accepted_def live_for_def)
    also have "\<dots> \<le> of_bool (tq_acceptInProgress (?requests ! r))" using ok(2) True by blast
    finally show ?thesis by (cases "tq_acceptInProgress (?requests ! r)") simp_all
  next
    case False
    then have "filter (\<lambda>e. was_accepted e \<and> fst (snd e) = r) ?es = []" using ok(1) by (auto simp: filter_empty_conv)
    then show ?thesis by (metis list.size(3) zero_le_one)
  qed
  then have "distinct ?refs" by (rule distinct_map_filter)
  from distinct_refs [OF this, of ?requests request_id] ok(1)
  have "mset (map (\<lambda>r. request_id (?requests ! r)) ?refs) \<subseteq># mset (map request_id ?requests)" by auto
  with ok(3,4) show ?thesis by (simp add: o_def)
qed

section \<open>First come, first served\<close>

definition idle_requests :: "string \<Rightarrow> broker \<Rightarrow> nat list \<Rightarrow> nat list" where
  "idle_requests ty s rs =
     filter (\<lambda>r. \<not> tq_acceptInProgress (request_at s r) \<and> tq_taskType (request_at s r) = ty) rs"

definition offers_for :: "string \<Rightarrow> task_offer list \<Rightarrow> task_offer list" where
  "offers_for ty offers = filter (\<lambda>offer. to_taskType offer = ty) offers"

definition pairs_for :: "string \<Rightarrow> acceptance list \<Rightarrow> (nat \<times> task_offer) list" where
  "pairs_for ty as = map (\<lambda>a. (ap_request a, ap_offer a)) (filter (\<lambda>a. to_taskType (ap_offer a) = ty) as)"

lemma take_first_type:
  "take_first (\<lambda>offer. to_taskType offer = ty) offers = Some (offer, rest) \<Longrightarrow>
     offers_for ty' offers = (if ty' = ty then [offer] else []) @ offers_for ty' rest"
  by (induction offers arbitrary: rest) (auto simp: offers_for_def split: if_splits)

lemma take_first_None: "take_first P xs = None \<longleftrightarrow> (\<forall>x \<in> set xs. \<not> P x)"
  by (induction xs) auto

lemma settle_fold:
  assumes "distinct rs" and "\<forall>r \<in> set rs. r < length (br_requests s)"
  shows "\<exists>new. br_acceptances (fold (settle_request cfg) rs s) = br_acceptances s @ new \<and>
    (\<forall>ty. pairs_for ty new = zip (idle_requests ty s rs) (offers_for ty (br_pendingTaskOffers s)) \<and>
       offers_for ty (br_pendingTaskOffers (fold (settle_request cfg) rs s))
         = drop (length (idle_requests ty s rs)) (offers_for ty (br_pendingTaskOffers s)))"
  using assms
proof (induction rs arbitrary: s)
  case Nil
  then show ?case by (simp add: idle_requests_def pairs_for_def)
next
  case (Cons r rs)
  let ?request = "request_at s r" and ?s1 = "settle_request cfg r s"
  let ?ty = "tq_taskType ?request"
  let ?split = "take_first (\<lambda>offer. to_taskType offer = ?ty) (br_pendingTaskOffers s)"
  have idle: "idle_requests ty s (r # rs)
      = (if \<not> tq_acceptInProgress ?request \<and> ?ty = ty then [r] else []) @ idle_requests ty s rs" for ty
    by (simp add: idle_requests_def)
  show ?case
  proof (cases "tq_acceptInProgress ?request \<or> ?split = None")
    case True
    have same: "br_acceptances ?s1 = br_acceptances s" "br_requests ?s1 = br_requests s"
      "br_pendingTaskOffers ?s1 = br_pendingTaskOffers s"
      using True by (auto simp: settle_request_def Let_def warnOnTaskTypeMismatch_def)
    have "offers_for ?ty (br_pendingTaskOffers s) = []" if "\<not> tq_acceptInProgress ?request"
      using True that by (auto simp: offers_for_def filter_empty_conv take_first_None)
    moreover have "idle_requests ty ?s1 rs = idle_requests ty s rs" for ty
      by (simp add: idle_requests_def request_at_def same)
    ultimately show ?thesis using Cons.IH [of ?s1] Cons.prems by (auto simp: same idle)
  next
    case False
    then obtain offer rest where split: "?split = Some (offer, rest)" by auto
    define a where "a = \<lparr>ap_taskId = bc_taskId cfg (length (br_acceptances s)), ap_offer = offer, ap_request = r,
      ap_runner = None, ap_requester = None, ap_phase = Awaits_runner\<rparr>"
    have s1: "br_acceptances ?s1 = br_acceptances s @ [a]" "br_pendingTaskOffers ?s1 = rest"
      "br_requests ?s1 = (br_requests s)[r := ?request\<lparr>tq_acceptInProgress := True\<rparr>]"
      using False split
      by (auto simp: settle_request_def Let_def acceptOffer_def setTimeout_def messageRunner_def put_request_def a_def)
    have "request_at ?s1 x = request_at s x" if "x \<in> set rs" for x
      using that Cons.prems(1) by (cases "x = r") (auto simp: request_at_def s1)
    then have same: "idle_requests ty ?s1 rs = idle_requests ty s rs" for ty
      by (simp add: idle_requests_def cong: filter_cong)
    obtain new where new: "br_acceptances (fold (settle_request cfg) rs ?s1) = br_acceptances ?s1 @ new"
      "\<And>ty. pairs_for ty new = zip (idle_requests ty ?s1 rs) (offers_for ty rest)"
      "\<And>ty. offers_for ty (br_pendingTaskOffers (fold (settle_request cfg) rs ?s1))
         = drop (length (idle_requests ty ?s1 rs)) (offers_for ty rest)"
      using Cons.IH [of ?s1] Cons.prems by (auto simp: s1)
    have "to_taskType offer = ?ty" using take_first_Some [OF split] by simp
    then have "pairs_for ty (a # new) = zip (idle_requests ty s (r # rs)) (offers_for ty (br_pendingTaskOffers s))" for ty
      using new(2) [of ty] False by (auto simp: pairs_for_def a_def idle same take_first_type [OF split])
    moreover have "offers_for ty (br_pendingTaskOffers (fold (settle_request cfg) rs ?s1))
        = drop (length (idle_requests ty s (r # rs))) (offers_for ty (br_pendingTaskOffers s))" for ty
      using new(3) [of ty] False by (simp add: idle same take_first_type [OF split])
    ultimately show ?thesis using new(1) s1(1) by auto
  qed
qed

text \<open>
  C21. \<^verbatim>\<open>settleTasks\<close> serves first come, first served: for each type of task it pairs the pending
  requests that are not being accepted with the offers that have not expired, both in order,
  until one of the two lists ends; the offers that are left stay.
\<close>

theorem settleTasks_in_order:
  assumes "distinct (br_pendingTaskRequests s)" and "\<forall>r \<in> set (br_pendingTaskRequests s). r < length (br_requests s)"
  shows "\<exists>new. br_acceptances (settleTasks cfg now s) = br_acceptances s @ new \<and>
    (\<forall>ty. pairs_for ty new = zip (idle_requests ty s (br_pendingTaskRequests s))
          (offers_for ty (filter (\<lambda>offer. to_validFor offer = - 1 \<or> now \<le> to_validUntil offer) (br_pendingTaskOffers s))) \<and>
       offers_for ty (br_pendingTaskOffers (settleTasks cfg now s))
         = drop (length (idle_requests ty s (br_pendingTaskRequests s)))
             (offers_for ty (filter (\<lambda>offer. to_validFor offer = - 1 \<or> now \<le> to_validUntil offer) (br_pendingTaskOffers s))))"
  using settle_fold [of "br_pendingTaskRequests s" "expireTasks now s" cfg] assms
  by (simp add: settleTasks_def Let_def expireTasks_def idle_requests_def request_at_def)

section \<open>Draining\<close>

definition drained :: "broker \<Rightarrow> bool" where
  "drained s \<longleftrightarrow> br_isDraining s \<and> br_tasks s = [] \<and> br_pendingTaskRequests s = []
     \<and> (\<forall>a \<in> set (br_acceptances s). ap_phase a \<noteq> Awaits_runner)"

lemma drained_phases: "drained s \<longleftrightarrow> br_isDraining s \<and> br_tasks s = [] \<and> br_pendingTaskRequests s = []
    \<and> Awaits_runner \<notin> ap_phase ` set (br_acceptances s)"
  by (force simp: drained_def)

lemma phases_answer:
  "map ap_phase (as[n := (as ! n)\<lparr>ap_runner := x\<rparr>]) = map ap_phase as"
  "map ap_phase (as[n := (as ! n)\<lparr>ap_requester := y\<rparr>]) = map ap_phase as"
  by (cases "n < length as", simp_all add: map_update list_update_same_conv list_update_beyond)+

lemma drained_settle [simp]:
  "drained (settle_runner n answer s) = drained s"
  "drained (settle_requester n answer' s) = drained s"
proof -
  have "map ap_phase (br_acceptances (settle_runner n answer s)) = map ap_phase (br_acceptances s)"
    "map ap_phase (br_acceptances (settle_requester n answer' s)) = map ap_phase (br_acceptances s)"
    by (simp_all add: settle_runner_def settle_requester_def Let_def phases_answer)
  then have "ap_phase ` set (br_acceptances (settle_runner n answer s)) = ap_phase ` set (br_acceptances s)"
    "ap_phase ` set (br_acceptances (settle_requester n answer' s)) = ap_phase ` set (br_acceptances s)"
    by (metis list.set_map)+
  then show "drained (settle_runner n answer s) = drained s" "drained (settle_requester n answer' s) = drained s"
    by (simp_all add: drained_phases) (simp_all add: settle_runner_def settle_requester_def Let_def)
qed

lemma drained_simps [simp]:
  "drained (clearTimeout timer s) = drained s"
  "drained (fst (setTimeout t s)) = drained s"
  "drained (later k s) = drained s"
  "drained (throw_error e s) = drained s"
  "drained (messageRunner runnerId message s) = drained s"
  "drained (messageRequester requesterId message' s) = drained s"
  "drained (answer_runner taskId answer s) = drained s"
  "drained (answer_requester taskId answer' s) = drained s"
  "drained (s\<lparr>br_timers := ts\<rparr>) = drained s"
  "drained (s\<lparr>br_waiting := ks\<rparr>) = drained s"
  "drained (s\<lparr>br_knownRunners := rs\<rparr>) = drained s"
  "drained (s\<lparr>br_requesters := qs\<rparr>) = drained s"
  "drained (s\<lparr>br_pendingTaskOffers := os\<rparr>) = drained s"
proof -
  have same: "drained (s\<lparr>br_runnerAcceptRejects := m\<rparr>) = drained s" "drained (s\<lparr>br_requesterAcceptRejects := m\<rparr>) = drained s"
    for s :: broker and m by (simp_all add: drained_def)
  show "drained (answer_runner taskId answer s) = drained s" "drained (answer_requester taskId answer' s) = drained s"
    by (simp_all add: answer_runner_def answer_requester_def same split: option.split)
qed (simp_all add: drained_def clearTimeout_def setTimeout_def later_def throw_error_def messageRunner_def
      messageRequester_def split: option.split)

lemma drained_no_task: "drained s \<Longrightarrow> map_of (br_tasks s) taskId = None" "drained s \<Longrightarrow> \<not> has_key (br_tasks s) taskId"
  by (simp_all add: drained_def has_key_def)

lemma drained_tasks:
  assumes "drained s"
  shows "cancelTask taskId reason s = s" and "failTask taskId e s = s" and "pass_to_runner taskId message s = s"
    and "pass_to_requester taskId message' s = s" and "taskDoneHandler taskId data s = s"
    and "taskErrorHandler taskId failure s = s" and "handleTaskTimeout cfg taskId s = s"
    and "sendTaskSettings taskId settings s = s" and "send_settings taskId runnerId settings s = s"
    and "delete_task taskId s = s" and "fail_timed_out cfg taskId s = s"
  using assms drained_no_task [OF assms]
  by (simp_all add: cancelTask_def failTask_def pass_to_runner_def pass_to_requester_def taskDoneHandler_def
      taskErrorHandler_def handleTaskTimeout_def sendTaskSettings_def send_settings_def fail_timed_out_def)
     (simp add: delete_task_def drained_def)

lemma drained_step:
  assumes ok: "drained s" and step: "broker_step cfg e s = Some s'" shows "drained s'"
proof (cases e)
  case (Deregister_runner runnerId e)
  with ok step Deregister_runner show ?thesis
    by (auto simp: deregisterRunner_def Let_def) (simp add: drained_def)
next
  case (From_runner now settleNow runnerId message)
  have "drained (taskOffered cfg settleNow offer s)" for offer
    using ok by (simp add: taskOffered_def settleTasks_def Let_def expireTasks_def drained_def)
  with ok step From_runner show ?thesis
    by (cases message) (auto simp: onRunnerMessage_def handleRunnerAccept_def handleRunnerReject_def handleRunnerDeferred_def
      drained_tasks handleDataRequest_def handleNodeTypesRequest_def handleRpcRequest_def)
next
  case (From_requester now requesterId message)
  have "drained (taskRequested cfg now request t)" if "drained t" for request t
    using that by (simp add: taskRequested_def) (simp add: drained_def)
  with ok step From_requester show ?thesis
    by (cases message) (auto simp: onRequesterMessage_def handleRequesterAccept_def drained_tasks createRequestTimeout_def
      handleRequesterDataResponse_def handleRequesterNodeTypesResponse_def handleRequesterRpcResponse_def prod_eq_iff
      split: prod.splits dest!: arg_cong [where f = fst])
next
  case (Fire i)
  then obtain timer where s': "s' = fire cfg timer (s\<lparr>br_timers := AList.delete i (br_timers s)\<rparr>)"
    using step by (auto split: option.splits)
  have "drained (fire cfg timer t)" if "drained t" for t
    using that drained_tasks [OF that]
    by (cases timer) (auto simp: fire_def handleRequestTimeout_def, simp add: drained_def)
  with ok s' show ?thesis by simp
next
  case (Resume n)
  then obtain a where a: "array_get (br_acceptances s) n = Some a" using step by (auto simp: resume_def split: option.splits)
  let ?s = "s\<lparr>br_acceptances := (br_acceptances s)[n := a\<lparr>ap_phase := Ended\<rparr>]\<rparr>"
  have "ap_phase a \<noteq> Awaits_runner" using ok a by (auto simp: drained_def dest: array_get_in_set)
  with step Resume a obtain answer where s': "s' = end_acceptance n a answer s"
    by (auto simp: resume_def split: option.splits phase.splits)
  have "set (br_acceptances ?s) \<subseteq> insert (a\<lparr>ap_phase := Ended\<rparr>) (set (br_acceptances s))"
    using set_update_subset_insert by simp
  then have "drained ?s" using ok by (auto simp: drained_def)
  with drained_tasks [OF this] show ?thesis by (simp add: s' end_acceptance_def Let_def split: requester_answer.split)
next
  case (Continue i)
  then obtain k where s': "s' = continue cfg k (s\<lparr>br_waiting := take i (br_waiting s) @ drop (Suc i) (br_waiting s)\<rparr>)"
    using step by (auto split: option.splits)
  have "drained (continue cfg k t)" if "drained t" for t using that drained_tasks [OF that] by (cases k) simp_all
  with ok s' show ?thesis by simp
next
  case Start_draining
  with ok step show ?thesis by (auto simp: startDraining_def drained_def)
qed (use ok step in \<open>auto simp: registerRunner_def registerRequester_def deregisterRequester_def handleRequesterReject_def\<close>)

interpretation draining: invariant_machine "broker_step cfg" drained for cfg
  by unfold_locales (rule drained_step)

text \<open>
  A broker that drains, has no pending requests, no tasks and no offer that a runner still
  may accept, has no tasks at any later time, whatever messages come and timers fire.
\<close>

theorem drained_broker_stays_idle:
  assumes "br_isDraining s" and "br_pendingTaskRequests s = []" and "\<not> hasActiveTasks s"
    and "\<forall>a \<in> set (br_acceptances s). ap_phase a \<noteq> Awaits_runner"
    and "run_steps (broker_step cfg) es s = Some s'"
  shows "\<not> hasActiveTasks s' \<and> br_pendingTaskRequests s' = []"
proof -
  have "drained s" using assms(1-4) by (simp add: drained_def hasActiveTasks_def)
  from draining.inv_run [OF this assms(5)] show ?thesis by (simp add: drained_def hasActiveTasks_def)
qed

section \<open>Two runs that go wrong\<close>

definition test_config :: broker_config where
  "test_config = \<lparr>bc_taskTimeout = 60, bc_mode = External, bc_selfHosted = True, bc_taskId = show_nat\<rparr>"

definition js_runner :: task_runner where
  "js_runner = \<lparr>tr_id = ''r'', tr_name = None, tr_taskTypes = [''js'']\<rparr>"

definition run_broker :: "broker_event list \<Rightarrow> broker option" where
  "run_broker es =
     (case new_broker test_config of Inl e \<Rightarrow> None | Inr s \<Rightarrow> run_steps (broker_step test_config) es s)"

definition matched :: "broker_event list" where
  "matched = [Register_runner js_runner, Register_requester ''q'',
     From_runner 0 0 ''r'' (R_taskoffer ''o1'' ''js'' (- 1)), From_requester 0 ''q'' (Q_taskrequest ''a'' ''js'')]"

text \<open>
  The request times out while the runner is asked; when the runner accepts, the task is kept
  although nobody waits for it: the requester was told that the request expired, no timer is set
  for the task and its runner is sent nothing more.
\<close>

lemma orphan_task:
  "map_option (\<lambda>s. (hasActiveTasks s, br_pendingTaskRequests s, map ap_phase (br_acceptances s), br_waiting s,
       map snd (br_timers s), last (br_sent s)))
     (run_broker (matched @ [Fire 0, From_runner 0 0 ''r'' (R_taskaccepted ''0''), Resume 0]))
   = Some (True, [], [Ended], [], [Runner_accept_timeout 0], To_requester ''q'' (Request_expired ''a'' ''timeout''))"
  by code_simp

text \<open>
  The first of two offers is rejected: the request and the second offer match, but nothing
  matches them until the next request or offer comes.
\<close>

lemma rejection_forgets_offer:
  "map_option (\<lambda>s. (map (tq_acceptInProgress \<circ> request_at s) (br_pendingTaskRequests s),
       map to_offerId (br_pendingTaskOffers s), br_waiting s))
     (run_broker (matched @ [From_runner 0 0 ''r'' (R_taskoffer ''o2'' ''js'' (- 1)),
        From_runner 0 0 ''r'' (R_taskrejected ''0'' ''busy''), Resume 0]))
   = Some ([False], [''o2''], [])"
  by code_simp

text \<open>The theorems at concrete runs.\<close>

definition served_run :: "broker_event list" where
  "served_run = matched @ [From_runner 0 0 ''r'' (R_taskaccepted ''0''), Resume 0,
     From_requester 0 ''q'' (Q_tasksettings ''0'' JNull), Resume 0, Continue 0,
     From_runner 0 0 ''r'' (R_taskdone ''0'' JNull), Continue 0]"

lemma served_run_result:
  "map_option (\<lambda>s. (accepts s, readies s, hasActiveTasks s)) (run_broker served_run)
     = Some ([(''r'', ''o1'')], [(''q'', ''a'')], False)"
  by code_simp

lemma run_broker_Some:
  "run_broker es = Some s' \<longleftrightarrow> (\<exists>s. new_broker test_config = Inr s \<and> run_steps (broker_step test_config) es s = Some s')"
  by (auto simp: run_broker_def split: sum.splits)

lemma offers_accepted_once_witness:
  "\<exists>s s'. new_broker test_config = Inr s \<and> run_steps (broker_step test_config) served_run s = Some s'
    \<and> accepts s' = [(''r'', ''o1'')]
    \<and> mset (accepts s') \<subseteq># mset (map offer_id (concat (map offer_made served_run)))"
proof -
  obtain s' where "run_broker served_run = Some s'" and result: "accepts s' = [(''r'', ''o1'')]"
    using served_run_result by (auto simp: map_option_eq_Some)
  then obtain s where "new_broker test_config = Inr s" "run_steps (broker_step test_config) served_run s = Some s'"
    by (auto simp: run_broker_Some)
  with offers_accepted_once [OF this] result show ?thesis by blast
qed

lemma requests_served_once_witness:
  "\<exists>s s'. new_broker test_config = Inr s \<and> run_steps (broker_step test_config) served_run s = Some s'
    \<and> readies s' = [(''q'', ''a'')] \<and> mset (readies s') \<subseteq># mset (concat (map request_asked served_run))"
proof -
  obtain s' where "run_broker served_run = Some s'" and result: "readies s' = [(''q'', ''a'')]"
    using served_run_result by (auto simp: map_option_eq_Some)
  then obtain s where "new_broker test_config = Inr s" "run_steps (broker_step test_config) served_run s = Some s'"
    by (auto simp: run_broker_Some)
  with requests_served_once [OF this] result show ?thesis by blast
qed

definition two_offers :: broker where
  "two_offers =
     (case new_broker test_config of
        Inl e \<Rightarrow> undefined
      | Inr s \<Rightarrow> s\<lparr>br_pendingTaskOffers := [offer_of ''r'' ''o1'' ''py'' (- 1) 0, offer_of ''r'' ''o2'' ''js'' 5 0],
          br_requests := [\<lparr>tq_requestId = ''a'', tq_requesterId = ''q'', tq_taskType = ''js'', tq_timeout = None,
            tq_acceptInProgress = False\<rparr>], br_pendingTaskRequests := [0]\<rparr>)"

lemma settleTasks_in_order_witness:
  "\<exists>new. br_acceptances (settleTasks test_config 1 two_offers) = br_acceptances two_offers @ new
    \<and> pairs_for ''js'' new = [(0, offer_of ''r'' ''o2'' ''js'' 5 0)] \<and> pairs_for ''py'' new = []"
proof -
  have "distinct (br_pendingTaskRequests two_offers)"
    "\<forall>r \<in> set (br_pendingTaskRequests two_offers). r < length (br_requests two_offers)" by code_simp+
  from settleTasks_in_order [OF this, of test_config 1] obtain new where
    new: "br_acceptances (settleTasks test_config 1 two_offers) = br_acceptances two_offers @ new"
    "\<And>ty. pairs_for ty new = zip (idle_requests ty two_offers (br_pendingTaskRequests two_offers))
       (offers_for ty (filter (\<lambda>offer. to_validFor offer = - 1 \<or> 1 \<le> to_validUntil offer) (br_pendingTaskOffers two_offers)))"
    by blast
  have "zip (idle_requests ''js'' two_offers (br_pendingTaskRequests two_offers))
      (offers_for ''js'' (filter (\<lambda>offer. to_validFor offer = - 1 \<or> 1 \<le> to_validUntil offer) (br_pendingTaskOffers two_offers)))
      = [(0, offer_of ''r'' ''o2'' ''js'' 5 0)]"
    "zip (idle_requests ''py'' two_offers (br_pendingTaskRequests two_offers))
      (offers_for ''py'' (filter (\<lambda>offer. to_validFor offer = - 1 \<or> 1 \<le> to_validUntil offer) (br_pendingTaskOffers two_offers)))
      = []" by code_simp+
  with new(1) new(2) [of "''js''"] new(2) [of "''py''"] show ?thesis by auto
qed

definition late_messages :: "broker_event list" where
  "late_messages = [From_requester 0 ''q'' (Q_taskrequest ''b'' ''js''), From_runner 0 0 ''r'' (R_taskoffer ''o2'' ''js'' (- 1))]"

lemma drained_broker_stays_idle_witness:
  "\<exists>s s'. run_broker (served_run @ [Start_draining]) = Some s \<and> run_steps (broker_step test_config) late_messages s = Some s'
    \<and> length (br_pendingTaskOffers s') = 1 \<and> \<not> hasActiveTasks s' \<and> br_pendingTaskRequests s' = []"
proof -
  define start where "start = run_broker (served_run @ [Start_draining])"
  have "map_option (\<lambda>s. (br_isDraining s, br_pendingTaskRequests s, hasActiveTasks s, map ap_phase (br_acceptances s),
      map_option (\<lambda>s'. length (br_pendingTaskOffers s')) (run_steps (broker_step test_config) late_messages s))) start
    = Some (True, [], False, [Ended], Some 1)" unfolding start_def by code_simp
  then obtain s s' where s: "start = Some s" "br_isDraining s" "br_pendingTaskRequests s = []" "\<not> hasActiveTasks s"
    "map ap_phase (br_acceptances s) = [Ended]" and s': "run_steps (broker_step test_config) late_messages s = Some s'"
    "length (br_pendingTaskOffers s') = 1" by (auto simp: map_option_eq_Some)
  have "\<forall>a \<in> set (br_acceptances s). ap_phase a \<noteq> Awaits_runner" using s(5) by (cases "br_acceptances s") auto
  from drained_broker_stays_idle [OF s(2,3,4) this s'(1)] s(1) s' show ?thesis unfolding start_def by blast
qed

end
