(* ===== verification/Concurrency.thy ===== *)
theory Concurrency
  imports Interfaces
begin

text \<open>
  \<^verbatim>\<open>packages/cli/src/concurrency\<close>: how many executions run at a time.  A \<^verbatim>\<open>ConcurrencyQueue\<close> counts
  free capacity and keeps the executions that wait; \<^verbatim>\<open>ConcurrencyControlService\<close> has one queue for
  production and one for evaluation executions; a \<^verbatim>\<open>ConcurrencyCapacityReservation\<close> is the capacity
  one client holds.  A promise is a number; \<^verbatim>\<open>co_promises\<close> says which are resolved.  The listeners
  of a queue are a trace; the debounced event \<^verbatim>\<open>concurrency-check\<close>, which feeds telemetry, is left
  out.
\<close>

section \<open>Queues\<close>

datatype execute_mode = Mode_cli | Mode_error | Mode_integrated | Mode_internal | Mode_manual
  | Mode_retry | Mode_trigger | Mode_webhook | Mode_evaluation | Mode_chat | Mode_agent

datatype queue_type = Production | Evaluation

record conc_queue =
  cq_capacity :: int
  cq_queue :: "(string \<times> nat) list"

definition new_queue :: "int \<Rightarrow> conc_queue" where
  "new_queue capacity = \<lparr>cq_capacity = capacity, cq_queue = []\<rparr>"

text \<open>
  \<^verbatim>\<open>enqueue_execution\<close> answers whether the caller waits, for the promise it was given; \<^verbatim>\<open>resolveNext\<close> answers
  the entry that is resolved, if there is one.
\<close>

definition enqueue_execution :: "string \<Rightarrow> nat \<Rightarrow> conc_queue \<Rightarrow> conc_queue \<times> bool" where
  "enqueue_execution executionId promise q =
     (let q = q\<lparr>cq_capacity := cq_capacity q - 1\<rparr>
      in if cq_capacity q < 0 then (q\<lparr>cq_queue := cq_queue q @ [(executionId, promise)]\<rparr>, True)
         else (q, False))"

definition resolveNext :: "conc_queue \<Rightarrow> conc_queue \<times> (string \<times> nat) option" where
  "resolveNext q =
     (case cq_queue q of
        [] \<Rightarrow> (q, None)
      | item # rest \<Rightarrow> (q\<lparr>cq_queue := rest\<rparr>, Some item))"

definition dequeue_execution :: "conc_queue \<Rightarrow> conc_queue \<times> (string \<times> nat) option" where
  "dequeue_execution q = resolveNext (q\<lparr>cq_capacity := cq_capacity q + 1\<rparr>)"

fun remove_first :: "string \<Rightarrow> (string \<times> nat) list \<Rightarrow> (string \<times> nat) list option" where
  "remove_first executionId [] = None"
| "remove_first executionId (item # items) =
     (if fst item = executionId then Some items
      else map_option ((#) item) (remove_first executionId items))"

definition remove_entry :: "string \<Rightarrow> conc_queue \<Rightarrow> conc_queue \<times> (string \<times> nat) option" where
  "remove_entry executionId q =
     (case remove_first executionId (cq_queue q) of
        None \<Rightarrow> (q, None)
      | Some items \<Rightarrow> resolveNext (q\<lparr>cq_queue := items, cq_capacity := cq_capacity q + 1\<rparr>))"

definition queue_getAll :: "conc_queue \<Rightarrow> string list" where
  "queue_getAll q = set_of_list (map fst (cq_queue q))"

definition queue_has :: "string \<Rightarrow> conc_queue \<Rightarrow> bool" where
  "queue_has executionId q = (\<exists>item \<in> set (cq_queue q). fst item = executionId)"

section \<open>Configuration\<close>

text \<open>
  \<^verbatim>\<open>xc_env_set\<close>: whether the variable N8N_CONCURRENCY_EVALUATION_LIMIT is set.  The licence is
  asked at each use: its quota (\<^verbatim>\<open>None\<close> unless it is a number) and the name of the plan.
\<close>

record executions_config =
  xc_queue_mode :: bool
  xc_productionLimit :: int
  xc_evaluationLimit :: int
  xc_env_set :: bool

record license =
  li_quota :: "int option"
  li_planName :: string

definition tier_defaults :: "(string, int) omap" where
  "tier_defaults = [(''Community'', 1), (''Pro'', 1), (''Business'', 3), (''Enterprise'', 5)]"

definition readLicenseQuota :: "license \<Rightarrow> int option" where
  "readLicenseQuota lic = (case li_quota lic of None \<Rightarrow> None | Some raw \<Rightarrow> if raw = 0 then None else Some raw)"

definition resolveEvaluationConcurrencyLimit :: "executions_config \<Rightarrow> license \<Rightarrow> int" where
  "resolveEvaluationConcurrencyLimit cfg lic =
     (if xc_env_set cfg then xc_evaluationLimit cfg
      else case readLicenseQuota lic of
          Some fromLicense \<Rightarrow> fromLicense
        | None \<Rightarrow> or_else (map_of tier_defaults (li_planName lic)) 1)"

definition normaliseLimit :: "int \<Rightarrow> int res" where
  "normaliseLimit limit =
     (if limit = 0 then Inl (UserError ''Concurrency limit set to invalid value'')
      else Inr (if limit < - 1 then - 1 else limit))"

section \<open>The service\<close>

datatype conc_event = Execution_throttled queue_type string | Execution_released queue_type string

record concurrency =
  co_isEnabled :: bool
  co_limits :: "(queue_type, int) omap"
  co_queues :: "(queue_type, conc_queue) omap"
  co_evalQueueResolved :: bool
  co_promises :: "bool list"
  co_events :: "conc_event list"
  co_cancelled :: "string list"

definition add_queue :: "queue_type \<Rightarrow> int \<Rightarrow> concurrency \<Rightarrow> concurrency" where
  "add_queue type limit s = s\<lparr>co_queues := AList.update type (new_queue limit) (co_queues s)\<rparr>"

definition new_concurrency :: "executions_config \<Rightarrow> concurrency res" where
  "new_concurrency cfg =
     bind_res (normaliseLimit (xc_productionLimit cfg)) (\<lambda>production.
     bind_res (normaliseLimit (xc_evaluationLimit cfg)) (\<lambda>evaluation.
       let s = \<lparr>co_isEnabled = False, co_limits = [(Production, production), (Evaluation, evaluation)],
                co_queues = [], co_evalQueueResolved = False, co_promises = [], co_events = [], co_cancelled = []\<rparr>
       in if xc_queue_mode cfg then Inr s
          else let s = (if production > 0 then add_queue Production production s else s);
                   s = (if evaluation > 0 then (add_queue Evaluation evaluation s)\<lparr>co_evalQueueResolved := True\<rparr>
                        else s)
               in Inr (s\<lparr>co_isEnabled := length (co_queues s) > 0\<rparr>)))"

definition ensureEvalQueueResolved :: "executions_config \<Rightarrow> license \<Rightarrow> concurrency \<Rightarrow> concurrency run" where
  "ensureEvalQueueResolved cfg lic s =
     (if co_evalQueueResolved s then normal s
      else let s = s\<lparr>co_evalQueueResolved := True\<rparr>
           in if xc_queue_mode cfg then normal s
              else case normaliseLimit (resolveEvaluationConcurrencyLimit cfg lic) of
                  Inl e \<Rightarrow> raised e s
                | Inr limit \<Rightarrow>
                    (let s = s\<lparr>co_limits := AList.update Evaluation limit (co_limits s)\<rparr>
                     in if limit > 0 then normal ((add_queue Evaluation limit s)\<lparr>co_isEnabled := True\<rparr>)
                        else normal s))"

definition getQueueType :: "execute_mode \<Rightarrow> queue_type option res" where
  "getQueueType mode =
     (if mode \<in> {Mode_error, Mode_integrated, Mode_cli, Mode_internal, Mode_manual, Mode_retry} then Inr None
      else if mode \<in> {Mode_webhook, Mode_trigger, Mode_chat} then Inr (Some Production)
      else if mode = Mode_evaluation then Inr (Some Evaluation)
      else Inl (UnexpectedError ''Unknown execution mode''))"

text \<open>\<^verbatim>\<open>getQueue\<close>, with the type of the queue, by which it is changed in place.\<close>

definition getQueue :: "execute_mode \<Rightarrow> concurrency \<Rightarrow> (queue_type \<times> conc_queue) option res" where
  "getQueue mode s =
     bind_res (getQueueType mode) (\<lambda>type.
       Inr (case type of None \<Rightarrow> None | Some ty \<Rightarrow> map_option (Pair ty) (map_of (co_queues s) ty)))"

definition control_has :: "string \<Rightarrow> concurrency \<Rightarrow> bool" where
  "control_has executionId s =
     (co_isEnabled s \<and> (\<exists>q \<in> set (ovals (co_queues s)). queue_has executionId q))"

text \<open>What all three calls do first: the queue to use, if capacity is limited for the mode.\<close>

definition limited_queue ::
    "executions_config \<Rightarrow> license \<Rightarrow> execute_mode \<Rightarrow> concurrency \<Rightarrow> concurrency \<times> (queue_type \<times> conc_queue) option res" where
  "limited_queue cfg lic mode s =
     (case (if mode = Mode_evaluation then ensureEvalQueueResolved cfg lic s else normal s) of
        (s, Some e) \<Rightarrow> (s, Inl e)
      | (s, None) \<Rightarrow> if \<not> co_isEnabled s then (s, Inr None) else (s, getQueue mode s))"

text \<open>The queue after a resolution: the promise is resolved and the event is emitted.\<close>

definition put_resolved ::
    "queue_type \<Rightarrow> conc_queue \<times> (string \<times> nat) option \<Rightarrow> concurrency \<Rightarrow> concurrency" where
  "put_resolved ty r s =
     (let s = s\<lparr>co_queues := AList.update ty (fst r) (co_queues s)\<rparr>
      in case snd r of
          None \<Rightarrow> s
        | Some (executionId, promise) \<Rightarrow>
            s\<lparr>co_events := co_events s @ [Execution_released ty executionId],
              co_promises := (co_promises s)[promise := True]\<rparr>)"

text \<open>\<^verbatim>\<open>throttle\<close> answers the promise the caller has to wait for, if it has to wait.\<close>

definition throttle ::
    "executions_config \<Rightarrow> license \<Rightarrow> execute_mode \<Rightarrow> string \<Rightarrow> concurrency \<Rightarrow> concurrency \<times> nat option res" where
  "throttle cfg lic mode executionId s =
     (case limited_queue cfg lic mode s of
        (s, Inl e) \<Rightarrow> (s, Inl e)
      | (s, Inr None) \<Rightarrow> (s, Inr None)
      | (s, Inr (Some (ty, q))) \<Rightarrow>
          (let promise = length (co_promises s); (q, waits) = enqueue_execution executionId promise q;
               s = s\<lparr>co_queues := AList.update ty q (co_queues s)\<rparr>
           in if waits
              then (s\<lparr>co_promises := co_promises s @ [False],
                      co_events := co_events s @ [Execution_throttled ty executionId]\<rparr>, Inr (Some promise))
              else (s, Inr None)))"

definition release :: "executions_config \<Rightarrow> license \<Rightarrow> execute_mode \<Rightarrow> concurrency \<Rightarrow> concurrency run" where
  "release cfg lic mode s =
     (case limited_queue cfg lic mode s of
        (s, Inl e) \<Rightarrow> raised e s
      | (s, Inr None) \<Rightarrow> normal s
      | (s, Inr (Some (ty, q))) \<Rightarrow> normal (put_resolved ty (dequeue_execution q) s))"

definition control_remove ::
    "executions_config \<Rightarrow> license \<Rightarrow> execute_mode \<Rightarrow> string \<Rightarrow> concurrency \<Rightarrow> concurrency run" where
  "control_remove cfg lic mode executionId s =
     (case limited_queue cfg lic mode s of
        (s, Inl e) \<Rightarrow> raised e s
      | (s, Inr None) \<Rightarrow> normal s
      | (s, Inr (Some (ty, q))) \<Rightarrow> normal (put_resolved ty (remove_entry executionId q) s))"

definition remove_from :: "queue_type \<Rightarrow> string \<Rightarrow> concurrency \<Rightarrow> concurrency" where
  "remove_from ty executionId s =
     (case map_of (co_queues s) ty of
        None \<Rightarrow> s
      | Some q \<Rightarrow> put_resolved ty (remove_entry executionId q) s)"

definition empty_queue :: "queue_type \<Rightarrow> concurrency \<Rightarrow> concurrency" where
  "empty_queue ty s =
     (case map_of (co_queues s) ty of
        None \<Rightarrow> s
      | Some q \<Rightarrow> fold (remove_from ty) (queue_getAll q) s)"

definition removeAll :: "string list \<Rightarrow> concurrency \<Rightarrow> concurrency" where
  "removeAll executionIdsToCancel s =
     (if \<not> co_isEnabled s then s
      else let s = fold empty_queue (okeys (co_queues s)) s
           in if length executionIdsToCancel = 0 then s
              else s\<lparr>co_cancelled := co_cancelled s @ executionIdsToCancel\<rparr>)"

definition disable_control :: "concurrency \<Rightarrow> concurrency" where
  "disable_control s = s\<lparr>co_isEnabled := False\<rparr>"

section \<open>Reservations\<close>

text \<open>
  \<^verbatim>\<open>ConcurrencyCapacityReservation\<close>.  \<^verbatim>\<open>reserve\<close> awaits \<^verbatim>\<open>throttle\<close>: \<^verbatim>\<open>rv_pending\<close> is the capacity it asks
  for with the promise it awaits, if any; it continues at a later time (\<^verbatim>\<open>reserved\<close>).
\<close>

record capacity_target =
  ct_executionId :: string
  ct_mode :: execute_mode

record reservation =
  rv_pending :: "(capacity_target \<times> nat option) option"
  rv_acquired :: "capacity_target option"

definition new_reservation :: reservation where
  "new_reservation = \<lparr>rv_pending = None, rv_acquired = None\<rparr>"

definition reserve ::
    "executions_config \<Rightarrow> license \<Rightarrow> capacity_target \<Rightarrow> reservation \<Rightarrow> concurrency \<Rightarrow> concurrency \<times> reservation res" where
  "reserve cfg lic target r s =
     (if rv_acquired r \<noteq> None then (s, Inl (AssertionError ''Capacity already reserved''))
      else case throttle cfg lic (ct_mode target) (ct_executionId target) s of
          (s, Inl e) \<Rightarrow> (s, Inl e)
        | (s, Inr promise) \<Rightarrow> (s, Inr (r\<lparr>rv_pending := Some (target, promise)\<rparr>)))"

definition is_settled :: "bool list \<Rightarrow> nat option \<Rightarrow> bool" where
  "is_settled promises p = (case p of None \<Rightarrow> True | Some i \<Rightarrow> i < length promises \<and> promises ! i)"

definition reserved :: "concurrency \<Rightarrow> reservation \<Rightarrow> reservation option" where
  "reserved s r =
     (case rv_pending r of
        None \<Rightarrow> None
      | Some (target, promise) \<Rightarrow>
          if is_settled (co_promises s) promise then Some (r\<lparr>rv_pending := None, rv_acquired := Some target\<rparr>) else None)"

definition release_reservation ::
    "executions_config \<Rightarrow> license \<Rightarrow> reservation \<Rightarrow> concurrency \<Rightarrow> concurrency \<times> reservation res" where
  "release_reservation cfg lic r s =
     (case rv_acquired r of
        None \<Rightarrow> (s, Inr r)
      | Some target \<Rightarrow>
          (case release cfg lic (ct_mode target) s of
             (s, Some e) \<Rightarrow> (s, Inl e)
           | (s, None) \<Rightarrow> (s, Inr (r\<lparr>rv_acquired := None\<rparr>))))"

text \<open>
  The service with its clients.  A client makes a reservation object and calls \<^verbatim>\<open>reserve\<close> on it
  once, as \<^verbatim>\<open>ActiveExecutions.add\<close> does; a waiting execution may be removed by its id.
\<close>

record capacity_system =
  cs_control :: concurrency
  cs_reservations :: "reservation list"

datatype capacity_action =
    New_reservation
  | Reserve nat license capacity_target
  | Reserved nat
  | Release nat license
  | Remove_execution license capacity_target
  | Remove_all "string list"
  | Disable

definition reservation_of :: "capacity_system \<Rightarrow> nat \<Rightarrow> reservation option" where
  "reservation_of s i = array_get (cs_reservations s) i"

text \<open>A call on a reservation: if it throws, the reservation stays as it is.\<close>

definition put_reservation :: "nat \<Rightarrow> concurrency \<times> reservation res \<Rightarrow> capacity_system \<Rightarrow> capacity_system" where
  "put_reservation i result s =
     (case result of
        (c, Inl e) \<Rightarrow> s\<lparr>cs_control := c\<rparr>
      | (c, Inr r) \<Rightarrow> s\<lparr>cs_control := c, cs_reservations := (cs_reservations s)[i := r]\<rparr>)"

fun capacity_step :: "executions_config \<Rightarrow> capacity_action \<Rightarrow> capacity_system \<Rightarrow> capacity_system option" where
  "capacity_step cfg New_reservation s =
     Some (s\<lparr>cs_reservations := cs_reservations s @ [new_reservation]\<rparr>)"
| "capacity_step cfg (Reserve i lic target) s =
     (case reservation_of s i of
        None \<Rightarrow> None
      | Some r \<Rightarrow> if rv_pending r \<noteq> None then None
                  else Some (put_reservation i (reserve cfg lic target r (cs_control s)) s))"
| "capacity_step cfg (Reserved i) s =
     (case reservation_of s i of
        None \<Rightarrow> None
      | Some r \<Rightarrow> map_option (\<lambda>r. s\<lparr>cs_reservations := (cs_reservations s)[i := r]\<rparr>) (reserved (cs_control s) r))"
| "capacity_step cfg (Release i lic) s =
     (case reservation_of s i of
        None \<Rightarrow> None
      | Some r \<Rightarrow> Some (put_reservation i (release_reservation cfg lic r (cs_control s)) s))"
| "capacity_step cfg (Remove_execution lic target) s =
     Some (s\<lparr>cs_control := fst (control_remove cfg lic (ct_mode target) (ct_executionId target) (cs_control s))\<rparr>)"
| "capacity_step cfg (Remove_all ids) s = Some (s\<lparr>cs_control := removeAll ids (cs_control s)\<rparr>)"
| "capacity_step cfg Disable s = Some (s\<lparr>cs_control := disable_control (cs_control s)\<rparr>)"

definition new_system :: "concurrency \<Rightarrow> capacity_system" where
  "new_system c = \<lparr>cs_control = c, cs_reservations = []\<rparr>"

text \<open>A reservation holds capacity of a queue from the moment its promise is resolved.\<close>

definition holds :: "queue_type \<Rightarrow> bool list \<Rightarrow> reservation \<Rightarrow> bool" where
  "holds ty promises r =
     (case rv_acquired r of
        Some target \<Rightarrow> getQueueType (ct_mode target) = Inr (Some ty)
      | None \<Rightarrow>
          (case rv_pending r of
             None \<Rightarrow> False
           | Some (target, promise) \<Rightarrow>
               getQueueType (ct_mode target) = Inr (Some ty) \<and> is_settled promises promise))"

definition held :: "queue_type \<Rightarrow> capacity_system \<Rightarrow> nat" where
  "held ty s = length (filter (holds ty (co_promises (cs_control s))) (cs_reservations s))"

section \<open>Capacity is conserved\<close>

lemma count_flip:
  assumes "i < length xs" and "Q (xs ! i)" and "\<not> P (xs ! i)"
    and "\<And>j. j < length xs \<Longrightarrow> j \<noteq> i \<Longrightarrow> Q (xs ! j) = P (xs ! j)"
  shows "length (filter Q xs) = Suc (length (filter P xs))"
proof -
  have "{j. j < length xs \<and> Q (xs ! j)} = insert i {j. j < length xs \<and> P (xs ! j)}"
    using assms by auto
  with assms(3) show ?thesis by (simp add: length_filter_conv_card)
qed

text \<open>
  The clients of the service: no reservation is pending and acquired, no promise is awaited
  twice, and a promise that waits in a queue is awaited by a reservation for this queue.
\<close>

definition awaits :: "reservation \<Rightarrow> nat \<Rightarrow> bool" where
  "awaits r p = (\<exists>target. rv_pending r = Some (target, Some p))"

definition clients_ok :: "nat \<Rightarrow> reservation list \<Rightarrow> bool" where
  "clients_ok n rs \<longleftrightarrow>
     (\<forall>r \<in> set rs. rv_pending r = None \<or> rv_acquired r = None)
   \<and> (\<forall>r \<in> set rs. \<forall>p. awaits r p \<longrightarrow> p < n)
   \<and> (\<forall>i < length rs. \<forall>j < length rs. \<forall>p. awaits (rs ! i) p \<longrightarrow> awaits (rs ! j) p \<longrightarrow> i = j)"

definition waits_for :: "queue_type \<Rightarrow> nat \<Rightarrow> reservation \<Rightarrow> bool" where
  "waits_for ty p r =
     (\<exists>target. rv_pending r = Some (target, Some p) \<and> getQueueType (ct_mode target) = Inr (Some ty))"

definition entries_ok :: "queue_type \<Rightarrow> bool list \<Rightarrow> reservation list \<Rightarrow> conc_queue \<Rightarrow> bool" where
  "entries_ok ty promises rs q \<longleftrightarrow> distinct (map snd (cq_queue q))
     \<and> (\<forall>p \<in> snd ` set (cq_queue q). p < length promises \<and> \<not> promises ! p \<and> (\<exists>r \<in> set rs. waits_for ty p r))"

definition balanced :: "int \<Rightarrow> queue_type \<Rightarrow> bool list \<Rightarrow> reservation list \<Rightarrow> int \<Rightarrow> conc_queue \<Rightarrow> bool" where
  "balanced debt ty promises rs limit q \<longleftrightarrow>
     cq_capacity q + int (length (filter (holds ty promises) rs)) + int (length (cq_queue q)) = limit - debt"

lemma waits_for_awaits: "waits_for ty p r \<Longrightarrow> awaits r p"
  by (auto simp: waits_for_def awaits_def)

lemma waits_for_same: "waits_for ty p r \<Longrightarrow> waits_for ty' p r \<Longrightarrow> ty' = ty"
  by (auto simp: waits_for_def)

text \<open>Resolving the promise of a waiting entry gives its reservation the capacity.\<close>

lemma holds_resolve:
  assumes "\<not> awaits r p" shows "holds ty (promises[p := True]) r = holds ty promises r"
  using assms
  by (cases "rv_acquired r"; cases "rv_pending r")
     (auto simp: holds_def awaits_def is_settled_def nth_list_update split: option.splits)

lemma count_resolve:
  assumes "clients_ok n rs" and r: "r \<in> set rs" "waits_for ty p r" and p: "p < length promises" "\<not> promises ! p"
  shows "length (filter (holds ty' (promises[p := True])) rs)
    = length (filter (holds ty' promises) rs) + of_bool (ty' = ty)"
proof -
  obtain i where i: "i < length rs" "rs ! i = r" using r(1) by (auto simp: in_set_conv_nth)
  have free: "rv_acquired r = None"
    using assms(1) r by (auto simp: clients_ok_def waits_for_def)
  have others: "holds ty' (promises[p := True]) (rs ! j) = holds ty' promises (rs ! j)"
    if "j < length rs" "j \<noteq> i" for j
    using assms(1) that i waits_for_awaits [OF r(2)] by (intro holds_resolve) (auto simp: clients_ok_def)
  show ?thesis
  proof (cases "ty' = ty")
    case True
    with free r(2) p have "holds ty' (promises[p := True]) r" "\<not> holds ty' promises r"
      by (auto simp: holds_def waits_for_def is_settled_def)
    with True i others show ?thesis by (subst count_flip [of i]) auto
  next
    case False
    with r(2) free have "\<not> holds ty' (promises[p := True]) r" "\<not> holds ty' promises r"
      by (auto simp: holds_def waits_for_def)
    with False i others show ?thesis
      by (simp add: length_filter_conv_card) (metis (mono_tags, lifting))
  qed
qed

text \<open>
  The invariant.  As long as the service is not disabled, for each queue the capacity, the
  reservations that hold it and the waiting executions add up to the limit; \<^verbatim>\<open>debt\<close> is what one
  queue lacks in the middle of an operation.
\<close>

definition queue_ok :: "int \<Rightarrow> queue_type \<Rightarrow> bool list \<Rightarrow> reservation list \<Rightarrow> int option \<Rightarrow> conc_queue \<Rightarrow> bool" where
  "queue_ok debt ty promises rs limit q \<longleftrightarrow> entries_ok ty promises rs q
     \<and> (\<exists>l > 0. limit = Some l \<and> balanced debt ty promises rs l q)"

definition slots_but :: "int \<Rightarrow> queue_type \<Rightarrow> capacity_system \<Rightarrow> bool" where
  "slots_but debt ty s \<longleftrightarrow>
     (let c = cs_control s; rs = cs_reservations s; promises = co_promises c
      in clients_ok (length promises) rs
       \<and> co_isEnabled c = (co_queues c \<noteq> []) \<and> distinct (okeys (co_queues c))
       \<and> (\<not> co_evalQueueResolved c \<longrightarrow> map_of (co_queues c) Evaluation = None \<and>
            length (filter (holds Evaluation promises) rs) = 0)
       \<and> (\<forall>ty' q. map_of (co_queues c) ty' = Some q \<longrightarrow>
            queue_ok (if ty' = ty then debt else 0) ty' promises rs (map_of (co_limits c) ty') q))"

abbreviation slots_ok :: "capacity_system \<Rightarrow> bool" where
  "slots_ok \<equiv> slots_but 0 Production"

lemma system_swap: "s\<lparr>cs_reservations := rs, cs_control := c\<rparr> = s\<lparr>cs_control := c, cs_reservations := rs\<rparr>"
  and control_swap: "c\<lparr>co_promises := ps, co_queues := qs\<rparr> = c\<lparr>co_queues := qs, co_promises := ps\<rparr>"
  by simp_all

lemma slots_any: "slots_but 0 ty s = slots_but 0 ty' s"
  by (simp add: slots_but_def)

lemma slots_queue:
  assumes "slots_but debt ty s" and "map_of (co_queues (cs_control s)) ty = Some q"
  shows "queue_ok debt ty (co_promises (cs_control s)) (cs_reservations s) (map_of (co_limits (cs_control s)) ty) q"
  using assms unfolding slots_but_def Let_def by presburger

lemma slots_queue_ok:
  assumes "slots_ok s" and "map_of (co_queues (cs_control s)) ty = Some q"
  shows "queue_ok 0 ty (co_promises (cs_control s)) (cs_reservations s) (map_of (co_limits (cs_control s)) ty) q"
  using slots_queue [of 0 ty s q] assms slots_any by blast

lemma waiting_unique:
  assumes "clients_ok n rs" and "r \<in> set rs" "waits_for ty p r" and "r' \<in> set rs" "waits_for ty' p r'"
  shows "ty' = ty"
proof -
  have "r = r'"
    using assms waits_for_awaits [OF assms(3)] waits_for_awaits [OF assms(5)]
    unfolding clients_ok_def by (metis in_set_conv_nth)
  with assms show ?thesis by (auto dest: waits_for_same)
qed

lemma entries_resolve:
  assumes "clients_ok n rs" and "entries_ok ty promises rs q" and "p \<notin> snd ` set (cq_queue q)"
  shows "entries_ok ty (promises[p := True]) rs q"
  using assms unfolding entries_ok_def by (metis length_list_update nth_list_update_neq)

lemma slots_put:
  assumes ok: "slots_but debt ty s" and q: "map_of (co_queues (cs_control s)) ty = Some q"
    and same: "co_isEnabled c' = co_isEnabled (cs_control s)" "co_limits c' = co_limits (cs_control s)"
      "co_evalQueueResolved c' = co_evalQueueResolved (cs_control s)"
      "length (co_promises c') = length (co_promises (cs_control s))"
    and queues: "co_queues c' = AList.update ty q' (co_queues (cs_control s))"
    and new: "\<And>limit. queue_ok debt ty (co_promises (cs_control s)) (cs_reservations s) limit q \<Longrightarrow>
         queue_ok 0 ty (co_promises c') (cs_reservations s) limit q'"
    and counts: "\<And>ty'. ty' \<noteq> ty \<Longrightarrow> length (filter (holds ty' (co_promises c')) (cs_reservations s))
      = length (filter (holds ty' (co_promises (cs_control s))) (cs_reservations s))"
    and entries: "\<And>ty' q. ty' \<noteq> ty \<Longrightarrow> entries_ok ty' (co_promises (cs_control s)) (cs_reservations s) q \<Longrightarrow>
      entries_ok ty' (co_promises c') (cs_reservations s) q"
  shows "slots_ok (s\<lparr>cs_control := c'\<rparr>)"
proof -
  let ?c = "cs_control s" and ?rs = "cs_reservations s"
  have "map_of (co_queues c') ty = Some q'" by (simp add: queues)
  with q have ne: "co_queues ?c \<noteq> []" "co_queues c' \<noteq> []" by auto
  from ok have parts: "clients_ok (length (co_promises ?c)) ?rs" "co_isEnabled ?c = (co_queues ?c \<noteq> [])"
    "distinct (okeys (co_queues ?c))"
    "\<not> co_evalQueueResolved ?c \<Longrightarrow> map_of (co_queues ?c) Evaluation = None \<and>
       length (filter (holds Evaluation (co_promises ?c)) ?rs) = 0"
    "\<And>ty' q. map_of (co_queues ?c) ty' = Some q \<Longrightarrow>
       queue_ok (if ty' = ty then debt else 0) ty' (co_promises ?c) ?rs (map_of (co_limits ?c) ty') q"
    by (simp_all add: slots_but_def Let_def)
  have "queue_ok 0 ty' (co_promises c') ?rs (map_of (co_limits ?c) ty') q''"
    if "map_of (co_queues c') ty' = Some q''" for ty' q''
  proof (cases "ty' = ty")
    case True
    with that new [OF slots_queue [OF ok q]] show ?thesis by (simp add: queues)
  next
    case False
    with that parts(5) [of ty' q''] entries [OF False, of q''] counts [OF False] show ?thesis
      by (simp add: queues queue_ok_def balanced_def)
  qed
  moreover have "map_of (co_queues c') Evaluation = None \<and>
      length (filter (holds Evaluation (co_promises c')) ?rs) = 0" if "\<not> co_evalQueueResolved ?c"
  proof -
    from parts(4) [OF that] q have "Evaluation \<noteq> ty" by auto
    with parts(4) [OF that] counts show ?thesis by (simp add: queues)
  qed
  ultimately show ?thesis
    using parts(1-3) ne by (simp add: slots_but_def Let_def same queues del: map_of_update)
qed

lemma slots_resolve:
  assumes ok: "slots_but debt ty s" and q: "map_of (co_queues (cs_control s)) ty = Some q"
    and entries: "distinct (map snd (cq_queue q'))" "snd ` set (cq_queue q') \<subseteq> snd ` set (cq_queue q)"
    and sum: "cq_capacity q' + int (length (cq_queue q')) = cq_capacity q + int (length (cq_queue q)) + debt"
  shows "slots_ok (s\<lparr>cs_control := put_resolved ty (resolveNext q') (cs_control s)\<rparr>)"
proof -
  let ?c = "cs_control s" and ?rs = "cs_reservations s"
  have clients: "clients_ok (length (co_promises ?c)) ?rs" using ok by (simp add: slots_but_def Let_def)
  have "entries_ok ty (co_promises ?c) ?rs q" using slots_queue [OF ok q] by (simp add: queue_ok_def)
  then have left: "entries_ok ty (co_promises ?c) ?rs q'" using entries unfolding entries_ok_def by blast
  show ?thesis
  proof (cases "cq_queue q'")
    case Nil
    then show ?thesis
      using left sum by (intro slots_put [OF ok q])
        (auto simp: put_resolved_def resolveNext_def balanced_def queue_ok_def)
  next
    case (Cons item rest)
    obtain i p where item: "item = (i, p)" by (cases item)
    with Cons left obtain r where p: "p < length (co_promises ?c)" "\<not> co_promises ?c ! p"
      and r: "r \<in> set ?rs" "waits_for ty p r" by (auto simp: entries_ok_def)
    have "entries_ok ty (co_promises ?c) ?rs (q'\<lparr>cq_queue := rest\<rparr>)" "p \<notin> snd ` set rest"
      using left Cons item by (auto simp: entries_ok_def)
    then have rest: "entries_ok ty ((co_promises ?c)[p := True]) ?rs (q'\<lparr>cq_queue := rest\<rparr>)"
      by (intro entries_resolve [OF clients]) auto
    have other: "entries_ok ty' ((co_promises ?c)[p := True]) ?rs q''"
      if "ty' \<noteq> ty" "entries_ok ty' (co_promises ?c) ?rs q''" for ty' q''
      using that waiting_unique [OF clients r]
      by (intro entries_resolve [OF clients]) (auto simp: entries_ok_def)
    show ?thesis
      using sum rest other count_resolve [OF clients r p] Cons item
      by (intro slots_put [OF ok q]) (auto simp: put_resolved_def resolveNext_def balanced_def queue_ok_def)
  qed
qed

text \<open>The evaluation queue made at its first use starts with its limit free.\<close>

lemma slots_new_eval:
  assumes "slots_ok s" and "\<not> co_evalQueueResolved (cs_control s)" and "limit > 0"
    and "c' = (add_queue Evaluation limit ((cs_control s)\<lparr>co_evalQueueResolved := True,
           co_limits := AList.update Evaluation limit (co_limits (cs_control s))\<rparr>))\<lparr>co_isEnabled := True\<rparr>"
  shows "slots_ok (s\<lparr>cs_control := c'\<rparr>)"
proof -
  have "AList.update Evaluation (new_queue limit) (co_queues (cs_control s)) \<noteq> []"
    by (cases "co_queues (cs_control s)") auto
  with assms show ?thesis
    by (auto simp: slots_but_def Let_def add_queue_def queue_ok_def entries_ok_def balanced_def new_queue_def
        simp del: map_of_eq_Some_iff)
qed

lemma slots_ensure:
  assumes "slots_ok s"
  shows "slots_ok (s\<lparr>cs_control := fst (ensureEvalQueueResolved cfg lic (cs_control s))\<rparr>)
    \<and> co_promises (fst (ensureEvalQueueResolved cfg lic (cs_control s))) = co_promises (cs_control s)
    \<and> co_evalQueueResolved (fst (ensureEvalQueueResolved cfg lic (cs_control s)))"
proof -
  let ?c = "cs_control s"
  have res: "slots_ok (s\<lparr>cs_control := ?c\<lparr>co_evalQueueResolved := True\<rparr>\<rparr>)"
    using assms by (auto simp: slots_but_def Let_def)
  have lim: "slots_ok (s\<lparr>cs_control := ?c\<lparr>co_evalQueueResolved := True, co_limits := AList.update Evaluation l (co_limits ?c)\<rparr>\<rparr>)"
    if "\<not> co_evalQueueResolved ?c" for l
    using assms that by (auto simp: slots_but_def Let_def)
  show ?thesis
    using assms res lim slots_new_eval [OF assms]
    by (auto simp: ensureEvalQueueResolved_def Let_def add_queue_def split: sum.split)
qed

lemma getQueue_Some: "getQueue mode c = Inr (Some (ty, q)) \<longleftrightarrow>
    getQueueType mode = Inr (Some ty) \<and> map_of (co_queues c) ty = Some q"
  by (cases "getQueueType mode") (auto simp: getQueue_def split: option.splits)

lemma getQueue_None: "getQueue mode c = Inr None \<Longrightarrow> getQueueType mode = Inr (Some ty) \<Longrightarrow>
    map_of (co_queues c) ty = None"
  by (simp add: getQueue_def)

lemma limited_queue_ok:
  assumes ok: "slots_ok s" and call: "limited_queue cfg lic mode (cs_control s) = (c', r)"
  shows "slots_ok (s\<lparr>cs_control := c'\<rparr>)" and "co_promises c' = co_promises (cs_control s)"
    and "r = Inr (Some (ty, q)) \<Longrightarrow> getQueueType mode = Inr (Some ty) \<and> map_of (co_queues c') ty = Some q"
    and "r = Inr None \<Longrightarrow> getQueueType mode = Inr (Some ty) \<Longrightarrow>
      map_of (co_queues c') ty = None \<and> (ty = Evaluation \<longrightarrow> co_evalQueueResolved c')"
proof -
  let ?first = "if mode = Mode_evaluation then ensureEvalQueueResolved cfg lic (cs_control s) else normal (cs_control s)"
  have c': "c' = fst ?first"
    using call by (auto simp: limited_queue_def split: prod.splits option.splits if_splits)
  show ok': "slots_ok (s\<lparr>cs_control := c'\<rparr>)" and "co_promises c' = co_promises (cs_control s)"
    using slots_ensure [OF ok] ok by (auto simp: c')
  have eval: "co_evalQueueResolved c'" if "mode = Mode_evaluation"
    using slots_ensure [OF ok] that by (simp add: c')
  have enabled: "co_isEnabled c' = (co_queues c' \<noteq> [])" using ok' by (simp add: slots_but_def Let_def)
  have r: "r = (if \<not> co_isEnabled c' then Inr None else getQueue mode c')" if "r = Inr x" for x
    using call that by (auto simp: limited_queue_def split: prod.splits option.splits if_splits)
  show "getQueueType mode = Inr (Some ty) \<and> map_of (co_queues c') ty = Some q" if "r = Inr (Some (ty, q))"
    using r [OF that] that getQueue_Some [of mode c' ty q] by (auto split: if_splits)
  show "map_of (co_queues c') ty = None \<and> (ty = Evaluation \<longrightarrow> co_evalQueueResolved c')"
    if "r = Inr None" "getQueueType mode = Inr (Some ty)"
  proof -
    have "ty = Evaluation \<Longrightarrow> mode = Mode_evaluation" using that(2) by (auto simp: getQueueType_def split: if_splits)
    with eval r [OF that(1)] that enabled getQueue_None [of mode c' ty] show ?thesis
      by (auto split: if_splits)
  qed
qed

text \<open>Reservations that change.\<close>

lemma clients_update:
  assumes "clients_ok n rs" and "i < length rs" and "rv_pending r = None \<or> rv_acquired r = None"
    and "n \<le> m" and "\<And>p. awaits r p \<Longrightarrow> p < m" and "\<And>p. awaits r p \<Longrightarrow> awaits (rs ! i) p \<or> n \<le> p"
  shows "clients_ok m (rs[i := r])"
proof -
  have "awaits ((rs[i := r]) ! j) p \<Longrightarrow> awaits (rs ! j) p \<or> j = i \<and> n \<le> p" if "j < length rs" for j p
    using that assms by (cases "j = i") auto
  moreover have "p < n" if "j < length rs" "awaits (rs ! j) p" for j p
    using assms(1) that by (auto simp: clients_ok_def)
  ultimately have uniq: "j = k" if "j < length rs" "k < length rs" "awaits ((rs[i := r]) ! j) p" "awaits ((rs[i := r]) ! k) p"
    for j k p using assms(1) that unfolding clients_ok_def by (metis leD)
  have "\<forall>x \<in> set (rs[i := r]). (rv_pending x = None \<or> rv_acquired x = None) \<and> (\<forall>p. awaits x p \<longrightarrow> p < m)"
    using assms set_update_subset_insert [of rs i r] unfolding clients_ok_def by (metis insert_iff less_le_trans subsetD)
  with uniq show ?thesis by (auto simp: clients_ok_def)
qed

lemma entries_update:
  assumes "entries_ok ty promises rs q" and "i < length rs"
    and "\<And>p. waits_for ty p (rs ! i) \<Longrightarrow> p \<in> snd ` set (cq_queue q) \<Longrightarrow> waits_for ty p r"
  shows "entries_ok ty promises (rs[i := r]) q"
proof -
  have "\<exists>x \<in> set (rs[i := r]). waits_for ty p x"
    if p: "p \<in> snd ` set (cq_queue q)" and x: "x \<in> set rs" "waits_for ty p x" for p x
  proof -
    obtain j where j: "j < length rs" "rs ! j = x" using x(1) by (auto simp: in_set_conv_nth)
    then have "waits_for ty p ((rs[i := r]) ! j)" using assms(2) x(2) p assms(3) by (cases "j = i") auto
    with j(1) show ?thesis by (metis length_list_update nth_mem)
  qed
  with assms(1) show ?thesis unfolding entries_ok_def by meson
qed

text \<open>
  A reservation of the type \<^verbatim>\<open>ty\<close> that changes whether it holds capacity leaves a debt.
\<close>

lemma slots_reservation:
  assumes ok: "slots_ok s" and i: "i < length (cs_reservations s)"
    and clients: "clients_ok (length (co_promises (cs_control s))) ((cs_reservations s)[i := r])"
    and idle: "\<And>p. \<not> awaits (cs_reservations s ! i) p \<or> co_promises (cs_control s) ! p"
    and count: "\<And>ty'. map_of (co_queues (cs_control s)) ty' \<noteq> None \<or> (ty' = Evaluation \<and> \<not> co_evalQueueResolved (cs_control s)) \<Longrightarrow>
      int (of_bool (holds ty' (co_promises (cs_control s)) (cs_reservations s ! i)))
        = of_bool (holds ty' (co_promises (cs_control s)) r) + (if ty' = ty then debt else 0)"
    and eval: "ty = Evaluation \<Longrightarrow> debt \<noteq> 0 \<Longrightarrow> co_evalQueueResolved (cs_control s)"
  shows "slots_but debt ty (s\<lparr>cs_reservations := (cs_reservations s)[i := r]\<rparr>)"
proof -
  let ?c = "cs_control s" and ?rs = "cs_reservations s"
  have n: "int (length (filter (holds ty' (co_promises ?c)) (?rs[i := r])))
      = int (length (filter (holds ty' (co_promises ?c)) ?rs)) - (if ty' = ty then debt else 0)"
    if "map_of (co_queues ?c) ty' \<noteq> None \<or> (ty' = Evaluation \<and> \<not> co_evalQueueResolved ?c)" for ty'
    using arg_cong [OF count_update [OF i, of "holds ty' (co_promises ?c)" r], of int] count [OF that]
    by (simp only: of_nat_add of_nat_of_bool)
  have "queue_ok (if ty' = ty then debt else 0) ty' (co_promises ?c) (?rs[i := r]) (map_of (co_limits ?c) ty') q"
    if q: "map_of (co_queues ?c) ty' = Some q" for ty' q
  proof -
    have "queue_ok 0 ty' (co_promises ?c) ?rs (map_of (co_limits ?c) ty') q"
      by (rule slots_queue_ok [OF ok q])
    then obtain l where old: "entries_ok ty' (co_promises ?c) ?rs q" "l > 0" "map_of (co_limits ?c) ty' = Some l"
      "balanced 0 ty' (co_promises ?c) ?rs l q" by (auto simp: queue_ok_def)
    have "entries_ok ty' (co_promises ?c) (?rs[i := r]) q"
    proof (rule entries_update [OF old(1) i])
      fix p assume "waits_for ty' p (?rs ! i)" "p \<in> snd ` set (cq_queue q)"
      with idle [of p] old(1) show "waits_for ty' p r" by (auto simp: entries_ok_def dest: waits_for_awaits)
    qed
    with old n [of ty'] q show ?thesis by (simp add: queue_ok_def balanced_def)
  qed
  moreover have "length (filter (holds Evaluation (co_promises ?c)) (?rs[i := r])) = 0"
    if "\<not> co_evalQueueResolved ?c"
    using n [of Evaluation] that ok eval
    by (cases "debt = 0") (auto simp: slots_but_def Let_def split: if_splits)
  ultimately show ?thesis using ok clients by (simp add: slots_but_def Let_def)
qed

lemma settled_append: "(\<And>p. x = Some p \<Longrightarrow> p < length promises) \<Longrightarrow>
    is_settled (promises @ [False]) x = is_settled promises x"
  by (cases x) (auto simp: is_settled_def nth_append)

lemma slots_promise:
  assumes "slots_ok s"
  shows "slots_ok (s\<lparr>cs_control := (cs_control s)\<lparr>co_promises := co_promises (cs_control s) @ [False]\<rparr>\<rparr>)"
proof -
  let ?ps = "co_promises (cs_control s)" and ?rs = "cs_reservations s"
  have clients: "clients_ok (length ?ps) ?rs" using assms by (simp add: slots_but_def Let_def)
  then have "holds ty (?ps @ [False]) r = holds ty ?ps r" if "r \<in> set ?rs" for ty r
    using that by (auto simp: holds_def clients_ok_def awaits_def settled_append split: option.splits)
  then have "filter (holds ty (?ps @ [False])) ?rs = filter (holds ty ?ps) ?rs" for ty
    by (simp cong: filter_cong)
  moreover have "entries_ok ty (?ps @ [False]) ?rs q" if "entries_ok ty ?ps ?rs q" for ty q
    using that by (auto simp: entries_ok_def nth_append)
  moreover have "clients_ok (Suc (length ?ps)) ?rs" using clients unfolding clients_ok_def by (metis less_Suc_eq)
  ultimately show ?thesis using assms by (simp add: slots_but_def Let_def queue_ok_def balanced_def)
qed

text \<open>A reservation that asks a queue for capacity gets it, or waits for a promise of its own.\<close>

definition idle :: "reservation \<Rightarrow> bool" where
  "idle r \<longleftrightarrow> rv_pending r = None \<and> rv_acquired r = None"

lemma idle_simps: "idle r \<Longrightarrow> \<not> holds ty ps r" "idle r \<Longrightarrow> \<not> awaits r p"
  by (simp_all add: idle_def holds_def awaits_def)

lemma idle_clients:
  assumes "slots_ok s" and "i < length (cs_reservations s)" and "rv_acquired r = None"
    and "length (co_promises (cs_control s)) \<le> m"
    and "\<And>p. awaits r p \<Longrightarrow> length (co_promises (cs_control s)) \<le> p \<and> p < m"
  shows "clients_ok m ((cs_reservations s)[i := r])"
  using assms by (intro clients_update [OF _ assms(2), of "length (co_promises (cs_control s))"])
    (auto simp: slots_but_def Let_def)

lemma grant_ok:
  assumes ok: "slots_ok s" and i: "i < length (cs_reservations s)" and idle: "idle (cs_reservations s ! i)"
    and ty: "getQueueType (ct_mode target) = Inr (Some ty)" "map_of (co_queues (cs_control s)) ty = Some q"
    and r: "r = (cs_reservations s ! i)\<lparr>rv_pending := Some (target, None)\<rparr>"
  shows "slots_ok (s\<lparr>cs_control := (cs_control s)\<lparr>co_queues :=
      AList.update ty (q\<lparr>cq_capacity := cq_capacity q - 1\<rparr>) (co_queues (cs_control s))\<rparr>,
    cs_reservations := (cs_reservations s)[i := r]\<rparr>)"
proof -
  let ?s = "s\<lparr>cs_reservations := (cs_reservations s)[i := r]\<rparr>"
  have "holds ty' ps r \<longleftrightarrow> ty' = ty" for ty' ps
    using idle ty by (auto simp: holds_def r idle_def is_settled_def)
  moreover have "co_evalQueueResolved (cs_control s)" if "ty = Evaluation"
    using ok ty(2) that by (auto simp: slots_but_def Let_def)
  moreover have "\<not> awaits r p" "rv_acquired r = None" for p using idle by (simp_all add: awaits_def r idle_def)
  ultimately have s1: "slots_but (- 1) ty ?s"
    using idle_simps [OF idle] by (intro slots_reservation [OF ok i idle_clients [OF ok i]]) auto
  have "slots_ok (?s\<lparr>cs_control := (cs_control ?s)\<lparr>co_queues :=
      AList.update ty (q\<lparr>cq_capacity := cq_capacity q - 1\<rparr>) (co_queues (cs_control ?s))\<rparr>\<rparr>)"
    using ty(2) by (intro slots_put [OF s1]) (auto simp: queue_ok_def balanced_def entries_ok_def)
  then show ?thesis by (simp add: system_swap)
qed

lemma wait_ok:
  assumes ok: "slots_ok s" and i: "i < length (cs_reservations s)" and idle: "idle (cs_reservations s ! i)"
    and ty: "getQueueType (ct_mode target) = Inr (Some ty)" "map_of (co_queues (cs_control s)) ty = Some q"
    and p: "p = length (co_promises (cs_control s))"
    and r: "r = (cs_reservations s ! i)\<lparr>rv_pending := Some (target, Some p)\<rparr>"
    and q': "q' = q\<lparr>cq_capacity := cq_capacity q - 1, cq_queue := cq_queue q @ [(e, p)]\<rparr>"
  shows "slots_ok (s\<lparr>cs_control := (cs_control s)\<lparr>co_queues := AList.update ty q' (co_queues (cs_control s)),
      co_promises := co_promises (cs_control s) @ [False], co_events := es\<rparr>,
    cs_reservations := (cs_reservations s)[i := r]\<rparr>)"
proof -
  let ?s = "s\<lparr>cs_control := (cs_control s)\<lparr>co_promises := co_promises (cs_control s) @ [False]\<rparr>\<rparr>"
  let ?t = "?s\<lparr>cs_reservations := (cs_reservations ?s)[i := r]\<rparr>"
  have ok1: "slots_ok ?s" using ok by (rule slots_promise)
  have i1: "i < length (cs_reservations ?s)" using i by simp
  have r_simps: "rv_acquired r = None" "awaits r p' \<longleftrightarrow> p' = p" "waits_for ty p r"
    "\<not> holds ty' (co_promises (cs_control ?s)) r" for p' ty'
    using idle ty by (auto simp: r idle_def awaits_def waits_for_def holds_def is_settled_def p nth_append)
  have "clients_ok (length (co_promises (cs_control ?s))) ((cs_reservations ?s)[i := r])"
    using idle_clients [OF ok i r_simps(1)] r_simps(2) p by simp
  then have ok2: "slots_but 0 ty ?t"
    using idle_simps [OF idle] r_simps by (intro slots_reservation [OF ok1 i1]) auto
  have q: "map_of (co_queues (cs_control ?t)) ty = Some q" using ty(2) by simp
  have "p \<notin> snd ` set (cq_queue q)"
    using slots_queue_ok [OF ok ty(2)] p by (auto simp: queue_ok_def entries_ok_def)
  moreover have "r \<in> set (cs_reservations ?t)" using i by (simp add: set_update_memI)
  moreover have "p < length (co_promises (cs_control ?t))" "\<not> co_promises (cs_control ?t) ! p" by (simp_all add: p)
  ultimately have entries: "entries_ok ty (co_promises (cs_control ?t)) (cs_reservations ?t) q'"
    if "entries_ok ty (co_promises (cs_control ?t)) (cs_reservations ?t) q"
    using that r_simps(3) unfolding entries_ok_def by (auto simp: q')
  have "slots_ok (?t\<lparr>cs_control := (cs_control ?t)\<lparr>co_queues := AList.update ty q' (co_queues (cs_control ?t)), co_events := es\<rparr>\<rparr>)"
    using entries by (intro slots_put [OF ok2 q]) (auto simp: queue_ok_def balanced_def q')
  then show ?thesis by (simp add: system_swap control_swap)
qed

lemma reserve_ok:
  assumes ok: "slots_ok s" and i: "reservation_of s i = Some r" and pending: "rv_pending r = None"
  shows "slots_ok (put_reservation i (reserve cfg lic target r (cs_control s)) s)"
proof (cases "rv_acquired r")
  case (Some t)
  with ok show ?thesis by (simp add: reserve_def put_reservation_def)
next
  case None
  obtain c x where x: "limited_queue cfg lic (ct_mode target) (cs_control s) = (c, x)"
    by (cases "limited_queue cfg lic (ct_mode target) (cs_control s)")
  note limited = limited_queue_ok [OF ok x]
  define s1 where "s1 = s\<lparr>cs_control := c\<rparr>"
  have s1: "slots_ok s1" using limited(1) by (simp add: s1_def)
  have i1: "i < length (cs_reservations s1)" and r: "cs_reservations s1 ! i = r" and "idle r"
    using i None pending by (auto simp: s1_def reservation_of_def array_get_Some idle_def)
  then have idle: "idle (cs_reservations s1 ! i)" by simp
  consider e where "x = Inl e" | "x = Inr None" | ty q where "x = Inr (Some (ty, q))"
    by (metis sum.exhaust option.exhaust surj_pair)
  then show ?thesis
  proof cases
    case 1
    with None x s1 show ?thesis by (simp add: reserve_def throttle_def put_reservation_def s1_def)
  next
    case 2
    let ?r = "r\<lparr>rv_pending := Some (target, None)\<rparr>"
    have "holds ty ps ?r \<Longrightarrow> getQueueType (ct_mode target) = Inr (Some ty)" for ty ps
      using None by (simp add: holds_def)
    moreover have "\<not> awaits ?r p" "rv_acquired ?r = None" for p using None by (simp_all add: awaits_def)
    ultimately have "slots_but 0 Production (s1\<lparr>cs_reservations := (cs_reservations s1)[i := ?r]\<rparr>)"
      using limited(4) [OF 2] idle_simps [OF idle]
      by (intro slots_reservation [OF s1 i1 idle_clients [OF s1 i1]]) (auto simp: s1_def)
    with 2 None x show ?thesis by (simp add: reserve_def throttle_def put_reservation_def s1_def)
  next
    case (3 ty q)
    with limited(3) have ty: "getQueueType (ct_mode target) = Inr (Some ty)"
      "map_of (co_queues (cs_control s1)) ty = Some q" by (simp_all add: s1_def)
    show ?thesis
      using grant_ok [OF s1 i1 idle ty refl] wait_ok [OF s1 i1 idle ty refl refl refl] 3 None x
      unfolding r by (simp add: reserve_def throttle_def put_reservation_def enqueue_execution_def Let_def s1_def)
  qed
qed

lemma reserved_ok:
  assumes ok: "slots_ok s" and i: "reservation_of s i = Some r" and r': "reserved (cs_control s) r = Some r'"
  shows "slots_ok (s\<lparr>cs_reservations := (cs_reservations s)[i := r']\<rparr>)"
proof -
  have r: "i < length (cs_reservations s)" "cs_reservations s ! i = r"
    using i by (auto simp: reservation_of_def array_get_Some)
  from r' obtain target p where p: "rv_pending r = Some (target, p)" "is_settled (co_promises (cs_control s)) p"
    and r'_eq: "r' = r\<lparr>rv_pending := None, rv_acquired := Some target\<rparr>"
    by (auto simp: reserved_def split: option.splits if_splits)
  have clients: "clients_ok (length (co_promises (cs_control s))) (cs_reservations s)"
    using ok by (simp add: slots_but_def Let_def)
  then have "rv_acquired r = None" using p(1) r unfolding clients_ok_def by (metis nth_mem option.distinct(1))
  then have "holds ty (co_promises (cs_control s)) r' = holds ty (co_promises (cs_control s)) r" for ty
    using p by (auto simp: r'_eq holds_def)
  moreover have "clients_ok (length (co_promises (cs_control s))) ((cs_reservations s)[i := r'])"
    by (rule clients_update [OF clients r(1)]) (auto simp: r'_eq awaits_def)
  moreover have "\<not> awaits r p' \<or> co_promises (cs_control s) ! p'" for p'
    using p by (auto simp: awaits_def is_settled_def)
  ultimately show ?thesis using r by (intro slots_reservation [OF ok]) auto
qed

lemma release_ok:
  assumes ok: "slots_ok s" and i: "reservation_of s i = Some r"
  shows "slots_ok (put_reservation i (release_reservation cfg lic r (cs_control s)) s)"
proof (cases "rv_acquired r")
  case None
  with ok i show ?thesis
    by (auto simp: release_reservation_def put_reservation_def reservation_of_def array_get_Some)
next
  case (Some target)
  obtain c x where x: "limited_queue cfg lic (ct_mode target) (cs_control s) = (c, x)"
    by (cases "limited_queue cfg lic (ct_mode target) (cs_control s)")
  note limited = limited_queue_ok [OF ok x]
  let ?r = "r\<lparr>rv_acquired := None\<rparr>"
  define s1 where "s1 = s\<lparr>cs_control := c\<rparr>"
  have s1: "slots_ok s1" using limited(1) by (simp add: s1_def)
  have i1: "i < length (cs_reservations s1)" and r: "cs_reservations s1 ! i = r"
    using i by (auto simp: s1_def reservation_of_def array_get_Some)
  have clients: "clients_ok (length (co_promises (cs_control s1))) (cs_reservations s1)"
    using s1 by (simp add: slots_but_def Let_def)
  then have pending: "rv_pending r = None" using Some r i1 unfolding clients_ok_def by (metis nth_mem option.distinct(1))
  have clients': "clients_ok (length (co_promises (cs_control s1))) ((cs_reservations s1)[i := ?r])"
    by (rule clients_update [OF clients i1]) (auto simp: awaits_def pending)
  have awaits: "\<not> awaits (cs_reservations s1 ! i) p \<or> P" for p P using r pending by (simp add: awaits_def)
  have holds: "\<not> holds ty ps ?r" "holds ty ps r \<longleftrightarrow> getQueueType (ct_mode target) = Inr (Some ty)" for ty ps
    using pending Some by (simp_all add: holds_def)
  consider e where "x = Inl e" | "x = Inr None" | ty q where "x = Inr (Some (ty, q))"
    by (metis sum.exhaust option.exhaust surj_pair)
  then show ?thesis
  proof cases
    case 1
    with Some x s1 show ?thesis by (simp add: release_reservation_def release_def put_reservation_def s1_def)
  next
    case 2
    have "slots_but 0 Production (s1\<lparr>cs_reservations := (cs_reservations s1)[i := ?r]\<rparr>)"
      using limited(4) [OF 2] holds r by (intro slots_reservation [OF s1 i1 clients' awaits]) (auto simp: s1_def)
    with 2 Some x show ?thesis by (simp add: release_reservation_def release_def put_reservation_def s1_def)
  next
    case (3 ty q)
    with limited(3) have ty: "getQueueType (ct_mode target) = Inr (Some ty)"
      "map_of (co_queues (cs_control s1)) ty = Some q" by (simp_all add: s1_def)
    have "slots_but 1 ty (s1\<lparr>cs_reservations := (cs_reservations s1)[i := ?r]\<rparr>)"
      using holds r ty s1 by (intro slots_reservation [OF s1 i1 clients' awaits]) (auto simp: slots_but_def Let_def)
    from slots_resolve [OF this, of q "q\<lparr>cq_capacity := cq_capacity q + 1\<rparr>"] slots_queue_ok [OF s1 ty(2)]
    show ?thesis
      using 3 Some x ty by (simp add: release_reservation_def release_def put_reservation_def s1_def dequeue_execution_def
        queue_ok_def entries_ok_def system_swap)
  qed
qed

lemma remove_first_Some:
  "remove_first e items = Some rest \<Longrightarrow> length items = Suc (length rest) \<and> set rest \<subseteq> set items
    \<and> (distinct (map snd items) \<longrightarrow> distinct (map snd rest))"
  by (induction items arbitrary: rest) (force split: if_splits)+

lemma remove_entry_ok:
  assumes ok: "slots_ok s" and q: "map_of (co_queues (cs_control s)) ty = Some q"
  shows "slots_ok (s\<lparr>cs_control := put_resolved ty (remove_entry e q) (cs_control s)\<rparr>)"
proof (cases "remove_first e (cq_queue q)")
  case None
  have "slots_but 0 ty s" using ok slots_any by blast
  with None q show ?thesis
    by (intro slots_put [of 0 ty s q _ q]) (auto simp: remove_entry_def put_resolved_def)
next
  case (Some rest)
  have "distinct (map snd (cq_queue q))" using slots_queue_ok [OF ok q] by (simp add: queue_ok_def entries_ok_def)
  moreover have "slots_but 0 ty s" using ok slots_any by blast
  ultimately show ?thesis
    using slots_resolve [of 0 ty s q "q\<lparr>cq_queue := rest, cq_capacity := cq_capacity q + 1\<rparr>"] q Some
      remove_first_Some [OF Some] by (simp add: remove_entry_def image_mono)
qed

lemma removeAll_ok:
  assumes "slots_ok s" shows "slots_ok (s\<lparr>cs_control := removeAll ids (cs_control s)\<rparr>)"
proof -
  have entry: "slots_ok (s\<lparr>cs_control := remove_from ty e c\<rparr>)" if "slots_ok (s\<lparr>cs_control := c\<rparr>)" for ty e c
    using remove_entry_ok [OF that] that by (auto simp: remove_from_def split: option.split)
  have queue: "slots_ok (s\<lparr>cs_control := empty_queue ty c\<rparr>)" if "slots_ok (s\<lparr>cs_control := c\<rparr>)" for ty c
    using that entry by (auto simp: empty_queue_def split: option.split
        intro!: fold_invariant_set [where P = "\<lambda>c. slots_ok (s\<lparr>cs_control := c\<rparr>)"])
  have "slots_ok (s\<lparr>cs_control := fold empty_queue tys c\<rparr>)" if "slots_ok (s\<lparr>cs_control := c\<rparr>)" for tys c
    using that queue by (intro fold_invariant_set [where P = "\<lambda>c. slots_ok (s\<lparr>cs_control := c\<rparr>)"])
  with assms show ?thesis by (auto simp: removeAll_def Let_def slots_but_def)
qed

lemma control_remove_ok:
  assumes "slots_ok s"
  shows "slots_ok (s\<lparr>cs_control := fst (control_remove cfg lic mode e (cs_control s))\<rparr>)"
proof -
  obtain c x where x: "limited_queue cfg lic mode (cs_control s) = (c, x)"
    by (cases "limited_queue cfg lic mode (cs_control s)")
  note limited = limited_queue_ok [OF assms x]
  show ?thesis
    using limited(1) limited(3) remove_entry_ok [OF limited(1)] x
    by (auto simp: control_remove_def split: sum.split option.split)
qed

text \<open>The steps of a service that is not disabled.\<close>

definition enabled_step :: "executions_config \<Rightarrow> capacity_action \<Rightarrow> capacity_system \<Rightarrow> capacity_system option" where
  "enabled_step cfg a s = (if a = Disable then None else capacity_step cfg a s)"

lemma new_reservation_ok:
  assumes "slots_ok s" shows "slots_ok (s\<lparr>cs_reservations := cs_reservations s @ [new_reservation]\<rparr>)"
proof -
  let ?rs = "cs_reservations s" and ?c = "cs_control s"
  have new: "\<not> holds ty ps new_reservation" "\<not> awaits new_reservation p" "\<not> waits_for ty p new_reservation" for ty ps p
    by (simp_all add: holds_def awaits_def waits_for_def new_reservation_def)
  have "clients_ok (length (co_promises ?c)) (?rs @ [new_reservation])"
    if "clients_ok (length (co_promises ?c)) ?rs"
    using that new unfolding clients_ok_def by (auto simp: nth_append less_Suc_eq new_reservation_def split: if_splits)
  with assms new show ?thesis
    by (simp add: slots_but_def Let_def queue_ok_def balanced_def entries_ok_def)
qed

interpretation capacity: invariant_machine "enabled_step cfg" slots_ok for cfg
proof
  fix s a s' assume "slots_ok s" "enabled_step cfg a s = Some s'"
  then show "slots_ok s'"
    by (cases a) (auto simp: enabled_step_def new_reservation_ok reserved_ok release_ok
        control_remove_ok removeAll_ok simp del: not_None_eq
        split: option.splits if_splits intro!: reserve_ok)
qed

lemma new_system_ok:
  assumes "new_concurrency cfg = Inr c" shows "slots_ok (new_system c)"
proof -
  have "entries_ok ty ps [] (new_queue l)" "balanced 0 ty ps [] l (new_queue l)" for ty ps l
    by (simp_all add: entries_ok_def balanced_def new_queue_def)
  moreover have "clients_ok n []" for n by (simp add: clients_ok_def)
  ultimately show ?thesis
    using assms by (auto simp: new_concurrency_def new_system_def slots_but_def Let_def add_queue_def queue_ok_def
      split: if_splits)
qed

section \<open>The limit\<close>

text \<open>
  A queue never holds back an execution while capacity is free, and its capacity is below zero by
  the number of those that wait, except for the slots given away by \<^verbatim>\<open>k\<close> removals.
\<close>

definition thrifty_queue :: "nat \<Rightarrow> conc_queue \<Rightarrow> bool" where
  "thrifty_queue k q \<longleftrightarrow> 0 \<le> cq_capacity q + int (length (cq_queue q)) + int k
     \<and> (cq_queue q \<noteq> [] \<longrightarrow> cq_capacity q + int (length (cq_queue q)) \<le> 0)"

definition thrifty :: "nat \<Rightarrow> concurrency \<Rightarrow> bool" where
  "thrifty k c = (\<forall>q \<in> set (ovals (co_queues c)). thrifty_queue k q)"

lemma thrifty_ops:
  "thrifty_queue k q \<Longrightarrow> thrifty_queue k (fst (enqueue_execution e p q))"
  "thrifty_queue k q \<Longrightarrow> thrifty_queue k (fst (dequeue_execution q))"
  "thrifty_queue k q \<Longrightarrow> thrifty_queue (Suc k) (fst (remove_entry e q))"
  "limit > 0 \<Longrightarrow> thrifty_queue k (new_queue limit)"
  by (auto simp: thrifty_queue_def enqueue_execution_def Let_def dequeue_execution_def resolveNext_def remove_entry_def new_queue_def
      dest!: remove_first_Some split: list.splits option.splits)

lemma thrifty_Suc: "thrifty k c \<Longrightarrow> thrifty (Suc k) c"
  by (auto simp: thrifty_def thrifty_queue_def)

lemma thrifty_update: "thrifty k c \<Longrightarrow> thrifty_queue k q \<Longrightarrow> co_queues c' = AList.update ty q (co_queues c) \<Longrightarrow> thrifty k c'"
  using set_vals_update [of ty q "co_queues c"] unfolding thrifty_def by (metis insert_iff subsetD)

lemma ensure_queues:
  "co_queues (fst (ensureEvalQueueResolved cfg lic c)) = co_queues c \<or>
   (\<exists>limit > 0. \<not> co_evalQueueResolved c \<and>
      co_queues (fst (ensureEvalQueueResolved cfg lic c)) = AList.update Evaluation (new_queue limit) (co_queues c))"
  by (auto simp: ensureEvalQueueResolved_def Let_def add_queue_def split: sum.split)

lemma thrifty_limited:
  assumes "thrifty k c" and "limited_queue cfg lic mode c = (c', r)"
  shows "thrifty k c'" and "r = Inr (Some (ty, q)) \<Longrightarrow> thrifty_queue k q"
proof -
  have "thrifty k (fst (ensureEvalQueueResolved cfg lic c))"
    using ensure_queues [of cfg lic c] assms(1) thrifty_ops(4) thrifty_update by (metis thrifty_def)
  with assms show "thrifty k c'"
    by (auto simp: limited_queue_def split: prod.splits option.splits if_splits)
  then show "thrifty_queue k q" if "r = Inr (Some (ty, q))"
    using that assms(2)
    by (auto simp: limited_queue_def getQueue_Some thrifty_def split: prod.splits option.splits if_splits
        dest!: map_of_in_vals)
qed

lemma put_resolved_queues: "co_queues (put_resolved ty r c) = AList.update ty (fst r) (co_queues c)"
  by (auto simp: put_resolved_def Let_def split: option.split)

definition is_removal :: "capacity_action \<Rightarrow> bool" where
  "is_removal a = (case a of Remove_execution lic target \<Rightarrow> True | Remove_all ids \<Rightarrow> True | _ \<Rightarrow> False)"

text \<open>What the calls do to the queues.\<close>

fun queues_after ::
    "(conc_queue \<Rightarrow> conc_queue) \<Rightarrow> concurrency \<times> (queue_type \<times> conc_queue) option res \<Rightarrow> (queue_type, conc_queue) omap" where
  "queues_after f (c, Inr (Some (ty, q))) = AList.update ty (f q) (co_queues c)"
| "queues_after f (c, Inr None) = co_queues c"
| "queues_after f (c, Inl e) = co_queues c"

lemma throttle_queues: "co_queues (fst (throttle cfg lic mode e c))
    = queues_after (\<lambda>q. fst (enqueue_execution e (length (co_promises (fst (limited_queue cfg lic mode c)))) q))
        (limited_queue cfg lic mode c)"
  by (cases "(\<lambda>q::conc_queue. q, limited_queue cfg lic mode c)" rule: queues_after.cases)
     (auto simp: throttle_def Let_def split: prod.split)

lemma release_queues: "co_queues (fst (release cfg lic mode c))
    = queues_after (\<lambda>q. fst (dequeue_execution q)) (limited_queue cfg lic mode c)"
  by (cases "(\<lambda>q::conc_queue. q, limited_queue cfg lic mode c)" rule: queues_after.cases)
     (auto simp: release_def put_resolved_queues)

lemma remove_queues: "co_queues (fst (control_remove cfg lic mode e c))
    = queues_after (\<lambda>q. fst (remove_entry e q)) (limited_queue cfg lic mode c)"
  by (cases "(\<lambda>q::conc_queue. q, limited_queue cfg lic mode c)" rule: queues_after.cases)
     (auto simp: control_remove_def put_resolved_queues)

lemma thrifty_after:
  assumes "thrifty k c" and "k \<le> k'" and "\<And>q. thrifty_queue k q \<Longrightarrow> thrifty_queue k' (f q)"
    and "co_queues c' = queues_after f (limited_queue cfg lic mode c)"
  shows "thrifty k' c'"
proof -
  obtain c1 r where r: "limited_queue cfg lic mode c = (c1, r)" by (cases "limited_queue cfg lic mode c")
  have c1: "thrifty k' c1" using thrifty_limited(1) [OF assms(1) r] assms(2)
    by (auto simp: thrifty_def thrifty_queue_def)
  show ?thesis
  proof (cases "(f, (c1, r))" rule: queues_after.cases)
    case (1 f' c' ty q)
    with thrifty_limited(2) [OF assms(1) r, of ty q] assms(3) have "thrifty_queue k' (f q)" by simp
    from thrifty_update [OF c1 this, of _ ty] 1 r assms(4) show ?thesis by simp
  qed (use c1 r assms(4) in \<open>simp_all add: thrifty_def\<close>)
qed

lemma put_reservation_control [simp]: "cs_control (put_reservation i x s) = fst x"
  by (auto simp: put_reservation_def split: prod.splits sum.splits)

lemma reserve_control:
  "fst (reserve cfg lic target r c) \<in> {c, fst (throttle cfg lic (ct_mode target) (ct_executionId target) c)}"
  by (auto simp: reserve_def split: prod.splits sum.splits)

lemma release_control:
  "fst (release_reservation cfg lic r c) \<in> insert c (range (\<lambda>mode. fst (release cfg lic mode c)))"
proof (cases "rv_acquired r")
  case (Some target)
  have "fst (release_reservation cfg lic r c) = fst (release cfg lic (ct_mode target) c)"
    by (simp add: release_reservation_def Some split: prod.split option.split)
  then show ?thesis by blast
qed (simp add: release_reservation_def)

text \<open>What a step does to the service, as one of a few calls.\<close>

lemma step_control:
  assumes "capacity_step cfg a s = Some s'" and "\<not> (\<exists>ids. a = Remove_all ids)"
  obtains "cs_control s' = cs_control s" | "a = Disable" "cs_control s' = disable_control (cs_control s)"
  | lic mode e where "cs_control s' = fst (throttle cfg lic mode e (cs_control s))"
  | lic mode where "cs_control s' = fst (release cfg lic mode (cs_control s))"
  | lic mode e where "is_removal a" "cs_control s' = fst (control_remove cfg lic mode e (cs_control s))"
proof (cases a)
  case (Reserve i lic target)
  with assms obtain r where "cs_control s' = fst (reserve cfg lic target r (cs_control s))"
    by (auto split: option.splits if_splits)
  with reserve_control [of cfg lic target r "cs_control s"] that(1,3) show ?thesis by auto
next
  case (Release i lic)
  with assms obtain r where "cs_control s' = fst (release_reservation cfg lic r (cs_control s))"
    by (auto split: option.splits)
  with release_control [of cfg lic r "cs_control s"] that(1,4) show ?thesis by auto
next
  case (Remove_execution lic target)
  with assms that(5) show ?thesis by (auto simp: is_removal_def)
qed (use assms that(1,2) in \<open>auto split: option.splits\<close>)

lemma capacity_step_thrifty:
  assumes "capacity_step cfg a s = Some s'" and "\<not> (\<exists>ids. a = Remove_all ids)" and "thrifty k (cs_control s)"
  shows "thrifty (if is_removal a then Suc k else k) (cs_control s')"
proof -
  let ?k = "if is_removal a then Suc k else k"
  have k: "k \<le> ?k" and same: "thrifty ?k (cs_control s)" using assms(3) by (auto simp: thrifty_Suc)
  have op: "thrifty_queue ?k (f q)" if "\<And>k. thrifty_queue k q \<Longrightarrow> thrifty_queue k (f q)" "thrifty_queue k q" for f q
    using that by (auto simp: thrifty_queue_def)
  from assms(1,2) show ?thesis
  proof (cases rule: step_control)
    case (3 lic mode e)
    have "thrifty_queue ?k (fst (enqueue_execution e p q))" if "thrifty_queue k q" for p q
      using that by (intro op thrifty_ops)
    then have "thrifty ?k (fst (throttle cfg lic mode e (cs_control s)))"
      by (rule thrifty_after [OF assms(3) k _ throttle_queues])
    with 3 show ?thesis by simp
  next
    case (4 lic mode)
    have "thrifty_queue ?k (fst (dequeue_execution q))" if "thrifty_queue k q" for q
      using that by (intro op thrifty_ops)
    with 4 show ?thesis using thrifty_after [OF assms(3) k _ release_queues] by (metis release_queues)
  next
    case (5 lic mode e)
    have "thrifty (Suc k) (fst (control_remove cfg lic mode e (cs_control s)))"
      by (rule thrifty_after [OF assms(3) _ thrifty_ops(3) remove_queues]) simp_all
    with 5 show ?thesis by simp
  qed (use same in \<open>simp_all add: thrifty_def disable_control_def\<close>)
qed

lemma run_thrifty:
  assumes "run_steps (capacity_step cfg) steps s = Some s'" and "\<forall>ids. Remove_all ids \<notin> set steps"
    and "thrifty k (cs_control s)"
  shows "thrifty (k + length (filter is_removal steps)) (cs_control s')"
  using assms
proof (induction steps arbitrary: s k)
  case (Cons a steps)
  from Cons.prems(1) obtain s1 where s1: "capacity_step cfg a s = Some s1" "run_steps (capacity_step cfg) steps s1 = Some s'"
    by (auto split: option.splits)
  have "\<not> (\<exists>ids. a = Remove_all ids)" using Cons.prems(2) by auto
  from capacity_step_thrifty [OF s1(1) this Cons.prems(3)]
  have "thrifty (if is_removal a then Suc k else k) (cs_control s1)" .
  from Cons.IH [OF s1(2) _ this] Cons.prems(2) show ?case by (auto split: if_splits)
qed simp

lemma run_enabled:
  "run_steps (capacity_step cfg) steps s = Some s' \<Longrightarrow> Disable \<notin> set steps \<Longrightarrow> run_steps (enabled_step cfg) steps s = Some s'"
  by (induction steps arbitrary: s) (auto simp: enabled_step_def split: option.splits)

lemma capacity_run:
  assumes "new_concurrency cfg = Inr c" and "run_steps (capacity_step cfg) steps (new_system c) = Some s"
    and "Disable \<notin> set steps" and "\<forall>ids. Remove_all ids \<notin> set steps"
  shows "slots_ok s" and "thrifty (length (filter is_removal steps)) (cs_control s)"
proof -
  have "thrifty 0 (cs_control (new_system c))"
    using assms(1) by (auto simp: new_concurrency_def Let_def new_system_def thrifty_def add_queue_def
      thrifty_ops split: if_splits)
  from run_thrifty [OF assms(2,4) this] show "thrifty (length (filter is_removal steps)) (cs_control s)" by simp
  show "slots_ok s" by (rule capacity.inv_run [OF new_system_ok [OF assms(1)] run_enabled [OF assms(2,3)]])
qed

lemma capacity_bound:
  assumes "slots_ok s" and "thrifty k (cs_control s)" and q: "map_of (co_queues (cs_control s)) ty = Some q"
  shows "\<exists>limit > 0. map_of (co_limits (cs_control s)) ty = Some limit \<and> int (held ty s) \<le> limit + int k
    \<and> (cq_queue q \<noteq> [] \<longrightarrow> limit \<le> int (held ty s))"
proof -
  have "thrifty_queue k q" using assms(2) q unfolding thrifty_def by (metis map_of_in_vals)
  moreover from slots_queue_ok [OF assms(1) q] obtain limit where "limit > 0"
    "map_of (co_limits (cs_control s)) ty = Some limit"
    "cq_capacity q + int (held ty s) + int (length (cq_queue q)) = limit"
    by (auto simp: queue_ok_def balanced_def held_def)
  ultimately show ?thesis by (auto simp: thrifty_queue_def)
qed

text \<open>
  As long as the service is not disabled, the executions that hold capacity are never more
  than the limit and the number of removals so far; in particular the limit is kept if no
  waiting execution is removed.  And none waits while capacity is free.
\<close>

theorem executions_within_limit:
  assumes "new_concurrency cfg = Inr c" and "run_steps (capacity_step cfg) steps (new_system c) = Some s"
    and "Disable \<notin> set steps" and "\<forall>ids. Remove_all ids \<notin> set steps"
    and "map_of (co_queues (cs_control s)) ty = Some q"
  shows "\<exists>limit > 0. map_of (co_limits (cs_control s)) ty = Some limit
    \<and> int (held ty s) \<le> limit + int (length (filter is_removal steps))
    \<and> (cq_queue q \<noteq> [] \<longrightarrow> limit \<le> int (held ty s))"
  using capacity_bound [OF capacity_run [OF assms(1-4)] assms(5)] .

section \<open>First in, first out\<close>

definition throttled :: "queue_type \<Rightarrow> conc_event list \<Rightarrow> string list" where
  "throttled ty es = [e. Execution_throttled ty' e \<leftarrow> es, ty' = ty]"

definition released :: "queue_type \<Rightarrow> conc_event list \<Rightarrow> string list" where
  "released ty es = [e. Execution_released ty' e \<leftarrow> es, ty' = ty]"

definition waiting_in :: "queue_type \<Rightarrow> concurrency \<Rightarrow> string list" where
  "waiting_in ty c = (case map_of (co_queues c) ty of None \<Rightarrow> [] | Some q \<Rightarrow> map fst (cq_queue q))"

definition in_order :: "concurrency \<Rightarrow> bool" where
  "in_order c \<longleftrightarrow> (\<not> co_evalQueueResolved c \<longrightarrow> map_of (co_queues c) Evaluation = None)
     \<and> (\<forall>ty. throttled ty (co_events c) = released ty (co_events c) @ waiting_in ty c)"

lemma event_simps [simp]:
  "throttled ty (es @ [Execution_throttled ty' e]) = throttled ty es @ (if ty' = ty then [e] else [])"
  "throttled ty (es @ [Execution_released ty' e]) = throttled ty es"
  "released ty (es @ [Execution_throttled ty' e]) = released ty es"
  "released ty (es @ [Execution_released ty' e]) = released ty es @ (if ty' = ty then [e] else [])"
  by (simp_all add: throttled_def released_def)

lemma limited_in_order:
  assumes "in_order c" and "limited_queue cfg lic mode c = (c', r)"
  shows "in_order c'" and "r = Inr (Some (ty, q)) \<Longrightarrow> map_of (co_queues c') ty = Some q"
proof -
  have "in_order (fst (ensureEvalQueueResolved cfg lic c))"
    using assms(1) by (auto simp: in_order_def waiting_in_def ensureEvalQueueResolved_def Let_def add_queue_def new_queue_def
      split: sum.split)
  with assms show "in_order c'"
    by (auto simp: limited_queue_def split: prod.splits option.splits if_splits)
  show "map_of (co_queues c') ty = Some q" if "r = Inr (Some (ty, q))"
    using that assms(2) by (auto simp: limited_queue_def getQueue_Some split: prod.splits option.splits if_splits)
qed

lemma throttle_in_order:
  assumes "in_order c" shows "in_order (fst (throttle cfg lic mode e c))"
proof -
  obtain c1 r where r: "limited_queue cfg lic mode c = (c1, r)" by (cases "limited_queue cfg lic mode c")
  from limited_in_order [OF assms r] r show ?thesis
    by (cases "(\<lambda>q::conc_queue. q, (c1, r))" rule: queues_after.cases)
       (auto simp: throttle_def enqueue_execution_def Let_def in_order_def waiting_in_def)
qed

lemma release_in_order:
  assumes "in_order c" shows "in_order (fst (release cfg lic mode c))"
proof -
  obtain c1 r where r: "limited_queue cfg lic mode c = (c1, r)" by (cases "limited_queue cfg lic mode c")
  from limited_in_order [OF assms r] r show ?thesis
    by (cases "(\<lambda>q::conc_queue. q, (c1, r))" rule: queues_after.cases)
       (auto simp: release_def dequeue_execution_def resolveNext_def put_resolved_def Let_def in_order_def waiting_in_def
         split: list.splits)
qed

definition keeping_step :: "executions_config \<Rightarrow> capacity_action \<Rightarrow> capacity_system \<Rightarrow> capacity_system option" where
  "keeping_step cfg a s = (if is_removal a then None else capacity_step cfg a s)"

interpretation fifo: invariant_machine "keeping_step cfg" "\<lambda>s. in_order (cs_control s)" for cfg
proof
  fix s a s' assume ok: "in_order (cs_control s)" and "keeping_step cfg a s = Some s'"
  then have step: "capacity_step cfg a s = Some s'" "\<not> is_removal a" "\<not> (\<exists>ids. a = Remove_all ids)"
    by (auto simp: keeping_step_def is_removal_def split: if_splits)
  from step(1,3) show "in_order (cs_control s')"
    by (cases rule: step_control)
       (use ok step(2) throttle_in_order release_in_order in
         \<open>simp_all add: in_order_def waiting_in_def disable_control_def\<close>)
qed

text \<open>
  C18. Executions that wait for capacity get it in the order in which they asked, as long as none
  that waits is removed: the executions of a queue that were held back are those released, in
  the same order, and then those that still wait.
\<close>

theorem executions_released_in_order:
  assumes "new_concurrency cfg = Inr c" and "run_steps (capacity_step cfg) steps (new_system c) = Some s"
    and "\<not> (\<exists>a \<in> set steps. is_removal a)"
  shows "throttled ty (co_events (cs_control s)) = released ty (co_events (cs_control s)) @ waiting_in ty (cs_control s)"
proof -
  have "in_order (cs_control (new_system c))"
    using assms(1) by (auto simp: new_concurrency_def Let_def new_system_def in_order_def waiting_in_def add_queue_def
      new_queue_def throttled_def released_def split: if_splits)
  moreover have "run_steps (keeping_step cfg) steps t = Some s" if "run_steps (capacity_step cfg) steps t = Some s" for t
    using that assms(3) by (induction steps arbitrary: t) (auto simp: keeping_step_def split: option.splits)
  ultimately show ?thesis using fifo.inv_run assms(2) by (metis in_order_def)
qed

section \<open>A removal lets one execution too many run\<close>

text \<open>
  Removing an execution that waits gives back capacity it never had, and then resolves the next
  that waits: with a limit of one, two run.
\<close>

definition one_production :: executions_config where
  "one_production = \<lparr>xc_queue_mode = False, xc_productionLimit = 1, xc_evaluationLimit = - 1, xc_env_set = False\<rparr>"

definition community :: license where
  "community = \<lparr>li_quota = None, li_planName = ''Community''\<rparr>"

definition webhook_run :: "string \<Rightarrow> capacity_target" where
  "webhook_run i = \<lparr>ct_executionId = i, ct_mode = Mode_webhook\<rparr>"

definition three_runs :: "capacity_action list" where
  "three_runs = concat (map (\<lambda>(n, i). [New_reservation, Reserve n community (webhook_run i)])
     [(0, ''1''), (1, ''2''), (2, ''3'')])"

definition run_system :: "executions_config \<Rightarrow> capacity_action list \<Rightarrow> capacity_system option" where
  "run_system cfg steps =
     (case new_concurrency cfg of Inl e \<Rightarrow> None | Inr c \<Rightarrow> run_steps (capacity_step cfg) steps (new_system c))"

lemma removal_exceeds_limit:
  "map_option (held Production) (run_system one_production three_runs) = Some 1"
  "map_option (held Production)
     (run_system one_production (three_runs @ [Remove_execution community (webhook_run ''2'')])) = Some 2"
  by code_simp+

text \<open>The theorems at this run: the bound is reached, and the third execution overtakes none.\<close>

lemma executions_within_limit_witness:
  "\<exists>c s q. new_concurrency one_production = Inr c
    \<and> run_steps (capacity_step one_production) (three_runs @ [Remove_execution community (webhook_run ''2'')]) (new_system c) = Some s
    \<and> map_of (co_queues (cs_control s)) Production = Some q \<and> held Production s = 2
    \<and> (\<exists>limit > 0. map_of (co_limits (cs_control s)) Production = Some limit \<and> int (held Production s) \<le> limit + 1)"
proof -
  define steps where "steps = three_runs @ [Remove_execution community (webhook_run ''2'')]"
  define start where "start = new_concurrency one_production"
  have "\<not> Option.is_none (case start of Inl e \<Rightarrow> None | Inr c \<Rightarrow> Some c)" unfolding start_def by code_simp
  then obtain c where c: "new_concurrency one_production = Inr c" unfolding start_def by (auto split: sum.splits)
  define result where "result = run_system one_production steps"
  have "map_option (\<lambda>s. (held Production s, Option.is_none (map_of (co_queues (cs_control s)) Production))) result = Some (2, False)"
    unfolding result_def steps_def by code_simp
  then obtain s q where s: "result = Some s" "held Production s = 2" "map_of (co_queues (cs_control s)) Production = Some q"
    by (auto simp: Option.is_none_def split: option.splits simp del: map_of_eq_Some_iff) 
  then have run: "run_steps (capacity_step one_production) steps (new_system c) = Some s"
    using c by (simp add: result_def run_system_def)
  have "Disable \<notin> set steps" "\<forall>ids. Remove_all ids \<notin> set steps" "length (filter is_removal steps) = 1"
    unfolding steps_def by (simp_all add: three_runs_def is_removal_def)
  with executions_within_limit [OF c run _ _ s(3)] have "\<exists>limit > 0. map_of (co_limits (cs_control s)) Production = Some limit
      \<and> int (held Production s) \<le> limit + 1" by auto
  with c run s(2,3) show ?thesis unfolding steps_def by blast
qed

lemma executions_released_in_order_witness:
  "\<exists>c s. new_concurrency one_production = Inr c
    \<and> run_steps (capacity_step one_production) (three_runs @ [Reserved 0, Release 0 community]) (new_system c) = Some s
    \<and> throttled Production (co_events (cs_control s)) = [''2'', ''3'']
    \<and> throttled Production (co_events (cs_control s))
      = released Production (co_events (cs_control s)) @ waiting_in Production (cs_control s)"
proof -
  define steps where "steps = three_runs @ [Reserved 0, Release 0 community]"
  define start where "start = new_concurrency one_production"
  have "\<not> Option.is_none (case start of Inl e \<Rightarrow> None | Inr c \<Rightarrow> Some c)" unfolding start_def by code_simp
  then obtain c where c: "new_concurrency one_production = Inr c" unfolding start_def by (auto split: sum.splits)
  define result where "result = run_system one_production steps"
  have "map_option (\<lambda>s. throttled Production (co_events (cs_control s))) result = Some [''2'', ''3'']"
    unfolding result_def steps_def by code_simp
  then obtain s where s: "result = Some s" "throttled Production (co_events (cs_control s)) = [''2'', ''3'']" by auto
  then have run: "run_steps (capacity_step one_production) steps (new_system c) = Some s"
    using c by (simp add: result_def run_system_def)
  have "\<not> (\<exists>a \<in> set steps. is_removal a)" unfolding steps_def by (simp add: three_runs_def is_removal_def)
  from executions_released_in_order [OF c run this] c run s(2) show ?thesis unfolding steps_def by blast
qed

end
