(* ===== verification/ActiveExecutions.thy ===== *)
theory ActiveExecutions
  imports Concurrency
begin

text \<open>
  \<^verbatim>\<open>packages/cli/src/active-executions.ts\<close>: the executions of this process, from the moment their
  capacity is reserved to the moment their promise settles.  Executions are objects with an
  identity, as a resumed execution takes the place of the one that waits under the same id; each
  has a promise (\<^verbatim>\<open>ex_post\<close>), whose handler runs once at any time after it was settled.  A call
  of \<^verbatim>\<open>add\<close> is an element of \<^verbatim>\<open>ax_adding\<close>, with the phase it is in; the answers of the database are
  parameters of its steps and the calls of it are a trace.  Logging is left out.
\<close>

section \<open>State\<close>

datatype cancellation_reason = Manual | Timeout | Shutdown

record cancellation =
  cn_executionId :: string
  cn_reason :: cancellation_reason

definition execution_cancelled_error :: "cancellation \<Rightarrow> js_error" where
  "execution_cancelled_error c = JsError
     (case cn_reason c of Manual \<Rightarrow> ''ManualExecutionCancelledError'' | Timeout \<Rightarrow> ''TimeoutExecutionCancelledError''
      | Shutdown \<Rightarrow> ''SystemShutdownExecutionCancelledError'')
     (case cn_reason c of Manual \<Rightarrow> ''The execution was cancelled manually''
      | Timeout \<Rightarrow> ''The execution was cancelled because it timed out''
      | Shutdown \<Rightarrow> ''The execution was cancelled because the system is shutting down'') None"

record execution_request =
  er_mode :: execute_mode
  er_workflowId :: "string option"
  er_workflowName :: "string option"
  er_retryOf :: "string option"
  er_httpResponse :: "nat option"

datatype post_result = Post_run "jval option" | Post_cancelled cancellation

text \<open>\<^verbatim>\<open>ex_id\<close> and \<^verbatim>\<open>ex_reservation\<close> are what the handler of the promise captures.\<close>

record executing =
  ex_id :: string
  ex_data :: execution_request
  ex_startedAt :: int
  ex_status :: execution_status
  ex_post :: "post_result option"
  ex_responsePromise :: "nat option"
  ex_workflowExecution :: "nat option"
  ex_reservation :: nat
  ex_handled :: bool

text \<open>Where a call of \<^verbatim>\<open>add\<close> waits: for the database, or for capacity.\<close>

datatype add_phase = Creating | Reserving | Setting_running | Updating | Added nat | Add_failed js_error

record adding =
  ad_data :: execution_request
  ad_id :: "string option"
  ad_existing :: bool
  ad_reservation :: nat
  ad_phase :: add_phase

datatype response = Response_value jval | Response_cancelled cancellation

datatype db_call = Db_create execute_mode execution_status | Db_set_running string | Db_update string execution_status

datatype ax_event = Execution_cancelled string "string option" "string option" cancellation_reason
  | Stream_chunk nat jval | Stream_end nat | Workflow_cancel nat

record active_executions =
  ax_system :: capacity_system
  ax_active :: "(string, nat) omap"
  ax_objects :: "executing list"
  ax_adding :: "adding list"
  ax_responseModes :: "(string, string) omap"
  ax_responses :: "response option list"
  ax_db :: "db_call list"
  ax_events :: "ax_event list"

definition new_active :: "concurrency \<Rightarrow> active_executions" where
  "new_active c = \<lparr>ax_system = new_system c, ax_active = [], ax_objects = [], ax_adding = [],
     ax_responseModes = [], ax_responses = [], ax_db = [], ax_events = []\<rparr>"

section \<open>Queries\<close>

definition execution_ref :: "string \<Rightarrow> active_executions \<Rightarrow> nat option" where
  "execution_ref executionId s = map_of (ax_active s) executionId"

definition the_execution :: "active_executions \<Rightarrow> nat \<Rightarrow> executing" where
  "the_execution s i = ax_objects s ! i"

definition put_execution :: "nat \<Rightarrow> executing \<Rightarrow> active_executions \<Rightarrow> active_executions" where
  "put_execution i x s = s\<lparr>ax_objects := (ax_objects s)[i := x]\<rparr>"

definition active_has :: "string \<Rightarrow> active_executions \<Rightarrow> bool" where
  "active_has executionId s = (execution_ref executionId s \<noteq> None)"

definition getExecutionOrFail :: "string \<Rightarrow> active_executions \<Rightarrow> nat res" where
  "getExecutionOrFail executionId s =
     (case execution_ref executionId s of
        None \<Rightarrow> Inl (JsError ''ExecutionNotFoundError'' ''No active execution found'' None)
      | Some i \<Rightarrow> Inr i)"

record execution_summary =
  es_id :: string
  es_retryOf :: "string option"
  es_startedAt :: int
  es_mode :: execute_mode
  es_workflowId :: "string option"
  es_status :: execution_status

text \<open>
  \<^verbatim>\<open>Object.keys\<close>: ids that are array indices come first, in ascending order, then the others in the
  order in which they were added.
\<close>

definition is_digit :: "char \<Rightarrow> bool" where
  "is_digit c = (48 \<le> (of_char c :: nat) \<and> (of_char c :: nat) \<le> 57)"

definition index_value :: "string \<Rightarrow> nat" where
  "index_value k = foldl (\<lambda>n c. 10 * n + (of_char c - 48)) 0 k"

definition is_index :: "string \<Rightarrow> bool" where
  "is_index k = (k \<noteq> [] \<and> list_all is_digit k \<and> (k = ''0'' \<or> hd k \<noteq> CHR ''0'') \<and> index_value k < 4294967295)"

definition object_keys :: "(string, 'a) omap \<Rightarrow> string list" where
  "object_keys m = sort_key index_value (filter is_index (okeys m)) @ filter (\<lambda>k. \<not> is_index k) (okeys m)"

definition summary_of :: "active_executions \<Rightarrow> string \<Rightarrow> execution_summary" where
  "summary_of s executionId =
     (let x = the_execution s (the (execution_ref executionId s))
      in \<lparr>es_id = executionId, es_retryOf = er_retryOf (ex_data x), es_startedAt = ex_startedAt x,
          es_mode = er_mode (ex_data x), es_workflowId = er_workflowId (ex_data x), es_status = ex_status x\<rparr>)"

definition getActiveExecutions :: "active_executions \<Rightarrow> execution_summary list" where
  "getActiveExecutions s = map (summary_of s) (object_keys (ax_active s))"

definition getStatus :: "string \<Rightarrow> active_executions \<Rightarrow> execution_status res" where
  "getStatus executionId s =
     bind_res (getExecutionOrFail executionId s) (\<lambda>i. Inr (ex_status (the_execution s i)))"

text \<open>The state of the promise of an execution: \<^verbatim>\<open>None\<close> while it is pending.\<close>

definition getPostExecutePromise :: "string \<Rightarrow> active_executions \<Rightarrow> post_result option res" where
  "getPostExecutePromise executionId s =
     bind_res (getExecutionOrFail executionId s) (\<lambda>i. Inr (ex_post (the_execution s i)))"

definition setResponseMode :: "string \<Rightarrow> string \<Rightarrow> active_executions \<Rightarrow> active_executions" where
  "setResponseMode executionId mode s = s\<lparr>ax_responseModes := AList.update executionId mode (ax_responseModes s)\<rparr>"

definition getResponseMode :: "string \<Rightarrow> active_executions \<Rightarrow> string option" where
  "getResponseMode executionId s = map_of (ax_responseModes s) executionId"

section \<open>Changes of an execution\<close>

definition with_execution ::
    "string \<Rightarrow> (executing \<Rightarrow> executing) \<Rightarrow> active_executions \<Rightarrow> active_executions run" where
  "with_execution executionId f s =
     (case getExecutionOrFail executionId s of
        Inl e \<Rightarrow> raised e s
      | Inr i \<Rightarrow> normal (put_execution i (f (the_execution s i)) s))"

definition attachWorkflowExecution :: "string \<Rightarrow> nat \<Rightarrow> active_executions \<Rightarrow> active_executions run" where
  "attachWorkflowExecution executionId handle = with_execution executionId (ex_workflowExecution_update (\<lambda>_. Some handle))"

definition attachResponsePromise :: "string \<Rightarrow> nat \<Rightarrow> active_executions \<Rightarrow> active_executions run" where
  "attachResponsePromise executionId promise = with_execution executionId (ex_responsePromise_update (\<lambda>_. Some promise))"

definition setStatus :: "string \<Rightarrow> execution_status \<Rightarrow> active_executions \<Rightarrow> active_executions run" where
  "setStatus executionId status = with_execution executionId (ex_status_update (\<lambda>_. status))"

text \<open>Promises settle once.\<close>

definition settle_response :: "nat option \<Rightarrow> response \<Rightarrow> active_executions \<Rightarrow> active_executions" where
  "settle_response promise answer s =
     (case promise of
        None \<Rightarrow> s
      | Some p \<Rightarrow>
          if ax_responses s ! p \<noteq> None then s else s\<lparr>ax_responses := (ax_responses s)[p := Some answer]\<rparr>)"

definition settle_post :: "nat \<Rightarrow> post_result \<Rightarrow> active_executions \<Rightarrow> active_executions" where
  "settle_post i result s =
     (let x = the_execution s i
      in if ex_post x \<noteq> None then s else put_execution i (x\<lparr>ex_post := Some result\<rparr>) s)"

definition emit :: "ax_event \<Rightarrow> active_executions \<Rightarrow> active_executions" where
  "emit event s = s\<lparr>ax_events := ax_events s @ [event]\<rparr>"

definition resolveResponsePromise :: "string \<Rightarrow> jval \<Rightarrow> active_executions \<Rightarrow> active_executions" where
  "resolveResponsePromise executionId response s =
     (case execution_ref executionId s of
        None \<Rightarrow> s
      | Some i \<Rightarrow> settle_response (ex_responsePromise (the_execution s i)) (Response_value response) s)"

definition sendChunk :: "string \<Rightarrow> jval \<Rightarrow> active_executions \<Rightarrow> active_executions" where
  "sendChunk executionId chunk s =
     (case execution_ref executionId s of
        None \<Rightarrow> s
      | Some i \<Rightarrow>
          (case er_httpResponse (ex_data (the_execution s i)) of
             None \<Rightarrow> s
           | Some stream \<Rightarrow> emit (Stream_chunk stream chunk) s))"

definition forget :: "string \<Rightarrow> active_executions \<Rightarrow> active_executions" where
  "forget executionId s = s\<lparr>ax_active := AList.delete executionId (ax_active s)\<rparr>"

definition forget_mode :: "string \<Rightarrow> active_executions \<Rightarrow> active_executions" where
  "forget_mode executionId s = s\<lparr>ax_responseModes := AList.delete executionId (ax_responseModes s)\<rparr>"

definition stopExecution :: "string \<Rightarrow> cancellation \<Rightarrow> active_executions \<Rightarrow> active_executions" where
  "stopExecution executionId c s =
     (case execution_ref executionId s of
        None \<Rightarrow> s
      | Some i \<Rightarrow>
          (let x = the_execution s i;
               s = emit (Execution_cancelled executionId (er_workflowId (ex_data x)) (er_workflowName (ex_data x)) (cn_reason c)) s;
               s = settle_response (ex_responsePromise x) (Response_cancelled c) s
           in if ex_status x = Waiting then forget_mode executionId (forget executionId s)
              else settle_post i (Post_cancelled c)
                     (case ex_workflowExecution x of None \<Rightarrow> s | Some handle \<Rightarrow> emit (Workflow_cancel handle) s)))"

definition finalizeExecution :: "string \<Rightarrow> jval option \<Rightarrow> active_executions \<Rightarrow> active_executions" where
  "finalizeExecution executionId run s =
     (case execution_ref executionId s of
        None \<Rightarrow> s
      | Some i \<Rightarrow>
          settle_post i (Post_run run)
            (case er_httpResponse (ex_data (the_execution s i)) of
               None \<Rightarrow> s
             | Some stream \<Rightarrow> emit (Stream_end stream) s))"

definition resolveExecutionResponsePromise :: "string \<Rightarrow> active_executions \<Rightarrow> active_executions" where
  "resolveExecutionResponsePromise executionId s =
     (case execution_ref executionId s of
        None \<Rightarrow> s
      | Some i \<Rightarrow>
          if ex_status (the_execution s i) = Waiting then s
          else settle_response (ex_responsePromise (the_execution s i)) (Response_value (JObj [])) s)"

section \<open>Adding an execution\<close>

definition put_adding :: "nat \<Rightarrow> adding \<Rightarrow> active_executions \<Rightarrow> active_executions" where
  "put_adding n a s = s\<lparr>ax_adding := (ax_adding s)[n := a]\<rparr>"

definition the_reservation :: "active_executions \<Rightarrow> nat \<Rightarrow> reservation" where
  "the_reservation s r = cs_reservations (ax_system s) ! r"

definition put_system :: "nat \<Rightarrow> concurrency \<times> reservation res \<Rightarrow> active_executions \<Rightarrow> active_executions" where
  "put_system r result s = s\<lparr>ax_system := put_reservation r result (ax_system s)\<rparr>"

definition call_db :: "db_call \<Rightarrow> active_executions \<Rightarrow> active_executions" where
  "call_db call s = s\<lparr>ax_db := ax_db s @ [call]\<rparr>"

text \<open>\<^verbatim>\<open>capacityReservation.release()\<close>, with what it throws.\<close>

definition release_capacity ::
    "executions_config \<Rightarrow> license \<Rightarrow> nat \<Rightarrow> active_executions \<Rightarrow> active_executions run" where
  "release_capacity cfg lic r s =
     (let result = release_reservation cfg lic (the_reservation s r) (cs_control (ax_system s))
      in (put_system r result s, case snd result of Inl e \<Rightarrow> Some e | Inr _ \<Rightarrow> None))"

text \<open>The exception handler of \<^verbatim>\<open>add\<close>.\<close>

definition fail_add :: "executions_config \<Rightarrow> license \<Rightarrow> nat \<Rightarrow> adding \<Rightarrow> js_error \<Rightarrow> active_executions \<Rightarrow> active_executions" where
  "fail_add cfg lic n a e s =
     (case release_capacity cfg lic (ad_reservation a) s of
        (s, Some e') \<Rightarrow> put_adding n (a\<lparr>ad_phase := Add_failed e'\<rparr>) s
      | (s, None) \<Rightarrow> put_adding n (a\<lparr>ad_phase := Add_failed e\<rparr>) s)"

text \<open>\<^verbatim>\<open>executionStatus\<close> in the end: an id that is given is falsy if it is empty.\<close>

definition add_status :: "adding \<Rightarrow> execution_status" where
  "add_status a = (if ad_existing a \<and> ad_id a = Some [] then New else Running)"

text \<open>
  The part after the \<^verbatim>\<open>try\<close>: the execution takes the place of the one it resumes, if there is
  one, and keeps its start time and its response promise.
\<close>

definition finish_add :: "int \<Rightarrow> nat \<Rightarrow> adding \<Rightarrow> string \<Rightarrow> active_executions \<Rightarrow> active_executions" where
  "finish_add now n a executionId s =
     (let resuming = map_option (the_execution s) (execution_ref executionId s); i = length (ax_objects s);
          x = \<lparr>ex_id = executionId, ex_data = ad_data a, ex_startedAt = (case resuming of None \<Rightarrow> now | Some y \<Rightarrow> ex_startedAt y),
               ex_status = add_status a, ex_post = None,
               ex_responsePromise = (case resuming of None \<Rightarrow> None | Some y \<Rightarrow> ex_responsePromise y),
               ex_workflowExecution = None, ex_reservation = ad_reservation a, ex_handled = False\<rparr>
      in put_adding n (a\<lparr>ad_phase := Added i\<rparr>)
           (s\<lparr>ax_objects := ax_objects s @ [x], ax_active := AList.update executionId i (ax_active s)\<rparr>))"

text \<open>With capacity: the database is updated and the execution starts.\<close>

definition with_capacity :: "executions_config \<Rightarrow> int \<Rightarrow> nat \<Rightarrow> adding \<Rightarrow> string \<Rightarrow> active_executions \<Rightarrow> active_executions" where
  "with_capacity cfg now n a executionId s =
     (if ad_existing a
      then put_adding n (a\<lparr>ad_phase := Updating\<rparr>) (call_db (Db_update executionId (add_status a)) s)
      else if \<not> xc_queue_mode cfg
      then put_adding n (a\<lparr>ad_phase := Setting_running\<rparr>) (call_db (Db_set_running executionId) s)
      else finish_add now n a executionId s)"

definition ask_capacity ::
    "executions_config \<Rightarrow> license \<Rightarrow> int \<Rightarrow> nat \<Rightarrow> adding \<Rightarrow> string \<Rightarrow> active_executions \<Rightarrow> active_executions" where
  "ask_capacity cfg lic now n a executionId s =
     (if er_mode (ad_data a) = Mode_evaluation then with_capacity cfg now n a executionId s
      else case reserve cfg lic \<lparr>ct_executionId = executionId, ct_mode = er_mode (ad_data a)\<rparr>
                  (the_reservation s (ad_reservation a)) (cs_control (ax_system s)) of
          (c, Inl e) \<Rightarrow> fail_add cfg lic n a e (put_system (ad_reservation a) (c, Inl e) s)
        | (c, Inr r) \<Rightarrow>
            put_adding n (a\<lparr>ad_phase := Reserving\<rparr>) (put_system (ad_reservation a) (c, Inr r) s))"

definition begin_add ::
    "executions_config \<Rightarrow> license \<Rightarrow> int \<Rightarrow> execution_request \<Rightarrow> string option \<Rightarrow> active_executions \<Rightarrow> active_executions" where
  "begin_add cfg lic now data maybeExecutionId s =
     (let n = length (ax_adding s); sys = ax_system s;
          a = \<lparr>ad_data = data, ad_id = maybeExecutionId, ad_existing = (maybeExecutionId \<noteq> None),
               ad_reservation = length (cs_reservations sys), ad_phase = Creating\<rparr>;
          s = s\<lparr>ax_system := sys\<lparr>cs_reservations := cs_reservations sys @ [new_reservation]\<rparr>,
                ax_adding := ax_adding s @ [a]\<rparr>
      in case maybeExecutionId of
          None \<Rightarrow> call_db (Db_create (er_mode data) New) s
        | Some executionId \<Rightarrow> ask_capacity cfg lic now n a executionId s)"

text \<open>The steps after an \<^verbatim>\<open>await\<close>; each is possible in one phase.\<close>

definition in_phase :: "add_phase \<Rightarrow> nat \<Rightarrow> active_executions \<Rightarrow> adding option" where
  "in_phase phase n s =
     (case array_get (ax_adding s) n of None \<Rightarrow> None | Some a \<Rightarrow> if ad_phase a = phase then Some a else None)"

definition created ::
    "executions_config \<Rightarrow> license \<Rightarrow> int \<Rightarrow> nat \<Rightarrow> string res \<Rightarrow> active_executions \<Rightarrow> active_executions option" where
  "created cfg lic now n answer s =
     (case in_phase Creating n s of
        None \<Rightarrow> None
      | Some a \<Rightarrow>
          (case answer of
             Inl e \<Rightarrow> Some (fail_add cfg lic n a e s)
           | Inr executionId \<Rightarrow>
               if executionId = []
               then Some (fail_add cfg lic n a (AssertionError ''The expression evaluated to a falsy value'') s)
               else Some (ask_capacity cfg lic now n (a\<lparr>ad_id := Some executionId\<rparr>) executionId s)))"

definition add_reserved :: "executions_config \<Rightarrow> int \<Rightarrow> nat \<Rightarrow> active_executions \<Rightarrow> active_executions option" where
  "add_reserved cfg now n s =
     (case in_phase Reserving n s of
        None \<Rightarrow> None
      | Some a \<Rightarrow>
          (case reserved (cs_control (ax_system s)) (the_reservation s (ad_reservation a)) of
             None \<Rightarrow> None
           | Some r \<Rightarrow>
               Some (with_capacity cfg now n a (the (ad_id a))
                 (put_system (ad_reservation a) (cs_control (ax_system s), Inr r) s))))"

definition running_set ::
    "executions_config \<Rightarrow> license \<Rightarrow> int \<Rightarrow> nat \<Rightarrow> js_error option \<Rightarrow> active_executions \<Rightarrow> active_executions option" where
  "running_set cfg lic now n failure s =
     (case in_phase Setting_running n s of
        None \<Rightarrow> None
      | Some a \<Rightarrow>
          (case failure of
             Some e \<Rightarrow> Some (fail_add cfg lic n a e s)
           | None \<Rightarrow> Some (finish_add now n a (the (ad_id a)) s)))"

definition updated ::
    "executions_config \<Rightarrow> license \<Rightarrow> int \<Rightarrow> nat \<Rightarrow> bool res \<Rightarrow> active_executions \<Rightarrow> active_executions option" where
  "updated cfg lic now n answer s =
     (case in_phase Updating n s of
        None \<Rightarrow> None
      | Some a \<Rightarrow>
          (case answer of
             Inl e \<Rightarrow> Some (fail_add cfg lic n a e s)
           | Inr False \<Rightarrow>
               Some (fail_add cfg lic n a
                 (JsError ''ExecutionAlreadyResumingError'' ''Execution is already being resumed by another process'' None) s)
           | Inr True \<Rightarrow> Some (finish_add now n a (the (ad_id a)) s)))"

text \<open>
  The handler of the promise: capacity is released, and an execution that does not wait is
  removed.  If the release throws, the handler ends there.
\<close>

definition post_settled ::
    "executions_config \<Rightarrow> license \<Rightarrow> nat \<Rightarrow> active_executions \<Rightarrow> active_executions option" where
  "post_settled cfg lic i s =
     (case array_get (ax_objects s) i of
        None \<Rightarrow> None
      | Some x \<Rightarrow>
          if ex_post x = None \<or> ex_handled x then None
          else case release_capacity cfg lic (ex_reservation x) (put_execution i (x\<lparr>ex_handled := True\<rparr>) s) of
              (s, Some e) \<Rightarrow> Some s
            | (s, None) \<Rightarrow>
                Some (if ex_status x = Waiting
                      then put_execution i (x\<lparr>ex_handled := True, ex_workflowExecution := None\<rparr>) s
                      else forget_mode (ex_id x) (forget (ex_id x) s)))"

section \<open>Shutdown\<close>

definition shutdown_execution :: "executions_config \<Rightarrow> bool \<Rightarrow> string \<Rightarrow> active_executions \<times> string list \<Rightarrow> active_executions \<times> string list" where
  "shutdown_execution cfg cancelAll executionId st =
     (case st of (s, toCancel) \<Rightarrow>
        (let status = ex_status (the_execution s (the (execution_ref executionId s)))
         in if \<not> xc_queue_mode cfg \<and> cancelAll
            then (stopExecution executionId \<lparr>cn_executionId = executionId, cn_reason = Shutdown\<rparr> s, toCancel @ [executionId])
            else if status = Waiting \<or> status = New then (forget executionId s, toCancel)
            else (s, toCancel)))"

text \<open>\<^verbatim>\<open>shutdown\<close> up to its loop, and whether its loop ends.\<close>

definition map_control :: "(concurrency \<Rightarrow> concurrency) \<Rightarrow> active_executions \<Rightarrow> active_executions" where
  "map_control f s = s\<lparr>ax_system := (ax_system s)\<lparr>cs_control := f (cs_control (ax_system s))\<rparr>\<rparr>"

definition shutdown :: "executions_config \<Rightarrow> bool \<Rightarrow> active_executions \<Rightarrow> active_executions" where
  "shutdown cfg cancelAll s =
     (let s = (if \<not> xc_queue_mode cfg then map_control disable_control s else s);
          (s, toCancel) = fold (shutdown_execution cfg cancelAll) (object_keys (ax_active s)) (s, [])
      in map_control (removeAll toCancel) s)"

definition shutdown_done :: "active_executions \<Rightarrow> bool" where
  "shutdown_done s = (length (object_keys (ax_active s)) = 0)"

section \<open>Steps\<close>

text \<open>
  What the process can do: the calls of the service and, between them, the continuations.
  \<^verbatim>\<open>Remove_waiting\<close> is the removal of an execution that waits for capacity by the service that
  stops executions.
\<close>

datatype ax_action =
    Begin_add license int execution_request "string option"
  | Created license int nat "string res"
  | Add_reserved int nat
  | Running_set license int nat "js_error option"
  | Updated license int nat "bool res"
  | Post_settled license nat
  | New_response
  | Attach_workflow string nat
  | Attach_response string nat
  | Resolve_response string jval
  | Send_chunk string jval
  | Stop_execution string cancellation
  | Finalize string "jval option"
  | Resolve_redirect string
  | Set_status string execution_status
  | Set_response_mode string string
  | Remove_waiting license capacity_target
  | Shut_down bool

fun ax_step :: "executions_config \<Rightarrow> ax_action \<Rightarrow> active_executions \<Rightarrow> active_executions option" where
  "ax_step cfg (Begin_add lic now data executionId) s = Some (begin_add cfg lic now data executionId s)"
| "ax_step cfg (Created lic now n answer) s = created cfg lic now n answer s"
| "ax_step cfg (Add_reserved now n) s = add_reserved cfg now n s"
| "ax_step cfg (Running_set lic now n failure) s = running_set cfg lic now n failure s"
| "ax_step cfg (Updated lic now n answer) s = updated cfg lic now n answer s"
| "ax_step cfg (Post_settled lic i) s = post_settled cfg lic i s"
| "ax_step cfg New_response s = Some (s\<lparr>ax_responses := ax_responses s @ [None]\<rparr>)"
| "ax_step cfg (Attach_workflow executionId handle) s = Some (fst (attachWorkflowExecution executionId handle s))"
| "ax_step cfg (Attach_response executionId promise) s =
     (if promise < length (ax_responses s) then Some (fst (attachResponsePromise executionId promise s)) else None)"
| "ax_step cfg (Resolve_response executionId answer) s = Some (resolveResponsePromise executionId answer s)"
| "ax_step cfg (Send_chunk executionId chunk) s = Some (sendChunk executionId chunk s)"
| "ax_step cfg (Stop_execution executionId c) s = Some (stopExecution executionId c s)"
| "ax_step cfg (Finalize executionId run) s = Some (finalizeExecution executionId run s)"
| "ax_step cfg (Resolve_redirect executionId) s = Some (resolveExecutionResponsePromise executionId s)"
| "ax_step cfg (Set_status executionId status) s = Some (fst (setStatus executionId status s))"
| "ax_step cfg (Set_response_mode executionId mode) s = Some (setResponseMode executionId mode s)"
| "ax_step cfg (Remove_waiting lic target) s =
     Some (map_control (\<lambda>c. fst (control_remove cfg lic (ct_mode target) (ct_executionId target) c)) s)"
| "ax_step cfg (Shut_down cancelAll) s = Some (shutdown cfg cancelAll s)"

section \<open>Who holds capacity\<close>

text \<open>
  The \<^verbatim>\<open>n\<close>-th call of \<^verbatim>\<open>add\<close> owns the \<^verbatim>\<open>n\<close>-th reservation: pending while the call waits for
  capacity, acquired from then until the handler of the execution's promise ran.
\<close>

definition acquired_for :: "execution_request \<Rightarrow> reservation \<Rightarrow> bool" where
  "acquired_for data r \<longleftrightarrow> rv_pending r = None
     \<and> (if er_mode data = Mode_evaluation then rv_acquired r = None
        else \<exists>e. rv_acquired r = Some \<lparr>ct_executionId = e, ct_mode = er_mode data\<rparr>)"

definition limited_mode :: "execution_request \<Rightarrow> bool" where
  "limited_mode data \<longleftrightarrow> getQueueType (er_mode data) = Inr (Some Production)"

definition given_back :: "execution_request \<Rightarrow> reservation \<Rightarrow> bool" where
  "given_back data r \<longleftrightarrow> rv_pending r = None \<and> (limited_mode data \<longrightarrow> rv_acquired r = None)
     \<and> (\<forall>t. rv_acquired r = Some t \<longrightarrow> ct_mode t = er_mode data)"

definition owner_ok :: "executing list \<Rightarrow> nat \<Rightarrow> adding \<Rightarrow> reservation \<Rightarrow> bool" where
  "owner_ok objects n a r \<longleftrightarrow> ad_reservation a = n
     \<and> (case ad_phase a of
          Creating \<Rightarrow> rv_pending r = None \<and> rv_acquired r = None
        | Reserving \<Rightarrow> rv_acquired r = None \<and> er_mode (ad_data a) \<noteq> Mode_evaluation
            \<and> (\<exists>e p. rv_pending r = Some (\<lparr>ct_executionId = e, ct_mode = er_mode (ad_data a)\<rparr>, p))
        | Setting_running \<Rightarrow> acquired_for (ad_data a) r
        | Updating \<Rightarrow> acquired_for (ad_data a) r
        | Add_failed e \<Rightarrow> given_back (ad_data a) r
        | Added i \<Rightarrow> i < length objects \<and> ex_reservation (objects ! i) = n \<and> ex_data (objects ! i) = ad_data a
            \<and> (if ex_handled (objects ! i) then given_back (ad_data a) r else acquired_for (ad_data a) r))"

definition owners_ok :: "active_executions \<Rightarrow> bool" where
  "owners_ok s \<longleftrightarrow> length (cs_reservations (ax_system s)) = length (ax_adding s)
     \<and> (\<forall>n < length (ax_adding s). owner_ok (ax_objects s) n (ax_adding s ! n) (cs_reservations (ax_system s) ! n))
     \<and> (\<forall>i < length (ax_objects s). ex_reservation (ax_objects s ! i) < length (ax_adding s)
          \<and> ad_phase (ax_adding s ! ex_reservation (ax_objects s ! i)) = Added i)"

text \<open>The steps of the capacity service that an operation makes; \<^verbatim>\<open>k\<close> of them are removals.\<close>

definition caps :: "executions_config \<Rightarrow> nat \<Rightarrow> active_executions \<Rightarrow> active_executions \<Rightarrow> bool" where
  "caps cfg k s s' \<longleftrightarrow> (\<exists>steps. run_steps (capacity_step cfg) steps (ax_system s) = Some (ax_system s')
     \<and> Disable \<notin> set steps \<and> (\<forall>ids. Remove_all ids \<notin> set steps) \<and> length (filter is_removal steps) = k)"

lemma caps_same: "ax_system s' = ax_system s \<Longrightarrow> caps cfg 0 s s'"
  unfolding caps_def by (rule exI [of _ "[]"]) simp

lemma caps_one:
  assumes "capacity_step cfg a (ax_system s) = Some (ax_system s')" and "a \<noteq> Disable" "\<forall>ids. a \<noteq> Remove_all ids"
  shows "caps cfg (if is_removal a then 1 else 0) s s'"
  unfolding caps_def using assms by (intro exI [of _ "[a]"]) auto

lemma caps_trans:
  assumes "caps cfg j s t" and "caps cfg k t u" shows "caps cfg (j + k) s u"
proof -
  from assms obtain es es' where "run_steps (capacity_step cfg) es (ax_system s) = Some (ax_system t)"
    "Disable \<notin> set es" "\<forall>ids. Remove_all ids \<notin> set es" "length (filter is_removal es) = j"
    "run_steps (capacity_step cfg) es' (ax_system t) = Some (ax_system u)"
    "Disable \<notin> set es'" "\<forall>ids. Remove_all ids \<notin> set es'" "length (filter is_removal es') = k"
    unfolding caps_def by blast
  then show ?thesis unfolding caps_def by (intro exI [of _ "es @ es'"]) (simp add: run_steps_append)
qed

section \<open>The owners of the reservations\<close>

definition core :: "executing \<Rightarrow> nat \<times> execution_request \<times> bool" where
  "core x = (ex_reservation x, ex_data x, ex_handled x)"

definition same_core :: "active_executions \<Rightarrow> active_executions \<Rightarrow> bool" where
  "same_core s s' \<longleftrightarrow> cs_reservations (ax_system s') = cs_reservations (ax_system s)
     \<and> ax_adding s' = ax_adding s \<and> map core (ax_objects s') = map core (ax_objects s)"

lemma map_core_nth: "map core ys = map core xs \<Longrightarrow> length ys = length xs \<and> (\<forall>i < length xs. core (ys ! i) = core (xs ! i))"
  by (metis length_map nth_map)

lemma owners_same:
  assumes "same_core s s'" and "owners_ok s" shows "owners_ok s'"
proof -
  note objects = map_core_nth [OF conjunct2 [OF conjunct2 [OF assms(1) [unfolded same_core_def]]]]
  then have "owner_ok (ax_objects s') n a r = owner_ok (ax_objects s) n a r" for n a r
    by (auto simp: owner_ok_def core_def split: add_phase.splits)
  with assms objects show ?thesis by (auto simp: owners_ok_def same_core_def core_def)
qed

lemma core_put: "core x = core (xs ! i) \<Longrightarrow> map core (xs[i := x]) = map core xs"
  by (cases "i < length xs") (simp_all add: map_update list_update_same_conv list_update_beyond)

text \<open>The calls that change neither capacity nor who owns it.\<close>

definition quiet :: "active_executions \<Rightarrow> active_executions \<Rightarrow> bool" where
  "quiet s s' \<longleftrightarrow> ax_system s' = ax_system s \<and> same_core s s'"

lemma quiet_refl [simp]: "quiet s s" by (simp add: quiet_def same_core_def)

lemma quiet_trans: "quiet s t \<Longrightarrow> quiet t u \<Longrightarrow> quiet s u" by (simp add: quiet_def same_core_def)

lemma quiet_simple [simp]:
  "quiet s (forget e t) = quiet s t" "quiet s (forget_mode e t) = quiet s t" "quiet s (emit event t) = quiet s t"
  "quiet s (settle_response p answer t) = quiet s t" "quiet s (t\<lparr>ax_responses := rs\<rparr>) = quiet s t"
  "quiet s (setResponseMode e mode t) = quiet s t" "quiet s (call_db call t) = quiet s t"
  by (simp_all add: quiet_def same_core_def forget_def forget_mode_def emit_def settle_response_def setResponseMode_def
      call_db_def split: option.split)

lemma quiet_put [simp]: "core x = core (the_execution t i) \<Longrightarrow> quiet s (put_execution i x t) = quiet s t"
  by (simp add: quiet_def same_core_def put_execution_def the_execution_def core_put)

lemma quiet_settle_post [simp]: "quiet s (settle_post i result t) = quiet s t"
  by (auto simp: settle_post_def Let_def core_def)

lemma quiet_with: "(\<And>x. core (f x) = core x) \<Longrightarrow> quiet s (fst (with_execution e f s))"
  by (auto simp: with_execution_def split: sum.split)

lemma quiet_ops:
  "quiet s (fst (attachWorkflowExecution e handle s))" "quiet s (fst (attachResponsePromise e p s))"
  "quiet s (fst (setStatus e status s))" "quiet s (resolveResponsePromise e answer s)" "quiet s (sendChunk e chunk s)"
  "quiet s (finalizeExecution e run s)" "quiet s (resolveExecutionResponsePromise e s)" "quiet s (stopExecution e c s)"
  by (auto simp: attachWorkflowExecution_def attachResponsePromise_def setStatus_def core_def resolveResponsePromise_def
      sendChunk_def finalizeExecution_def resolveExecutionResponsePromise_def stopExecution_def Let_def
      intro!: quiet_with split: option.split)

text \<open>While the \<^verbatim>\<open>n\<close>-th call of \<^verbatim>\<open>add\<close> is at work, its own reservation is left out.\<close>

definition owners_but :: "nat \<Rightarrow> active_executions \<Rightarrow> bool" where
  "owners_but n s \<longleftrightarrow> length (cs_reservations (ax_system s)) = length (ax_adding s) \<and> n < length (ax_adding s)
     \<and> (\<forall>m < length (ax_adding s). m \<noteq> n \<longrightarrow>
          owner_ok (ax_objects s) m (ax_adding s ! m) (cs_reservations (ax_system s) ! m))
     \<and> (\<forall>i < length (ax_objects s). ex_reservation (ax_objects s ! i) < length (ax_adding s)
          \<and> ex_reservation (ax_objects s ! i) \<noteq> n
          \<and> ad_phase (ax_adding s ! ex_reservation (ax_objects s ! i)) = Added i)"

abbreviation own_reservation :: "nat \<Rightarrow> active_executions \<Rightarrow> reservation" where
  "own_reservation n s \<equiv> cs_reservations (ax_system s) ! n"

lemma owners_but_start:
  assumes "owners_ok s" and "n < length (ax_adding s)" and "\<And>i. ad_phase (ax_adding s ! n) \<noteq> Added i"
  shows "owners_but n s"
  using assms by (auto simp: owners_ok_def owners_but_def)

lemma owners_but_update:
  assumes "owners_but n s" and "cs_reservations (ax_system s') = (cs_reservations (ax_system s))[n := r]"
    and "ax_adding s' = ax_adding s" and "ax_objects s' = ax_objects s"
  shows "owners_but n s'" and "own_reservation n s' = r"
  using assms by (auto simp: owners_but_def)

lemma owners_put:
  assumes "owners_but n s" and "owner_ok (ax_objects s) n a (own_reservation n s)"
  shows "owners_ok (put_adding n a s)"
  using assms by (auto simp: owners_but_def owners_ok_def put_adding_def nth_list_update)

lemma put_adding_system [simp]: "ax_system (put_adding n a s) = ax_system s"
  by (simp add: put_adding_def)

lemma call_db_simps [simp]: "ax_system (call_db call s) = ax_system s" "owners_but n (call_db call s) = owners_but n s"
  "ax_objects (call_db call s) = ax_objects s" "ax_adding (call_db call s) = ax_adding s"
  by (simp_all add: call_db_def owners_but_def)

lemma finish_add_ok:
  assumes ok: "owners_but n s" and a: "ad_reservation a = n" and acquired: "acquired_for (ad_data a) (own_reservation n s)"
  shows "owners_ok (finish_add now n a e s)" and "ax_system (finish_add now n a e s) = ax_system s"
proof -
  obtain x where x: "core x = (n, ad_data a, False)" and s': "finish_add now n a e s = put_adding n (a\<lparr>ad_phase := Added (length (ax_objects s))\<rparr>)
      (s\<lparr>ax_objects := ax_objects s @ [x], ax_active := AList.update e (length (ax_objects s)) (ax_active s)\<rparr>)"
    by (rule that [OF _ finish_add_def [unfolded Let_def]]) (simp add: core_def a)
  have grows: "owner_ok (ax_objects s @ [x]) m b r" if "owner_ok (ax_objects s) m b r" for m b r
    using that by (auto simp: owner_ok_def nth_append split: add_phase.splits)
  show "owners_ok (finish_add now n a e s)"
    using ok a acquired x grows
    by (auto simp: s' owners_ok_def owners_but_def put_adding_def nth_list_update nth_append core_def less_Suc_eq)
       (auto simp: owner_ok_def)
qed (simp add: finish_add_def Let_def)

lemma with_capacity_ok:
  assumes ok: "owners_but n s" and a: "ad_reservation a = n" and acquired: "acquired_for (ad_data a) (own_reservation n s)"
  shows "owners_ok (with_capacity cfg now n a e s)" and "ax_system (with_capacity cfg now n a e s) = ax_system s"
  using finish_add_ok [OF assms] assms
  by (auto simp: with_capacity_def owner_ok_def intro!: owners_put)

text \<open>A release gives back the capacity of a limited mode in any case.\<close>

definition mode_kept :: "execution_request \<Rightarrow> reservation \<Rightarrow> bool" where
  "mode_kept data r \<longleftrightarrow> rv_pending r = None \<and> (\<forall>t. rv_acquired r = Some t \<longrightarrow> ct_mode t = er_mode data)"

lemma mode_kept: "acquired_for data r \<Longrightarrow> mode_kept data r" "rv_pending r = None \<Longrightarrow> rv_acquired r = None \<Longrightarrow> mode_kept data r"
  by (auto simp: acquired_for_def mode_kept_def split: if_splits)

lemma limited_release:
  assumes "getQueueType mode = Inr (Some Production)" shows "snd (release cfg lic mode c) = None"
proof -
  have "mode \<noteq> Mode_evaluation" using assms by (auto simp: getQueueType_def)
  with assms show ?thesis by (auto simp: release_def limited_queue_def getQueue_def split: option.split sum.split)
qed

lemma release_capacity_ok:
  assumes kept: "mode_kept data (own_reservation n s)" and n: "n < length (cs_reservations (ax_system s))"
    and s': "release_capacity cfg lic n s = (s', e)"
  obtains r where "cs_reservations (ax_system s') = (cs_reservations (ax_system s))[n := r]" "given_back data r"
    "ax_adding s' = ax_adding s" "ax_objects s' = ax_objects s" "caps cfg 0 s s'"
proof -
  let ?r = "own_reservation n s"
  have "capacity_step cfg (Release n lic) (ax_system s) = Some (ax_system s')"
    using s' n by (auto simp: release_capacity_def put_system_def Let_def reservation_of_def array_get_def the_reservation_def)
  from caps_one [where s = s and s' = s', OF this] have caps: "caps cfg 0 s s'" by (simp add: is_removal_def)
  have frame: "ax_adding s' = ax_adding s" "ax_objects s' = ax_objects s"
    using s' by (auto simp: release_capacity_def put_system_def Let_def)
  show ?thesis
  proof (cases "snd (release_reservation cfg lic ?r (cs_control (ax_system s)))")
    case (Inl err)
    then obtain t where t: "rv_acquired ?r = Some t" "snd (release cfg lic (ct_mode t) (cs_control (ax_system s))) = Some err"
      by (auto simp: release_reservation_def split: option.splits prod.splits)
    with kept limited_release [of "ct_mode t" cfg lic "cs_control (ax_system s)"] have "given_back data ?r"
      by (auto simp: mode_kept_def given_back_def limited_mode_def)
    moreover have "cs_reservations (ax_system s') = (cs_reservations (ax_system s))[n := ?r]"
      using s' Inl by (auto simp: release_capacity_def put_system_def put_reservation_def the_reservation_def Let_def
        split: prod.splits sum.splits)
    ultimately show ?thesis using that frame caps by blast
  next
    case (Inr r)
    then have "given_back data r"
      using kept by (auto simp: release_reservation_def mode_kept_def given_back_def split: option.splits prod.splits)
    moreover have "cs_reservations (ax_system s') = (cs_reservations (ax_system s))[n := r]"
      using s' Inr by (auto simp: release_capacity_def put_system_def put_reservation_def the_reservation_def Let_def
        split: prod.splits sum.splits)
    ultimately show ?thesis using that frame caps by blast
  qed
qed

lemma fail_add_ok:
  assumes ok: "owners_but n s" and a: "ad_reservation a = n" and kept: "mode_kept (ad_data a) (own_reservation n s)"
  shows "owners_ok (fail_add cfg lic n a e s)" and "caps cfg 0 s (fail_add cfg lic n a e s)"
proof -
  obtain s' x where s': "release_capacity cfg lic n s = (s', x)" by (cases "release_capacity cfg lic n s")
  have n: "n < length (cs_reservations (ax_system s))" using ok by (simp add: owners_but_def)
  obtain e' where e': "fail_add cfg lic n a e s = put_adding n (a\<lparr>ad_phase := Add_failed e'\<rparr>) s'"
    using s' a by (cases x) (auto simp: fail_add_def)
  from release_capacity_ok [OF kept n s'] obtain r where
    r: "cs_reservations (ax_system s') = (cs_reservations (ax_system s))[n := r]" "given_back (ad_data a) r"
      "ax_adding s' = ax_adding s" "ax_objects s' = ax_objects s" "caps cfg 0 s s'" .
  note but = owners_but_update [OF ok r(1,3,4)]
  from a r(2) but(2) show "owners_ok (fail_add cfg lic n a e s)"
    unfolding e' by (intro owners_put [OF but(1)]) (simp add: owner_ok_def)
  show "caps cfg 0 s (fail_add cfg lic n a e s)"
    using caps_trans [OF r(5) caps_same [of "put_adding n (a\<lparr>ad_phase := Add_failed e'\<rparr>) s'"]] by (simp add: e')
qed

lemma put_system_frame [simp]: "ax_adding (put_system n x s) = ax_adding s" "ax_objects (put_system n x s) = ax_objects s"
  "ax_system (put_system n x s) = put_reservation n x (ax_system s)"
  by (simp_all add: put_system_def)

lemma put_reservation_simps:
  "cs_reservations (put_reservation n (c, Inl e) t) = cs_reservations t"
  "cs_reservations (put_reservation n (c, Inr r) t) = (cs_reservations t)[n := r]"
  by (simp_all add: put_reservation_def)

lemma ask_capacity_ok:
  assumes ok: "owners_but n s" and a: "ad_reservation a = n"
    and idle: "rv_pending (own_reservation n s) = None" "rv_acquired (own_reservation n s) = None"
  shows "owners_ok (ask_capacity cfg lic now n a e s) \<and> caps cfg 0 s (ask_capacity cfg lic now n a e s)"
proof (cases "er_mode (ad_data a) = Mode_evaluation")
  case True
  with idle have "acquired_for (ad_data a) (own_reservation n s)" by (simp add: acquired_for_def)
  from with_capacity_ok [OF ok a this] True show ?thesis by (simp add: ask_capacity_def caps_same)
next
  case False
  define target where "target = \<lparr>ct_executionId = e, ct_mode = er_mode (ad_data a)\<rparr>"
  obtain c x where x: "reserve cfg lic target (own_reservation n s) (cs_control (ax_system s)) = (c, x)"
    by (cases "reserve cfg lic target (own_reservation n s) (cs_control (ax_system s))")
  let ?s = "put_system n (c, x) s"
  have "capacity_step cfg (Reserve n lic target) (ax_system s) = Some (ax_system ?s)"
    using ok idle x by (simp add: reservation_of_def array_get_def owners_but_def)
  from caps_one [where s = s and s' = "?s", OF this] have caps: "caps cfg 0 s ?s" by (simp add: is_removal_def)
  show ?thesis
  proof (cases x)
    case (Inl err)
    have but: "owners_but n ?s" "own_reservation n ?s = own_reservation n s"
      using owners_but_update [OF ok, of ?s "own_reservation n s"] Inl by (simp_all add: put_reservation_simps)
    have "ask_capacity cfg lic now n a e s = fail_add cfg lic n a err ?s"
      using False x Inl a by (simp add: ask_capacity_def target_def the_reservation_def)
    moreover have "mode_kept (ad_data a) (own_reservation n ?s)" using mode_kept(2) but(2) idle by simp
    note fail_add_ok [OF but(1) a this]
    ultimately show ?thesis using caps_trans [OF caps] by fastforce
  next
    case (Inr r)
    then obtain p where r: "r = (own_reservation n s)\<lparr>rv_pending := Some (target, p)\<rparr>"
      using x by (auto simp: reserve_def split: if_splits prod.splits sum.splits)
    note but = owners_but_update [OF ok, of ?s r, unfolded Inr, simplified put_system_frame put_reservation_simps, OF refl refl refl]
    let ?t = "put_adding n (a\<lparr>ad_phase := Reserving\<rparr>) ?s"
    have "ask_capacity cfg lic now n a e s = ?t"
      using False x Inr a by (simp add: ask_capacity_def target_def the_reservation_def)
    moreover have "owners_ok ?t"
      using but(1) False a idle r unfolding Inr
      by (intro owners_put) (auto simp: owner_ok_def target_def put_reservation_simps owners_but_def)
    moreover have "caps cfg 0 s ?t" using caps_trans [OF caps caps_same [of ?t ?s]] by simp
    ultimately show ?thesis by simp
  qed
qed

lemma owners_but_done:
  "owners_but n s \<Longrightarrow> owner_ok (ax_objects s) n (ax_adding s ! n) (own_reservation n s) \<Longrightarrow> owners_ok s"
  by (auto simp: owners_but_def owners_ok_def)

lemma begin_add_ok:
  assumes ok: "owners_ok s"
  shows "owners_ok (begin_add cfg lic now data e s) \<and> caps cfg 0 s (begin_add cfg lic now data e s)"
proof -
  define n where "n = length (ax_adding s)"
  define a where "a = \<lparr>ad_data = data, ad_id = e, ad_existing = (e \<noteq> None),
    ad_reservation = length (cs_reservations (ax_system s)), ad_phase = Creating\<rparr>"
  define t where "t = s\<lparr>ax_system := (ax_system s)\<lparr>cs_reservations := cs_reservations (ax_system s) @ [new_reservation]\<rparr>,
                ax_adding := ax_adding s @ [a]\<rparr>"
  have s': "begin_add cfg lic now data e s = (case e of None \<Rightarrow> call_db (Db_create (er_mode data) New) t
      | Some i \<Rightarrow> ask_capacity cfg lic now n a i t)"
    unfolding begin_add_def Let_def n_def a_def t_def by (rule refl)
  have n: "n = length (cs_reservations (ax_system s))" using ok by (simp add: owners_ok_def n_def)
  have but: "owners_but n t" using ok n by (auto simp: owners_ok_def owners_but_def n_def t_def nth_append less_Suc_eq)
  have own: "own_reservation n t = new_reservation" "ax_adding t ! n = a" using n by (simp_all add: t_def n_def nth_append)
  have "capacity_step cfg New_reservation (ax_system s) = Some (ax_system t)" by (simp add: t_def)
  from caps_one [where s = s and s' = t, OF this] have caps: "caps cfg 0 s t" by (simp add: is_removal_def)
  show ?thesis
  proof (cases e)
    case None
    have "owners_ok (call_db call t)" for call
      using but own n by (intro owners_but_done [of n]) (auto simp: owner_ok_def a_def new_reservation_def)
    with caps_trans [OF caps caps_same [of _ t]] show ?thesis unfolding s' unfolding None by simp
  next
    case (Some i)
    have "ad_reservation a = n" using n by (simp add: a_def)
    from ask_capacity_ok [OF but this] own caps_trans [OF caps] show ?thesis
      unfolding s' unfolding Some by (fastforce simp: new_reservation_def)
  qed
qed

text \<open>The continuations of \<^verbatim>\<open>add\<close>.\<close>

lemma in_phase_ok:
  assumes "owners_ok s" and "in_phase phase n s = Some a" and "\<And>i. phase \<noteq> Added i"
  shows "owners_but n s" "ad_phase a = phase" "ad_reservation a = n" "owner_ok (ax_objects s) n a (own_reservation n s)"
proof -
  have a: "n < length (ax_adding s)" "ax_adding s ! n = a" "ad_phase a = phase"
    using assms(2) by (auto simp: in_phase_def array_get_def split: option.splits if_splits)
  with assms(1) show own: "owner_ok (ax_objects s) n a (own_reservation n s)" by (auto simp: owners_ok_def)
  then show "ad_reservation a = n" by (simp add: owner_ok_def)
  show "owners_but n s" "ad_phase a = phase" using owners_but_start [OF assms(1) a(1)] a assms(3) by simp_all
qed

lemma created_ok:
  assumes ok: "owners_ok s" and s': "created cfg lic now n answer s = Some s'"
  shows "owners_ok s' \<and> caps cfg 0 s s'"
proof -
  from s' obtain a where a: "in_phase Creating n s = Some a" by (auto simp: created_def split: option.splits)
  from in_phase_ok [OF ok a] have but: "owners_but n s" "ad_reservation a = n"
    and idle: "rv_pending (own_reservation n s) = None" "rv_acquired (own_reservation n s) = None"
    by (auto simp: owner_ok_def)
  note fail = fail_add_ok [OF but mode_kept(2) [OF idle]]
  from but(2) have "ad_reservation (a\<lparr>ad_id := i\<rparr>) = n" for i by simp
  from fail ask_capacity_ok [OF but(1) this idle] s' a show ?thesis
    by (auto simp: created_def split: sum.splits if_splits)
qed

lemma add_reserved_ok:
  assumes ok: "owners_ok s" and s': "add_reserved cfg now n s = Some s'"
  shows "owners_ok s' \<and> caps cfg 0 s s'"
proof -
  from s' obtain a r where a: "in_phase Reserving n s = Some a"
    and r: "reserved (cs_control (ax_system s)) (the_reservation s (ad_reservation a)) = Some r"
    and s'_eq: "s' = with_capacity cfg now n a (the (ad_id a)) (put_system (ad_reservation a) (cs_control (ax_system s), Inr r) s)"
    by (auto simp: add_reserved_def split: option.splits)
  from in_phase_ok [OF ok a] have but: "owners_but n s" "ad_reservation a = n"
    and own: "owner_ok (ax_objects s) n a (own_reservation n s)" "ad_phase a = Reserving" by auto
  let ?s = "put_system n (cs_control (ax_system s), Inr r) s"
  have "capacity_step cfg (Reserved n) (ax_system s) = Some (ax_system ?s)"
    using r but by (simp add: reservation_of_def array_get_def owners_but_def the_reservation_def put_reservation_def)
  from caps_one [where s = s and s' = "?s", OF this] have caps: "caps cfg 0 s ?s" by (simp add: is_removal_def)
  have "acquired_for (ad_data a) r"
    using r own but(2) by (auto simp: reserved_def owner_ok_def acquired_for_def the_reservation_def split: option.splits if_splits)
  with owners_but_update [OF but(1), of ?s r] have "owners_but n ?s" "acquired_for (ad_data a) (own_reservation n ?s)"
    by (simp_all add: put_reservation_simps)
  note after = with_capacity_ok [OF this(1) but(2) this(2)]
  have "caps cfg 0 s s'" using caps_trans [OF caps caps_same [OF after(2)]] by (simp add: s'_eq but(2))
  with after(1) show ?thesis by (simp add: s'_eq but(2))
qed

lemma acquired_step_ok:
  assumes ok: "owners_ok s" and a: "in_phase phase n s = Some a" and phase: "phase = Setting_running \<or> phase = Updating"
  shows "owners_ok (fail_add cfg lic n a e s) \<and> caps cfg 0 s (fail_add cfg lic n a e s)"
    and "owners_ok (finish_add now n a i s) \<and> caps cfg 0 s (finish_add now n a i s)"
proof -
  have "phase \<noteq> Added i" for i using phase by auto
  note in_phase = in_phase_ok [OF ok a this]
  then have but: "owners_but n s" "ad_reservation a = n" by blast+
  have own: "acquired_for (ad_data a) (own_reservation n s)" using in_phase(2,4) phase by (auto simp: owner_ok_def)
  from fail_add_ok [OF but mode_kept(1) [OF own]]
  show "owners_ok (fail_add cfg lic n a e s) \<and> caps cfg 0 s (fail_add cfg lic n a e s)" by simp
  from finish_add_ok [OF but own]
  show "owners_ok (finish_add now n a i s) \<and> caps cfg 0 s (finish_add now n a i s)" by (simp add: caps_same)
qed

text \<open>The handler of the promise.\<close>

lemma owners_handled:
  assumes ok: "owners_ok s" and i: "i < length (ax_objects s)" and n: "n = ex_reservation (ax_objects s ! i)"
    and r: "given_back (ex_data (ax_objects s ! i)) r"
    and y: "core y = (n, ex_data (ax_objects s ! i), True)"
    and s': "cs_reservations (ax_system s') = (cs_reservations (ax_system s))[n := r]" "ax_adding s' = ax_adding s"
      "ax_objects s' = (ax_objects s)[i := y]"
  shows "owners_ok s'"
proof -
  have others: "owner_ok ((ax_objects s)[i := y]) m a q" if "owner_ok (ax_objects s) m a q" "m \<noteq> n" for m a q
    using that n i by (auto simp: owner_ok_def nth_list_update split: add_phase.splits)
  have own: "n < length (ax_adding s)" "ad_phase (ax_adding s ! n) = Added i"
    "owner_ok (ax_objects s) n (ax_adding s ! n) (own_reservation n s)"
    using ok i n by (auto simp: owners_ok_def)
  then have "owner_ok ((ax_objects s)[i := y]) n (ax_adding s ! n) r"
    using i r y by (auto simp: owner_ok_def core_def)
  with ok others own y s' i show ?thesis
    unfolding owners_ok_def by (auto simp: nth_list_update core_def n)
qed

lemma post_settled_ok:
  assumes ok: "owners_ok s" and s': "post_settled cfg lic i s = Some s'"
  shows "owners_ok s' \<and> caps cfg 0 s s'"
proof -
  from s' have i: "i < length (ax_objects s)" "\<not> ex_handled (ax_objects s ! i)"
    by (auto simp: post_settled_def array_get_def split: option.splits if_splits)
  define x where "x = ax_objects s ! i"
  define n where "n = ex_reservation x"
  define y where "y = x\<lparr>ex_handled := True\<rparr>"
  define s1 where "s1 = put_execution i y s"
  obtain s2 e where s2: "release_capacity cfg lic n s1 = (s2, e)" by (cases "release_capacity cfg lic n s1")
  have n: "n < length (cs_reservations (ax_system s))" and own: "acquired_for (ex_data x) (own_reservation n s)"
  proof -
    have "ex_reservation (ax_objects s ! i) < length (ax_adding s)" "ad_phase (ax_adding s ! n) = Added i"
      using ok i(1) by (simp_all add: owners_ok_def n_def x_def)
    moreover from this ok have "owner_ok (ax_objects s) n (ax_adding s ! n) (own_reservation n s)"
      by (simp add: owners_ok_def n_def x_def)
    ultimately show "n < length (cs_reservations (ax_system s))" "acquired_for (ex_data x) (own_reservation n s)"
      using ok i(2) by (simp_all add: owners_ok_def owner_ok_def n_def x_def)
  qed
  have s1: "ax_system s1 = ax_system s" "ax_adding s1 = ax_adding s" "ax_objects s1 = (ax_objects s)[i := y]"
    by (simp_all add: s1_def put_execution_def)
  have "mode_kept (ex_data x) (own_reservation n s1)" "n < length (cs_reservations (ax_system s1))"
    using mode_kept(1) [OF own] n s1 by simp_all
  from release_capacity_ok [OF this s2] obtain r where
    r: "cs_reservations (ax_system s2) = (cs_reservations (ax_system s))[n := r]" "given_back (ex_data x) r"
      "ax_adding s2 = ax_adding s" "ax_objects s2 = (ax_objects s)[i := y]" "caps cfg 0 s1 s2"
    unfolding s1 .
  have y: "core y = (n, ex_data x, True)" by (simp add: y_def core_def n_def)
  have ok2: "owners_ok s2" by (rule owners_handled [OF ok i(1) n_def [unfolded x_def] _ _ r(1,3,4)]) (use r(2) y in \<open>simp_all add: x_def\<close>)
  have caps: "caps cfg 0 s s2" using r(5) by (simp add: caps_def s1)
  have "the_execution s2 i = y" using r(4) i by (simp add: the_execution_def)
  then have put: "quiet s2 (put_execution i (y\<lparr>ex_workflowExecution := None\<rparr>) s2)"
    by (simp add: core_def)
  have "Some s' = (case (s2, e) of (s, Some e) \<Rightarrow> Some s
      | (s, None) \<Rightarrow> Some (if ex_status x = Waiting then put_execution i (y\<lparr>ex_workflowExecution := None\<rparr>) s
          else forget_mode (ex_id x) (forget (ex_id x) s)))"
    using s' i unfolding post_settled_def array_get_def s2 [symmetric] s1_def n_def y_def x_def by (simp split: if_splits)
  then have "quiet s2 s'" using put by (auto split: option.splits if_splits)
  then show ?thesis using owners_same [OF _ ok2] caps_trans [OF caps caps_same [of s' s2]] by (simp add: quiet_def)
qed

text \<open>Shutdown touches neither reservations nor calls of \<^verbatim>\<open>add\<close>.\<close>

lemma same_core_trans: "same_core s t \<Longrightarrow> same_core t u \<Longrightarrow> same_core s u"
  by (simp add: same_core_def)

lemma map_control_core [simp]: "same_core s (map_control f t) = same_core s t"
  by (simp add: same_core_def map_control_def)

lemma shutdown_loop_quiet: "quiet s (fst st) \<Longrightarrow> quiet s (fst (fold (shutdown_execution cfg cancelAll) es st))"
proof (induction es arbitrary: st)
  case (Cons e es)
  have "quiet s (fst (shutdown_execution cfg cancelAll e st))"
    using Cons.prems quiet_trans [OF _ quiet_ops(8)] by (cases st) (auto simp: shutdown_execution_def Let_def)
  from Cons.IH [OF this] show ?case by simp
qed simp

lemma shutdown_core: "same_core s (shutdown cfg cancelAll s)"
proof -
  define s0 where "s0 = (if \<not> xc_queue_mode cfg then map_control disable_control s else s)"
  define st where "st = fold (shutdown_execution cfg cancelAll) (object_keys (ax_active s0)) (s0, [])"
  have s': "shutdown cfg cancelAll s = map_control (removeAll (snd st)) (fst st)"
    unfolding shutdown_def Let_def s0_def [symmetric] st_def [symmetric] by (rule case_prod_beta)
  have "same_core s s0" by (simp add: s0_def same_core_def map_control_def)
  moreover have "same_core s0 (fst st)"
    using shutdown_loop_quiet [of s0 "(s0, [])" cfg cancelAll] by (simp add: quiet_def st_def)
  ultimately show ?thesis unfolding s' map_control_core by (rule same_core_trans)
qed

definition is_ax_removal :: "ax_action \<Rightarrow> bool" where
  "is_ax_removal a = (case a of Remove_waiting lic target \<Rightarrow> True | _ \<Rightarrow> False)"

definition is_shutdown :: "ax_action \<Rightarrow> bool" where
  "is_shutdown a = (case a of Shut_down cancelAll \<Rightarrow> True | _ \<Rightarrow> False)"

lemma quiet_step: "owners_ok s \<Longrightarrow> quiet s s' \<Longrightarrow> owners_ok s' \<and> caps cfg 0 s s'"
  using owners_same caps_same by (auto simp: quiet_def)

lemma ax_step_ok:
  assumes ok: "owners_ok s" and s': "ax_step cfg a s = Some s'" and "\<not> is_shutdown a"
  shows "owners_ok s' \<and> caps cfg (if is_ax_removal a then 1 else 0) s s'"
proof (cases a)
  case (Remove_waiting lic target)
  have "capacity_step cfg (Remove_execution lic target) (ax_system s) = Some (ax_system s')"
    using s' Remove_waiting by (auto simp: map_control_def)
  from caps_one [where s = s and s' = s', OF this] have "caps cfg 1 s s'" by (simp add: is_removal_def)
  moreover have "same_core s s'" using s' Remove_waiting by (auto simp: same_core_def map_control_def)
  ultimately show ?thesis using owners_same [OF _ ok] Remove_waiting by (simp add: is_ax_removal_def)
next
  case (Running_set lic now n failure)
  with s' acquired_step_ok [OF ok] show ?thesis by (auto simp: running_set_def is_ax_removal_def split: option.splits)
next
  case (Updated lic now n answer)
  with s' acquired_step_ok [OF ok] show ?thesis
    by (auto simp: updated_def is_ax_removal_def split: option.splits sum.splits bool.splits)
qed (use s' assms(3) begin_add_ok [OF ok] created_ok [OF ok] add_reserved_ok [OF ok] post_settled_ok [OF ok]
    quiet_step [OF ok] quiet_ops in \<open>auto simp: is_ax_removal_def is_shutdown_def split: if_splits\<close>)

interpretation owners: invariant_machine "ax_step cfg" owners_ok for cfg
proof
  fix s a s' assume ok: "owners_ok s" and step: "ax_step cfg a s = Some s'"
  show "owners_ok s'"
  proof (cases "is_shutdown a")
    case True
    with step shutdown_core have "same_core s s'" by (auto simp: is_shutdown_def split: ax_action.splits)
    with ok show ?thesis by (rule owners_same [rotated])
  next
    case False
    from ax_step_ok [OF ok step this] show ?thesis ..
  qed
qed

lemma new_active_ok: "owners_ok (new_active c)"
  by (simp add: new_active_def new_system_def owners_ok_def)

section \<open>No capacity is lost\<close>

text \<open>
  A call of \<^verbatim>\<open>add\<close> that uses capacity: it has been given it, and the handler of its execution has
  not run yet.
\<close>

definition uses_capacity :: "active_executions \<Rightarrow> adding \<Rightarrow> bool" where
  "uses_capacity s a \<longleftrightarrow> limited_mode (ad_data a)
     \<and> (case ad_phase a of
          Creating \<Rightarrow> False
        | Reserving \<Rightarrow> reserved (cs_control (ax_system s)) (the_reservation s (ad_reservation a)) \<noteq> None
        | Setting_running \<Rightarrow> True
        | Updating \<Rightarrow> True
        | Added i \<Rightarrow> \<not> ex_handled (the_execution s i)
        | Add_failed e \<Rightarrow> False)"

lemma owner_uses:
  assumes "owner_ok (ax_objects s) n a (own_reservation n s)"
  shows "holds Production (co_promises (cs_control (ax_system s))) (own_reservation n s) = uses_capacity s a"
proof (cases "ad_phase a")
  case Reserving
  with assms show ?thesis
    by (auto simp: owner_ok_def uses_capacity_def holds_def limited_mode_def reserved_def the_reservation_def split: if_splits)
qed (use assms in \<open>auto simp: owner_ok_def uses_capacity_def holds_def limited_mode_def acquired_for_def given_back_def
    the_execution_def getQueueType_def split: if_splits option.splits\<close>)

lemma held_uses:
  assumes ok: "owners_ok s" shows "held Production (ax_system s) = length (filter (uses_capacity s) (ax_adding s))"
proof -
  have "holds Production (co_promises (cs_control (ax_system s))) (own_reservation n s) = uses_capacity s (ax_adding s ! n)"
    if "n < length (ax_adding s)" for n using ok that by (intro owner_uses) (simp add: owners_ok_def)
  moreover have "length (cs_reservations (ax_system s)) = length (ax_adding s)" using ok by (simp add: owners_ok_def)
  ultimately show ?thesis unfolding held_def length_filter_conv_card by (metis (no_types, lifting))
qed

text \<open>
  C16. The production capacity that is held at any time is that of the executions that are being
  started or whose promise was not handled yet; none is lost, whichever calls of the database
  fail, and whether or not the process shuts down.
\<close>

theorem capacity_accounted:
  assumes "run_steps (ax_step cfg) steps (new_active c) = Some s"
  shows "held Production (ax_system s) = length (filter (uses_capacity s) (ax_adding s))"
  by (rule held_uses [OF owners.inv_run [OF new_active_ok assms]])

section \<open>The executions of the process keep the limit\<close>

definition occupies :: "executing \<Rightarrow> bool" where
  "occupies x \<longleftrightarrow> limited_mode (ex_data x) \<and> \<not> ex_handled x"

lemma occupies_uses:
  assumes ok: "owners_ok s"
  shows "length (filter occupies (ax_objects s)) \<le> length (filter (uses_capacity s) (ax_adding s))"
  unfolding length_filter_conv_card
proof (rule card_inj_on_le [where f = "\<lambda>i. ex_reservation (ax_objects s ! i)"])
  have phase: "ad_phase (ax_adding s ! ex_reservation (ax_objects s ! i)) = Added i" if "i < length (ax_objects s)" for i
    using ok that by (simp add: owners_ok_def)
  then show "inj_on (\<lambda>i. ex_reservation (ax_objects s ! i)) {i. i < length (ax_objects s) \<and> occupies (ax_objects s ! i)}"
    by (auto simp: inj_on_def) (metis add_phase.inject)
  show "(\<lambda>i. ex_reservation (ax_objects s ! i)) ` {i. i < length (ax_objects s) \<and> occupies (ax_objects s ! i)}
      \<subseteq> {n. n < length (ax_adding s) \<and> uses_capacity s (ax_adding s ! n)}"
  proof clarify
    fix i assume i: "i < length (ax_objects s)" "occupies (ax_objects s ! i)"
    let ?n = "ex_reservation (ax_objects s ! i)"
    have "?n < length (ax_adding s)" "owner_ok (ax_objects s) ?n (ax_adding s ! ?n) (own_reservation ?n s)"
      using ok i by (simp_all add: owners_ok_def)
    with phase [OF i(1)] i(2) show "?n < length (ax_adding s) \<and> uses_capacity s (ax_adding s ! ?n)"
      by (auto simp: owner_ok_def uses_capacity_def occupies_def the_execution_def)
  qed
qed simp

lemma run_caps:
  assumes "run_steps (ax_step cfg) steps s = Some s'" and "owners_ok s" and "\<not> (\<exists>a \<in> set steps. is_shutdown a)"
  shows "caps cfg (length (filter is_ax_removal steps)) s s'"
  using assms
proof (induction steps arbitrary: s)
  case (Cons a steps)
  then obtain t where t: "ax_step cfg a s = Some t" "run_steps (ax_step cfg) steps t = Some s'"
    by (auto split: option.splits)
  have "\<not> is_shutdown a" using Cons.prems(3) by simp
  from ax_step_ok [OF Cons.prems(2) t(1) this] have step: "owners_ok t" "caps cfg (if is_ax_removal a then 1 else 0) s t" by auto
  from Cons.IH [OF t(2) step(1)] Cons.prems(3) caps_trans [OF step(2)] show ?case by fastforce
qed (simp add: caps_same)


section \<open>Shutdown cancels no execution\<close>

text \<open>
  As the service is disabled first, \<^verbatim>\<open>removeAll\<close> does nothing: the executions that wait for capacity
  stay in their queues, and no execution is cancelled in the database.
\<close>

lemma shutdown_control:
  assumes "\<not> xc_queue_mode cfg"
  shows "cs_control (ax_system (shutdown cfg cancelAll s)) = disable_control (cs_control (ax_system s))"
proof -
  define s0 where "s0 = map_control disable_control s"
  define st where "st = fold (shutdown_execution cfg cancelAll) (object_keys (ax_active s0)) (s0, [])"
  have s': "shutdown cfg cancelAll s = map_control (removeAll (snd st)) (fst st)"
    using assms unfolding shutdown_def Let_def s0_def [symmetric] st_def [symmetric]
    by (simp add: s0_def [symmetric] st_def [symmetric] case_prod_beta)
  have "quiet s0 (fst st)" unfolding st_def by (rule shutdown_loop_quiet) simp
  then have "cs_control (ax_system (fst st)) = disable_control (cs_control (ax_system s))"
    by (simp add: quiet_def s0_def map_control_def)
  then show ?thesis by (simp add: s' map_control_def removeAll_def disable_control_def)
qed

section \<open>A run\<close>

text \<open>
  With a limit of one, the second of two webhook executions waits until the first was handled.
\<close>

definition webhook_request :: execution_request where
  "webhook_request = \<lparr>er_mode = Mode_webhook, er_workflowId = Some ''w'', er_workflowName = None, er_retryOf = None,
     er_httpResponse = None\<rparr>"

definition add_steps :: "nat \<Rightarrow> string \<Rightarrow> ax_action list" where
  "add_steps n i = [Begin_add community 0 webhook_request None, Created community 0 n (Inr i)]"

definition one_at_a_time :: "ax_action list" where
  "one_at_a_time = add_steps 0 ''1'' @ add_steps 1 ''2'' @ [Add_reserved 0 0, Running_set community 0 0 None]"

definition next_starts :: "ax_action list" where
  "next_starts = one_at_a_time @ [Finalize ''1'' None, Post_settled community 0, Add_reserved 0 1, Running_set community 0 1 None]"

definition run_active :: "executions_config \<Rightarrow> ax_action list \<Rightarrow> active_executions option" where
  "run_active cfg steps =
     (case new_concurrency cfg of Inl e \<Rightarrow> None | Inr c \<Rightarrow> run_steps (ax_step cfg) steps (new_active c))"

lemma runs_one_at_a_time:
  "map_option (\<lambda>s. (okeys (ax_active s), waiting_in Production (cs_control (ax_system s)))) (run_active one_production one_at_a_time)
   = Some ([''1''], [''2''])"
  "map_option (\<lambda>s. (okeys (ax_active s), waiting_in Production (cs_control (ax_system s)))) (run_active one_production next_starts)
   = Some ([''2''], [])"
  by code_simp+

lemma run_active_Some:
  assumes "map_option f (run_active cfg steps) = Some v"
  obtains c s where "new_concurrency cfg = Inr c" "run_steps (ax_step cfg) steps (new_active c) = Some s" "f s = v"
  using assms by (auto simp: run_active_def split: sum.splits)

lemma capacity_accounted_witness:
  "\<exists>c s. run_steps (ax_step one_production) one_at_a_time (new_active c) = Some s
    \<and> length (ax_adding s) = 2 \<and> held Production (ax_system s) = 1
    \<and> length (filter (uses_capacity s) (ax_adding s)) = 1"
proof -
  have "map_option (\<lambda>s. (length (ax_adding s), held Production (ax_system s))) (run_active one_production one_at_a_time)
    = Some (2, 1)" by code_simp
  then obtain c s where run: "run_steps (ax_step one_production) one_at_a_time (new_active c) = Some s"
    and v: "(length (ax_adding s), held Production (ax_system s)) = (2, 1)"
    by (rule run_active_Some)
  from capacity_accounted [OF run] v have "length (filter (uses_capacity s) (ax_adding s)) = 1" by simp
  with run v show ?thesis by blast
qed


end
