(* ===== verification/WaitTracker.thy ===== *)
theory WaitTracker
  imports ActiveExecutions EngineRun
begin

text \<open>
  \<^verbatim>\<open>packages/cli/src/wait-tracker.ts\<close>: the timers of executions that wait, and how a parent execution
  is resumed with what its child ended with (\<^verbatim>\<open>updateParentExecutionWithChildResults\<close> of
  \<^verbatim>\<open>workflow-helpers.ts\<close>).  Timers and intervals are lists of all that were ever set, with whether
  they are still to fire.  Asynchronous calls are elements of lists with the phase they wait in;
  the answers of the database and of other services are parameters of the steps.
\<close>

section \<open>Results of a child\<close>

text \<open>An item as an object of JSON.\<close>

definition source_fields :: "source_data \<Rightarrow> jval" where
  "source_fields s = JObj ([(''previousNode'', JStr (sd_previousNode s))]
     @ (case sd_previousNodeOutput s of None \<Rightarrow> [] | Some n \<Rightarrow> [(''previousNodeOutput'', JNum (of_nat n))])
     @ (case sd_previousNodeRun s of None \<Rightarrow> [] | Some n \<Rightarrow> [(''previousNodeRun'', JNum (of_int n))]))"

definition paired_fields :: "paired_item \<Rightarrow> jval" where
  "paired_fields p = JObj ([(''item'', JNum (of_int (pi_item p)))]
     @ (case pi_input p of None \<Rightarrow> [] | Some n \<Rightarrow> [(''input'', JNum (of_nat n))])
     @ (case pi_sourceOverwrite p of None \<Rightarrow> [] | Some s \<Rightarrow> [(''sourceOverwrite'', source_fields s)]))"

definition item_fields :: "item \<Rightarrow> data_object" where
  "item_fields x = [(''json'', JObj (i_json x))]
     @ (case i_error x of None \<Rightarrow> [] | Some e \<Rightarrow> [(''error'', e)])
     @ (case i_pairedItem x of
          None \<Rightarrow> []
        | Some (Paired_one p) \<Rightarrow> [(''pairedItem'', paired_fields p)]
        | Some (Paired_many ps) \<Rightarrow> [(''pairedItem'', JArr (map paired_fields ps))]
        | Some (Paired_num n) \<Rightarrow> [(''pairedItem'', JNum (of_nat n))])
     @ i_other x"

definition pinned_item :: "nat \<times> item \<Rightarrow> item" where
  "pinned_item entry = \<lparr>i_json = item_fields (snd entry), i_error = None,
     i_pairedItem = Some (Paired_one \<lparr>pi_item = int (fst entry), pi_input = None, pi_sourceOverwrite = None\<rparr>),
     i_other = []\<rparr>"

text \<open>The task data of the node that ran last; that of a pinned node of a manual run is made of its pin data.\<close>

definition pinned_task_data :: "items \<Rightarrow> source_data option list \<Rightarrow> task_data" where
  "pinned_task_data pinned source =
     \<lparr>td_startTime = 0, td_executionIndex = Some 0, td_source = source, td_hints = [], td_executionTime = 0,
      td_executionStatus = None, td_data = Some [(Main_t, [Val (map pinned_item (enumerate 0 pinned))])],
      td_inputOverride = None, td_error = None, td_metadata = None, td_usedDynamicCredentials = None,
      td_attemptedDynamicCredentials = None\<rparr>"

definition getLastExecutedNodeData :: "execute_mode \<Rightarrow> irun \<Rightarrow> task_data option res" where
  "getLastExecutedNodeData mode inputData =
     (let s = ir_data inputData
      in case en_lastNodeExecuted s of
          None \<Rightarrow> Inr None
        | Some lastNodeExecuted \<Rightarrow>
            (case map_of (en_runData s) lastNodeExecuted of
               None \<Rightarrow> Inr None
             | Some runs \<Rightarrow>
                 (let lastNodeRunData = (if runs = [] then None else Some (last runs))
                  in case (if mode = Mode_manual then map_of (or_else (en_pinData s) []) lastNodeExecuted else None) of
                      Some pinned \<Rightarrow>
                        (case lastNodeRunData of
                           None \<Rightarrow> Inl undefined_error
                         | Some td \<Rightarrow> Inr (Some (pinned_task_data pinned (td_source td))))
                    | None \<Rightarrow> Inr lastNodeRunData)))"

text \<open>
  The new stack of the parent, from the answer of the database (the status and the stack of the
  parent, if it is found), or \<^verbatim>\<open>None\<close> if nothing is to be written.
\<close>

definition updateParentExecutionWithChildResults ::
    "execute_mode \<Rightarrow> irun \<Rightarrow> jval option \<Rightarrow> (execution_status \<times> execute_data list option) option \<Rightarrow>
     execute_data list option res" where
  "updateParentExecutionWithChildResults mode subworkflowResults childExecution parent =
     (let subworkflowError = en_error (ir_data subworkflowResults)
      in bind_res (getLastExecutedNodeData mode subworkflowResults) (\<lambda>lastExecutedNodeData.
         let data = Option.bind lastExecutedNodeData td_data
         in if subworkflowError = None \<and> data = None then Inr None
            else case parent of
                Some (Waiting, Some (entry # stack)) \<Rightarrow>
                  (case subworkflowError of
                     Some e \<Rightarrow>
                       Inr (Some (entry\<lparr>ed_metadata := Some (merge_metadata (ed_metadata entry)
                         (no_metadata\<lparr>md_resumeError := Some e, md_subExecution := childExecution\<rparr>))\<rparr> # stack))
                   | None \<Rightarrow> Inr (Some (entry\<lparr>ed_data := the data\<rparr> # stack)))
              | _ \<Rightarrow> Inr None))"

definition shouldRestartParentExecution :: "(string \<times> bool option) option \<Rightarrow> bool" where
  "shouldRestartParentExecution parentExecution =
     (case parentExecution of None \<Rightarrow> False | Some (executionId, shouldResume) \<Rightarrow> or_else shouldResume True)"

section \<open>Retries\<close>

definition MAX_PARENT_RESUME_ATTEMPTS :: nat where
  "MAX_PARENT_RESUME_ATTEMPTS = 3"

text \<open>\<^verbatim>\<open>instanceof\<close>, by the classes that a class extends.\<close>

definition instance_of :: "(string \<Rightarrow> string list) \<Rightarrow> js_error \<Rightarrow> string \<Rightarrow> bool" where
  "instance_of superclasses e c = (err_name e = c \<or> c \<in> set (superclasses (err_name e)))"

definition isRetryableResumeError :: "(string \<Rightarrow> string list) \<Rightarrow> js_error \<Rightarrow> bool" where
  "isRetryableResumeError superclasses e =
     (\<not> (instance_of superclasses e ''UserError'' \<or> instance_of superclasses e ''UnexpectedError''))"

text \<open>What \<^verbatim>\<open>withRetry\<close> does after an attempt: it returns, sleeps for a time, or throws.\<close>

datatype retry = Retry_done | Retry_after nat | Retry_failed js_error

definition withRetry :: "nat \<Rightarrow> (js_error \<Rightarrow> bool) \<Rightarrow> nat \<Rightarrow> unit res \<Rightarrow> retry" where
  "withRetry maxAttempts shouldRetry attempt outcome =
     (case outcome of
        Inr u \<Rightarrow> Retry_done
      | Inl e \<Rightarrow> if attempt \<ge> maxAttempts \<or> \<not> shouldRetry e then Retry_failed e
                else Retry_after (100 * 2 ^ (attempt - 1)))"

section \<open>State\<close>

record wait_timer =
  wi_executionId :: string
  wi_due :: int
  wi_armed :: bool

text \<open>What the database has of an execution, and what is given to the runner of workflows.\<close>

record stored_execution =
  st_finished :: bool
  st_workflowId :: string
  st_mode :: execute_mode
  st_data :: jval
  st_pushRef :: "string option"
  st_startedAt :: int
  st_parentExecution :: "(string \<times> bool option) option"

record runner_request =
  rr_executionId :: string
  rr_executionMode :: execute_mode
  rr_executionData :: jval
  rr_workflowId :: string
  rr_projectId :: string
  rr_pushRef :: "string option"
  rr_startedAt :: int

text \<open>A call of \<^verbatim>\<open>startExecution\<close>, with the resumption it is part of, if any.\<close>

datatype start_phase =
    Start_finding
  | Start_owning stored_execution
  | Start_running stored_execution
  | Start_ended "unit res"

record start_call =
  sc_executionId :: string
  sc_resume :: "nat option"
  sc_phase :: start_phase

text \<open>
  A call of \<^verbatim>\<open>resumeParentExecution\<close>; the numbers are those of the attempt, of the milliseconds it
  sleeps and of the call of \<^verbatim>\<open>startExecution\<close>.
\<close>

datatype resume_phase =
    Awaiting_child
  | Update_try nat execute_mode irun
  | Update_sleep nat nat execute_mode irun
  | Start_try nat nat
  | Start_sleep nat nat
  | Resume_done
  | Resume_failed js_error

record resume_call =
  re_parent :: string
  re_child :: "jval option"
  re_phase :: resume_phase

text \<open>
  \<^verbatim>\<open>wt_queries\<close> counts the queries that are not answered yet; \<^verbatim>\<open>wt_updates\<close>, \<^verbatim>\<open>wt_writes\<close> and
  \<^verbatim>\<open>wt_runs\<close> are traces: the resumptions that updated a parent, the stacks written to the
  database, and the calls of the runner.
\<close>

record wait_tracker =
  wt_waiting :: "(string, nat) omap"
  wt_timers :: "wait_timer list"
  wt_mainTimer :: "nat option"
  wt_intervals :: "bool list"
  wt_queries :: nat
  wt_starts :: "start_call list"
  wt_resumes :: "resume_call list"
  wt_updates :: "nat list"
  wt_writes :: "(string \<times> execute_data list) list"
  wt_runs :: "runner_request list"

definition new_tracker :: wait_tracker where
  "new_tracker = \<lparr>wt_waiting = [], wt_timers = [], wt_mainTimer = None, wt_intervals = [], wt_queries = 0,
     wt_starts = [], wt_resumes = [], wt_updates = [], wt_writes = [], wt_runs = []\<rparr>"

section \<open>Tracking\<close>

definition tracker_has :: "string \<Rightarrow> wait_tracker \<Rightarrow> bool" where
  "tracker_has executionId s = (map_of (wt_waiting s) executionId \<noteq> None)"

text \<open>\<^verbatim>\<open>getWaitingExecutions\<close> up to the query, and after it.\<close>

definition ask_waiting :: "wait_tracker \<Rightarrow> wait_tracker" where
  "ask_waiting s = s\<lparr>wt_queries := Suc (wt_queries s)\<rparr>"

text \<open>The delay of \<^verbatim>\<open>setTimeout\<close>: a number out of its range counts as one.\<close>

definition timer_delay :: "int \<Rightarrow> int" where
  "timer_delay ms = (if 1 \<le> ms \<and> ms \<le> 2147483647 then ms else 1)"

definition set_timer :: "int \<Rightarrow> string \<times> int \<Rightarrow> wait_tracker \<Rightarrow> wait_tracker" where
  "set_timer now execution s =
     (case execution of (executionId, waitTill) \<Rightarrow>
        if map_of (wt_waiting s) executionId = None
        then let triggerTime = waitTill - now
             in s\<lparr>wt_waiting := AList.update executionId (length (wt_timers s)) (wt_waiting s),
                  wt_timers := wt_timers s @ [\<lparr>wi_executionId = executionId, wi_due = now + timer_delay triggerTime, wi_armed = True\<rparr>]\<rparr>
        else s)"

definition getWaitingExecutions :: "int \<Rightarrow> (string \<times> int) list res \<Rightarrow> wait_tracker \<Rightarrow> wait_tracker" where
  "getWaitingExecutions now answer s =
     (let s = s\<lparr>wt_queries := wt_queries s - 1\<rparr>
      in case answer of Inl e \<Rightarrow> s | Inr executions \<Rightarrow> fold (set_timer now) executions s)"

definition startTracking :: "wait_tracker \<Rightarrow> wait_tracker" where
  "startTracking s =
     ask_waiting (s\<lparr>wt_mainTimer := Some (length (wt_intervals s)), wt_intervals := wt_intervals s @ [True]\<rparr>)"

definition init_tracker :: "bool \<Rightarrow> wait_tracker \<Rightarrow> wait_tracker" where
  "init_tracker isLeader s = (if isLeader then startTracking s else s)"

definition clear_timer :: "nat \<Rightarrow> wait_tracker \<Rightarrow> wait_tracker" where
  "clear_timer t s = s\<lparr>wt_timers := (wt_timers s)[t := (wt_timers s ! t)\<lparr>wi_armed := False\<rparr>]\<rparr>"

definition stop_waiting :: "string \<Rightarrow> wait_tracker \<Rightarrow> wait_tracker" where
  "stop_waiting executionId s =
     (case map_of (wt_waiting s) executionId of
        None \<Rightarrow> s
      | Some t \<Rightarrow> (clear_timer t s)\<lparr>wt_waiting := AList.delete executionId (wt_waiting s)\<rparr>)"

text \<open>The entries stay when their timers are cleared.\<close>

definition stopTracking :: "wait_tracker \<Rightarrow> wait_tracker" where
  "stopTracking s =
     (case wt_mainTimer s of
        None \<Rightarrow> s
      | Some i \<Rightarrow> fold clear_timer (ovals (wt_waiting s)) (s\<lparr>wt_intervals := (wt_intervals s)[i := False]\<rparr>))"

section \<open>Starting an execution again\<close>

definition startExecution :: "nat option \<Rightarrow> string \<Rightarrow> wait_tracker \<Rightarrow> wait_tracker" where
  "startExecution origin executionId s =
     s\<lparr>wt_waiting := AList.delete executionId (wt_waiting s),
       wt_starts := wt_starts s @ [\<lparr>sc_executionId = executionId, sc_resume = origin, sc_phase = Start_finding\<rparr>]\<rparr>"

definition fireTimer :: "nat \<Rightarrow> wait_tracker \<Rightarrow> wait_tracker" where
  "fireTimer t s = startExecution None (wi_executionId (wt_timers s ! t)) (clear_timer t s)"

definition start_phase_of :: "wait_tracker \<Rightarrow> nat \<Rightarrow> start_phase" where
  "start_phase_of s i = sc_phase (wt_starts s ! i)"

definition put_start :: "nat \<Rightarrow> start_phase \<Rightarrow> wait_tracker \<Rightarrow> wait_tracker" where
  "put_start i phase s = s\<lparr>wt_starts := (wt_starts s)[i := (wt_starts s ! i)\<lparr>sc_phase := phase\<rparr>]\<rparr>"

text \<open>After each await of \<^verbatim>\<open>startExecution\<close>, with what it was answered.\<close>

definition found_execution :: "nat \<Rightarrow> stored_execution option res \<Rightarrow> wait_tracker \<Rightarrow> wait_tracker" where
  "found_execution i answer s =
     put_start i
       (case answer of
          Inl e \<Rightarrow> Start_ended (Inl e)
        | Inr None \<Rightarrow> Start_ended (Inl (UnexpectedError ''Execution does not exist.''))
        | Inr (Some x) \<Rightarrow>
            if st_finished x
            then Start_ended (Inl (UnexpectedError ''The execution did succeed and can so not be started again.''))
            else if st_workflowId x = [] then Start_ended (Inl (UnexpectedError ''Only saved workflows can be resumed.''))
            else Start_owning x) s"

definition found_project :: "nat \<Rightarrow> stored_execution \<Rightarrow> string res \<Rightarrow> wait_tracker \<Rightarrow> wait_tracker" where
  "found_project i x answer s =
     (case answer of
        Inl e \<Rightarrow> put_start i (Start_ended (Inl e)) s
      | Inr projectId \<Rightarrow>
          put_start i (Start_running x) (s\<lparr>wt_runs := wt_runs s @
            [\<lparr>rr_executionId = sc_executionId (wt_starts s ! i), rr_executionMode = st_mode x,
              rr_executionData = st_data x, rr_workflowId = st_workflowId x, rr_projectId = projectId,
              rr_pushRef = st_pushRef x, rr_startedAt = st_startedAt x\<rparr>]\<rparr>))"

definition resumeParentExecution :: "string \<Rightarrow> jval option \<Rightarrow> wait_tracker \<Rightarrow> wait_tracker" where
  "resumeParentExecution parentExecutionId childExecution s =
     s\<lparr>wt_resumes := wt_resumes s @
       [\<lparr>re_parent = parentExecutionId, re_child = childExecution, re_phase = Awaiting_child\<rparr>]\<rparr>"

text \<open>\<^verbatim>\<open>active\<close> holds the active executions at this moment.\<close>

definition run_returned :: "nat \<Rightarrow> stored_execution \<Rightarrow> unit res \<Rightarrow> active_executions \<Rightarrow> wait_tracker \<Rightarrow> wait_tracker" where
  "run_returned i x answer active s =
     (let executionId = sc_executionId (wt_starts s ! i)
      in case answer of
          Inl e \<Rightarrow>
            put_start i (Start_ended (if err_name e = ''ExecutionAlreadyResumingError'' then Inr () else Inl e)) s
        | Inr u \<Rightarrow>
            if shouldRestartParentExecution (st_parentExecution x)
            then (case getPostExecutePromise executionId active of
                Inl e \<Rightarrow> put_start i (Start_ended (Inl e)) s
              | Inr promise \<Rightarrow>
                  put_start i (Start_ended (Inr ())) (resumeParentExecution (fst (the (st_parentExecution x)))
                    (Some (JObj [(''executionId'', JStr executionId), (''workflowId'', JStr (st_workflowId x))])) s))
            else put_start i (Start_ended (Inr ())) s)"

section \<open>Resuming the parent\<close>

definition put_resume :: "nat \<Rightarrow> resume_phase \<Rightarrow> wait_tracker \<Rightarrow> wait_tracker" where
  "put_resume r phase s = s\<lparr>wt_resumes := (wt_resumes s)[r := (wt_resumes s ! r)\<lparr>re_phase := phase\<rparr>]\<rparr>"

definition try_update :: "nat \<Rightarrow> nat \<Rightarrow> execute_mode \<Rightarrow> irun \<Rightarrow> wait_tracker \<Rightarrow> wait_tracker" where
  "try_update r attempt mode results s =
     put_resume r (Update_try attempt mode results) (s\<lparr>wt_updates := wt_updates s @ [r]\<rparr>)"

definition try_start :: "nat \<Rightarrow> nat \<Rightarrow> wait_tracker \<Rightarrow> wait_tracker" where
  "try_start r attempt s =
     put_resume r (Start_try attempt (length (wt_starts s))) (startExecution (Some r) (re_parent (wt_resumes s ! r)) s)"

text \<open>The promise of the child has settled.\<close>

definition child_ended :: "nat \<Rightarrow> (execute_mode \<times> irun) option res \<Rightarrow> wait_tracker \<Rightarrow> wait_tracker" where
  "child_ended r answer s =
     (case answer of
        Inl e \<Rightarrow> put_resume r (Resume_failed e) s
      | Inr None \<Rightarrow> put_resume r Resume_done s
      | Inr (Some (mode, results)) \<Rightarrow>
          if ir_status results = Waiting then put_resume r Resume_done s else try_update r 1 mode results s)"

text \<open>
  An attempt to update the parent has ended: the database found the parent or failed, and, if
  there is something to write, wrote it or failed.
\<close>

definition update_outcome ::
    "nat \<Rightarrow> execute_mode \<Rightarrow> irun \<Rightarrow> (execution_status \<times> execute_data list option) option res \<Rightarrow> unit res \<Rightarrow> wait_tracker \<Rightarrow>
     wait_tracker \<times> unit res" where
  "update_outcome r mode results found written s =
     (let x = wt_resumes s ! r
      in case bind_res found (updateParentExecutionWithChildResults mode results (re_child x)) of
          Inl e \<Rightarrow> (s, Inl e)
        | Inr None \<Rightarrow> (s, Inr ())
        | Inr (Some stack) \<Rightarrow> (s\<lparr>wt_writes := wt_writes s @ [(re_parent x, stack)]\<rparr>, written))"

definition updated_parent ::
    "(string \<Rightarrow> string list) \<Rightarrow> nat \<Rightarrow> nat \<Rightarrow> execute_mode \<Rightarrow> irun \<Rightarrow> (execution_status \<times> execute_data list option) option res \<Rightarrow>
     unit res \<Rightarrow> wait_tracker \<Rightarrow> wait_tracker" where
  "updated_parent superclasses r attempt mode results found written s =
     (case update_outcome r mode results found written s of (s, outcome) \<Rightarrow>
        (case withRetry MAX_PARENT_RESUME_ATTEMPTS (isRetryableResumeError superclasses) attempt outcome of
           Retry_done \<Rightarrow> try_start r 1 s
         | Retry_after ms \<Rightarrow> put_resume r (Update_sleep attempt ms mode results) s
         | Retry_failed e \<Rightarrow> put_resume r (Resume_failed e) s))"

definition started_parent :: "(string \<Rightarrow> string list) \<Rightarrow> nat \<Rightarrow> nat \<Rightarrow> unit res \<Rightarrow> wait_tracker \<Rightarrow> wait_tracker" where
  "started_parent superclasses r attempt outcome s =
     (case withRetry MAX_PARENT_RESUME_ATTEMPTS (isRetryableResumeError superclasses) attempt outcome of
        Retry_done \<Rightarrow> put_resume r Resume_done s
      | Retry_after ms \<Rightarrow> put_resume r (Start_sleep attempt ms) s
      | Retry_failed e \<Rightarrow> put_resume r (Resume_failed e) s)"

section \<open>Steps\<close>

text \<open>
  What can happen: leadership, the interval, the answer of a query, a request to stop, a timer, and
  the answers and pauses that calls wait for.
\<close>

datatype wait_event =
    Init bool
  | Takeover
  | Stepdown
  | Tick nat
  | Queried int "(string \<times> int) list res"
  | Stop_waiting string
  | Fire nat
  | Found nat "stored_execution option res"
  | Found_project nat "string res"
  | Run_returned nat "unit res" active_executions
  | Resume_parent string "jval option"
  | Child_ended nat "(execute_mode \<times> irun) option res"
  | Parent_updated nat "(execution_status \<times> execute_data list option) option res" "unit res"
  | Slept nat
  | Parent_started nat

definition start_step :: "nat \<Rightarrow> wait_event \<Rightarrow> wait_tracker \<Rightarrow> wait_tracker option" where
  "start_step i ev s =
     (if length (wt_starts s) \<le> i then None
      else case (ev, start_phase_of s i) of
          (Found _ answer, Start_finding) \<Rightarrow> Some (found_execution i answer s)
        | (Found_project _ answer, Start_owning x) \<Rightarrow> Some (found_project i x answer s)
        | (Run_returned _ answer active, Start_running x) \<Rightarrow> Some (run_returned i x answer active s)
        | _ \<Rightarrow> None)"

definition resume_step :: "(string \<Rightarrow> string list) \<Rightarrow> nat \<Rightarrow> wait_event \<Rightarrow> wait_tracker \<Rightarrow> wait_tracker option" where
  "resume_step superclasses r ev s =
     (if length (wt_resumes s) \<le> r then None
      else case (ev, re_phase (wt_resumes s ! r)) of
          (Child_ended _ answer, Awaiting_child) \<Rightarrow> Some (child_ended r answer s)
        | (Parent_updated _ found written, Update_try attempt mode results) \<Rightarrow>
            Some (updated_parent superclasses r attempt mode results found written s)
        | (Slept _, Update_sleep attempt ms mode results) \<Rightarrow> Some (try_update r (Suc attempt) mode results s)
        | (Slept _, Start_sleep attempt ms) \<Rightarrow> Some (try_start r (Suc attempt) s)
        | (Parent_started _, Start_try attempt i) \<Rightarrow>
            (case start_phase_of s i of
               Start_ended outcome \<Rightarrow> Some (started_parent superclasses r attempt outcome s)
             | _ \<Rightarrow> None)
        | _ \<Rightarrow> None)"

fun wait_step :: "(string \<Rightarrow> string list) \<Rightarrow> wait_event \<Rightarrow> wait_tracker \<Rightarrow> wait_tracker option" where
  "wait_step supers (Init isLeader) s = Some (init_tracker isLeader s)"
| "wait_step supers Takeover s = Some (startTracking s)"
| "wait_step supers Stepdown s = Some (stopTracking s)"
| "wait_step supers (Tick i) s = (if i < length (wt_intervals s) \<and> wt_intervals s ! i then Some (ask_waiting s) else None)"
| "wait_step supers (Queried now answer) s = (if wt_queries s = 0 then None else Some (getWaitingExecutions now answer s))"
| "wait_step supers (Stop_waiting executionId) s = Some (stop_waiting executionId s)"
| "wait_step supers (Fire t) s =
     (if t < length (wt_timers s) \<and> wi_armed (wt_timers s ! t) then Some (fireTimer t s) else None)"
| "wait_step supers (Found i answer) s = start_step i (Found i answer) s"
| "wait_step supers (Found_project i answer) s = start_step i (Found_project i answer) s"
| "wait_step supers (Run_returned i answer active) s = start_step i (Run_returned i answer active) s"
| "wait_step supers (Resume_parent parentExecutionId child) s = Some (resumeParentExecution parentExecutionId child s)"
| "wait_step supers (Child_ended r answer) s = resume_step supers r (Child_ended r answer) s"
| "wait_step supers (Parent_updated r found written) s = resume_step supers r (Parent_updated r found written) s"
| "wait_step supers (Slept r) s = resume_step supers r (Slept r) s"
| "wait_step supers (Parent_started r) s = resume_step supers r (Parent_started r) s"

section \<open>Timers\<close>

text \<open>
  Every entry has a timer of its own, set for its execution.  A timer that is still to fire is the
  one of an entry, unless its execution was resumed as the parent of another: \<^verbatim>\<open>startExecution\<close>
  then deletes the entry and leaves the timer.
\<close>

definition parents :: "wait_tracker \<Rightarrow> string list" where
  "parents s = map re_parent (wt_resumes s)"

definition timers_ok :: "wait_tracker \<Rightarrow> bool" where
  "timers_ok s \<longleftrightarrow> distinct (okeys (wt_waiting s))
     \<and> (\<forall>e t. map_of (wt_waiting s) e = Some t \<longrightarrow> t < length (wt_timers s) \<and> wi_executionId (wt_timers s ! t) = e)
     \<and> (\<forall>t < length (wt_timers s). wi_armed (wt_timers s ! t) \<longrightarrow>
          map_of (wt_waiting s) (wi_executionId (wt_timers s ! t)) = Some t
          \<or> wi_executionId (wt_timers s ! t) \<in> set (parents s))"

lemma map_update_field: "f y = f (xs ! r) \<Longrightarrow> map f (xs[r := y]) = map f xs"
  by (cases "r < length xs") (simp_all add: map_update list_update_same_conv list_update_beyond)

lemma put_resume_frame [simp]:
  "parents (put_resume r phase s) = parents s" "wt_waiting (put_resume r phase s) = wt_waiting s"
  "wt_timers (put_resume r phase s) = wt_timers s" "wt_updates (put_resume r phase s) = wt_updates s"
  "wt_starts (put_resume r phase s) = wt_starts s"
  by (simp_all add: put_resume_def parents_def map_update_field)

lemma put_start_frame [simp]:
  "wt_resumes (put_start i phase s) = wt_resumes s" "wt_waiting (put_start i phase s) = wt_waiting s"
  "wt_timers (put_start i phase s) = wt_timers s" "wt_updates (put_start i phase s) = wt_updates s"
  "map sc_resume (wt_starts (put_start i phase s)) = map sc_resume (wt_starts s)"
  by (simp_all add: put_start_def map_update_field)

lemma timers_okD:
  assumes "timers_ok s"
  shows "map_of (wt_waiting s) e = Some t \<Longrightarrow> t < length (wt_timers s)"
    and "map_of (wt_waiting s) e = Some t \<Longrightarrow> wi_executionId (wt_timers s ! t) = e"
    and "t < length (wt_timers s) \<Longrightarrow> wi_armed (wt_timers s ! t) \<Longrightarrow>
      map_of (wt_waiting s) (wi_executionId (wt_timers s ! t)) = Some t \<or> wi_executionId (wt_timers s ! t) \<in> set (parents s)"
    and "distinct (okeys (wt_waiting s))"
  using assms unfolding timers_ok_def by blast+

lemma timers_frame:
  assumes "timers_ok s" and "wt_waiting s' = wt_waiting s" and "wt_timers s' = wt_timers s"
    and "set (parents s) \<subseteq> set (parents s')"
  shows "timers_ok s'"
  using assms unfolding timers_ok_def by (simp only:) blast

lemma clear_timer_frame [simp]:
  "wt_waiting (clear_timer t s) = wt_waiting s" "parents (clear_timer t s) = parents s"
  "length (wt_timers (clear_timer t s)) = length (wt_timers s)" "wt_resumes (clear_timer t s) = wt_resumes s"
  by (simp_all add: clear_timer_def parents_def)

lemma clear_timer_id [simp]: "wi_executionId (wt_timers (clear_timer t s) ! u) = wi_executionId (wt_timers s ! u)"
  by (cases "t < length (wt_timers s)"; cases "u = t") (simp_all add: clear_timer_def list_update_beyond)

lemma clear_timer_armed:
  "u < length (wt_timers s) \<Longrightarrow> wi_armed (wt_timers (clear_timer t s) ! u) \<longleftrightarrow> u \<noteq> t \<and> wi_armed (wt_timers s ! u)"
  by (cases "u = t") (simp_all add: clear_timer_def)

lemma clear_timer_ok: "timers_ok s \<Longrightarrow> timers_ok (clear_timer t s)"
  unfolding timers_ok_def by (simp add: clear_timer_armed del: map_of_eq_Some_iff)

lemma set_timer_ok: "timers_ok s \<Longrightarrow> timers_ok (set_timer now x s)"
proof (cases x)
  case (Pair e due)
  assume ok: "timers_ok s"
  show ?thesis
  proof (cases "map_of (wt_waiting s) e")
    case None
    let ?s = "set_timer now x s" and ?n = "length (wt_timers s)"
    have s': "wt_waiting ?s = AList.update e ?n (wt_waiting s)" "parents ?s = parents s" "length (wt_timers ?s) = Suc ?n"
      "wi_executionId (wt_timers ?s ! ?n) = e" "t < ?n \<Longrightarrow> wt_timers ?s ! t = wt_timers s ! t" for t
      using Pair None by (simp_all add: set_timer_def Let_def parents_def nth_append)
    have "t < Suc ?n \<and> wi_executionId (wt_timers ?s ! t) = k" if "map_of (wt_waiting ?s) k = Some t" for k t
      using that timers_okD(1,2) [OF ok, of k t] s' by (auto simp: map_of_update simp del: map_of_eq_Some_iff split: if_splits)
    moreover have "map_of (wt_waiting ?s) (wi_executionId (wt_timers ?s ! t)) = Some t \<or> wi_executionId (wt_timers ?s ! t) \<in> set (parents s)"
      if "t < Suc ?n" "wi_armed (wt_timers ?s ! t)" for t
      using that timers_okD(3) [OF ok, of t] s' None by (cases "t = ?n") (auto simp: map_of_update simp del: map_of_eq_Some_iff)
    ultimately show ?thesis
      using timers_okD(4) [OF ok] unfolding timers_ok_def by (simp add: s' distinct_keys_update del: map_of_eq_Some_iff)
  qed (use Pair ok in \<open>simp add: set_timer_def\<close>)
qed

text \<open>The entry of an execution goes, if its timer does or it is a parent.\<close>

lemma drop_entry_ok:
  assumes ok: "timers_ok s" and gone: "\<And>t. map_of (wt_waiting s) e = Some t \<Longrightarrow> \<not> wi_armed (wt_timers s ! t) \<or> e \<in> set (parents s)"
    and s': "wt_waiting s' = AList.delete e (wt_waiting s)" "wt_timers s' = wt_timers s" "parents s' = parents s"
  shows "timers_ok s'"
proof -
  have "map_of (wt_waiting s') (wi_executionId (wt_timers s' ! t)) = Some t \<or> wi_executionId (wt_timers s' ! t) \<in> set (parents s')"
    if "t < length (wt_timers s)" "wi_armed (wt_timers s ! t)" for t
    using timers_okD(3) [OF ok that] gone [of t] that s' by (auto simp: map_of_delete simp del: map_of_eq_Some_iff)
  moreover have "t < length (wt_timers s') \<and> wi_executionId (wt_timers s' ! t) = k" if "map_of (wt_waiting s') k = Some t" for k t
    using that timers_okD(1,2) [OF ok, of k t] s' by (auto simp: map_of_delete simp del: map_of_eq_Some_iff split: if_splits)
  ultimately show ?thesis
    using timers_okD(4) [OF ok] unfolding timers_ok_def by (simp add: s' distinct_keys_delete del: map_of_eq_Some_iff)
qed

lemma fireTimer_ok:
  assumes ok: "timers_ok s" and t: "t < length (wt_timers s)" "wi_armed (wt_timers s ! t)"
  shows "timers_ok (fireTimer t s)"
proof (rule drop_entry_ok [OF clear_timer_ok [OF ok, of t], where e = "wi_executionId (wt_timers s ! t)"])
  fix u
  assume u: "map_of (wt_waiting (clear_timer t s)) (wi_executionId (wt_timers s ! t)) = Some u"
  then have "u < length (wt_timers s)" using timers_okD(1) [OF ok] by simp
  with u timers_okD(3) [OF ok t]
  show "\<not> wi_armed (wt_timers (clear_timer t s) ! u) \<or> wi_executionId (wt_timers s ! t) \<in> set (parents (clear_timer t s))"
    by (auto simp: clear_timer_armed)
qed (simp_all add: fireTimer_def startExecution_def parents_def)

lemma start_parent_ok: "timers_ok s \<Longrightarrow> r < length (wt_resumes s) \<Longrightarrow> timers_ok (try_start r attempt s)"
  by (rule drop_entry_ok [where s = s and e = "re_parent (wt_resumes s ! r)"])
     (simp_all add: try_start_def startExecution_def, simp_all add: parents_def)

lemma stop_waiting_ok:
  assumes ok: "timers_ok s"
  shows "timers_ok (stop_waiting e s)"
proof (cases "map_of (wt_waiting s) e")
  case (Some t)
  show ?thesis
  proof (rule drop_entry_ok [OF clear_timer_ok [OF ok, of t], where e = e])
    show "\<not> wi_armed (wt_timers (clear_timer t s) ! u) \<or> e \<in> set (parents (clear_timer t s))"
      if "map_of (wt_waiting (clear_timer t s)) e = Some u" for u
      using that Some timers_okD(1) [OF ok Some] by (simp add: clear_timer_armed)
  qed (simp_all add: stop_waiting_def Some parents_def clear_timer_def)
qed (simp add: stop_waiting_def ok)

lemma stopTracking_ok: "timers_ok s \<Longrightarrow> timers_ok (stopTracking s)"
proof (cases "wt_mainTimer s")
  case (Some i)
  assume ok: "timers_ok s"
  let ?s = "s\<lparr>wt_intervals := (wt_intervals s)[i := False]\<rparr>"
  have "timers_ok ?s" by (rule timers_frame [OF ok]) (simp_all add: parents_def)
  then have "timers_ok (fold clear_timer ts ?s)" for ts
    by (rule fold_invariant_set) (rule clear_timer_ok)
  with Some show ?thesis by (simp add: stopTracking_def)
qed (simp add: stopTracking_def)

lemma getWaitingExecutions_ok: "timers_ok s \<Longrightarrow> timers_ok (getWaitingExecutions now answer s)"
proof (cases answer)
  case (Inr executions)
  assume ok: "timers_ok s"
  have "timers_ok (s\<lparr>wt_queries := wt_queries s - 1\<rparr>)" by (rule timers_frame [OF ok]) (simp_all add: parents_def)
  then have "timers_ok (fold (set_timer now) executions (s\<lparr>wt_queries := wt_queries s - 1\<rparr>))"
    by (rule fold_invariant_set) (rule set_timer_ok)
  with Inr show ?thesis by (simp add: getWaitingExecutions_def)
qed (auto simp: getWaitingExecutions_def parents_def intro: timers_frame)

lemma start_step_ok: "timers_ok s \<Longrightarrow> start_step i ev s = Some s' \<Longrightarrow> timers_ok s'"
  by (rule timers_frame, assumption)
     (auto simp: start_step_def found_execution_def found_project_def run_returned_def resumeParentExecution_def
        parents_def put_start_def Let_def split: wait_event.splits start_phase.splits if_splits sum.splits)

lemma update_outcome_frame:
  "update_outcome r mode results found written s = (s', outcome) \<Longrightarrow>
     wt_waiting s' = wt_waiting s \<and> wt_timers s' = wt_timers s \<and> wt_resumes s' = wt_resumes s
     \<and> wt_updates s' = wt_updates s \<and> wt_starts s' = wt_starts s"
  by (auto simp: update_outcome_def Let_def split: sum.splits option.splits)

lemma updated_parent_ok:
  assumes "timers_ok s" and "r < length (wt_resumes s)"
  shows "timers_ok (updated_parent supers r attempt mode results found written s)"
proof (cases "update_outcome r mode results found written s")
  case (Pair s1 outcome)
  from update_outcome_frame [OF Pair] assms(1) have ok: "timers_ok s1"
    by (intro timers_frame [OF assms(1)]) (simp_all add: parents_def)
  from update_outcome_frame [OF Pair] assms(2) have "timers_ok (try_start r 1 s1)" by (intro start_parent_ok [OF ok]) simp
  moreover have "timers_ok (put_resume r phase s1)" for phase by (rule timers_frame [OF ok]) simp_all
  ultimately show ?thesis by (simp add: updated_parent_def Pair split: retry.split)
qed

lemma resume_step_ok:
  assumes ok: "timers_ok s" and step: "resume_step supers r ev s = Some s'"
  shows "timers_ok s'"
proof -
  have r: "r < length (wt_resumes s)" using step by (auto simp: resume_step_def split: if_splits)
  have phase: "timers_ok (put_resume r phase s)" for phase by (rule timers_frame [OF ok]) simp_all
  have update: "timers_ok (try_update r attempt mode results s)" for attempt mode results
    by (rule timers_frame [OF ok]) (simp_all add: try_update_def, simp_all add: parents_def put_resume_def map_update_field)
  show ?thesis
    using step r phase update updated_parent_ok [OF ok r] start_parent_ok [OF ok r]
    by (auto simp: resume_step_def child_ended_def started_parent_def
        split: wait_event.splits resume_phase.splits sum.splits option.splits if_splits start_phase.splits retry.splits)
qed

lemma startTracking_ok: "timers_ok s \<Longrightarrow> timers_ok (startTracking s)"
  by (erule timers_frame) (simp_all add: startTracking_def ask_waiting_def parents_def)

lemma wait_step_ok:
  assumes ok: "timers_ok s" and step: "wait_step supers ev s = Some s'"
  shows "timers_ok s'"
proof -
  have "timers_ok (ask_waiting s)" by (rule timers_frame [OF ok]) (simp_all add: ask_waiting_def parents_def)
  moreover have "timers_ok (resumeParentExecution e child s)" for e child
    by (rule timers_frame [OF ok]) (auto simp: resumeParentExecution_def parents_def)
  ultimately show ?thesis
    using step startTracking_ok [OF ok] stopTracking_ok [OF ok] getWaitingExecutions_ok [OF ok] stop_waiting_ok [OF ok]
      fireTimer_ok [OF ok] start_step_ok [OF ok] resume_step_ok [OF ok] ok
    by (cases ev) (auto simp: init_tracker_def split: if_splits)
qed

lemma new_tracker_ok: "timers_ok new_tracker"
  by (simp add: timers_ok_def new_tracker_def)

interpretation waiting: invariant_machine "wait_step supers" timers_ok for supers
  by unfold_locales (rule wait_step_ok)

text \<open>
  C17. After any events, stopping an execution that was not resumed as a parent takes it off the
  list and leaves no timer for it; the timers of all other executions stay as they are.
\<close>

theorem stopped_execution_has_no_timer:
  assumes "run_steps (wait_step supers) events new_tracker = Some s" and "e \<notin> set (parents s)"
  shows "\<not> tracker_has e (stop_waiting e s) \<and> (\<forall>t < length (wt_timers s).
    wi_armed (wt_timers (stop_waiting e s) ! t) \<longleftrightarrow> wi_armed (wt_timers s ! t) \<and> wi_executionId (wt_timers s ! t) \<noteq> e)"
proof -
  have ok: "timers_ok s" by (rule waiting.inv_run [OF new_tracker_ok assms(1)])
  show ?thesis
  proof (cases "map_of (wt_waiting s) e")
    case None
    have "wi_executionId (wt_timers s ! t) \<noteq> e" if "t < length (wt_timers s)" "wi_armed (wt_timers s ! t)" for t
      using timers_okD(3) [OF ok that] None assms(2) by auto
    with None show ?thesis by (auto simp: stop_waiting_def tracker_has_def)
  next
    case (Some u)
    have timers: "wt_timers (stop_waiting e s) = wt_timers (clear_timer u s)" by (simp add: stop_waiting_def Some clear_timer_def)
    have "wi_armed (wt_timers s ! t) \<and> wi_executionId (wt_timers s ! t) = e \<Longrightarrow> t = u" if "t < length (wt_timers s)" for t
      using timers_okD(3) [OF ok that] Some assms(2) by auto
    moreover have "\<not> tracker_has e (stop_waiting e s)" by (simp add: stop_waiting_def Some tracker_has_def map_of_delete)
    ultimately show ?thesis using timers_okD(2) [OF ok Some] by (auto simp: timers clear_timer_armed)
  qed
qed

section \<open>Attempts\<close>

text \<open>
  How many updates and starts belong to a resumption in each phase: at most as many as the number
  of the attempt says.
\<close>

fun attempts_of :: "resume_phase \<Rightarrow> nat \<Rightarrow> nat \<Rightarrow> bool" where
  "attempts_of Awaiting_child updates starts = (updates = 0 \<and> starts = 0)"
| "attempts_of (Update_try n mode results) updates starts = (updates = n \<and> n \<le> MAX_PARENT_RESUME_ATTEMPTS \<and> starts = 0)"
| "attempts_of (Update_sleep n ms mode results) updates starts = (updates = n \<and> n < MAX_PARENT_RESUME_ATTEMPTS \<and> starts = 0)"
| "attempts_of (Start_try n i) updates starts =
     (updates \<le> MAX_PARENT_RESUME_ATTEMPTS \<and> starts = n \<and> n \<le> MAX_PARENT_RESUME_ATTEMPTS)"
| "attempts_of (Start_sleep n ms) updates starts =
     (updates \<le> MAX_PARENT_RESUME_ATTEMPTS \<and> starts = n \<and> n < MAX_PARENT_RESUME_ATTEMPTS)"
| "attempts_of phase updates starts = (updates \<le> MAX_PARENT_RESUME_ATTEMPTS \<and> starts \<le> MAX_PARENT_RESUME_ATTEMPTS)"

definition origins :: "wait_tracker \<Rightarrow> nat option list" where
  "origins s = map sc_resume (wt_starts s)"

definition attempts_ok :: "wait_tracker \<Rightarrow> bool" where
  "attempts_ok s \<longleftrightarrow> set (wt_updates s) \<subseteq> {..<length (wt_resumes s)}
     \<and> (\<forall>r. Some r \<in> set (origins s) \<longrightarrow> r < length (wt_resumes s))
     \<and> (\<forall>r < length (wt_resumes s).
          attempts_of (re_phase (wt_resumes s ! r)) (count_list (wt_updates s) r) (count_list (origins s) (Some r)))"

lemma attempts_same:
  assumes "attempts_ok s" and "wt_resumes s' = wt_resumes s" "wt_updates s' = wt_updates s"
    and "origins s' = origins s @ replicate n None"
  shows "attempts_ok s'"
  using assms by (auto simp: attempts_ok_def count_list_append)

text \<open>A step of one resumption.\<close>

lemma attempts_next:
  assumes ok: "attempts_ok s" and r: "r < length (wt_resumes s)"
    and s': "wt_resumes s' = (wt_resumes s)[r := x]" "wt_updates s' = wt_updates s @ replicate m r"
      "origins s' = origins s @ replicate n (Some r)"
    and phase: "attempts_of (re_phase x) (count_list (wt_updates s) r + m) (count_list (origins s) (Some r) + n)"
  shows "attempts_ok s'"
proof -
  have counts: "count_list (replicate k y) z = (if z = y then k else 0)" for k and y z :: 'z by (induction k) auto
  show ?thesis
    using ok r phase by (auto simp: attempts_ok_def s' counts nth_list_update)
qed

lemma put_start_origins: "origins (put_start i phase s) = origins s"
  by (simp add: origins_def)

lemma put_resume_attempts:
  assumes "attempts_ok s" and "r < length (wt_resumes s)"
    and "attempts_of phase (count_list (wt_updates s) r) (count_list (origins s) (Some r))"
  shows "attempts_ok (put_resume r phase s)"
  using assms(3) by (intro attempts_next [OF assms(1,2), where m = 0 and n = 0 and
      x = "(wt_resumes s ! r)\<lparr>re_phase := phase\<rparr>"]) (simp_all add: put_resume_def origins_def)

lemma try_update_attempts:
  assumes "attempts_ok s" and "r < length (wt_resumes s)" and "attempt \<le> MAX_PARENT_RESUME_ATTEMPTS"
    and "Suc (count_list (wt_updates s) r) = attempt" "count_list (origins s) (Some r) = 0"
  shows "attempts_ok (try_update r attempt mode results s)"
  using assms(3-5) by (intro attempts_next [OF assms(1,2), where m = 1 and n = 0 and
      x = "(wt_resumes s ! r)\<lparr>re_phase := Update_try attempt mode results\<rparr>"])
    (simp_all add: try_update_def put_resume_def origins_def)

lemma try_start_attempts:
  assumes "attempts_ok s" and "r < length (wt_resumes s)" and "attempt \<le> MAX_PARENT_RESUME_ATTEMPTS"
    and "count_list (wt_updates s) r \<le> MAX_PARENT_RESUME_ATTEMPTS" "Suc (count_list (origins s) (Some r)) = attempt"
  shows "attempts_ok (try_start r attempt s)"
  using assms(3-5) by (intro attempts_next [OF assms(1,2), where m = 0 and n = 1 and
      x = "(wt_resumes s ! r)\<lparr>re_phase := Start_try attempt (length (wt_starts s))\<rparr>"])
    (simp_all add: try_start_def put_resume_def startExecution_def origins_def)

lemma attempts_okD:
  "attempts_ok s \<Longrightarrow> r < length (wt_resumes s) \<Longrightarrow>
     attempts_of (re_phase (wt_resumes s ! r)) (count_list (wt_updates s) r) (count_list (origins s) (Some r))"
  by (simp add: attempts_ok_def)

lemma resume_step_attempts:
  assumes ok: "attempts_ok s" and step: "resume_step supers r ev s = Some s'"
  shows "attempts_ok s'"
proof -
  have r: "r < length (wt_resumes s)" using step by (auto simp: resume_step_def split: if_splits)
  note counts = attempts_okD [OF ok r]
  have retry: "withRetry MAX_PARENT_RESUME_ATTEMPTS P attempt outcome = Retry_after ms \<Longrightarrow> attempt < MAX_PARENT_RESUME_ATTEMPTS"
    for P attempt outcome ms by (auto simp: withRetry_def split: sum.splits if_splits)
  have updated: "attempts_ok (updated_parent supers r attempt mode results found written s)"
    if phase: "re_phase (wt_resumes s ! r) = Update_try attempt mode results" for attempt mode results found written
  proof (cases "update_outcome r mode results found written s")
    case (Pair s1 outcome)
    from update_outcome_frame [OF Pair] have same: "wt_resumes s1 = wt_resumes s" "wt_updates s1 = wt_updates s" "origins s1 = origins s"
      by (simp_all add: origins_def)
    then have ok1: "attempts_ok s1" by (intro attempts_same [OF ok, where n = 0]) simp_all
    have max: "1 \<le> MAX_PARENT_RESUME_ATTEMPTS" by (simp add: MAX_PARENT_RESUME_ATTEMPTS_def)
    show ?thesis
      using counts r phase same retry max
      by (auto simp: updated_parent_def Pair split: retry.split intro!: put_resume_attempts [OF ok1] try_start_attempts [OF ok1])
  qed
  show ?thesis
    using step r counts updated retry
    by (auto simp: resume_step_def child_ended_def started_parent_def MAX_PARENT_RESUME_ATTEMPTS_def
        split: wait_event.splits resume_phase.splits sum.splits option.splits if_splits start_phase.splits retry.splits
        intro!: put_resume_attempts [OF ok] try_update_attempts [OF ok] try_start_attempts [OF ok])
qed

lemma attempts_new:
  assumes "attempts_ok s" and "wt_resumes s' = wt_resumes s @ [x]" "re_phase x = Awaiting_child"
    and "wt_updates s' = wt_updates s" "origins s' = origins s"
  shows "attempts_ok s'"
proof -
  have "length (wt_resumes s) \<notin> set (wt_updates s)" "Some (length (wt_resumes s)) \<notin> set (origins s)"
    using assms(1) by (auto simp: attempts_ok_def)
  then have "attempts_of (re_phase x) (count_list (wt_updates s) (length (wt_resumes s)))
      (count_list (origins s) (Some (length (wt_resumes s))))"
    using assms(3) by (simp add: count_notin)
  with assms show ?thesis by (fastforce simp: attempts_ok_def nth_append less_Suc_eq)
qed

lemma resumeParent_attempts:
  "attempts_ok s \<Longrightarrow> attempts_ok (resumeParentExecution e child s)"
  by (erule attempts_new [where x = "\<lparr>re_parent = e, re_child = child, re_phase = Awaiting_child\<rparr>"])
     (simp_all add: resumeParentExecution_def origins_def)

lemma start_step_attempts:
  assumes ok: "attempts_ok s" and step: "start_step i ev s = Some s'"
  shows "attempts_ok s'"
proof -
  have put: "attempts_ok t \<Longrightarrow> attempts_ok (put_start i phase t)" for phase t
    by (erule attempts_same [where n = 0]) (simp_all add: put_start_origins)
  have "attempts_ok (s\<lparr>wt_runs := x\<rparr>)" for x by (rule attempts_same [OF ok, where n = 0]) (simp_all add: origins_def)
  then show ?thesis
    using step ok by (auto simp: start_step_def found_execution_def found_project_def run_returned_def Let_def
        split: wait_event.splits start_phase.splits if_splits sum.splits intro!: put resumeParent_attempts)
qed

lemma set_timer_frame [simp]:
  "wt_resumes (set_timer now x s) = wt_resumes s" "wt_updates (set_timer now x s) = wt_updates s" "wt_starts (set_timer now x s) = wt_starts s"
  by (simp_all add: set_timer_def Let_def split: prod.split)

lemma set_timers_frame:
  "wt_resumes (fold (set_timer now) xs s) = wt_resumes s \<and> wt_updates (fold (set_timer now) xs s) = wt_updates s
   \<and> wt_starts (fold (set_timer now) xs s) = wt_starts s"
  by (induction xs arbitrary: s) simp_all

lemma clear_timers_frame:
  "wt_resumes (fold clear_timer ts s) = wt_resumes s \<and> wt_updates (fold clear_timer ts s) = wt_updates s
   \<and> wt_starts (fold clear_timer ts s) = wt_starts s"
  by (induction ts arbitrary: s) (simp_all add: clear_timer_def)

lemma wait_step_attempts:
  assumes ok: "attempts_ok s" and step: "wait_step supers ev s = Some s'"
  shows "attempts_ok s'"
proof -
  have same: "attempts_ok t" if "wt_resumes t = wt_resumes s" "wt_updates t = wt_updates s" "wt_starts t = wt_starts s" for t
    using that by (intro attempts_same [OF ok, where n = 0]) (simp_all add: origins_def)
  have "attempts_ok (fireTimer t s)" for t
    by (rule attempts_same [OF ok, where n = 1]) (simp_all add: fireTimer_def startExecution_def origins_def clear_timer_def)
  moreover have "attempts_ok (ask_waiting s)" "attempts_ok (startTracking s)" "attempts_ok (stopTracking s)"
    "attempts_ok (getWaitingExecutions now answer s)" "attempts_ok (stop_waiting e s)" for now answer e
    by (rule same; simp add: ask_waiting_def startTracking_def stopTracking_def getWaitingExecutions_def Let_def stop_waiting_def
        clear_timer_def set_timers_frame clear_timers_frame split: option.split sum.split)+
  ultimately show ?thesis
    using step start_step_attempts [OF ok] resume_step_attempts [OF ok] resumeParent_attempts [OF ok] ok
    by (cases ev) (auto simp: init_tracker_def split: if_splits)
qed

interpretation attempts: invariant_machine "wait_step supers" attempts_ok for supers
  by unfold_locales (rule wait_step_attempts)

text \<open>
  After any events, each resumption of a parent has tried to update it at most three times
  and to start it at most three times.
\<close>

theorem resume_attempts_bounded:
  assumes "run_steps (wait_step supers) events new_tracker = Some s"
  shows "count_list (wt_updates s) r \<le> MAX_PARENT_RESUME_ATTEMPTS
    \<and> count_list (map sc_resume (wt_starts s)) (Some r) \<le> MAX_PARENT_RESUME_ATTEMPTS"
proof -
  have "attempts_ok new_tracker" by (simp add: attempts_ok_def new_tracker_def origins_def)
  then have ok: "attempts_ok s" by (rule attempts.inv_run [OF _ assms])
  show ?thesis
  proof (cases "r < length (wt_resumes s)")
    case True
    from attempts_okD [OF ok True] show ?thesis
      by (cases "re_phase (wt_resumes s ! r)") (auto simp: origins_def)
  next
    case False
    with ok have "r \<notin> set (wt_updates s)" "Some r \<notin> set (origins s)" by (auto simp: attempts_ok_def)
    then show ?thesis by (simp add: count_notin origins_def)
  qed
qed

section \<open>The parent gets the result of its child\<close>

lemma merge_resume_error:
  "md_resumeError (merge_metadata old (no_metadata\<lparr>md_resumeError := Some e, md_subExecution := child\<rparr>)) = Some e"
  by (simp add: merge_metadata_def Let_def or_keep_def)

lemma resumed_entry:
  assumes "handleWaitingState s = normal s'" and "en_waitTill s \<noteq> None" and "en_stack s = entry # stack"
  shows "hd (en_stack s') = (if has_resume_error entry then entry
    else entry\<lparr>ed_node := (ed_node entry)\<lparr>n_disabled := Some True\<rparr>\<rparr>)"
  using assms
  by (auto simp: handleWaitingState_def Let_def disable_node_def write_node_def reading_def
      split: option.splits sum.splits if_splits)

text \<open>
  C11. When a waiting parent is resumed after its child has ended, running its first node again
  yields what the child ended with: its error, thrown or as an item of an output, or the data of
  the first output of the node the child ran last.
\<close>

theorem parent_gets_child_result:
  assumes "updateParentExecutionWithChildResults mode results child (Some (Waiting, Some (en_stack s))) = Inr (Some stack)"
    and "en_waitTill s \<noteq> None" and "\<not> has_resume_error (hd (en_stack s))"
    and "handleWaitingState (s\<lparr>en_stack := stack\<rparr>) = normal s'"
  shows "case en_error (ir_data results) of
      Some e \<Rightarrow>
        (case snd (runNode env (hd (en_stack s')) runIndex response s') of
           Inl e' \<Rightarrow> e' = rethrowNodeError e
         | Inr (Run_data (Val [Val [x]]) hints close) \<Rightarrow>
             continuesOnError (ed_node (hd (en_stack s))) \<and> map_of (i_json x) ''error'' = Some (JStr (err_message e))
         | _ \<Rightarrow> False)
    | None \<Rightarrow>
        (\<exists>td d. getLastExecutedNodeData mode results = Inr (Some td) \<and> td_data td = Some d
          \<and> (\<forall>xs outputs. map_of d Main_t = Some (Val xs # outputs) \<longrightarrow>
               runNode env (hd (en_stack s')) runIndex response s' = (s', Inr (Run_data (Val [Val xs]) [] False))))"
proof -
  from assms(1) obtain entry rest where old: "en_stack s = entry # rest"
    by (auto simp: updateParentExecutionWithChildResults_def Let_def split: sum.splits if_splits list.splits)
  have no_error: "\<not> has_resume_error entry" using assms(3) old by simp
  show ?thesis
  proof (cases "en_error (ir_data results)")
    case (Some e)
    define md where "md = merge_metadata (ed_metadata entry) (no_metadata\<lparr>md_resumeError := Some e, md_subExecution := child\<rparr>)"
    have md: "md_resumeError md = Some e" by (simp add: md_def merge_resume_error)
    from assms(1) Some old have stack: "stack = entry\<lparr>ed_metadata := Some md\<rparr> # rest"
      by (auto simp: updateParentExecutionWithChildResults_def Let_def md_def split: sum.splits)
    have "hd (en_stack s') = entry\<lparr>ed_metadata := Some md\<rparr>"
      using resumed_entry [OF assms(4)] assms(2) stack md by (simp add: has_resume_error_def)
    with Some md old show ?thesis by (simp add: runNode_def Let_def resume_error_item_def)
  next
    case None
    from assms(1) None old obtain td d where data: "getLastExecutedNodeData mode results = Inr (Some td)" "td_data td = Some d"
      and stack: "stack = entry\<lparr>ed_data := d\<rparr> # rest"
      by (auto simp: updateParentExecutionWithChildResults_def Let_def bind_eq_Some_conv split: sum.splits if_splits)
    have "hd (en_stack s') = entry\<lparr>ed_data := d, ed_node := (ed_node entry)\<lparr>n_disabled := Some True\<rparr>\<rparr>"
      using resumed_entry [OF assms(4)] assms(2) stack no_error by (simp add: has_resume_error_def)
    with None data no_error show ?thesis
      by (auto simp: runNode_def Let_def handleDisabledNode_def has_resume_error_def split: option.splits)
  qed
qed

section \<open>Instances\<close>

definition waiting_events :: "wait_event list" where
  "waiting_events = [Init True, Queried 0 (Inr [(''1'', 5000), (''2'', 6000)])]"

definition ended_child :: irun where
  "ended_child = \<lparr>ir_data = (new_engine empty_workflow)\<lparr>en_lastNodeExecuted := Some ''c'',
       en_runData := [(''c'', [(started_task (Some 0) [])\<lparr>td_data := Some [(Main_t, [Val [empty_item]])]\<rparr>])]\<rparr>,
     ir_status = Success, ir_finished = True, ir_waitTill = None\<rparr>"

text \<open>A parent whose update fails three times.\<close>

definition failing_events :: "wait_event list" where
  "failing_events = [Init True, Resume_parent ''1'' None, Child_ended 0 (Inr (Some (Mode_integrated, ended_child))),
     Parent_updated 0 (Inl (TypeError ''x'')) (Inr ()), Slept 0, Parent_updated 0 (Inl (TypeError ''x'')) (Inr ()),
     Slept 0, Parent_updated 0 (Inl (TypeError ''x'')) (Inr ())]"

lemma stopped_execution_has_no_timer_witness:
  "\<exists>s. run_steps (wait_step (\<lambda>_. [])) waiting_events new_tracker = Some s \<and> wi_armed (wt_timers s ! 0)
    \<and> \<not> wi_armed (wt_timers (stop_waiting ''1'' s) ! 0) \<and> wi_armed (wt_timers (stop_waiting ''1'' s) ! 1)"
proof -
  let ?run = "run_steps (wait_step (\<lambda>_. [])) waiting_events new_tracker"
  have run: "case ?run of None \<Rightarrow> False | Some s \<Rightarrow> ''1'' \<notin> set (parents s) \<and> map wi_armed (wt_timers s) = [True, True]
      \<and> map wi_executionId (wt_timers s) = [''1'', ''2'']" by code_simp
  then obtain s where s: "?run = Some s" "''1'' \<notin> set (parents s)" "map wi_armed (wt_timers s) = [True, True]"
    "map wi_executionId (wt_timers s) = [''1'', ''2'']" by (cases ?run) simp_all
  then have "length (wt_timers s) = 2" by (metis length_map length_Cons list.size(3) numeral_2_eq_2)
  moreover from this s(3,4) have "wi_armed (wt_timers s ! 0)" "wi_armed (wt_timers s ! 1)"
    "wi_executionId (wt_timers s ! 0) = ''1''" "wi_executionId (wt_timers s ! 1) = ''2''"
    by (auto simp: list_eq_iff_nth_eq less_2_cases_iff)
  ultimately show ?thesis using stopped_execution_has_no_timer [OF s(1,2)] s(1) by auto
qed

lemma resume_attempts_bounded_witness:
  "\<exists>s. run_steps (wait_step (\<lambda>_. [])) failing_events new_tracker = Some s \<and> wt_updates s = [0, 0, 0]
    \<and> re_phase (wt_resumes s ! 0) = Resume_failed (TypeError ''x'') \<and> count_list (wt_updates s) 0 \<le> MAX_PARENT_RESUME_ATTEMPTS"
proof -
  let ?run = "run_steps (wait_step (\<lambda>_. [])) failing_events new_tracker"
  have run: "case ?run of None \<Rightarrow> False | Some s \<Rightarrow> wt_updates s = [0, 0, 0]
      \<and> re_phase (wt_resumes s ! 0) = Resume_failed (TypeError ''x'')" by code_simp
  then obtain s where s: "?run = Some s" "wt_updates s = [0, 0, 0]" "re_phase (wt_resumes s ! 0) = Resume_failed (TypeError ''x'')"
    by (cases ?run) simp_all
  from resume_attempts_bounded [OF s(1), of 0] s show ?thesis by blast
qed

definition parent_engine :: engine where
  "parent_engine = (new_engine empty_workflow)\<lparr>en_waitTill := Some 5, en_lastNodeExecuted := Some ''a'',
     en_runData := [(''a'', [started_task (Some 0) []])], en_stack := [start_entry (plain_node 1 ''a'' ''t'') None]\<rparr>"

definition child_item :: item where
  "child_item = empty_item\<lparr>i_json := [(''k'', JNum 1)]\<rparr>"

definition child_result :: irun where
  "child_result = ended_child\<lparr>ir_data := (ir_data ended_child)\<lparr>
     en_runData := [(''c'', [(started_task (Some 0) [])\<lparr>td_data := Some [(Main_t, [Val [child_item]])]\<rparr>])]\<rparr>\<rparr>"

definition parent_stack :: "execute_data list" where
  "parent_stack = [(start_entry (plain_node 1 ''a'' ''t'') None)\<lparr>ed_data := [(Main_t, [Val [child_item]])]\<rparr>]"

lemma parent_gets_child_result_witness:
  "\<exists>s'. handleWaitingState (parent_engine\<lparr>en_stack := parent_stack\<rparr>) = normal s'
    \<and> (\<forall>env runIndex response.
         runNode env (hd (en_stack s')) runIndex response s' = (s', Inr (Run_data (Val [Val [child_item]]) [] False)))"
proof -
  have update: "updateParentExecutionWithChildResults Mode_integrated child_result None (Some (Waiting, Some (en_stack parent_engine)))
      = Inr (Some parent_stack)" by code_simp
  have waits: "en_waitTill parent_engine \<noteq> None" "\<not> has_resume_error (hd (en_stack parent_engine))"
    "en_error (ir_data child_result) = None" by code_simp+
  have data: "getLastExecutedNodeData Mode_integrated child_result
      = Inr (Some ((started_task (Some 0) [])\<lparr>td_data := Some [(Main_t, [Val [child_item]])]\<rparr>))" by code_simp
  have "snd (handleWaitingState (parent_engine\<lparr>en_stack := parent_stack\<rparr>)) = None" by code_simp
  then obtain s' where s': "handleWaitingState (parent_engine\<lparr>en_stack := parent_stack\<rparr>) = normal s'"
    by (cases "handleWaitingState (parent_engine\<lparr>en_stack := parent_stack\<rparr>)") simp
  have "runNode env (hd (en_stack s')) runIndex response s' = (s', Inr (Run_data (Val [Val [child_item]]) [] False))"
    for env runIndex response
    using parent_gets_child_result [OF update waits(1,2) s', of env runIndex response] waits(3) data by simp
  with s' show ?thesis by blast
qed

text \<open>
  The entries are left when the leader steps down, so that the same instance sets no timers for
  these executions when it takes over again.
\<close>

lemma takeover_forgets_timers:
  "map_option (\<lambda>s. (tracker_has ''1'' s, map wi_armed (wt_timers s)))
     (run_steps (wait_step (\<lambda>_. [])) (waiting_events @ [Stepdown, Takeover, Queried 1 (Inr [(''1'', 5000)])]) new_tracker)
   = Some (True, [False, False])"
  by code_simp

text \<open>A query that is answered after the leader stepped down sets its timers on a follower.\<close>

lemma follower_sets_timers:
  "map_option (\<lambda>s. map wi_armed (wt_timers s))
     (run_steps (wait_step (\<lambda>_. [])) [Init True, Stepdown, Queried 0 (Inr [(''1'', 5000)])] new_tracker) = Some [True]"
  by code_simp

text \<open>A parent that is resumed by its child keeps its timer, and cannot be stopped any more.\<close>

lemma parent_keeps_timer:
  "map_option (\<lambda>s. (tracker_has ''1'' s, map wi_armed (wt_timers s)))
     (run_steps (wait_step (\<lambda>_. [])) [Init True, Queried 0 (Inr [(''1'', 5000)]), Resume_parent ''1'' None,
        Child_ended 0 (Inr (Some (Mode_integrated, ended_child))), Parent_updated 0 (Inr None) (Inr ()), Stop_waiting ''1''] new_tracker)
   = Some (False, [True])"
  by code_simp

text \<open>A pinned item becomes the json of an item, instead of giving its own.\<close>

lemma pinned_item_is_wrapped:
  "i_json (pinned_item (0, child_item)) = [(''json'', JObj [(''k'', JNum 1)])]"
  by code_simp

end
