(* ===== verification/DisplayOptions.thy ===== *)
theory DisplayOptions
  imports WorkflowDiff
begin

text \<open>
  The part of \<^verbatim>\<open>packages/workflow/src/node-helpers.ts\<close> that decides which parameters of a node are
  shown: the description of parameters (\<^verbatim>\<open>INodeProperties\<close>), the conditions on other parameters,
  \<^verbatim>\<open>displayParameter\<close>.  A value that may be undefined is an option.  \<^verbatim>\<open>get\<close> of lodash and the
  matching of regular expressions are parameters; \<^verbatim>\<open>isEqual\<close> is \<^verbatim>\<open>json_equal\<close>.
\<close>

section \<open>Descriptions of parameters\<close>

datatype display_condition =
    Is_value jval
  | Cnd_eq jval
  | Cnd_not jval
  | Cnd_gte jval
  | Cnd_lte jval
  | Cnd_gt jval
  | Cnd_lt jval
  | Cnd_between jval jval
  | Cnd_startsWith string
  | Cnd_endsWith string
  | Cnd_includes string
  | Cnd_regex string
  | Cnd_exists

type_synonym display_rules = "(string, display_condition list) omap"

record display_options =
  do_show :: "display_rules option"
  do_hide :: "display_rules option"

text \<open>
  The rules by which values are checked: whether a value is required, how many a fixed collection
  may have, the type to validate, and for each mode of a resource locator the regular expressions
  with their error messages.
\<close>

record parameter_rules =
  ru_displayName :: string
  ru_required :: bool
  ru_minRequiredFields :: nat
  ru_maxAllowedFields :: nat
  ru_validateType :: "string option"
  ru_modes :: "(string, (string \<times> string) list) omap"

definition no_rules :: parameter_rules where
  "no_rules = \<lparr>ru_displayName = [], ru_required = False, ru_minRequiredFields = 0, ru_maxAllowedFields = 0,
     ru_validateType = None, ru_modes = []\<rparr>"

text \<open>
  A property with its name, type, default, whether \<^verbatim>\<open>typeOptions.multipleValues\<close> is given,
  \<^verbatim>\<open>noDataExpression\<close>, display and disabled options, rules, and its options: plain values, the
  properties of a collection, or the named collections of a fixed collection.
\<close>

datatype node_property = Node_property
    (pr_name: string) (pr_type: string) (pr_default: jval) (pr_multipleValues: "bool option")
    (pr_noDataExpression: bool) (pr_displayOptions: "display_options option")
    (pr_disabledOptions: "display_options option") (pr_rules: parameter_rules) (pr_options: "property_entry list")
  and property_entry =
    Option_value (oe_name: string) (oe_value: jval)
  | Option_property (oe_property: node_property)
  | Option_collection (oe_name: string) (oe_values: "node_property list")

lemma option_size [termination_simp]: "e \<in> set (pr_options p) \<Longrightarrow> size e < size p"
  by (cases p) (auto dest: size_list_estimation' [where f = size, OF _ order_refl])

lemma property_size [termination_simp]: "p \<in> set ps \<Longrightarrow> size p < Suc (size_list size (ps :: node_property list))"
  by (induction ps) auto

section \<open>Features\<close>

record feature_type =
  ft_name :: string
  ft_features :: "(string, display_condition list) omap option"

text \<open>The platform: \<^verbatim>\<open>get\<close>, regular expressions, and the conversion of a string to a number.\<close>

record display_env =
  de_get :: "jval option \<Rightarrow> string \<Rightarrow> jval option"
  de_regex :: "string \<Rightarrow> string \<Rightarrow> bool"
  de_number :: "string \<Rightarrow> rat option"

section \<open>Conditions\<close>

text \<open>
  The relations \<^verbatim>\<open>>=\<close>, \<^verbatim>\<open><\<close> and so on: two strings are compared by code units, anything else as
  numbers; a value without number compares to nothing.
\<close>

fun js_number :: "display_env \<Rightarrow> jval option \<Rightarrow> rat option" where
  "js_number env None = None"
| "js_number env (Some JNull) = Some 0"
| "js_number env (Some (JBool b)) = Some (of_bool b)"
| "js_number env (Some (JNum n)) = Some n"
| "js_number env (Some (JStr s)) = de_number env s"
| "js_number env (Some (JArr xs)) = None"
| "js_number env (Some (JObj m)) = None"

fun string_less :: "string \<Rightarrow> string \<Rightarrow> bool" where
  "string_less [] ds = (ds \<noteq> [])"
| "string_less (c # cs) [] = False"
| "string_less (c # cs) (d # ds) =
     ((of_char c :: nat) < of_char d \<or> (c = d \<and> string_less cs ds))"

definition js_less :: "display_env \<Rightarrow> jval option \<Rightarrow> jval option \<Rightarrow> bool" where
  "js_less env x y =
     (case (x, y) of
        (Some (JStr s), Some (JStr t)) \<Rightarrow> string_less s t
      | _ \<Rightarrow> (case (js_number env x, js_number env y) of (Some m, Some n) \<Rightarrow> m < n | _ \<Rightarrow> False))"

definition js_less_equal :: "display_env \<Rightarrow> jval option \<Rightarrow> jval option \<Rightarrow> bool" where
  "js_less_equal env x y =
     (case (x, y) of
        (Some (JStr s), Some (JStr t)) \<Rightarrow> \<not> string_less t s
      | _ \<Rightarrow> (case (js_number env x, js_number env y) of (Some m, Some n) \<Rightarrow> m \<le> n | _ \<Rightarrow> False))"

definition has_prefix :: "string \<Rightarrow> string \<Rightarrow> bool" where
  "has_prefix s t = (take (length t) s = t)"

definition has_suffix :: "string \<Rightarrow> string \<Rightarrow> bool" where
  "has_suffix s t = (length t \<le> length s \<and> drop (length s - length t) s = t)"

definition has_substring :: "string \<Rightarrow> string \<Rightarrow> bool" where
  "has_substring s t = list_ex (\<lambda>i. has_prefix (drop i s) t) [0..<Suc (length s)]"

definition on_string :: "(string \<Rightarrow> bool) \<Rightarrow> jval option \<Rightarrow> bool" where
  "on_string P v = (case v of Some (JStr s) \<Rightarrow> P s | _ \<Rightarrow> False)"

definition equal_value :: "jval option \<Rightarrow> jval \<Rightarrow> bool" where
  "equal_value v target = (case v of None \<Rightarrow> False | Some x \<Rightarrow> json_equal x target)"

fun condition_holds :: "display_env \<Rightarrow> display_condition \<Rightarrow> jval option \<Rightarrow> bool" where
  "condition_holds env (Cnd_eq target) v = equal_value v target"
| "condition_holds env (Cnd_not target) v = (\<not> equal_value v target)"
| "condition_holds env (Cnd_gte target) v = js_less_equal env (Some target) v"
| "condition_holds env (Cnd_lte target) v = js_less_equal env v (Some target)"
| "condition_holds env (Cnd_gt target) v = js_less env (Some target) v"
| "condition_holds env (Cnd_lt target) v = js_less env v (Some target)"
| "condition_holds env (Cnd_between from_value to_value) v =
     (js_less_equal env (Some from_value) v \<and> js_less_equal env v (Some to_value))"
| "condition_holds env (Cnd_includes target) v = on_string (\<lambda>s. has_substring s target) v"
| "condition_holds env (Cnd_startsWith target) v = on_string (\<lambda>s. has_prefix s target) v"
| "condition_holds env (Cnd_endsWith target) v = on_string (\<lambda>s. has_suffix s target) v"
| "condition_holds env (Cnd_regex target) v = on_string (de_regex env target) v"
| "condition_holds env Cnd_exists v = (v \<noteq> Some JNull \<and> v \<noteq> None \<and> v \<noteq> Some (JStr ''''))"
| "condition_holds env (Is_value x) v = False"

text \<open>\<^verbatim>\<open>includes\<close> compares objects by identity: no object of a description is one of the values.\<close>

fun is_primitive :: "jval \<Rightarrow> bool" where
  "is_primitive (JArr xs) = False"
| "is_primitive (JObj m) = False"
| "is_primitive _ = True"

fun is_negation :: "display_condition \<Rightarrow> bool" where
  "is_negation (Cnd_not target) = True"
| "is_negation _ = False"

definition check_condition :: "display_env \<Rightarrow> jval option list \<Rightarrow> display_condition \<Rightarrow> bool" where
  "check_condition env actualValues c =
     (case c of
        Is_value x \<Rightarrow> is_primitive x \<and> Some x \<in> set actualValues
      | _ \<Rightarrow> if length actualValues = 0 then is_negation c else list_all (condition_holds env c) actualValues)"

definition checkConditions :: "display_env \<Rightarrow> display_condition list \<Rightarrow> jval option list \<Rightarrow> bool" where
  "checkConditions env conditions actualValues = list_ex (check_condition env actualValues) conditions"

definition evaluateFeature :: "display_env \<Rightarrow> display_condition list \<Rightarrow> rat \<Rightarrow> bool" where
  "evaluateFeature env versions nodeVersion = checkConditions env versions [Some (JNum nodeVersion)]"

definition getNodeFeatures ::
    "display_env \<Rightarrow> (string, display_condition list) omap option \<Rightarrow> rat \<Rightarrow> (string, bool) omap" where
  "getNodeFeatures env featuresDef nodeVersion =
     (case featuresDef of
        None \<Rightarrow> []
      | Some defs \<Rightarrow>
          fold (\<lambda>(name, condition). AList.update name (evaluateFeature env condition nodeVersion)) defs [])"

section \<open>Values of other parameters\<close>

text \<open>The node (only its version is read) and its type; both may be null.\<close>

record display_context =
  dc_version :: "rat option"
  dc_type :: "feature_type option"

fun js_truthy :: "jval option \<Rightarrow> bool" where
  "js_truthy None = False"
| "js_truthy (Some JNull) = False"
| "js_truthy (Some (JBool b)) = b"
| "js_truthy (Some (JNum n)) = (n \<noteq> 0)"
| "js_truthy (Some (JStr s)) = (s \<noteq> [])"
| "js_truthy (Some v) = True"

text \<open>A resource locator stands for its value; an array for its elements.\<close>

definition unwrap_locator :: "jval option \<Rightarrow> jval option" where
  "unwrap_locator v =
     (case v of
        Some (JObj m) \<Rightarrow> if js_truthy (map_of m ''__rl'') then map_of m ''value'' else v
      | _ \<Rightarrow> v)"

definition as_values :: "jval option \<Rightarrow> jval option list" where
  "as_values v = (case v of Some (JArr xs) \<Rightarrow> map Some xs | _ \<Rightarrow> [v])"

definition getPropertyValues ::
    "display_env \<Rightarrow> jval option \<Rightarrow> string \<Rightarrow> display_context \<Rightarrow> jval option \<Rightarrow> jval option list" where
  "getPropertyValues env nodeValues propertyName ctx nodeValuesRoot =
     (if has_prefix propertyName ''/''
      then as_values (unwrap_locator (de_get env nodeValuesRoot (drop 1 propertyName)))
      else if propertyName = ''@version'' then [Some (JNum (or_else (dc_version ctx) 0))]
      else if propertyName = ''@tool''
      then [Some (JBool (case dc_type ctx of None \<Rightarrow> False | Some t \<Rightarrow> has_suffix (ft_name t) ''Tool''))]
      else if propertyName = ''@feature''
      then (case (dc_type ctx, dc_version ctx) of
              (Some t, Some typeVersion) \<Rightarrow>
                if ft_features t = None \<or> typeVersion = 0 then []
                else map (Some \<circ> JStr \<circ> fst) (filter snd (getNodeFeatures env (ft_features t) typeVersion))
            | _ \<Rightarrow> [])
      else as_values (unwrap_locator (de_get env nodeValues propertyName)))"

section \<open>Display\<close>

definition is_expression :: "jval option \<Rightarrow> bool" where
  "is_expression v = on_string (\<lambda>s. has_prefix s ''='') v"

text \<open>The loop over the rules of \<^verbatim>\<open>show\<close>: \<^verbatim>\<open>None\<close> if no rule ends the function.\<close>

fun check_show :: "display_env \<Rightarrow> (string \<Rightarrow> jval option list) \<Rightarrow> display_rules \<Rightarrow> bool option" where
  "check_show env values_of [] = None"
| "check_show env values_of ((propertyName, conditions) # rules) =
     (if list_ex is_expression (values_of propertyName) then Some True
      else if \<not> checkConditions env conditions (values_of propertyName) then Some False
      else check_show env values_of rules)"

fun check_hide :: "display_env \<Rightarrow> (string \<Rightarrow> jval option list) \<Rightarrow> display_rules \<Rightarrow> bool" where
  "check_hide env values_of [] = True"
| "check_hide env values_of ((propertyName, conditions) # rules) =
     (if length (values_of propertyName) \<noteq> 0 \<and> checkConditions env conditions (values_of propertyName) then False
      else check_hide env values_of rules)"

text \<open>\<^verbatim>\<open>displayParameter\<close>, for the options under its display key.\<close>

definition displayParameter ::
    "display_env \<Rightarrow> jval option \<Rightarrow> display_options option \<Rightarrow> display_context \<Rightarrow> jval option \<Rightarrow> bool" where
  "displayParameter env nodeValues options ctx nodeValuesRoot =
     (case options of
        None \<Rightarrow> True
      | Some opts \<Rightarrow>
          (let root = (if js_truthy nodeValuesRoot then nodeValuesRoot else nodeValues);
               values_of = (\<lambda>name. getPropertyValues env nodeValues name ctx root)
           in case check_show env values_of (or_else (do_show opts) []) of
                Some b \<Rightarrow> b
              | None \<Rightarrow> check_hide env values_of (or_else (do_hide opts) [])))"

definition displayParameterPath ::
    "display_env \<Rightarrow> jval \<Rightarrow> display_options option \<Rightarrow> string \<Rightarrow> display_context \<Rightarrow> bool" where
  "displayParameterPath env nodeValues options path ctx =
     (let resolved = (if path \<noteq> [] then de_get env (Some nodeValues) path else Some nodeValues);
          root = (if path \<noteq> [] \<and> takeWhile (\<lambda>c. c \<noteq> CHR ''.'') path = ''parameters''
                  then de_get env (Some nodeValues) ''parameters'' else Some nodeValues)
      in displayParameter env resolved options ctx root)"

section \<open>When a parameter is displayed\<close>

definition rule_values ::
    "display_env \<Rightarrow> jval option \<Rightarrow> display_context \<Rightarrow> jval option \<Rightarrow> string \<Rightarrow> jval option list" where
  "rule_values env nodeValues ctx nodeValuesRoot name =
     getPropertyValues env nodeValues name ctx (if js_truthy nodeValuesRoot then nodeValuesRoot else nodeValues)"

definition rule_met :: "display_env \<Rightarrow> (string \<Rightarrow> jval option list) \<Rightarrow> string \<times> display_condition list \<Rightarrow> bool" where
  "rule_met env values_of rule \<longleftrightarrow>
     \<not> list_ex is_expression (values_of (fst rule)) \<and> checkConditions env (snd rule) (values_of (fst rule))"

text \<open>An expression decides a rule, and the rules before it are met.\<close>

definition expression_decides ::
    "display_env \<Rightarrow> (string \<Rightarrow> jval option list) \<Rightarrow> display_rules \<Rightarrow> bool" where
  "expression_decides env values_of rules \<longleftrightarrow>
     (\<exists>before rule after. rules = before @ rule # after \<and> list_all (rule_met env values_of) before
        \<and> list_ex is_expression (values_of (fst rule)))"

lemma expression_decides_Cons:
  "expression_decides env values_of (rule # rules) \<longleftrightarrow>
     list_ex is_expression (values_of (fst rule)) \<or> (rule_met env values_of rule \<and> expression_decides env values_of rules)"
proof -
  have "expression_decides env values_of (rule # rules)" if "list_ex is_expression (values_of (fst rule))"
    unfolding expression_decides_def using that by (intro exI [of _ "[]"] exI [of _ rule] exI [of _ rules]) simp
  moreover have "expression_decides env values_of (rule # rules)"
    if "rule_met env values_of rule" "expression_decides env values_of rules"
  proof -
    from that(2) obtain before r after where "rules = before @ r # after" "list_all (rule_met env values_of) before"
      "list_ex is_expression (values_of (fst r))" by (auto simp: expression_decides_def)
    with that(1) show ?thesis
      unfolding expression_decides_def by (intro exI [of _ "rule # before"] exI [of _ r] exI [of _ after]) simp
  qed
  moreover have "list_ex is_expression (values_of (fst rule)) \<or> (rule_met env values_of rule \<and> expression_decides env values_of rules)"
    if "expression_decides env values_of (rule # rules)"
  proof -
    from that obtain before r after where r: "rule # rules = before @ r # after" "list_all (rule_met env values_of) before"
      "list_ex is_expression (values_of (fst r))" by (auto simp: expression_decides_def)
    show ?thesis
    proof (cases before)
      case (Cons q qs)
      with r have rest: "rules = qs @ r # after" and before: "list_all (rule_met env values_of) qs"
        and rule: "rule_met env values_of rule" by simp_all
      from rest before r(3) have "expression_decides env values_of rules"
        unfolding expression_decides_def by (intro exI [of _ qs] exI [of _ r] exI [of _ after]) simp
      with rule show ?thesis by simp
    qed (use r in simp)
  qed
  ultimately show ?thesis by blast
qed

lemma check_show_True: "check_show env values_of rules = Some True \<longleftrightarrow> expression_decides env values_of rules"
proof (induction rules)
  case (Cons rule rules)
  then show ?case by (cases rule) (auto simp: expression_decides_Cons rule_met_def)
qed (simp add: expression_decides_def)

lemma check_show_None: "check_show env values_of rules = None \<longleftrightarrow> list_all (rule_met env values_of) rules"
  by (induction rules rule: check_show.induct) (auto simp: rule_met_def)

lemma check_hide_iff:
  "check_hide env values_of rules \<longleftrightarrow>
     \<not> (\<exists>rule \<in> set rules. values_of (fst rule) \<noteq> [] \<and> checkConditions env (snd rule) (values_of (fst rule)))"
  by (induction rules rule: check_hide.induct) auto

text \<open>
  A parameter is displayed exactly if all rules to show it are met and no rule to hide it is, or
  if an expression decides one of the rules to show it and the rules before this one are met.
\<close>

theorem displayParameter_exact:
  "displayParameter env nodeValues (Some opts) ctx nodeValuesRoot \<longleftrightarrow>
     (let show_rules = or_else (do_show opts) []; values_of = rule_values env nodeValues ctx nodeValuesRoot
      in expression_decides env values_of show_rules
       \<or> (list_all (rule_met env values_of) show_rules
          \<and> \<not> (\<exists>rule \<in> set (or_else (do_hide opts) []).
                values_of (fst rule) \<noteq> [] \<and> checkConditions env (snd rule) (values_of (fst rule)))))"
proof -
  define v where "v = rule_values env nodeValues ctx nodeValuesRoot"
  define rules where "rules = or_else (do_show opts) []"
  define hides where "hides = or_else (do_hide opts) []"
  have "displayParameter env nodeValues (Some opts) ctx nodeValuesRoot =
      (case check_show env v rules of Some b \<Rightarrow> b | None \<Rightarrow> check_hide env v hides)"
    unfolding displayParameter_def Let_def v_def rule_values_def [abs_def] rules_def hides_def by simp
  moreover have "(case check_show env v rules of Some b \<Rightarrow> b | None \<Rightarrow> check_hide env v hides)
      \<longleftrightarrow> check_show env v rules = Some True \<or> check_show env v rules = None \<and> check_hide env v hides"
    by (cases "check_show env v rules") simp_all
  ultimately show ?thesis
    unfolding Let_def v_def [symmetric] rules_def [symmetric] hides_def [symmetric]
      check_show_True check_show_None check_hide_iff by (rule trans)
qed

text \<open>The order of the rules matters where a value is an expression.\<close>

lemma display_depends_on_order:
  "let env = \<lparr>de_get = (\<lambda>v name. case v of Some (JObj m) \<Rightarrow> map_of m name | _ \<Rightarrow> None), de_regex = (\<lambda>_ _. False),
         de_number = (\<lambda>_. None)\<rparr>;
       node = Some (JObj [(''a'', JStr ''=x''), (''b'', JStr ''y'')]); ctx = \<lparr>dc_version = None, dc_type = None\<rparr>;
       rule_a = (''a'', [Is_value (JStr ''x'')]); rule_b = (''b'', [Is_value (JStr ''z'')]);
       shown = (\<lambda>rules. displayParameter env node (Some \<lparr>do_show = Some rules, do_hide = None\<rparr>) ctx None)
   in shown [rule_a, rule_b] \<and> \<not> shown [rule_b, rule_a]"
  by code_simp

end
