(* ===== verification/FromAI.thy ===== *)
theory FromAI
  imports DisplayOptions
begin

text \<open>
  \<^verbatim>\<open>packages/workflow/src/from-ai-parse-utils.ts\<close>: the placeholders \<^verbatim>\<open>$fromAI(...)\<close> in the parameters
  of a tool.  \<^verbatim>\<open>extractFromAICalls\<close> finds the calls in a text, \<^verbatim>\<open>isFromAIOnlyExpression\<close> accepts a
  text that is one call with literal arguments.  The regular expressions are written out as
  scanners.  \<^verbatim>\<open>JSON.parse\<close> and the conversion of strings to numbers are parameters; the schemas
  of \<^verbatim>\<open>generateZodSchema\<close> belong to a library.
\<close>

section \<open>Characters\<close>

definition is_white :: "char \<Rightarrow> bool" where
  "is_white c = ((of_char c :: nat) \<in> {9, 10, 11, 12, 13, 32, 160})"

definition js_trim :: "string \<Rightarrow> string" where
  "js_trim s = rev (dropWhile is_white (rev (dropWhile is_white s)))"

definition to_lower :: "char \<Rightarrow> char" where
  "to_lower c = (let n = of_char c :: nat in if 65 \<le> n \<and> n \<le> 90 then char_of (n + 32) else c)"

definition is_letter :: "char \<Rightarrow> bool" where
  "is_letter c = (let n = of_char c :: nat in (65 \<le> n \<and> n \<le> 90) \<or> (97 \<le> n \<and> n \<le> 122))"

definition is_decimal :: "char \<Rightarrow> bool" where
  "is_decimal c = (let n = of_char c :: nat in 48 \<le> n \<and> n \<le> 57)"

definition BS :: char where "BS = CHR 0x5C"

definition backtick :: char where "backtick = CHR 0x60"

definition is_quote :: "char \<Rightarrow> bool" where
  "is_quote c = (c \<in> {CHR 0x22, CHR 0x27, backtick})"

text \<open>The characters that may stand outside quotes, and those that may end an identifier.\<close>

definition is_literal :: "char \<Rightarrow> bool" where
  "is_literal c = (is_letter c \<or> is_decimal c \<or> c \<in> {CHR ''.'', CHR '','', CHR ''-''} \<or> is_white c)"

definition is_word :: "char \<Rightarrow> bool" where
  "is_word c = (is_letter c \<or> is_decimal c \<or> c = CHR ''_'')"

section \<open>One call and nothing else\<close>

definition auto_generated_marker :: string where
  "auto_generated_marker = ''/*n8n-auto-generated-fromAI-override*/''"

text \<open>\<^verbatim>\<open>$fromAI\<close> in any case, spaces and the opening parenthesis; the rest of the text.\<close>

definition fromAI_head :: "string \<Rightarrow> string option" where
  "fromAI_head s =
     (if map to_lower (take 7 s) = ''$fromai''
      then (case dropWhile is_white (drop 7 s) of
              [] \<Rightarrow> None
            | c # rest \<Rightarrow> if c = CHR ''('' then Some rest else None)
      else None)"

text \<open>
  The walk to the closing parenthesis, with the open quote and the last character outside
  quotes: the text after the parenthesis, or \<^verbatim>\<open>None\<close> if the call is rejected or not closed.
\<close>

fun scan_call :: "char option \<Rightarrow> char option \<Rightarrow> string \<Rightarrow> string option" where
  "scan_call quote lastOutside [] = None"
| "scan_call (Some q) lastOutside (c # cs) =
     (case cs of
        [] \<Rightarrow> None
      | d # ds \<Rightarrow>
          if c = BS then scan_call (Some q) lastOutside ds
          else if q = backtick \<and> c = CHR ''$'' \<and> d = CHR 0x7B then None
          else scan_call (if c = q then None else Some q) lastOutside cs)"
| "scan_call None lastOutside (c # cs) =
     (if is_quote c
      then if c = backtick \<and> (case lastOutside of None \<Rightarrow> False | Some l \<Rightarrow> is_word l) then None
           else scan_call (Some c) (Some c) cs
      else if c = CHR '')'' then Some cs
      else if \<not> is_literal c then None
      else scan_call None (if is_white c then lastOutside else Some c) cs)"

definition strip_equals :: "string \<Rightarrow> string" where
  "strip_equals s = (if has_prefix s ''='' then drop 1 s else s)"

definition strip_braces :: "string \<Rightarrow> string" where
  "strip_braces s =
     (if has_prefix s ''{{'' \<and> has_suffix s ''}}'' then js_trim (drop 2 (take (length s - 2) s)) else s)"

definition strip_marker :: "string \<Rightarrow> string" where
  "strip_marker s =
     (if has_prefix s auto_generated_marker then js_trim (drop (length auto_generated_marker) s) else s)"

definition isFromAIOnlyExpression :: "string \<Rightarrow> bool" where
  "isFromAIOnlyExpression expr =
     (case fromAI_head (strip_marker (strip_braces (js_trim (strip_equals expr)))) of
        None \<Rightarrow> False
      | Some body \<Rightarrow>
          (case scan_call None None body of
             None \<Rightarrow> False
           | Some remainder \<Rightarrow> length (js_trim remainder) = 0))"

section \<open>Extraction of calls\<close>

record from_ai_argument =
  fa_key :: string
  fa_description :: "string option"
  fa_type :: string
  fa_defaultValue :: "jval option"

text \<open>The platform: \<^verbatim>\<open>Number\<close> (no result if it is not a number) and \<^verbatim>\<open>JSON.parse\<close> (none if it throws).\<close>

record js_parsers =
  jp_number :: "string \<Rightarrow> rat option"
  jp_json :: "string \<Rightarrow> jval option"

abbreviation ParseError :: "string \<Rightarrow> js_error" where
  "ParseError m \<equiv> JsError ''Error'' m None"

definition lower_string :: "string \<Rightarrow> string" where
  "lower_string = map to_lower"

definition isFromAIArgumentType :: "string \<Rightarrow> bool" where
  "isFromAIArgumentType v = (lower_string v \<in> {''string'', ''number'', ''boolean'', ''json''})"

definition parse_json_or_text :: "js_parsers \<Rightarrow> string \<Rightarrow> jval" where
  "parse_json_or_text js v = or_else (jp_json js v) (JStr v)"

definition parseDefaultValue :: "js_parsers \<Rightarrow> string option \<Rightarrow> string \<Rightarrow> jval option" where
  "parseDefaultValue js v type =
     (case v of
        None \<Rightarrow> None
      | Some v \<Rightarrow> Some
          (let lowerValue = lower_string v
           in if type = ''string'' then JStr v
              else if type = ''boolean'' \<and> (lowerValue = ''true'' \<or> lowerValue = ''false'') then JBool (lowerValue = ''true'')
              else case (if type = ''number'' then jp_number js v else None) of
                  Some n \<Rightarrow> JNum n
                | None \<Rightarrow> parse_json_or_text js v))"

text \<open>The arguments between the commas outside quotes; a backslash is dropped.\<close>

fun split_arguments :: "char option \<Rightarrow> bool \<Rightarrow> string \<Rightarrow> string \<Rightarrow> string list" where
  "split_arguments quote escapeNext currentArg [] = (if currentArg \<noteq> [] then [js_trim currentArg] else [])"
| "split_arguments quote escapeNext currentArg (c # cs) =
     (if escapeNext then split_arguments quote False (currentArg @ [c]) cs
      else if c = BS then split_arguments quote True currentArg cs
      else if is_quote c
      then split_arguments (case quote of None \<Rightarrow> Some c | Some q \<Rightarrow> if c = q then None else quote) False (currentArg @ [c]) cs
      else if c = CHR '','' \<and> quote = None then js_trim currentArg # split_arguments quote False [] cs
      else split_arguments quote False (currentArg @ [c]) cs)"

text \<open>\<^verbatim>\<open>replace(/\c/g, c)\<close>\<close>

fun unescape :: "char \<Rightarrow> string \<Rightarrow> string" where
  "unescape c (b # d # cs) = (if b = BS \<and> d = c then c # unescape c cs else b # unescape c (d # cs))"
| "unescape c cs = cs"

definition quoted_by :: "char \<Rightarrow> string \<Rightarrow> bool" where
  "quoted_by q s = (has_prefix s [q] \<and> has_suffix s [q])"

definition clean_argument :: "string \<Rightarrow> string" where
  "clean_argument arg =
     (let trimmed = js_trim arg
      in if quoted_by (CHR 0x27) trimmed \<or> quoted_by backtick trimmed \<or> quoted_by (CHR 0x22) trimmed
         then unescape BS (unescape (CHR 0x22) (unescape backtick (unescape (CHR 0x27)
                (drop 1 (take (length trimmed - 1) trimmed)))))
         else trimmed)"

definition parseArguments :: "js_parsers \<Rightarrow> string \<Rightarrow> from_ai_argument res" where
  "parseArguments js argsString =
     (let cleanArgs = map clean_argument (split_arguments None False [] argsString);
          type = or_else (array_get cleanArgs 2) ''string''
      in if \<not> isFromAIArgumentType type then Inl (ParseError (''Invalid type: '' @ type))
         else Inr \<lparr>fa_key = or_else (array_get cleanArgs 0) [], fa_description = array_get cleanArgs 1,
                   fa_type = type, fa_defaultValue = parseDefaultValue js (array_get cleanArgs 3) type\<rparr>)"

text \<open>
  The text of the arguments up to the parenthesis that closes the call, with the open quote and
  the number of open parentheses; \<^verbatim>\<open>None\<close> if it is not closed.
\<close>

fun call_arguments :: "char option \<Rightarrow> nat \<Rightarrow> string \<Rightarrow> string option" where
  "call_arguments quote parentheses [] = None"
| "call_arguments (Some q) parentheses (c # cs) =
     (case cs of
        [] \<Rightarrow> None
      | d # ds \<Rightarrow>
          if c = BS then map_option (\<lambda>args. c # d # args) (call_arguments (Some q) parentheses ds)
          else map_option ((#) c) (call_arguments (if c = q then None else Some q) parentheses cs))"
| "call_arguments None parentheses (c # cs) =
     (if is_quote c then map_option ((#) c) (call_arguments (Some c) parentheses cs)
      else if c = CHR ''('' then map_option ((#) c) (call_arguments None (Suc parentheses) cs)
      else if c = CHR '')''
      then if parentheses \<le> 1 then Some [] else map_option ((#) c) (call_arguments None (parentheses - 1) cs)
      else map_option ((#) c) (call_arguments None parentheses cs))"

text \<open>The next match of the pattern: the text after it.\<close>

fun find_call :: "string \<Rightarrow> string option" where
  "find_call [] = None"
| "find_call (c # cs) =
     (case fromAI_head (c # cs) of Some rest \<Rightarrow> Some (dropWhile is_white rest) | None \<Rightarrow> find_call cs)"

lemma dropWhile_length: "length (dropWhile P xs) \<le> length xs"
  by (induction xs) auto

lemma fromAI_head_length: "fromAI_head s = Some rest \<Longrightarrow> length rest < length s"
proof -
  assume "fromAI_head s = Some rest"
  then have "dropWhile is_white (drop 7 s) = CHR ''('' # rest"
    by (auto simp: fromAI_head_def split: if_splits list.splits)
  then have "Suc (length rest) \<le> length (drop 7 s)" by (metis dropWhile_length length_Cons)
  then show ?thesis by simp
qed

lemma find_call_length: "find_call s = Some rest \<Longrightarrow> length rest < length s"
proof (induction s rule: find_call.induct)
  case (2 c cs)
  then show ?case
    using fromAI_head_length [of "c # cs"] dropWhile_length [of is_white]
    by (fastforce split: option.splits intro: le_less_trans)
qed simp

function extractFromAICalls :: "js_parsers \<Rightarrow> string \<Rightarrow> from_ai_argument list res" where
  "extractFromAICalls js s =
     (case find_call s of
        None \<Rightarrow> Inr []
      | Some rest \<Rightarrow>
          (case call_arguments None 1 rest of
             None \<Rightarrow> Inl (ParseError (''Unbalanced parentheses while parsing $fromAI call: '' @ rest))
           | Some argsString \<Rightarrow>
               (case parseArguments js argsString of
                  Inl e \<Rightarrow> Inl (ParseError (''Failed to parse $fromAI arguments: '' @ argsString @ '': Error: '' @ err_message e))
                | Inr parsedArgs \<Rightarrow> bind_res (extractFromAICalls js rest) (\<lambda>args. Inr (parsedArgs # args)))))"
  by pat_completeness auto
termination by (relation "measure (length \<circ> snd)") (auto dest: find_call_length)

declare extractFromAICalls.simps [simp del]

section \<open>Traversal of parameters\<close>

fun traverseNodeParameters :: "js_parsers \<Rightarrow> jval \<Rightarrow> from_ai_argument list \<Rightarrow> from_ai_argument list res" where
  "traverseNodeParameters js (JStr s) collectedArgs =
     bind_res (extractFromAICalls js s) (\<lambda>calls. Inr (collectedArgs @ calls))"
| "traverseNodeParameters js (JArr xs) collectedArgs = fold_res (traverseNodeParameters js) xs collectedArgs"
| "traverseNodeParameters js (JObj m) collectedArgs = fold_res (traverseNodeParameters js) (ovals m) collectedArgs"
| "traverseNodeParameters js _ collectedArgs = Inr collectedArgs"

text \<open>The name of the parameter is undefined at the top.\<close>

lemma zip_size [termination_simp]: "(i, x) \<in> set (zip is xs) \<Longrightarrow> size x < Suc (size_list size xs)"
  by (drule set_zip_rightD) (rule json_size_arr)

fun traverseWithParamNames ::
    "js_parsers \<Rightarrow> string option \<Rightarrow> jval \<Rightarrow> (string option, from_ai_argument) omap \<Rightarrow>
     (string option, from_ai_argument) omap res" where
  "traverseWithParamNames js name (JStr s) collectedArgs =
     bind_res (extractFromAICalls js s) (\<lambda>calls. Inr (fold (AList.update name) calls collectedArgs))"
| "traverseWithParamNames js name (JArr xs) collectedArgs =
     fold_res (\<lambda>(i, item). traverseWithParamNames js (Some (or_else name ''undefined'' @ ''['' @ i @ '']'')) item)
       (json_entries (JArr xs)) collectedArgs"
| "traverseWithParamNames js name (JObj m) collectedArgs =
     fold_res (\<lambda>(key, v). traverseWithParamNames js
         (Some (case name of None \<Rightarrow> key | Some n \<Rightarrow> if n \<noteq> [] then n @ ''.'' @ key else key)) v)
       m collectedArgs"
| "traverseWithParamNames js name _ collectedArgs = Inr collectedArgs"

section \<open>Expressions in the parameters of a tool\<close>

text \<open>Defaults that are expressions, in the order in which they are found.\<close>

definition add_default :: "node_property \<Rightarrow> string list \<Rightarrow> string list" where
  "add_default p defaults =
     (case pr_default p of JStr s \<Rightarrow> if has_prefix s ''='' then sadd s defaults else defaults | _ \<Rightarrow> defaults)"

fun collect_property :: "node_property \<Rightarrow> string list \<Rightarrow> string list" and
  collect_option :: "property_entry \<Rightarrow> string list \<Rightarrow> string list" where
  "collect_property p defaults = fold collect_option (pr_options p) (add_default p defaults)"
| "collect_option (Option_value name v) defaults = defaults"
| "collect_option (Option_collection name vs) defaults = fold collect_property vs defaults"
| "collect_option (Option_property p) defaults = collect_property p (add_default p defaults)"

definition collectDefaults :: "node_property list \<Rightarrow> string list \<Rightarrow> string list" where
  "collectDefaults props defaults = fold collect_property props defaults"

definition collectExpressionDefaults :: "node_property list \<Rightarrow> string list" where
  "collectExpressionDefaults properties = collectDefaults properties []"

fun findDisallowedChatToolExpressions :: "string list \<Rightarrow> jval \<Rightarrow> string \<Rightarrow> (string \<times> string) list" where
  "findDisallowedChatToolExpressions allowed (JStr s) path =
     (if is_expression (Some (JStr s)) \<and> \<not> isFromAIOnlyExpression s \<and> s \<notin> set allowed then [(path, s)] else [])"
| "findDisallowedChatToolExpressions allowed (JArr xs) path =
     concat (map (\<lambda>(i, item). findDisallowedChatToolExpressions allowed item (path @ ''['' @ i @ '']'')) (json_entries (JArr xs)))"
| "findDisallowedChatToolExpressions allowed (JObj m) path =
     concat (map (\<lambda>(key, v). findDisallowedChatToolExpressions allowed v
         (if path \<noteq> [] then path @ ''.'' @ key else key)) m)"
| "findDisallowedChatToolExpressions allowed _ path = []"

section \<open>What is accepted\<close>

text \<open>
  The reference: arguments are characters outside quotes and quoted texts, in which a backslash
  goes with the character after it.
\<close>

datatype text_part = Plain char | Escaped char

datatype argument_part = Outside char | Quoted char "text_part list"

fun show_text :: "text_part list \<Rightarrow> string" where
  "show_text [] = []"
| "show_text (Plain c # ps) = c # show_text ps"
| "show_text (Escaped c # ps) = BS # c # show_text ps"

fun show_parts :: "argument_part list \<Rightarrow> string" where
  "show_parts [] = []"
| "show_parts (Outside c # ps) = c # show_parts ps"
| "show_parts (Quoted q body # ps) = q # show_text body @ q # show_parts ps"

text \<open>No \<^verbatim>\<open>${\<close> in a template literal.\<close>

fun text_ok :: "char \<Rightarrow> text_part list \<Rightarrow> bool" where
  "text_ok q [] = True"
| "text_ok q (Escaped c # ps) = text_ok q ps"
| "text_ok q (Plain c # ps) =
     (c \<noteq> q \<and> c \<noteq> BS
      \<and> \<not> (q = backtick \<and> c = CHR ''$'' \<and> (case ps of Plain d # qs \<Rightarrow> d = CHR 0x7B | _ \<Rightarrow> False))
      \<and> text_ok q ps)"

text \<open>No tagged template literal: a backtick does not follow a word.\<close>

fun parts_ok :: "char option \<Rightarrow> argument_part list \<Rightarrow> bool" where
  "parts_ok lastOutside [] = True"
| "parts_ok lastOutside (Outside c # ps) =
     (is_literal c \<and> parts_ok (if is_white c then lastOutside else Some c) ps)"
| "parts_ok lastOutside (Quoted q body # ps) =
     (is_quote q \<and> \<not> (q = backtick \<and> (case lastOutside of None \<Rightarrow> False | Some l \<Rightarrow> is_word l))
      \<and> text_ok q body \<and> parts_ok (Some q) ps)"

lemma special_chars:
  "is_quote q \<Longrightarrow> q \<noteq> BS" "is_quote q \<Longrightarrow> q \<noteq> CHR '')''" "\<not> is_literal (CHR '')'')" "is_literal c \<Longrightarrow> \<not> is_quote c"
  "is_quote q \<Longrightarrow> q \<noteq> CHR ''(''" "\<not> is_literal (CHR ''('')"
  by (auto simp: is_quote_def BS_def backtick_def is_literal_def is_letter_def is_decimal_def is_white_def Let_def)

lemma scan_text:
  assumes "text_ok q body" and "is_quote q"
  shows "scan_call (Some q) l (show_text body @ q # s) = scan_call None l s"
  using assms
proof (induction q body rule: text_ok.induct)
  case (1 q)
  have "\<not> (q = backtick \<and> q = CHR ''$'')" by (auto simp: backtick_def)
  with 1 special_chars(1) show ?case by (auto split: list.split)
next
  case (2 q c ps)
  then show ?case by simp
next
  case (3 q c ps)
  have "\<not> (q = backtick \<and> c = CHR ''$'' \<and> d = CHR 0x7B)" if "show_text ps @ q # s = d # ds" for d ds
    using that 3(2) by (cases ps rule: show_text.cases) (auto simp: backtick_def BS_def)
  moreover obtain d ds where "show_text ps @ q # s = d # ds" by (cases "show_text ps @ q # s") auto
  moreover from 3 have "scan_call (Some q) l (show_text ps @ q # s) = scan_call None l s" "c \<noteq> q" "c \<noteq> BS" by auto
  ultimately show ?case by auto
qed

lemma scan_parts: "parts_ok l ps \<Longrightarrow> scan_call None l (show_parts ps @ CHR '')'' # rest) = Some rest"
proof (induction l ps rule: parts_ok.induct)
  case (1 l)
  have "\<not> is_quote (CHR '')'')" using special_chars(2) by blast
  then show ?case by simp
next
  case (2 l c ps)
  then have "c \<noteq> CHR '')''" "\<not> is_quote c" using special_chars by auto
  with 2 show ?case by simp
next
  case (3 l q body ps)
  then show ?case by (simp add: scan_text)
qed

text \<open>What the scan has found of a text.\<close>

definition found_call :: "char option \<Rightarrow> string \<Rightarrow> string \<Rightarrow> bool" where
  "found_call l s rest \<longleftrightarrow> (\<exists>ps. s = show_parts ps @ CHR '')'' # rest \<and> parts_ok l ps)"

definition found_text :: "char \<Rightarrow> char option \<Rightarrow> string \<Rightarrow> string \<Rightarrow> bool" where
  "found_text q l s rest \<longleftrightarrow> (\<exists>body s'. s = show_text body @ q # s' \<and> text_ok q body \<and> found_call l s' rest)"

lemma found_text_intros:
  "found_text q l ds rest \<Longrightarrow> found_text q l (BS # d # ds) rest"
  "found_call l cs rest \<Longrightarrow> found_text q l (q # cs) rest"
proof -
  show "found_text q l (BS # d # ds) rest" if "found_text q l ds rest"
  proof -
    from that obtain body s' where "ds = show_text body @ q # s'" "text_ok q body" "found_call l s' rest"
      by (auto simp: found_text_def)
    then show ?thesis unfolding found_text_def by (intro exI [of _ "Escaped d # body"] exI [of _ s']) simp
  qed
  show "found_text q l (q # cs) rest" if "found_call l cs rest"
    using that unfolding found_text_def by (intro exI [of _ "[]"] exI [of _ cs]) simp
qed

lemma found_plain:
  assumes "found_text q l (d # ds) rest" and "c \<noteq> q" "c \<noteq> BS" and "\<not> (q = backtick \<and> c = CHR ''$'' \<and> d = CHR 0x7B)"
  shows "found_text q l (c # d # ds) rest"
proof -
  from assms(1) obtain body s' where t: "d # ds = show_text body @ q # s'" "text_ok q body" "found_call l s' rest"
    by (auto simp: found_text_def)
  with assms(2-4) show ?thesis unfolding found_text_def
    by (intro exI [of _ "Plain c # body"] exI [of _ s']) (auto split: list.splits text_part.splits)
qed

lemma found_call_intros:
  "found_call (if is_white c then l else Some c) cs rest \<Longrightarrow> is_literal c \<Longrightarrow> found_call l (c # cs) rest"
  "found_text q (Some q) cs rest \<Longrightarrow> is_quote q \<Longrightarrow> \<not> (q = backtick \<and> (case l of None \<Rightarrow> False | Some l \<Rightarrow> is_word l))
    \<Longrightarrow> found_call l (q # cs) rest"
  "found_call l (CHR '')'' # rest) rest"
proof -
  show "found_call l (c # cs) rest" if "found_call (if is_white c then l else Some c) cs rest" "is_literal c"
  proof -
    from that(1) obtain ps where "cs = show_parts ps @ CHR '')'' # rest" "parts_ok (if is_white c then l else Some c) ps"
      by (auto simp: found_call_def)
    with that(2) show ?thesis unfolding found_call_def by (intro exI [of _ "Outside c # ps"]) simp
  qed
  show "found_call l (q # cs) rest" if "found_text q (Some q) cs rest" "is_quote q"
    "\<not> (q = backtick \<and> (case l of None \<Rightarrow> False | Some l \<Rightarrow> is_word l))"
  proof -
    from that(1) obtain body ps where "cs = show_text body @ q # show_parts ps @ CHR '')'' # rest"
      "text_ok q body" "parts_ok (Some q) ps" by (auto simp: found_text_def found_call_def)
    with that(2,3) show ?thesis unfolding found_call_def by (intro exI [of _ "Quoted q body # ps"]) simp
  qed
  show "found_call l (CHR '')'' # rest) rest" unfolding found_call_def by (intro exI [of _ "[]"]) simp
qed

lemma scan_found:
  "scan_call quote l s = Some rest \<Longrightarrow> (case quote of None \<Rightarrow> found_call l s rest | Some q \<Rightarrow> found_text q l s rest)"
proof (induction quote l s rule: scan_call.induct)
  case (2 q l c cs)
  from "2.prems" obtain d ds where cs: "cs = d # ds" by (auto split: list.splits)
  consider (escape) "c = BS" | (close) "c \<noteq> BS" "c = q" | (plain) "c \<noteq> BS" "c \<noteq> q" by blast
  then show ?case
  proof cases
    case escape
    with 2 cs show ?thesis by (auto intro: found_text_intros)
  next
    case close
    with 2 cs show ?thesis by (auto intro: found_text_intros split: if_splits)
  next
    case plain
    with 2 cs show ?thesis by (auto intro: found_plain split: if_splits)
  qed
qed (auto intro: found_call_intros split: if_splits)

lemma scan_iff: "scan_call None l s = Some rest \<longleftrightarrow> found_call l s rest"
  using scan_found [of None l s rest] scan_parts by (auto simp: found_call_def)

definition expression_core :: "string \<Rightarrow> string" where
  "expression_core expr = strip_marker (strip_braces (js_trim (strip_equals expr)))"

lemma trim_empty: "length (js_trim s) = 0 \<longleftrightarrow> list_all is_white s"
proof -
  have "(\<forall>x \<in> set (dropWhile is_white s). is_white x) \<longleftrightarrow> (\<forall>x \<in> set s. is_white x)"
    by (induction s) auto
  then show ?thesis by (simp add: js_trim_def list_all_iff dropWhile_eq_Nil_conv)
qed

text \<open>
  C26. The check accepts exactly the texts that are, up to the equals sign, braces, marker and
  spaces around them, one call of \<^verbatim>\<open>$fromAI\<close> whose arguments are literal characters and quoted
  texts, without other calls, variables or interpolation.
\<close>

theorem isFromAIOnlyExpression_exact:
  "isFromAIOnlyExpression expr \<longleftrightarrow>
     (\<exists>parts spaces. fromAI_head (expression_core expr) = Some (show_parts parts @ CHR '')'' # spaces)
       \<and> parts_ok None parts \<and> list_all is_white spaces)"
proof (cases "fromAI_head (expression_core expr)")
  case (Some body)
  have "isFromAIOnlyExpression expr \<longleftrightarrow> (\<exists>spaces. scan_call None None body = Some spaces \<and> list_all is_white spaces)"
    using Some by (auto simp: isFromAIOnlyExpression_def expression_core_def trim_empty [unfolded length_0_conv] split: option.splits)
  with Some show ?thesis by (auto simp: scan_iff found_call_def)
qed (simp add: isFromAIOnlyExpression_def expression_core_def)

section \<open>The check and the extraction agree\<close>

lemma arguments_text:
  assumes "text_ok q body" and "is_quote q"
  shows "call_arguments (Some q) n (show_text body @ q # s)
    = map_option (\<lambda>args. show_text body @ q # args) (call_arguments None n s)"
  using assms
proof (induction q body rule: text_ok.induct)
  case (1 q)
  then show ?case using special_chars(1) by (cases s) auto
next
  case (3 q c ps)
  obtain d ds where d: "show_text ps @ q # s = d # ds" by (cases "show_text ps @ q # s") auto
  from 3 have "call_arguments (Some q) n (d # ds) = map_option (\<lambda>args. show_text ps @ q # args) (call_arguments None n s)"
    "c \<noteq> q" "c \<noteq> BS" by (simp_all add: d)
  then show ?case by (simp add: d option.map_comp comp_def del: call_arguments.simps) (simp add: option.map_comp comp_def)
qed (auto simp: option.map_comp comp_def)

lemma arguments_parts: "parts_ok l ps \<Longrightarrow> call_arguments None 1 (show_parts ps @ CHR '')'' # rest) = Some (show_parts ps)"
proof (induction l ps rule: parts_ok.induct)
  case (1 l)
  have "\<not> is_quote (CHR '')'')" using special_chars(2) by blast
  then show ?case by simp
next
  case (2 l c ps)
  then have "c \<noteq> CHR '')''" "c \<noteq> CHR ''(''" "\<not> is_quote c" using special_chars by auto
  with 2 show ?case by simp
next
  case (3 l q body ps)
  then show ?case by (simp add: arguments_text)
qed

lemma skip_spaces:
  "parts_ok None ps \<Longrightarrow>
     \<exists>ps'. dropWhile is_white (show_parts ps @ CHR '')'' # rest) = show_parts ps' @ CHR '')'' # rest \<and> parts_ok None ps'"
proof (induction ps)
  case Nil
  have "\<not> is_white (CHR '')'')" by (simp add: is_white_def)
  then show ?case by (intro exI [of _ "[]"]) simp
next
  case (Cons p ps)
  show ?case
  proof (cases p)
    case (Outside c)
    with Cons show ?thesis by (cases "is_white c") (auto intro!: exI [of _ "p # ps"])
  next
    case (Quoted q body)
    with Cons.prems have "\<not> is_white q" by (auto simp: is_quote_def is_white_def backtick_def)
    with Quoted Cons.prems show ?thesis by (intro exI [of _ "p # ps"]) simp
  qed
qed

lemma dropWhile_found: "dropWhile P xs = y # ys \<Longrightarrow> dropWhile P (xs @ zs) = y # ys @ zs"
  by (induction xs) (auto split: if_splits)

lemma fromAI_head_append: "fromAI_head s = Some r \<Longrightarrow> fromAI_head (s @ t) = Some (r @ t)"
proof -
  assume head: "fromAI_head s = Some r"
  then have "map to_lower (take 7 s) = ''$fromai''" by (auto simp: fromAI_head_def split: if_splits)
  then have "length (map to_lower (take 7 s)) = length ''$fromai''" by (rule arg_cong)
  then have "drop 7 (s @ t) = drop 7 s @ t" "take 7 (s @ t) = take 7 s" by simp_all
  moreover from head have "dropWhile is_white (drop 7 s) = CHR ''('' # r"
    by (auto simp: fromAI_head_def split: if_splits list.splits)
  note dropWhile_found [OF this]
  ultimately show ?thesis using head by (auto simp: fromAI_head_def split: if_splits)
qed

lemma find_call_head: "fromAI_head s = Some rest \<Longrightarrow> find_call s = Some (dropWhile is_white rest)"
  by (cases s) (auto simp: fromAI_head_def)

lemma find_call_skip: "CHR ''$'' \<notin> set pre \<Longrightarrow> find_call (pre @ s) = find_call s"
proof (induction pre)
  case (Cons c pre)
  have "to_lower c = CHR ''$'' \<Longrightarrow> c = CHR ''$''"
    by (auto simp: to_lower_def Let_def char_of_eq_iff take_bit_eq_mod split: if_splits)
  with Cons.prems have "fromAI_head (c # pre @ s) = None" by (auto simp: fromAI_head_def eval_nat_numeral)
  with Cons show ?case by simp
qed simp

definition plain_prefix :: "string \<Rightarrow> string \<Rightarrow> bool" where
  "plain_prefix s t \<longleftrightarrow> (\<exists>pre post. s = pre @ t @ post \<and> CHR ''$'' \<notin> set pre)"

lemma plain_prefix_trans: "plain_prefix s t \<Longrightarrow> plain_prefix t u \<Longrightarrow> plain_prefix s u"
  unfolding plain_prefix_def by (metis Un_iff append.assoc set_append)

lemma plain_prefix_drop: "CHR ''$'' \<notin> set (take n s) \<Longrightarrow> plain_prefix s (drop n s)"
  unfolding plain_prefix_def by (intro exI [of _ "take n s"] exI [of _ "[]"]) simp

lemma plain_prefix_trim: "plain_prefix s (js_trim s)"
proof -
  let ?t = "dropWhile is_white s"
  have "\<not> is_white (CHR ''$'')" by (simp add: is_white_def)
  then have "CHR ''$'' \<notin> set (takeWhile is_white s)" by (auto dest: set_takeWhileD)
  moreover have "s = takeWhile is_white s @ js_trim s @ rev (takeWhile is_white (rev ?t))"
    unfolding js_trim_def rev_append [symmetric] takeWhile_dropWhile_id by simp
  ultimately show ?thesis unfolding plain_prefix_def by blast
qed

lemma plain_prefix_core: "plain_prefix expr (expression_core expr)"
proof -
  have equals: "plain_prefix s (strip_equals s)" for s
    using plain_prefix_drop [of 1 s] plain_prefix_drop [of 0 s]
    by (auto simp: strip_equals_def has_prefix_def)
  have marker: "plain_prefix s (strip_marker s)" for s
    using plain_prefix_drop [of "length auto_generated_marker" s] plain_prefix_drop [of 0 s]
      plain_prefix_trans [OF _ plain_prefix_trim]
    by (auto simp: strip_marker_def has_prefix_def auto_generated_marker_def)
  have braces: "plain_prefix s (strip_braces s)" for s
  proof (cases "has_prefix s ''{{'' \<and> has_suffix s ''}}''")
    case True
    then have "CHR ''$'' \<notin> set (take 2 s)" by (auto simp: has_prefix_def numeral_2_eq_2)
    moreover have "s = take 2 s @ drop 2 (take (length s - 2) s) @ drop (max 2 (length s - 2)) s"
    proof (cases "length s \<ge> 4")
      case True
      then have "Suc (Suc (length s - 4)) = max 2 (length s - 2)" by simp
      then have "drop (max 2 (length s - 2)) s = drop (length s - 4) (drop 2 s)" by simp
      moreover have "drop 2 (take (length s - 2) s) = take (length s - 4) (drop 2 s)" by (simp add: drop_take)
      ultimately show ?thesis by (metis append_take_drop_id)
    qed (simp add: drop_take max_def)
    ultimately have "plain_prefix s (drop 2 (take (length s - 2) s))" unfolding plain_prefix_def by blast
    with True plain_prefix_trans [OF _ plain_prefix_trim] show ?thesis by (auto simp: strip_braces_def)
  qed (use plain_prefix_drop [of 0 s] in \<open>auto simp: strip_braces_def\<close>)
  show ?thesis unfolding expression_core_def
    by (intro plain_prefix_trans [OF _ marker] plain_prefix_trans [OF _ braces]
        plain_prefix_trans [OF _ plain_prefix_trim] equals)
qed


section \<open>Instances\<close>

definition sample_call :: string where
  "sample_call = ''={{ $fromAI('' @ [CHR 0x27] @ ''city'' @ [CHR 0x27] @ '', '' @ [backtick] @ ''a (b)'' @ [backtick] @ '') }}''"


text \<open>
  The extraction goes on behind the opening parenthesis, not behind the call: a description that
  mentions a call yields a second argument, or an error, though the text is accepted.
\<close>

definition no_parsers :: js_parsers where
  "no_parsers = \<lparr>jp_number = (\<lambda>_. None), jp_json = (\<lambda>_. None)\<rparr>"

definition mentions_call :: "string \<Rightarrow> string" where
  "mentions_call s = ''=$fromAI('' @ [CHR 0x22] @ ''a'' @ [CHR 0x22] @ '', '' @ [CHR 0x22] @ s @ [CHR 0x22] @ '')''"

lemma description_becomes_call:
  "isFromAIOnlyExpression (mentions_call ''use $fromAI(b)'')"
  "map_sum id (map fa_key) (extractFromAICalls no_parsers (mentions_call ''use $fromAI(b)'')) = Inr [''a'', ''b'']"
  "isFromAIOnlyExpression (mentions_call ''$fromAI('')"
  "isl (extractFromAICalls no_parsers (mentions_call ''$fromAI(''))"
  by code_simp+

text \<open>A backslash is dropped before it is interpreted, and the type is compared in two ways.\<close>

lemma escape_is_lost:
  "map_sum id (map fa_description) (extractFromAICalls no_parsers (mentions_call [CHR ''x'', BS, CHR ''n'', CHR ''y'']))
   = Inr [Some ''xny'']"
  by code_simp

lemma type_case_matters:
  "parseDefaultValue (no_parsers\<lparr>jp_json := (\<lambda>_. Some (JNum 5))\<rparr>) (Some ''5'') ''string'' = Some (JStr ''5'')"
  "isFromAIArgumentType ''String''"
  "parseDefaultValue (no_parsers\<lparr>jp_json := (\<lambda>_. Some (JNum 5))\<rparr>) (Some ''5'') ''String'' = Some (JNum 5)"
  by code_simp+

end
