(* ===== verification/NodeParameters.thy ===== *)
theory NodeParameters
  imports FromAI
begin

text \<open>
  \<^verbatim>\<open>getNodeParameters\<close> of \<^verbatim>\<open>packages/workflow/src/node-helpers.ts\<close>, which adds the defaults to the
  parameters of a node when it is loaded and strips them when it is saved, and the order in which
  it resolves parameters that depend on others.
\<close>

section \<open>Dependencies\<close>

text \<open>The rules of \<^verbatim>\<open>show\<close> and \<^verbatim>\<open>hide\<close>, in the order of the object's keys.\<close>

definition rule_names :: "display_options \<Rightarrow> string list" where
  "rule_names opts = okeys (or_else (do_show opts) []) @ okeys (or_else (do_hide opts) [])"

definition add_dependency :: "string \<Rightarrow> string list \<Rightarrow> string list" where
  "add_dependency parameterName deps =
     (if parameterName \<in> set deps then deps
      else if has_prefix parameterName ''@'' then deps
      else deps @ [parameterName])"

definition property_dependencies :: "node_property \<Rightarrow> (string, string list) omap \<Rightarrow> (string, string list) omap" where
  "property_dependencies p dependencies =
     (let deps = or_else (map_of dependencies (pr_name p)) []
      in AList.update (pr_name p)
           (case pr_displayOptions p of None \<Rightarrow> deps | Some opts \<Rightarrow> fold add_dependency (rule_names opts) deps)
           dependencies)"

definition getParameterDependencies :: "node_property list \<Rightarrow> (string, string list) omap" where
  "getParameterDependencies props = fold property_dependencies props []"

section \<open>Order of resolution\<close>

definition resolve_error :: js_error where
  "resolve_error = UserError (''Could not resolve parameter dependencies. Max iterations reached! Hint: If `displayOptions` are specified in any child parameter of a parent `collection` or `fixedCollection`, remove the `displayOptions` from the child parameter.'')"

text \<open>
  The dependencies that are not resolved yet; for each of them the loop puts the index back
  (its \<^verbatim>\<open>continue\<close> belongs to the inner loop), and then takes the parameter as resolved.
\<close>

definition missing :: "string list \<Rightarrow> string list \<Rightarrow> string list" where
  "missing deps resolved = filter (\<lambda>d. d \<notin> set resolved \<and> \<not> has_prefix d ''/'') deps"

record resolve_state =
  rs_todo :: "nat list"
  rs_order :: "nat list"
  rs_resolved :: "string list"
  rs_iterations :: int
  rs_lastLength :: nat
  rs_lastReduction :: int

definition resolve_begin :: "node_property list \<Rightarrow> resolve_state" where
  "resolve_begin props = \<lparr>rs_todo = [0..<length props], rs_order = [], rs_resolved = [], rs_iterations = 0,
     rs_lastLength = length props, rs_lastReduction = - 1\<rparr>"

text \<open>One iteration, for the first index of the list and what is left of it.\<close>

definition resolve_step ::
    "node_property list \<Rightarrow> (string, string list) omap \<Rightarrow> nat \<Rightarrow> nat list \<Rightarrow> resolve_state \<Rightarrow> resolve_state res" where
  "resolve_step props dependencies index rest s =
     (let iterations = rs_iterations s + 1
      in case array_get props index of
          None \<Rightarrow> Inl (TypeError ''Cannot read properties of undefined'')
        | Some p \<Rightarrow>
            (case map_of dependencies (pr_name p) of
               None \<Rightarrow> Inl (TypeError ''Cannot read properties of undefined'')
             | Some deps \<Rightarrow>
                 (let s = s\<lparr>rs_iterations := iterations, rs_order := rs_order s @ [index]\<rparr>;
                      resolved = rs_resolved s @ [pr_name p]
                  in if length deps = 0 then Inr (s\<lparr>rs_todo := rest, rs_resolved := resolved\<rparr>)
                     else let todo = rest @ map (\<lambda>_. index) (missing deps (rs_resolved s));
                              lastReduction = (if length todo < rs_lastLength s then iterations else rs_lastReduction s)
                          in if iterations > lastReduction + int (length props) then Inl resolve_error
                             else Inr (s\<lparr>rs_todo := todo, rs_resolved := resolved, rs_lastReduction := lastReduction,
                                        rs_lastLength := length todo\<rparr>))))"

text \<open>
  The loop ends: an iteration resolves a new name, or takes off an index without missing
  dependencies, or gets nearer to the greatest number of iterations without reduction.
\<close>

definition unresolved_names :: "node_property list \<Rightarrow> resolve_state \<Rightarrow> nat" where
  "unresolved_names props s = card (pr_name ` set props - set (rs_resolved s))"

definition is_settled_index :: "node_property list \<Rightarrow> (string, string list) omap \<Rightarrow> string set \<Rightarrow> nat \<Rightarrow> bool" where
  "is_settled_index props dependencies names i =
     (\<forall>d \<in> set (or_else (map_of dependencies (pr_name (props ! i))) []). d \<in> names \<or> has_prefix d ''/'')"

definition settled_indexes :: "node_property list \<Rightarrow> (string, string list) omap \<Rightarrow> resolve_state \<Rightarrow> nat" where
  "settled_indexes props dependencies s =
     length (filter (is_settled_index props dependencies (set (rs_resolved s))) (rs_todo s))"

definition resolve_order ::
    "((node_property list \<times> (string, string list) omap \<times> resolve_state) \<times>
      (node_property list \<times> (string, string list) omap \<times> resolve_state)) set" where
  "resolve_order = measures
     [\<lambda>(props, deps, s). unresolved_names props s,
      \<lambda>(props, deps, s). settled_indexes props deps s,
      \<lambda>(props, deps, s). of_bool (length (rs_todo s) < rs_lastLength s),
      \<lambda>(props, deps, s). nat (rs_lastReduction s + int (length props) + 1 - rs_iterations s)]"

lemma missing_none: "missing deps resolved = [] \<longleftrightarrow> (\<forall>d \<in> set deps. d \<in> set resolved \<or> has_prefix d ''/'')"
  by (auto simp: missing_def filter_empty_conv)

lemma resolve_step_cases:
  assumes "resolve_step props deps index rest s = Inr s'"
  obtains p ds where "index < length props" "p = props ! index" "map_of deps (pr_name p) = Some ds"
    "rs_resolved s' = rs_resolved s @ [pr_name p]" "rs_order s' = rs_order s @ [index]"
    "rs_iterations s' = rs_iterations s + 1" "rs_todo s' = rest @ map (\<lambda>_. index) (missing ds (rs_resolved s))"
    "ds \<noteq> [] \<Longrightarrow> rs_lastLength s' = length (rs_todo s')" "ds = [] \<Longrightarrow> rs_lastLength s' = rs_lastLength s"
    "rs_lastReduction s' =
       (if ds \<noteq> [] \<and> length (rs_todo s') < rs_lastLength s then rs_iterations s' else rs_lastReduction s)"
    "ds \<noteq> [] \<Longrightarrow> rs_iterations s' \<le> rs_lastReduction s' + int (length props)"
  using assms
  by (auto simp: resolve_step_def Let_def array_get_def missing_def split: option.splits if_splits)

lemma resolve_step_decreases:
  assumes s': "resolve_step props deps index rest s = Inr s'" and todo: "rs_todo s = index # rest"
  shows "((props, deps, s'), (props, deps, s)) \<in> resolve_order"
  using s'
proof (cases rule: resolve_step_cases)
  case (1 p ds)
  let ?names = "pr_name ` set props"
  have in_names: "pr_name p \<in> ?names" using 1(1,2) by simp
  have finite: "finite ?names" by simp
  show ?thesis
  proof (cases "pr_name p \<in> set (rs_resolved s)")
    case False
    with in_names 1(4) have "?names - set (rs_resolved s') \<subset> ?names - set (rs_resolved s)" by auto
    then have "unresolved_names props s' < unresolved_names props s"
      unfolding unresolved_names_def by (intro psubset_card_mono) auto
    then show ?thesis by (simp add: resolve_order_def)
  next
    case True
    then have same: "set (rs_resolved s') = set (rs_resolved s)" using 1(4) by auto
    then have names: "unresolved_names props s' = unresolved_names props s" by (simp add: unresolved_names_def)
    let ?settled = "is_settled_index props deps (set (rs_resolved s))"
    have settled: "?settled index \<longleftrightarrow> missing ds (rs_resolved s) = []"
      using 1(2,3) by (auto simp: is_settled_index_def missing_none)
    show ?thesis
    proof (cases "missing ds (rs_resolved s)")
      case Nil
      with settled have "settled_indexes props deps s' < settled_indexes props deps s"
        using 1(7) todo by (simp add: settled_indexes_def same)
      with names show ?thesis by (simp add: resolve_order_def)
    next
      case (Cons d rest')
      with settled have "\<not> ?settled index" by simp
      then have indexes: "settled_indexes props deps s' = settled_indexes props deps s"
        using 1(7) todo by (simp add: settled_indexes_def same)
      have ds: "ds \<noteq> []" using Cons by (auto simp: missing_def)
      have grows: "length (rs_todo s) \<le> length (rs_todo s')" using 1(7) todo Cons by simp
      show ?thesis
      proof (cases "length (rs_todo s) < rs_lastLength s")
        case True
        with 1(8) ds names indexes show ?thesis by (simp add: resolve_order_def)
      next
        case False
        with grows 1(10) have "rs_lastReduction s' = rs_lastReduction s" by auto
        with 1(6) 1(11) ds have "nat (rs_lastReduction s' + int (length props) + 1 - rs_iterations s')
            < nat (rs_lastReduction s + int (length props) + 1 - rs_iterations s)" by auto
        with False 1(8) ds names indexes show ?thesis by (simp add: resolve_order_def)
      qed
    qed
  qed
qed

function resolve_loop ::
    "node_property list \<Rightarrow> (string, string list) omap \<Rightarrow> resolve_state \<Rightarrow> nat list res" where
  "resolve_loop props dependencies s =
     (case rs_todo s of
        [] \<Rightarrow> Inr (rs_order s)
      | index # rest \<Rightarrow> bind_res (resolve_step props dependencies index rest s) (resolve_loop props dependencies))"
  by pat_completeness auto
termination
proof (relation resolve_order)
  show "wf resolve_order" by (simp add: resolve_order_def)
qed (rule resolve_step_decreases)

declare resolve_loop.simps [simp del]

definition getParameterResolveOrder :: "node_property list \<Rightarrow> (string, string list) omap \<Rightarrow> nat list res" where
  "getParameterResolveOrder props dependencies = resolve_loop props dependencies (resolve_begin props)"

section \<open>The order is right\<close>

definition dependencies_of :: "(string, string list) omap \<Rightarrow> node_property \<Rightarrow> string list" where
  "dependencies_of dependencies p = or_else (map_of dependencies (pr_name p)) []"

text \<open>
  An index may be resolved several times; the last time comes after all parameters it depends on.
  Names that begin with a slash are taken from the root.
\<close>

definition resolved_last :: "node_property list \<Rightarrow> (string, string list) omap \<Rightarrow> nat list \<Rightarrow> nat \<Rightarrow> bool" where
  "resolved_last props dependencies order i \<longleftrightarrow>
     (\<exists>before after. order = before @ i # after \<and> i \<notin> set after
       \<and> (\<forall>d \<in> set (dependencies_of dependencies (props ! i)).
            has_prefix d ''/'' \<or> (\<exists>j \<in> set before. d = pr_name (props ! j))))"

definition resolve_inv :: "node_property list \<Rightarrow> (string, string list) omap \<Rightarrow> resolve_state \<Rightarrow> bool" where
  "resolve_inv props dependencies s \<longleftrightarrow> rs_resolved s = map (\<lambda>i. pr_name (props ! i)) (rs_order s)
     \<and> set (rs_order s) \<subseteq> {..<length props}
     \<and> (\<forall>i < length props. i \<in> set (rs_todo s) \<or> resolved_last props dependencies (rs_order s) i)"

lemma resolved_last_snoc:
  "resolved_last props deps order i \<Longrightarrow> i \<noteq> j \<Longrightarrow> resolved_last props deps (order @ [j]) i"
  unfolding resolved_last_def by (elim exE conjE, rule exI, rule exI [of _ "_ @ [j]"]) auto

lemma resolve_step_inv:
  assumes inv: "resolve_inv props deps s" and todo: "rs_todo s = index # rest"
    and s': "resolve_step props deps index rest s = Inr s'"
  shows "resolve_inv props deps s'"
  using s'
proof (cases rule: resolve_step_cases)
  case (1 p ds)
  have "i \<in> set (rs_todo s') \<or> resolved_last props deps (rs_order s') i" if i: "i < length props" for i
  proof (cases "i = index")
    case False
    with inv i todo show ?thesis using resolved_last_snoc 1(5,7) by (fastforce simp: resolve_inv_def)
  next
    case True
    show ?thesis
    proof (cases "missing ds (rs_resolved s)")
      case Nil
      then have "\<forall>d \<in> set (dependencies_of deps (props ! i)). has_prefix d ''/'' \<or> (\<exists>j \<in> set (rs_order s). d = pr_name (props ! j))"
        using 1(2,3) True inv by (auto simp: missing_none dependencies_of_def resolve_inv_def)
      with 1(5) True have "resolved_last props deps (rs_order s') i" unfolding resolved_last_def by fastforce
      then show ?thesis ..
    qed (use 1(7) True in auto)
  qed
  with inv 1 show ?thesis by (auto simp: resolve_inv_def)
qed

lemma resolve_loop_inv:
  "resolve_inv props deps s \<Longrightarrow> resolve_loop props deps s = Inr order \<Longrightarrow>
     set order \<subseteq> {..<length props} \<and> (\<forall>i < length props. resolved_last props deps order i)"
proof (induction props deps s rule: resolve_loop.induct)
  case (1 props deps s)
  show ?case
  proof (cases "rs_todo s")
    case Nil
    with 1 show ?thesis by (auto simp: resolve_loop.simps [of props deps s] resolve_inv_def)
  next
    case (Cons index rest)
    with "1.prems"(2) obtain s' where s': "resolve_step props deps index rest s = Inr s'" "resolve_loop props deps s' = Inr order"
      by (auto simp: resolve_loop.simps [of props deps s])
    from "1.IH" [OF Cons s'(1)] resolve_step_inv [OF "1.prems"(1) Cons s'(1)] s'(2) show ?thesis by blast
  qed
qed

text \<open>
  The loop fails only if a parameter depends on one that does not exist, or on itself.  The first
  iterations take the indexes in order; after them all names are resolved and each iteration
  makes the list shorter.
\<close>

definition self_contained :: "node_property list \<Rightarrow> (string, string list) omap \<Rightarrow> bool" where
  "self_contained props dependencies \<longleftrightarrow>
     (\<forall>p \<in> set props. map_of dependencies (pr_name p) \<noteq> None \<and> (\<forall>d \<in> set (dependencies_of dependencies p).
        has_prefix d ''/'' \<or> (d \<in> pr_name ` set props \<and> d \<noteq> pr_name p)))"

definition resolve_progress :: "node_property list \<Rightarrow> resolve_state \<Rightarrow> bool" where
  "resolve_progress props s \<longleftrightarrow> 0 \<le> rs_iterations s \<and> - 1 \<le> rs_lastReduction s
     \<and> length (rs_todo s) \<le> rs_lastLength s \<and> set (rs_todo s) \<subseteq> {..<length props}
     \<and> (\<forall>j < length props. int j < rs_iterations s \<longrightarrow> pr_name (props ! j) \<in> set (rs_resolved s))
     \<and> (rs_iterations s < int (length props) \<longrightarrow> (\<exists>more. rs_todo s = [nat (rs_iterations s)..<length props] @ more))"

lemma resolve_step_progress:
  assumes closed: "self_contained props deps" and ok: "resolve_progress props s" and todo: "rs_todo s = index # rest"
  shows "\<exists>s'. resolve_step props deps index rest s = Inr s' \<and> resolve_progress props s'"
proof -
  let ?n = "length props" and ?k = "nat (rs_iterations s)"
  define p where "p = props ! index"
  have index: "index < ?n" using ok todo by (auto simp: resolve_progress_def)
  then have p: "p \<in> set props" by (simp add: p_def)
  with closed obtain ds where ds: "map_of deps (pr_name p) = Some ds" by (auto simp: self_contained_def)
  have k: "rs_iterations s = int ?k" using ok by (simp add: resolve_progress_def)
  have first: "index = ?k \<and> (\<exists>more. rest = [Suc ?k..<?n] @ more)" if "?k < ?n"
    using that ok todo k by (auto simp: resolve_progress_def upt_conv_Cons)
  have none_missing: "missing ds (rs_resolved s) = []" if "?n \<le> ?k + 1"
  proof -
    have "d \<in> set (rs_resolved s)" if d: "d \<in> set ds" "\<not> has_prefix d ''/''" for d
    proof -
      from closed p d ds obtain q where q: "q \<in> set props" "d = pr_name q" "d \<noteq> pr_name p"
        by (fastforce simp: self_contained_def dependencies_of_def)
      then obtain j where j: "j < ?n" "q = props ! j" by (auto simp: in_set_conv_nth)
      with q(2,3) have "j \<noteq> index" by (auto simp: p_def)
      with j(1) first \<open>?n \<le> ?k + 1\<close> have "int j < rs_iterations s" using k by (cases "?k < ?n") auto
      with ok j q show ?thesis by (auto simp: resolve_progress_def)
    qed
    then show ?thesis by (auto simp: missing_none)
  qed
  define todo' where "todo' = rest @ map (\<lambda>_. index) (missing ds (rs_resolved s))"
  have shorter: "length todo' < rs_lastLength s" if "?n \<le> ?k + 1"
    using ok todo none_missing [OF that] by (simp add: todo'_def resolve_progress_def)
  have "\<exists>s'. resolve_step props deps index rest s = Inr s'"
  proof (cases "?n \<le> ?k + 1")
    case True
    with shorter index ds show ?thesis
      by (auto simp: resolve_step_def Let_def array_get_def p_def [symmetric] todo'_def)
  next
    case False
    moreover have "- 1 \<le> rs_lastReduction s" "0 \<le> rs_iterations s" using ok by (simp_all add: resolve_progress_def)
    ultimately have "rs_iterations s + 1 \<le> rs_lastReduction s + int ?n" by linarith
    with index ds show ?thesis by (auto simp: resolve_step_def Let_def array_get_def p_def [symmetric])
  qed
  then obtain s' where s': "resolve_step props deps index rest s = Inr s'" by blast
  have "resolve_progress props s'"
    using s'
  proof (cases rule: resolve_step_cases)
    case (1 q es)
    then have q: "q = p" "es = ds" using ds by (simp_all add: p_def)
    have "int j < rs_iterations s' \<Longrightarrow> pr_name (props ! j) \<in> set (rs_resolved s')" if "j < ?n" for j
      using ok that 1(2,4,6) first k by (cases "j = index") (auto simp: resolve_progress_def)
    moreover have "\<exists>more. rs_todo s' = [nat (rs_iterations s')..<?n] @ more" if "rs_iterations s' < int ?n"
    proof -
      have "0 \<le> rs_iterations s" using ok by (simp add: resolve_progress_def)
      then have "?k < ?n" "nat (rs_iterations s') = Suc ?k" using that 1(6) by auto
      with first 1(7) show ?thesis by auto
    qed
    moreover have "length (rs_todo s') \<le> rs_lastLength s'"
      using ok todo 1(7-9) by (cases "es = []") (auto simp: resolve_progress_def missing_def)
    moreover have "set (rs_todo s') \<subseteq> {..<?n}" using ok todo 1(7) index by (auto simp: resolve_progress_def)
    ultimately show ?thesis using ok 1(6,10) by (auto simp: resolve_progress_def)
  qed
  with s' show ?thesis by blast
qed

lemma resolve_loop_succeeds:
  "self_contained props deps \<Longrightarrow> resolve_progress props s \<Longrightarrow> \<exists>order. resolve_loop props deps s = Inr order"
proof (induction props deps s rule: resolve_loop.induct)
  case (1 props deps s)
  show ?case
  proof (cases "rs_todo s")
    case (Cons index rest)
    from resolve_step_progress [OF "1.prems" Cons] obtain s' where
      s': "resolve_step props deps index rest s = Inr s'" "resolve_progress props s'" by blast
    from "1.IH" [OF Cons s'(1) "1.prems"(1) s'(2)] show ?thesis
      by (simp add: resolve_loop.simps [of props deps s] Cons s'(1))
  qed (simp add: resolve_loop.simps [of props deps s])
qed

lemma dependencies_known:
  "map_of (fold property_dependencies props m) k \<noteq> None \<longleftrightarrow> map_of m k \<noteq> None \<or> k \<in> pr_name ` set props"
  by (induction props arbitrary: m) (auto simp: property_dependencies_def Let_def)

lemma resolve_error_only:
  "resolve_step props deps index rest s = Inl e \<Longrightarrow> index < length props \<Longrightarrow>
     map_of deps (pr_name (props ! index)) \<noteq> None \<Longrightarrow> e = resolve_error"
  by (auto simp: resolve_step_def Let_def array_get_def split: if_splits)

lemma resolve_loop_error:
  assumes "resolve_loop props deps s = Inl e" and "set (rs_todo s) \<subseteq> {..<length props}"
    and known: "\<forall>p \<in> set props. map_of deps (pr_name p) \<noteq> None"
  shows "e = resolve_error"
  using assms
proof (induction props deps s rule: resolve_loop.induct)
  case (1 props deps s)
  from "1.prems"(1) obtain index rest where todo: "rs_todo s = index # rest"
    by (cases "rs_todo s") (auto simp: resolve_loop.simps [of props deps s])
  with "1.prems"(2) have index: "index < length props" by auto
  show ?case
  proof (cases "resolve_step props deps index rest s")
    case (Inl e')
    with "1.prems"(1) todo have "e' = e" by (simp add: resolve_loop.simps [of props deps s])
    with resolve_error_only [OF Inl index] "1.prems"(3) index show ?thesis by auto
  next
    case (Inr s')
    then have "set (rs_todo s') \<subseteq> {..<length props}"
      using "1.prems"(2) todo by (cases rule: resolve_step_cases) auto
    with "1.IH" [OF todo Inr] "1.prems"(1,3) todo Inr show ?thesis
      by (simp add: resolve_loop.simps [of props deps s])
  qed
qed

text \<open>
  C25. The search for an order ends.  An order it returns contains every parameter and resolves each
  one, for the last time, after all parameters of the same level it depends on.  It fails, with
  the error for dependencies, only if a parameter depends on one that does not exist or on itself.
\<close>

theorem getParameterResolveOrder_exact:
  "case getParameterResolveOrder props (getParameterDependencies props) of
      Inr order \<Rightarrow> set order = {..<length props}
        \<and> (\<forall>i < length props. resolved_last props (getParameterDependencies props) order i)
    | Inl e \<Rightarrow> e = resolve_error \<and> (\<exists>p \<in> set props. \<exists>d \<in> set (dependencies_of (getParameterDependencies props) p).
        \<not> has_prefix d ''/'' \<and> (d \<notin> pr_name ` set props \<or> d = pr_name p))"
proof -
  let ?s = "resolve_begin props" and ?deps = "getParameterDependencies props"
  have known: "\<forall>p \<in> set props. map_of ?deps (pr_name p) \<noteq> None"
    using dependencies_known [of props "[]"] by (auto simp: getParameterDependencies_def)
  have progress: "resolve_progress props ?s" by (auto simp: resolve_begin_def resolve_progress_def)
  have inv: "resolve_inv props ?deps ?s" by (auto simp: resolve_begin_def resolve_inv_def)
  show ?thesis
  proof (cases "getParameterResolveOrder props ?deps")
    case (Inr order)
    with resolve_loop_inv [OF inv, of order] show ?thesis
      by (fastforce simp: getParameterResolveOrder_def resolved_last_def)
  next
    case (Inl e)
    have "set (rs_todo ?s) \<subseteq> {..<length props}" by (auto simp: resolve_begin_def)
    with Inl resolve_loop_error [OF _ _ known] have "e = resolve_error" by (simp add: getParameterResolveOrder_def)
    moreover have "\<not> self_contained props ?deps"
      using resolve_loop_succeeds [OF _ progress, of ?deps] Inl by (auto simp: getParameterResolveOrder_def)
    ultimately show ?thesis using Inl known by (auto simp: self_contained_def)
  qed
qed

text \<open>Parameters that depend on each other are accepted; one of them is resolved twice.\<close>

definition shown_if :: "string \<Rightarrow> string \<Rightarrow> node_property" where
  "shown_if name other = Node_property name ''string'' (JStr '''') None False
     (Some \<lparr>do_show = Some [(other, [Is_value (JStr ''x'')])], do_hide = None\<rparr>) None no_rules []"

lemma cycle_is_accepted:
  "(let props = [shown_if ''a'' ''b'', shown_if ''b'' ''a'']
    in getParameterResolveOrder props (getParameterDependencies props)) = Inr [0, 1, 0]"
  by code_simp

section \<open>Values\<close>

text \<open>\<^verbatim>\<open>nodeValues[name]\<close>: only an object has values.\<close>

fun value_at :: "jval option \<Rightarrow> string \<Rightarrow> jval option" where
  "value_at (Some (JObj m)) name = map_of m name"
| "value_at _ name = None"

definition js_keys :: "jval option \<Rightarrow> string list" where
  "js_keys v =
     (case v of
        Some (JStr s) \<Rightarrow> map show_nat [0..<length s]
      | Some x \<Rightarrow> okeys (json_entries x)
      | None \<Rightarrow> [])"

fun is_object :: "jval \<Rightarrow> bool" where
  "is_object JNull = True"
| "is_object (JArr xs) = True"
| "is_object (JObj m) = True"
| "is_object _ = False"

text \<open>\<^verbatim>\<open>{ ...base, ...v }\<close>\<close>

definition spread_value :: "data_object \<Rightarrow> jval option \<Rightarrow> data_object" where
  "spread_value base v = (case v of None \<Rightarrow> base | Some x \<Rightarrow> fold (\<lambda>(k, y). AList.update k y) (json_entries x) base)"

definition default_filter_options :: data_object where
  "default_filter_options = [(''caseSensitive'', JBool True), (''leftValue'', JStr ''''),
     (''typeValidation'', JStr ''strict''), (''version'', JNum 1)]"

definition patch_filter :: "data_object \<Rightarrow> data_object" where
  "patch_filter condition =
     (let condition = (case map_of condition ''combinator'' of
            None \<Rightarrow> AList.update ''combinator'' (JStr ''and'') condition
          | Some c \<Rightarrow> if c = JNull then AList.update ''combinator'' (JStr ''and'') condition else condition)
      in AList.update ''options'' (JObj (spread_value default_filter_options (map_of condition ''options''))) condition)"

text \<open>The value of a parameter that is no collection, with its default if it is not given.\<close>

definition with_default :: "node_property \<Rightarrow> jval option \<Rightarrow> jval" where
  "with_default p v =
     (if pr_type p \<in> {''boolean'', ''number'', ''options''} then or_else v (pr_default p)
      else if pr_type p = ''resourceLocator'' \<and> is_object (pr_default p)
      then or_else v (JObj (spread_value [(''__rl'', JBool True)] (Some (pr_default p))))
      else case v of
          None \<Rightarrow> pr_default p
        | Some x \<Rightarrow>
            (case (if pr_type p = ''filter'' then x else JNull) of
               JObj condition \<Rightarrow> JObj (patch_filter condition)
             | _ \<Rightarrow> if x = JNull then pr_default p else x))"

definition differs_from_default :: "string option \<Rightarrow> node_property \<Rightarrow> jval \<Rightarrow> bool" where
  "differs_from_default parentType p x =
     ((x \<noteq> pr_default p \<and> \<not> is_object x) \<or> (is_object x \<and> \<not> json_equal x (pr_default p))
      \<or> parentType = Some ''collection'')"

definition strip_expression :: "jval \<Rightarrow> jval" where
  "strip_expression v =
     (case v of JStr s \<Rightarrow> if is_expression (Some v) \<and> \<not> isFromAIOnlyExpression s then JStr (drop 1 s) else v | _ \<Rightarrow> v)"

section \<open>The parameters of a node\<close>

record param_state =
  ps_values :: data_object
  ps_full :: data_object

definition set_value :: "string \<Rightarrow> jval \<Rightarrow> param_state \<Rightarrow> param_state" where
  "set_value name v s = s\<lparr>ps_values := AList.update name v (ps_values s), ps_full := AList.update name v (ps_full s)\<rparr>"

definition strip_data_expression :: "node_property \<Rightarrow> param_state \<Rightarrow> param_state" where
  "strip_data_expression p s =
     (case (if pr_noDataExpression p then map_of (ps_values s) (pr_name p) else None) of
        None \<Rightarrow> s
      | Some v \<Rightarrow> if strip_expression v \<noteq> v then set_value (pr_name p) (strip_expression v) s else s)"

definition set_simple :: "bool \<Rightarrow> string option \<Rightarrow> node_property \<Rightarrow> jval option \<Rightarrow> param_state \<Rightarrow> param_state" where
  "set_simple returnDefaults parentType p v s =
     (if returnDefaults then strip_data_expression p (set_value (pr_name p) (with_default p v) s)
      else case v of
          None \<Rightarrow> strip_data_expression p s
        | Some x \<Rightarrow>
            if differs_from_default parentType p x then set_value (pr_name p) x s else strip_data_expression p s)"

text \<open>\<^verbatim>\<open>Returned\<close>: the function has returned from within its loop.\<close>

datatype loop_state = Going param_state | Returned data_object

fun entry_name :: "property_entry \<Rightarrow> string" where
  "entry_name (Option_value name v) = name"
| "entry_name (Option_property p) = pr_name p"
| "entry_name (Option_collection name vs) = name"

definition property_error :: js_error where
  "property_error = TypeError ''Cannot read properties of undefined''"

fun collection_values :: "property_entry \<Rightarrow> node_property list res" where
  "collection_values (Option_collection name vs) = Inr vs"
| "collection_values e = Inl property_error"

definition entry_properties :: "property_entry list \<Rightarrow> node_property list" where
  "entry_properties es = concat (map (\<lambda>e. case e of Option_property p \<Rightarrow> [p] | _ \<Rightarrow> []) es)"

text \<open>The lists of properties within a property.\<close>

definition sub_properties :: "node_property \<Rightarrow> node_property list set" where
  "sub_properties p = insert (entry_properties (pr_options p)) {vs. \<exists>e \<in> set (pr_options p). collection_values e = Inr vs}"

definition has_other_values :: "node_property list \<Rightarrow> jval option \<Rightarrow> bool" where
  "has_other_values vs item =
     (case item of
        None \<Rightarrow> False
      | Some x \<Rightarrow> js_truthy item \<and> list_ex (\<lambda>(key, y).
          case find (\<lambda>f. pr_name f = key) vs of None \<Rightarrow> False | Some f \<Rightarrow> \<not> json_equal y (pr_default f)) (json_entries x))"

definition single_item ::
    "(node_property list \<Rightarrow> jval option \<Rightarrow> data_object res) \<Rightarrow> bool \<Rightarrow> node_property \<Rightarrow> jval option \<Rightarrow> jval option \<Rightarrow>
     string \<Rightarrow> data_object \<times> bool \<Rightarrow> (data_object \<times> bool) res" where
  "single_item nested returnDefaults p v propertyValues itemName st =
     (let keep = (\<lambda>temp visible.
          (if temp \<noteq> [] \<or> (\<not> returnDefaults \<and> visible \<and> value_at propertyValues itemName \<noteq> None)
           then AList.update itemName (JObj temp) (fst st) else fst st, snd st \<or> visible))
      in case find (\<lambda>e. entry_name e = itemName) (pr_options p) of
          None \<Rightarrow> Inr (keep [] False)
        | Some e \<Rightarrow>
            bind_res (collection_values e) (\<lambda>vs.
              if v = None then Inl property_error
              else let item = value_at v itemName
                   in bind_res (nested vs item) (\<lambda>temp.
                        Inr (keep temp (temp \<noteq> [] \<or> \<not> has_other_values vs item)))))"

definition multiple_items ::
    "(node_property list \<Rightarrow> jval option \<Rightarrow> data_object res) \<Rightarrow> node_property \<Rightarrow> jval option \<Rightarrow> string \<Rightarrow>
     data_object \<times> bool \<Rightarrow> (data_object \<times> bool) res" where
  "multiple_items nested p propertyValues itemName st =
     (case propertyValues of
        Some (JObj m) \<Rightarrow>
          (case find (\<lambda>e. entry_name e = itemName) (pr_options p) of
             None \<Rightarrow> Inr st
           | Some e \<Rightarrow>
               bind_res (case map_of m itemName of
                   Some (JArr xs) \<Rightarrow> Inr xs
                 | Some (JStr s) \<Rightarrow> Inr (map (\<lambda>c. JStr [c]) s)
                 | _ \<Rightarrow> Inl (TypeError ''object is not iterable''))
               (\<lambda>items. bind_res (fold_res (\<lambda>item temp.
                     bind_res (collection_values e) (\<lambda>vs.
                       bind_res (nested vs (Some item)) (\<lambda>x. Inr (temp @ [JObj x])))) items [])
                   (\<lambda>temp. Inr (AList.update itemName (JArr temp) (fst st), snd st))))
      | _ \<Rightarrow> Inr st)"

definition fixed_collection ::
    "(node_property list \<Rightarrow> jval option \<Rightarrow> data_object res) \<Rightarrow> bool \<Rightarrow> node_property \<Rightarrow> jval option \<Rightarrow> param_state \<Rightarrow>
     loop_state res" where
  "fixed_collection nested returnDefaults p nodeValues s =
     (let v = value_at nodeValues (pr_name p);
          propertyValues = (if returnDefaults \<and> v = None then Some (pr_default p) else v);
          keys = js_keys propertyValues
      in if \<not> returnDefaults \<and> pr_multipleValues p = Some False \<and> js_truthy propertyValues \<and> length keys = 0
         then Inr (Returned (case nodeValues of Some (JObj m) \<Rightarrow> m | _ \<Rightarrow> []))
         else bind_res (fold_res (\<lambda>itemName.
               if pr_multipleValues p = Some True then multiple_items nested p propertyValues itemName
               else single_item nested returnDefaults p v propertyValues itemName) keys ([], False))
           (\<lambda>(collectionValues, hadAnyVisibleFields).
             let s = (if \<not> returnDefaults \<and> hadAnyVisibleFields \<and> pr_multipleValues p = Some False \<and> collectionValues = []
                         \<and> (case propertyValues of Some (JObj m) \<Rightarrow> m \<noteq> [] | _ \<Rightarrow> False)
                      then s\<lparr>ps_values := AList.update (pr_name p) (JObj (map (\<lambda>k. (k, JObj [])) keys)) (ps_values s)\<rparr>
                      else s)
             in Inr (Going (if collectionValues \<noteq> [] \<or> returnDefaults
                            then set_value (pr_name p) (JObj collectionValues) s else s))))"

definition set_collection ::
    "(node_property list \<Rightarrow> jval option \<Rightarrow> data_object res) \<Rightarrow> bool \<Rightarrow> node_property \<Rightarrow> jval option \<Rightarrow> param_state \<Rightarrow>
     loop_state res" where
  "set_collection nested returnDefaults p v s =
     (if pr_multipleValues p = Some True
      then Inr (Going (case v of
          Some x \<Rightarrow> set_value (pr_name p) x s
        | None \<Rightarrow>
            if returnDefaults
            then set_value (pr_name p) (case pr_default p of JArr xs \<Rightarrow> JArr xs | _ \<Rightarrow> JArr []) s
            else s))
      else case v of
          Some x \<Rightarrow> bind_res (nested (entry_properties (pr_options p)) v) (\<lambda>temp.
              Inr (Going (set_value (pr_name p) (JObj temp) s)))
        | None \<Rightarrow> Inr (Going (if returnDefaults then set_value (pr_name p) (pr_default p) s else s)))"

record parameter_options =
  po_onlySimpleTypes :: bool
  po_dataIsResolved :: bool
  po_nodeValuesRoot :: "jval option"
  po_parentType :: "string option"

definition top_options :: parameter_options where
  "top_options = \<lparr>po_onlySimpleTypes = False, po_dataIsResolved = False, po_nodeValuesRoot = None, po_parentType = None\<rparr>"

definition duplicate_names :: "node_property list \<Rightarrow> string set" where
  "duplicate_names props = {name \<in> pr_name ` set props. length (filter (\<lambda>p. pr_name p = name) props) > 1}"

text \<open>
  \<^verbatim>\<open>nodeValuesDisplayCheck\<close>: the parameters resolved beforehand, or those resolved so far; and the
  root, if none was given.
\<close>

definition check_values :: "data_object option \<Rightarrow> param_state \<Rightarrow> jval option" where
  "check_values resolved s = Some (JObj (or_else resolved (ps_full s)))"

definition root_values :: "parameter_options \<Rightarrow> data_object option \<Rightarrow> param_state \<Rightarrow> jval option" where
  "root_values opts resolved s =
     (if js_truthy (po_nodeValuesRoot opts) then po_nodeValuesRoot opts else check_values resolved s)"

definition is_simple :: "node_property \<Rightarrow> bool" where
  "is_simple p = (pr_type p \<notin> {''collection'', ''fixedCollection''})"

text \<open>The body of the loop for one property; \<^verbatim>\<open>nested\<close> is the function itself for a lower level.\<close>

definition property_step ::
    "display_env \<Rightarrow> display_context \<Rightarrow> (node_property list \<Rightarrow> jval option \<Rightarrow> parameter_options \<Rightarrow> data_object res) \<Rightarrow>
     bool \<Rightarrow> bool \<Rightarrow> parameter_options \<Rightarrow> string set \<Rightarrow> data_object option \<Rightarrow> jval option \<Rightarrow> node_property \<Rightarrow>
     param_state \<Rightarrow> loop_state res" where
  "property_step env ctx nested returnDefaults returnNoneDisplayed opts duplicates resolved nodeValues p s =
     (let v = value_at nodeValues (pr_name p); root = root_values opts resolved s;
          shown = displayParameter env (check_values resolved s) (pr_displayOptions p) ctx root;
          lower = (\<lambda>ps w. nested ps w (top_options\<lparr>po_nodeValuesRoot := root, po_parentType := Some (pr_type p)\<rparr>))
      in if \<not> js_truthy nodeValues
            \<or> (v = None \<and> (\<not> returnDefaults \<or> po_parentType opts = Some ''collection'')) then Inr (Going s)
         else if \<not> returnNoneDisplayed \<and> \<not> shown then Inr (Going s)
         else if is_simple p
         then Inr (Going (if pr_name p \<in> duplicates \<and> \<not> shown then s
                          else set_simple returnDefaults (po_parentType opts) p v s))
         else if po_onlySimpleTypes opts then Inr (Going s)
         else if pr_type p = ''collection'' then set_collection lower returnDefaults p v s
         else fixed_collection lower returnDefaults p nodeValues s)"

definition resolve_properties ::
    "display_env \<Rightarrow> display_context \<Rightarrow> (node_property list \<Rightarrow> jval option \<Rightarrow> parameter_options \<Rightarrow> data_object res) \<Rightarrow>
     node_property list \<Rightarrow> bool \<Rightarrow> bool \<Rightarrow> parameter_options \<Rightarrow> data_object option \<Rightarrow> jval option \<Rightarrow> data_object res" where
  "resolve_properties env ctx nested props returnDefaults returnNoneDisplayed opts resolved nodeValues =
     bind_res (getParameterResolveOrder props (getParameterDependencies props)) (\<lambda>order.
     bind_res (fold_res (\<lambda>i st.
         case st of
           Returned m \<Rightarrow> Inr st
         | Going s \<Rightarrow>
             (case array_get props i of
                None \<Rightarrow> Inl property_error
              | Some p \<Rightarrow> property_step env ctx nested returnDefaults returnNoneDisplayed opts (duplicate_names props)
                  resolved nodeValues p s)) order (Going \<lparr>ps_values = [], ps_full = []\<rparr>))
       (\<lambda>st. Inr (case st of Going s \<Rightarrow> ps_values s | Returned m \<Rightarrow> m)))"

text \<open>The first pass, over the simple types only, by whose values the others are displayed.\<close>

definition display_values ::
    "display_env \<Rightarrow> display_context \<Rightarrow> node_property list \<Rightarrow> parameter_options \<Rightarrow> jval option \<Rightarrow> data_object res" where
  "display_values env ctx props opts nodeValues =
     resolve_properties env ctx (\<lambda>_ _ _. Inr []) props True True
       (opts\<lparr>po_onlySimpleTypes := True, po_dataIsResolved := True\<rparr>) None nodeValues"

lemma entry_properties_size: "size_list size (entry_properties es) \<le> size_list size es"
  by (induction es) (auto simp: entry_properties_def split: property_entry.splits)

lemma sub_properties_size: "ps \<in> sub_properties p \<Longrightarrow> size_list size ps < size p"
proof -
  assume "ps \<in> sub_properties p"
  then consider "ps = entry_properties (pr_options p)" | e where "e \<in> set (pr_options p)" "collection_values e = Inr ps"
    by (auto simp: sub_properties_def)
  then show ?thesis
  proof cases
    case 1
    then show ?thesis using entry_properties_size [of "pr_options p"] by (cases p) auto
  next
    case 2
    then obtain name where "e = Option_collection name ps" by (cases e rule: collection_values.cases) auto
    with option_size [OF 2(1)] show ?thesis by simp
  qed
qed

lemma found_sub_properties:
  "find P (pr_options p) = Some e \<Longrightarrow> collection_values e = Inr vs \<Longrightarrow> vs \<in> sub_properties p"
  using find_in_set by (fastforce simp: sub_properties_def)

lemma single_item_cong:
  assumes "\<And>ps w. ps \<in> sub_properties p \<Longrightarrow> nested ps w = nested' ps w"
  shows "single_item nested rd p v pv name st = single_item nested' rd p v pv name st"
proof (cases "find (\<lambda>e. entry_name e = name) (pr_options p)")
  case (Some e)
  show ?thesis
  proof (cases "collection_values e")
    case (Inr vs)
    with Some assms [OF found_sub_properties [OF Some Inr]] show ?thesis by (simp add: single_item_def Let_def)
  qed (simp add: single_item_def Some)
qed (simp add: single_item_def)

lemma multiple_items_cong:
  assumes "\<And>ps w. ps \<in> sub_properties p \<Longrightarrow> nested ps w = nested' ps w"
  shows "multiple_items nested p pv name st = multiple_items nested' p pv name st"
proof (cases "find (\<lambda>e. entry_name e = name) (pr_options p)")
  case (Some e)
  have "bind_res (collection_values e) (\<lambda>vs. bind_res (nested vs w) f)
      = bind_res (collection_values e) (\<lambda>vs. bind_res (nested' vs w) f)" for w and f :: "data_object \<Rightarrow> jval list res"
    using assms [OF found_sub_properties [OF Some]] by (auto intro: bind_res_cong)
  then show ?thesis by (simp add: multiple_items_def Some split: option.split jval.split)
qed (simp add: multiple_items_def split: option.split jval.split)

lemma set_collection_cong:
  assumes "\<And>ps w. ps \<in> sub_properties p \<Longrightarrow> nested ps w = nested' ps w"
  shows "set_collection nested rd p v s = set_collection nested' rd p v s"
proof -
  have "nested (entry_properties (pr_options p)) = nested' (entry_properties (pr_options p))"
    by (intro ext assms) (simp add: sub_properties_def)
  then show ?thesis unfolding set_collection_def by (rule ssubst) (rule refl)
qed

lemma fixed_collection_cong:
  assumes "\<And>ps w. ps \<in> sub_properties p \<Longrightarrow> nested ps w = nested' ps w"
  shows "fixed_collection nested rd p nv s = fixed_collection nested' rd p nv s"
proof -
  have items: "single_item nested rd p v pv name = single_item nested' rd p v pv name"
    "multiple_items nested p pv name = multiple_items nested' p pv name" for v pv name
    by (intro ext single_item_cong multiple_items_cong assms; assumption)+
  show ?thesis unfolding fixed_collection_def items by (rule refl)
qed

lemma property_step_cong [fundef_cong]:
  assumes "p = p'" and nested: "\<And>ps w o'. ps \<in> sub_properties p' \<Longrightarrow> nested ps w o' = nested' ps w o'"
  shows "property_step env ctx nested rd rn opts dups resolved nodeValues p s
    = property_step env ctx nested' rd rn opts dups resolved nodeValues p' s"
proof -
  have collections: "set_collection (\<lambda>ps w. nested ps w o') rd p' v s = set_collection (\<lambda>ps w. nested' ps w o') rd p' v s"
    "fixed_collection (\<lambda>ps w. nested ps w o') rd p' v s = fixed_collection (\<lambda>ps w. nested' ps w o') rd p' v s"
    for o' v s
    by (intro set_collection_cong fixed_collection_cong nested; assumption)+
  show ?thesis unfolding assms(1) property_step_def Let_def collections by (rule refl)
qed

lemma resolve_properties_cong [fundef_cong]:
  assumes "props = props'" and "\<And>p ps w o'. p \<in> set props' \<Longrightarrow> ps \<in> sub_properties p \<Longrightarrow> nested ps w o' = nested' ps w o'"
  shows "resolve_properties env ctx nested props rd rn opts resolved nodeValues
    = resolve_properties env ctx nested' props' rd rn opts resolved nodeValues"
proof -
  have step: "(case st of Returned m \<Rightarrow> Inr st | Going s \<Rightarrow> (case array_get props' i of None \<Rightarrow> Inl property_error
        | Some p \<Rightarrow> property_step env ctx nested rd rn opts (duplicate_names props') resolved nodeValues p s))
      = (case st of Returned m \<Rightarrow> Inr st | Going s \<Rightarrow> (case array_get props' i of None \<Rightarrow> Inl property_error
        | Some p \<Rightarrow> property_step env ctx nested' rd rn opts (duplicate_names props') resolved nodeValues p s))" for i st
    using assms(2) array_get_in_set by (fastforce split: loop_state.split option.split intro: property_step_cong)
  show ?thesis unfolding assms(1) resolve_properties_def step by (rule refl)
qed

function getNodeParameters ::
    "display_env \<Rightarrow> display_context \<Rightarrow> bool \<Rightarrow> bool \<Rightarrow> node_property list \<Rightarrow> jval option \<Rightarrow> parameter_options \<Rightarrow>
     data_object res" where
  "getNodeParameters env ctx returnDefaults returnNoneDisplayed props nodeValues opts =
     bind_res (if \<not> po_dataIsResolved opts \<and> \<not> returnNoneDisplayed
               then bind_res (display_values env ctx props opts nodeValues) (\<lambda>m. Inr (Some m))
               else Inr None) (\<lambda>resolved.
       resolve_properties env ctx (getNodeParameters env ctx returnDefaults returnNoneDisplayed) props
         returnDefaults returnNoneDisplayed opts resolved nodeValues)"
  by pat_completeness auto
termination
proof (relation "measure (\<lambda>(env, ctx, rd, rn, props, nodeValues, opts). size_list size props)")
  fix env ctx rd rn nodeValues opts and props ps :: "node_property list" and resolved p w o'
  assume "p \<in> set props" and "ps \<in> sub_properties p"
  then have "size_list size ps < size p" "size p < Suc (size_list size props)"
    using sub_properties_size property_size by blast+
  then show "((env, ctx, rd, rn, ps, w, o'), env, ctx, rd, rn, props, nodeValues, opts)
      \<in> measure (\<lambda>(env, ctx, rd, rn, props, nodeValues, opts). size_list size props)" by simp
qed simp

declare getNodeParameters.simps [simp del]

section \<open>Flat descriptions\<close>

text \<open>Descriptions without collections, in which every parameter has a name of its own.\<close>

definition flat :: "node_property list \<Rightarrow> bool" where
  "flat props \<longleftrightarrow> (\<forall>p \<in> set props. is_simple p) \<and> distinct (map pr_name props)"

lemma named_once: "distinct (map f xs) \<Longrightarrow> length (filter (\<lambda>x. f x = y) xs) \<le> 1"
proof (induction xs)
  case (Cons x xs)
  show ?case
  proof (cases "f x = y")
    case True
    with Cons.prems have "filter (\<lambda>x. f x = y) xs = []" by (auto simp: filter_empty_conv) (metis image_eqI)
    with True show ?thesis by simp
  qed (use Cons in simp)
qed simp

lemma flat_no_duplicates: "flat props \<Longrightarrow> duplicate_names props = {}"
  using named_once [of pr_name props] by (auto simp: flat_def duplicate_names_def) (metis leD One_nat_def)

text \<open>The steps over the properties in some order, each changed by \<^verbatim>\<open>f\<close> with the value that is given.\<close>

definition step_all :: "(node_property \<Rightarrow> jval option \<Rightarrow> param_state \<Rightarrow> param_state) \<Rightarrow> node_property list \<Rightarrow> data_object \<Rightarrow>
    nat list \<Rightarrow> param_state \<Rightarrow> param_state" where
  "step_all f props m order s = fold (\<lambda>i. f (props ! i) (map_of m (pr_name (props ! i)))) order s"

lemma resolve_flat:
  assumes order: "getParameterResolveOrder props (getParameterDependencies props) = Inr order"
    and step: "\<And>p s. p \<in> set props \<Longrightarrow> property_step env ctx nested rd rn opts (duplicate_names props) resolved (Some (JObj m)) p s
      = Inr (Going (f p (map_of m (pr_name p)) s))"
  shows "resolve_properties env ctx nested props rd rn opts resolved (Some (JObj m))
    = Inr (ps_values (step_all f props m order \<lparr>ps_values = [], ps_full = []\<rparr>))"
proof -
  have range: "set order \<subseteq> {..<length props}"
    using resolve_loop_inv [of props "getParameterDependencies props" "resolve_begin props" order] order
    by (auto simp: getParameterResolveOrder_def resolve_inv_def resolve_begin_def)
  have "fold_res (\<lambda>i st. case st of Returned m \<Rightarrow> Inr st | Going s \<Rightarrow> (case array_get props i of None \<Rightarrow> Inl property_error
        | Some p \<Rightarrow> property_step env ctx nested rd rn opts (duplicate_names props) resolved (Some (JObj m)) p s)) is (Going s)
      = Inr (Going (step_all f props m is s))" if "set is \<subseteq> {..<length props}" for "is" s
    using that by (induction "is" arbitrary: s) (auto simp: array_get_def step step_all_def)
  from this [OF range] show ?thesis by (simp add: resolve_properties_def order)
qed

definition shown_by :: "display_env \<Rightarrow> display_context \<Rightarrow> data_object \<Rightarrow> node_property \<Rightarrow> bool" where
  "shown_by env ctx r p = displayParameter env (Some (JObj r)) (pr_displayOptions p) ctx (Some (JObj r))"

definition initial_state :: param_state where
  "initial_state = \<lparr>ps_values = [], ps_full = []\<rparr>"

lemma display_values_flat:
  assumes "flat props" and order: "getParameterResolveOrder props (getParameterDependencies props) = Inr order"
  shows "display_values env ctx props top_options (Some (JObj m))
    = Inr (ps_values (step_all (set_simple True None) props m order initial_state))"
  unfolding display_values_def initial_state_def
  by (rule resolve_flat [OF order])
     (use assms(1) flat_no_duplicates in \<open>auto simp: property_step_def Let_def flat_def top_options_def\<close>)

lemma getNodeParameters_flat:
  assumes "flat props" and order: "getParameterResolveOrder props (getParameterDependencies props) = Inr order"
    and r: "display_values env ctx props top_options (Some (JObj m)) = Inr r"
  shows "getNodeParameters env ctx rd False props (Some (JObj m)) top_options
    = Inr (ps_values (step_all (\<lambda>p v s. if (v = None \<and> \<not> rd) \<or> \<not> shown_by env ctx r p then s else set_simple rd None p v s)
        props m order initial_state))"
proof -
  have "resolve_properties env ctx (getNodeParameters env ctx rd False) props rd False top_options (Some r) (Some (JObj m))
    = Inr (ps_values (step_all (\<lambda>p v s. if (v = None \<and> \<not> rd) \<or> \<not> shown_by env ctx r p then s else set_simple rd None p v s)
        props m order \<lparr>ps_values = [], ps_full = []\<rparr>))"
    by (rule resolve_flat [OF order])
       (use assms(1) flat_no_duplicates in \<open>auto simp: property_step_def Let_def flat_def top_options_def shown_by_def
          check_values_def root_values_def\<close>)
  then show ?thesis
    by (subst getNodeParameters.simps) (simp add: r top_options_def [symmetric] initial_state_def,
        simp add: top_options_def)
qed

section \<open>What is loaded\<close>

definition loaded_value :: "node_property \<Rightarrow> jval option \<Rightarrow> jval" where
  "loaded_value p v = (if pr_noDataExpression p then strip_expression (with_default p v) else with_default p v)"

lemma set_simple_values:
  "map_of (ps_values (set_simple True None p v s))
    = (map_of (ps_values s))(pr_name p \<mapsto> loaded_value p v)"
  by (auto simp: set_simple_def strip_data_expression_def set_value_def loaded_value_def)

lemma step_all_Cons: "step_all f props m (i # is) s = step_all f props m is (f (props ! i) (map_of m (pr_name (props ! i))) s)"
  by (simp add: step_all_def)

lemma name_index: "flat props \<Longrightarrow> i < length props \<Longrightarrow> j < length props \<Longrightarrow> pr_name (props ! i) = pr_name (props ! j) \<longleftrightarrow> i = j"
  by (auto simp: flat_def nth_eq_iff_index_eq [of "map pr_name props" i j, simplified])

lemma loaded_values:
  "map_of (ps_values (step_all (\<lambda>p v s. if \<not> shown p then s else set_simple True None p v s) props m is s)) k
    = (case find (\<lambda>i. shown (props ! i) \<and> pr_name (props ! i) = k) (rev is) of
         Some i \<Rightarrow> Some (loaded_value (props ! i) (map_of m k))
       | None \<Rightarrow> map_of (ps_values s) k)"
proof (induction "is" arbitrary: s rule: rev_induct)
  case (snoc i "is")
  then show ?case by (auto simp: step_all_def set_simple_values split: option.splits)
qed (simp add: step_all_def)


section \<open>Saving and loading\<close>

text \<open>Giving the value is as good as giving none.\<close>

definition same_as_default :: "node_property \<Rightarrow> jval \<Rightarrow> bool" where
  "same_as_default p x \<longleftrightarrow> with_default p (Some x) = with_default p None"

definition saved_value :: "(node_property \<Rightarrow> bool) \<Rightarrow> data_object \<Rightarrow> node_property \<Rightarrow> jval option" where
  "saved_value shown m p =
     (case map_of m (pr_name p) of
        None \<Rightarrow> None
      | Some x \<Rightarrow> if shown p \<and> differs_from_default None p x then Some x else None)"

abbreviation save_step :: "(node_property \<Rightarrow> bool) \<Rightarrow> node_property \<Rightarrow> jval option \<Rightarrow> param_state \<Rightarrow> param_state" where
  "save_step shown p v s \<equiv> if v = None \<or> \<not> shown p then s else set_simple False None p v s"

lemma save_one:
  assumes "map_of (ps_values s) (pr_name p) \<in> {None, saved_value shown m p}"
  shows "map_of (ps_values (save_step shown p (map_of m (pr_name p)) s))
    = (map_of (ps_values s))(pr_name p := saved_value shown m p)"
proof (cases "saved_value shown m p")
  case None
  with assms have "map_of (ps_values s) (pr_name p) = None" by auto
  moreover from None have "v = None \<or> \<not> shown p \<or> (\<exists>x. v = Some x \<and> \<not> differs_from_default None p x)"
    if "v = map_of m (pr_name p)" for v
    using that by (auto simp: saved_value_def split: option.splits if_splits)
  ultimately show ?thesis
    using None by (auto simp: set_simple_def strip_data_expression_def)
next
  case (Some x)
  then show ?thesis by (auto simp: saved_value_def set_simple_def set_value_def split: option.splits if_splits)
qed

lemma saved_values:
  assumes "flat props" and "set is \<subseteq> {..<length props}" and "j < length props"
    and "\<forall>p \<in> set props. map_of (ps_values s) (pr_name p) \<in> {None, saved_value shown m p}"
  shows "map_of (ps_values (step_all (save_step shown) props m is s)) (pr_name (props ! j))
    = (if j \<in> set is then saved_value shown m (props ! j) else map_of (ps_values s) (pr_name (props ! j)))"
  using assms(2,4)
proof (induction "is" arbitrary: s)
  case (Cons i "is")
  let ?p = "props ! i"
  let ?s = "save_step shown ?p (map_of m (pr_name ?p)) s"
  have i: "i < length props" "?p \<in> set props" using Cons.prems(1) by auto
  have now: "map_of (ps_values ?s) = (map_of (ps_values s))(pr_name ?p := saved_value shown m ?p)"
    using Cons.prems(2) i(2) by (intro save_one) blast
  have inv: "\<forall>p \<in> set props. map_of (ps_values ?s) (pr_name p) \<in> {None, saved_value shown m p}"
  proof
    fix p assume p: "p \<in> set props"
    then obtain k where k: "k < length props" "p = props ! k" by (auto simp: in_set_conv_nth)
    show "map_of (ps_values ?s) (pr_name p) \<in> {None, saved_value shown m p}"
      using Cons.prems(2) p k name_index [OF assms(1) i(1) k(1)] by (cases "k = i") (auto simp: now)
  qed
  from Cons.IH [OF _ inv] Cons.prems(1) name_index [OF assms(1) i(1) assms(3)] show ?case
    by (auto simp: step_all_Cons now)
qed (simp add: step_all_def)

lemma step_all_values_cong:
  assumes "\<forall>i \<in> set is. f (props ! i) (map_of m (pr_name (props ! i))) = f (props ! i) (map_of m' (pr_name (props ! i)))"
  shows "step_all f props m is s = step_all f props m' is s"
  using assms by (induction "is" arbitrary: s) (auto simp: step_all_def)

lemma set_simple_default_cong: "with_default p v = with_default p v' \<Longrightarrow> set_simple True None p v = set_simple True None p v'"
  by (auto simp: set_simple_def fun_eq_iff)


section \<open>Instances\<close>

text \<open>An environment in which a path is the name of a parameter.\<close>

definition plain_env :: display_env where
  "plain_env = \<lparr>de_get = value_at, de_regex = (\<lambda>_ _. False), de_number = (\<lambda>_. None)\<rparr>"

definition plain_context :: display_context where
  "plain_context = \<lparr>dc_version = Some 1, dc_type = None\<rparr>"

definition save_parameters :: "node_property list \<Rightarrow> data_object \<Rightarrow> data_object res" where
  "save_parameters props m = getNodeParameters plain_env plain_context False False props (Some (JObj m)) top_options"

definition load_parameters :: "node_property list \<Rightarrow> data_object \<Rightarrow> data_object res" where
  "load_parameters props m = getNodeParameters plain_env plain_context True False props (Some (JObj m)) top_options"

definition text_property :: "string \<Rightarrow> (string \<times> string) option \<Rightarrow> node_property" where
  "text_property name shown = Node_property name ''string'' (JStr ''x'') None False
     (map_option (\<lambda>(other, v). \<lparr>do_show = Some [(other, [Is_value (JStr v)])], do_hide = None\<rparr>) shown) None no_rules []"

text \<open>\<^verbatim>\<open>b\<close> is shown if \<^verbatim>\<open>a\<close> is y, and \<^verbatim>\<open>c\<close> if \<^verbatim>\<open>b\<close> is.\<close>

definition chain_properties :: "node_property list" where
  "chain_properties = [text_property ''a'' None, text_property ''b'' (Some (''a'', ''y'')), text_property ''c'' (Some (''b'', ''y''))]"

definition single_collection :: "jval \<Rightarrow> node_property" where
  "single_collection d = Node_property ''f'' ''fixedCollection'' d (Some False) False None None no_rules
     [Option_collection ''rule'' [text_property ''t'' None]]"

text \<open>
  A value of a hidden parameter is not saved, but shows the parameters that depend on it while
  they are saved; when they are loaded they are hidden.
\<close>

lemma hidden_value_loses_parameter:
  "(let m = [(''a'', JStr ''z''), (''b'', JStr ''y''), (''c'', JStr ''z'')]
    in (load_parameters chain_properties m, save_parameters chain_properties m))
   = (Inr [(''a'', JStr ''z''), (''c'', JStr ''z'')], Inr [(''a'', JStr ''z''), (''c'', JStr ''z'')])"
  "load_parameters chain_properties [(''a'', JStr ''z''), (''c'', JStr ''z'')] = Inr [(''a'', JStr ''z'')]"
  by code_simp+

text \<open>An empty fixed collection for one value makes the function return all values as they are.\<close>

lemma empty_collection_returns_all:
  "save_parameters [text_property ''a'' None] [(''a'', JStr ''x'')] = Inr []"
  "save_parameters [text_property ''a'' None, single_collection (JObj [])] [(''a'', JStr ''x''), (''f'', JObj []), (''unknown'', JNull)]
   = Inr [(''a'', JStr ''x''), (''f'', JObj []), (''unknown'', JNull)]"
  by code_simp+

text \<open>The default of a fixed collection for one value is looked up in the values, where it is not.\<close>

lemma default_collection_throws:
  "load_parameters [single_collection (JObj [(''rule'', JObj [])])] [] = Inl property_error"
  by code_simp

text \<open>The theorems at parameters of which \<^verbatim>\<open>c\<close> is hidden and \<^verbatim>\<open>a\<close> is shown with a value of its own.\<close>

definition chain_values :: data_object where
  "chain_values = [(''a'', JStr ''y''), (''b'', JStr ''x''), (''other'', JNull)]"

lemma getParameterResolveOrder_exact_witness:
  "getParameterResolveOrder chain_properties (getParameterDependencies chain_properties) = Inr [0, 1, 2]
    \<and> resolved_last chain_properties (getParameterDependencies chain_properties) [0, 1, 2] 2"
proof -
  have order: "getParameterResolveOrder chain_properties (getParameterDependencies chain_properties) = Inr [0, 1, 2]" by code_simp
  with getParameterResolveOrder_exact [of chain_properties] show ?thesis by (simp add: chain_properties_def)
qed

lemma chain_flat: "flat chain_properties"
  by (simp add: flat_def chain_properties_def text_property_def is_simple_def)

lemma chain_display: "display_values plain_env plain_context chain_properties top_options (Some (JObj chain_values))
  = Inr [(''a'', JStr ''y''), (''b'', JStr ''x''), (''c'', JStr ''x'')]"
  by code_simp



end
