(* ===== verification/NodeIssues.thy ===== *)
theory NodeIssues
  imports NodeParameters
begin

text \<open>
  The issues of the parameters of a node (\<^verbatim>\<open>getNodeParametersIssues\<close> of
  \<^verbatim>\<open>packages/workflow/src/node-helpers.ts\<close>): required values that are missing, values of resource
  locators that do not match, numbers of fields, and the same for the parameters within
  collections.  The checks of values by their type, of filters and of resource mappers are
  parameters.
\<close>

section \<open>Issues\<close>

type_synonym issue_messages = "(string, string list) omap"

record found_issues =
  fi_execution :: bool
  fi_credentials :: "issue_messages option"
  fi_input :: "issue_messages option"
  fi_parameters :: "issue_messages option"
  fi_typeUnknown :: bool

definition no_issues :: found_issues where
  "no_issues = \<lparr>fi_execution = False, fi_credentials = None, fi_input = None, fi_parameters = None, fi_typeUnknown = False\<rparr>"

definition push_message :: "string \<Rightarrow> string list \<Rightarrow> issue_messages \<Rightarrow> issue_messages" where
  "push_message name messages m = AList.update name (or_else (map_of m name) [] @ messages) m"

definition add_parameter_issue :: "string \<Rightarrow> string \<Rightarrow> found_issues \<Rightarrow> found_issues" where
  "add_parameter_issue name message issues =
     issues\<lparr>fi_parameters := Some (push_message name [message] (or_else (fi_parameters issues) []))\<rparr>"

text \<open>\<^verbatim>\<open>mergeIssues\<close>: the messages of the source come after those that are there.\<close>

definition merge_messages :: "issue_messages option \<Rightarrow> issue_messages option \<Rightarrow> issue_messages option" where
  "merge_messages destination source =
     (case source of
        None \<Rightarrow> destination
      | Some m \<Rightarrow> Some (fold (\<lambda>(name, messages). push_message name messages) m (or_else destination [])))"

definition mergeIssues :: "found_issues \<Rightarrow> found_issues option \<Rightarrow> found_issues" where
  "mergeIssues destination source =
     (case source of
        None \<Rightarrow> destination
      | Some s \<Rightarrow> destination\<lparr>fi_execution := (fi_execution s \<or> fi_execution destination),
          fi_parameters := merge_messages (fi_parameters destination) (fi_parameters s),
          fi_credentials := merge_messages (fi_credentials destination) (fi_credentials s),
          fi_typeUnknown := (fi_typeUnknown s \<or> fi_typeUnknown destination)\<rparr>)"

definition nodeIssuesToString :: "found_issues \<Rightarrow> string option \<Rightarrow> string list" where
  "nodeIssuesToString issues nodeType =
     (if fi_execution issues then [''Execution Error.''] else [])
     @ concat (map (\<lambda>m. concat (ovals (or_else m []))) [fi_parameters issues, fi_credentials issues, fi_input issues])
     @ (if fi_typeUnknown issues
        then [case nodeType of None \<Rightarrow> ''Node Type is not known.'' | Some t \<Rightarrow> ''Node Type \"'' @ t @ ''\" is not known.'']
        else [])"

section \<open>Checks of one value\<close>

text \<open>
  The conversion of a value to text, and the checks that are not part of this file: by type (an error
  message, if any), of a resource mapper and of a filter (messages by field).
\<close>

record value_checks =
  vc_text :: "jval \<Rightarrow> string"
  vc_type :: "node_property \<Rightarrow> jval option \<Rightarrow> string \<Rightarrow> string option"
  vc_mapper :: "node_property \<Rightarrow> jval option \<Rightarrow> issue_messages option"
  vc_filter :: "node_property \<Rightarrow> jval option \<Rightarrow> issue_messages option"

text \<open>\<^verbatim>\<open>isValidResourceLocatorParameterValue\<close> reads a field of null.\<close>

definition isValidResourceLocatorParameterValue :: "jval option \<Rightarrow> bool res" where
  "isValidResourceLocatorParameterValue v =
     (case v of
        Some JNull \<Rightarrow> Inl property_error
      | Some (JObj m) \<Rightarrow> Inr (case map_of m ''value'' of Some (JNum n) \<Rightarrow> True | w \<Rightarrow> js_truthy w)
      | Some (JArr xs) \<Rightarrow> Inr False
      | _ \<Rightarrow> Inr (js_truthy v))"

definition is_missing :: "node_property \<Rightarrow> jval option \<Rightarrow> bool res" where
  "is_missing p v =
     (if pr_type p \<in> {''string'', ''dateTime'', ''options''} \<and> (v = Some (JStr '''') \<or> v = None) then Inr True
      else if pr_type p = ''multiOptions'' \<and> v = Some (JArr []) then Inr True
      else if pr_type p \<in> {''resourceLocator'', ''workflowSelector''}
      then bind_res (isValidResourceLocatorParameterValue v) (\<lambda>valid. Inr (\<not> valid))
      else Inr False)"

definition required_message :: "node_property \<Rightarrow> string" where
  "required_message p = ''Parameter \"'' @ ru_displayName (pr_rules p) @ ''\" is required.''"

definition addToIssuesIfMissing :: "node_property \<Rightarrow> jval option \<Rightarrow> found_issues \<Rightarrow> found_issues res" where
  "addToIssuesIfMissing p v issues =
     bind_res (is_missing p v) (\<lambda>miss.
       Inr (if miss then add_parameter_issue (pr_name p) (required_message p) issues else issues))"

definition validateResourceLocatorParameter ::
    "display_env \<Rightarrow> value_checks \<Rightarrow> data_object \<Rightarrow> (string \<times> string) list \<Rightarrow> string list" where
  "validateResourceLocatorParameter env checks v validations =
     (let valueToValidate = (case map_of v ''value'' of None \<Rightarrow> [] | Some JNull \<Rightarrow> [] | Some x \<Rightarrow> vc_text checks x)
      in if has_prefix valueToValidate ''='' then []
         else map snd (filter (\<lambda>(regex, message). \<not> de_regex env (''^'' @ regex @ ''$'') valueToValidate) validations))"

text \<open>An expression is not validated; \<^verbatim>\<open>vc_type\<close> is given the parameter, the value and the type.\<close>

definition validateParameter :: "value_checks \<Rightarrow> node_property \<Rightarrow> jval option \<Rightarrow> string \<Rightarrow> string option" where
  "validateParameter checks p v type =
     (case v of
        None \<Rightarrow> vc_type checks p v type
      | Some x \<Rightarrow> if x \<noteq> JNull \<and> has_prefix (vc_text checks x) ''='' then None else vc_type checks p v type)"

definition getParameterValueByPath :: "display_env \<Rightarrow> jval \<Rightarrow> string \<Rightarrow> string \<Rightarrow> jval option" where
  "getParameterValueByPath env nodeValues parameterName path =
     de_get env (Some nodeValues) (if path \<noteq> [] then path @ ''.'' @ parameterName else parameterName)"

section \<open>Checks of one parameter\<close>

definition check_required :: "display_env \<Rightarrow> jval \<Rightarrow> string \<Rightarrow> bool \<Rightarrow> node_property \<Rightarrow> found_issues res" where
  "check_required env nodeValues path isDisplayed p =
     (if \<not> ru_required (pr_rules p) \<or> \<not> isDisplayed then Inr no_issues
      else let v = getParameterValueByPath env nodeValues (pr_name p) path
           in if pr_multipleValues p \<noteq> None
              then (case v of Some (JArr xs) \<Rightarrow> fold_res (\<lambda>x. addToIssuesIfMissing p (Some x)) xs no_issues | _ \<Rightarrow> Inr no_issues)
              else addToIssuesIfMissing p v no_issues)"

definition spread_messages :: "issue_messages \<Rightarrow> found_issues \<Rightarrow> found_issues" where
  "spread_messages m issues =
     issues\<lparr>fi_parameters := Some (fold (\<lambda>(k, v). AList.update k v) m (or_else (fi_parameters issues) []))\<rparr>"

definition check_value ::
    "display_env \<Rightarrow> value_checks \<Rightarrow> jval \<Rightarrow> string \<Rightarrow> bool \<Rightarrow> node_property \<Rightarrow> found_issues \<Rightarrow> found_issues" where
  "check_value env checks nodeValues path isDisplayed p issues =
     (let v = getParameterValueByPath env nodeValues (pr_name p) path
      in if pr_type p \<in> {''resourceLocator'', ''workflowSelector''} \<and> isDisplayed
         then (case v of
             Some (JObj m) \<Rightarrow>
               (case (map_of m ''value'', map_of m ''mode'') of
                  (Some _, Some (JStr mode)) \<Rightarrow>
                    (case map_of (ru_modes (pr_rules p)) mode of
                       None \<Rightarrow> issues
                     | Some validations \<Rightarrow>
                         fold (add_parameter_issue (pr_name p)) (validateResourceLocatorParameter env checks m validations) issues)
                | _ \<Rightarrow> issues)
           | _ \<Rightarrow> issues)
         else if pr_type p = ''resourceMapper'' \<and> isDisplayed
         then (case vc_mapper checks p v of
             None \<Rightarrow> issues
           | Some m \<Rightarrow> if m = [] then issues
               else spread_messages m (issues\<lparr>fi_parameters := Some (push_message (pr_name p) [] (or_else (fi_parameters issues) []))\<rparr>))
         else if pr_type p = ''filter'' \<and> isDisplayed
         then (case vc_filter checks p v of
             None \<Rightarrow> issues
           | Some m \<Rightarrow> if m = [] then issues else spread_messages m issues)
         else case ru_validateType (pr_rules p) of
             None \<Rightarrow> issues
           | Some t \<Rightarrow>
               (case validateParameter checks p v t of
                  None \<Rightarrow> issues
                | Some e \<Rightarrow> if e = [] then issues else add_parameter_issue (pr_name p) e issues))"

text \<open>The number of values of one collection of a fixed collection; the later error counts.\<close>

definition count_error :: "parameter_rules \<Rightarrow> nat \<Rightarrow> string" where
  "count_error rules n =
     (let few = ru_minRequiredFields rules; many = ru_maxAllowedFields rules
      in if many > 0 \<and> n > many
         then ''At most '' @ show_nat many @ '' '' @ (if many = 1 then ''field is'' else ''fields are'') @ '' allowed.''
         else if few > 0 \<and> n < few
         then ''At least '' @ show_nat few @ '' '' @ (if few = 1 then ''field is'' else ''fields are'') @ '' required.''
         else [])"

definition named_collections :: "node_property \<Rightarrow> (string \<times> node_property list) list" where
  "named_collections p = concat (map (\<lambda>e. case e of Option_collection name vs \<Rightarrow> [(name, vs)] | _ \<Rightarrow> []) (pr_options p))"

text \<open>The base path of the parameters below, as the code builds it.\<close>

definition collection_base :: "string \<Rightarrow> string" where
  "collection_base path = (if path \<noteq> [] then path @ ''.'' else [])"

definition fixed_base :: "string \<Rightarrow> node_property \<Rightarrow> string" where
  "fixed_base path p = (if collection_base path \<noteq> [] then collection_base path @ ''.'' else pr_name p @ ''.'')"

definition fixed_value :: "display_env \<Rightarrow> jval \<Rightarrow> string \<Rightarrow> node_property \<Rightarrow> string \<Rightarrow> jval option" where
  "fixed_value env nodeValues path p name = getParameterValueByPath env nodeValues name (butlast (fixed_base path p))"

definition collection_error :: "display_env \<Rightarrow> jval \<Rightarrow> string \<Rightarrow> node_property \<Rightarrow> string \<Rightarrow> string" where
  "collection_error env nodeValues path p name =
     count_error (pr_rules p) (case fixed_value env nodeValues path p name of Some (JArr xs) \<Rightarrow> length xs | _ \<Rightarrow> 0)"

definition check_counts :: "display_env \<Rightarrow> jval \<Rightarrow> string \<Rightarrow> bool \<Rightarrow> node_property \<Rightarrow> found_issues \<Rightarrow> found_issues" where
  "check_counts env nodeValues path isDisplayed p issues =
     (if pr_type p = ''fixedCollection'' \<and> isDisplayed
      then fold (\<lambda>c issues.
          let e = collection_error env nodeValues path p (fst c)
          in if e = [] then issues else add_parameter_issue (pr_name p) e issues) (named_collections p) issues
      else issues)"

text \<open>The parameters to check below this one, each with its path.\<close>

definition child_parameters :: "display_env \<Rightarrow> jval \<Rightarrow> string \<Rightarrow> bool \<Rightarrow> node_property \<Rightarrow> (string \<times> node_property) list" where
  "child_parameters env nodeValues path isDisplayed p =
     (if pr_type p = ''collection'' then map (\<lambda>q. (collection_base path, q)) (entry_properties (pr_options p))
      else if pr_type p = ''fixedCollection'' \<and> isDisplayed
      then concat (map (\<lambda>(name, vs).
          case fixed_value env nodeValues path p name of
            None \<Rightarrow> []
          | Some v \<Rightarrow>
              if pr_multipleValues p \<noteq> None
              then (case v of
                  JArr xs \<Rightarrow> concat (map (\<lambda>i. map (\<lambda>q. (fixed_base path p @ name @ ''['' @ show_nat i @ '']'', q)) vs) [0..<length xs])
                | _ \<Rightarrow> [])
              else map (\<lambda>q. (fixed_base path p @ name, q)) vs) (named_collections p))
      else [])"

lemma child_parameters_size [termination_simp]:
  assumes "e \<in> set (child_parameters env nodeValues path isDisplayed p)"
  shows "size (snd e) < size p"
proof -
  obtain base q where e: "e = (base, q)" by (cases e)
  from assms e consider "q \<in> set (entry_properties (pr_options p))"
    | name vs where "(name, vs) \<in> set (named_collections p)" "q \<in> set vs"
    by (auto simp: child_parameters_def split: if_splits option.splits jval.splits)
  then obtain qs where "qs \<in> sub_properties p" "q \<in> set qs"
    by cases (fastforce simp: sub_properties_def named_collections_def split: property_entry.splits)+
  with sub_properties_size [of qs p] property_size [of q qs] e show ?thesis by simp
qed

text \<open>The loop over the parameters below: \<^verbatim>\<open>check\<close> is the function itself.\<close>

fun merge_issues_of ::
    "(node_property \<Rightarrow> string \<Rightarrow> found_issues res) \<Rightarrow> (string \<times> node_property) list \<Rightarrow> found_issues \<Rightarrow> found_issues res" where
  "merge_issues_of check [] issues = Inr issues"
| "merge_issues_of check (e # es) issues =
     bind_res (check (snd e) (fst e)) (\<lambda>found. merge_issues_of check es (mergeIssues issues (Some found)))"

lemma merge_issues_of_cong [fundef_cong]:
  "es = es' \<Longrightarrow> issues = issues' \<Longrightarrow> (\<And>e. e \<in> set es' \<Longrightarrow> check (snd e) (fst e) = check' (snd e) (fst e)) \<Longrightarrow>
     merge_issues_of check es issues = merge_issues_of check' es' issues'"
  by (induction es arbitrary: es' issues issues') (auto intro!: bind_res_cong)

function getParameterIssues ::
    "display_env \<Rightarrow> value_checks \<Rightarrow> display_context \<Rightarrow> jval \<Rightarrow> node_property \<Rightarrow> string \<Rightarrow> found_issues res" where
  "getParameterIssues env checks ctx nodeValues p path =
     (let isDisplayed = displayParameterPath env nodeValues (pr_displayOptions p) path ctx
      in bind_res (check_required env nodeValues path isDisplayed p) (\<lambda>issues.
           merge_issues_of (getParameterIssues env checks ctx nodeValues)
             (child_parameters env nodeValues path isDisplayed p)
             (check_counts env nodeValues path isDisplayed p
               (check_value env checks nodeValues path isDisplayed p issues))))"
  by pat_completeness auto
termination
  by (relation "measure (\<lambda>(env, checks, ctx, nodeValues, p, path). size p)") (auto dest: child_parameters_size)

declare getParameterIssues.simps [simp del]

definition getNodeParametersIssues ::
    "display_env \<Rightarrow> value_checks \<Rightarrow> display_context \<Rightarrow> node_property list \<Rightarrow> bool option \<Rightarrow> string \<Rightarrow> jval \<Rightarrow> string list option \<Rightarrow>
     found_issues option res" where
  "getNodeParametersIssues env checks ctx props disabled nodeName parameters pinDataNodeNames =
     (if disabled = Some True \<or> nodeName \<in> set (or_else pinDataNodeNames []) then Inr None
      else bind_res (merge_issues_of (getParameterIssues env checks ctx parameters) (map (Pair []) props) no_issues)
           (\<lambda>issues. Inr (if issues = no_issues then None else Some issues)))"

section \<open>No issue is lost\<close>

definition listed :: "issue_messages \<Rightarrow> string \<Rightarrow> string list" where
  "listed m name = or_else (map_of m name) []"

definition messages_of :: "found_issues \<Rightarrow> string \<Rightarrow> string list" where
  "messages_of issues = listed (or_else (fi_parameters issues) [])"

lemma listed_Nil: "listed [] k = []"
  by (simp add: listed_def)

lemma listed_push: "listed (push_message name ms m) k = (if k = name then listed m name @ ms else listed m k)"
  by (simp add: listed_def push_message_def map_of_update)

lemma push_message_keeps: "x \<in> set (listed m k) \<Longrightarrow> x \<in> set (listed (push_message name ms m) k)"
  by (auto simp: listed_push)

lemma push_all_keeps: "x \<in> set (listed m k) \<Longrightarrow> x \<in> set (listed (fold (\<lambda>(name, messages). push_message name messages) new m) k)"
proof (induction new arbitrary: m)
  case (Cons e new)
  from Cons.IH [OF push_message_keeps [OF Cons.prems]] show ?case by (simp add: split_beta)
qed simp

lemma push_all_adds:
  "(k, ms) \<in> set new \<Longrightarrow> x \<in> set ms \<Longrightarrow> x \<in> set (listed (fold (\<lambda>(name, messages). push_message name messages) new m) k)"
proof (induction new arbitrary: m)
  case (Cons e new)
  then consider "e = (k, ms)" | "(k, ms) \<in> set new" by auto
  then show ?case
  proof cases
    case 1
    have "x \<in> set (listed (push_message k ms m) k)" using Cons.prems(2) by (simp add: listed_push)
    from push_all_keeps [OF this] 1 show ?thesis by simp
  qed (use Cons in simp)
qed simp

lemma merge_keeps: "x \<in> set (messages_of issues k) \<Longrightarrow> x \<in> set (messages_of (mergeIssues issues (Some found)) k)"
  by (auto simp: messages_of_def mergeIssues_def merge_messages_def push_all_keeps split: option.split)

lemma merge_adds:
  assumes "x \<in> set (messages_of found k)"
  shows "x \<in> set (messages_of (mergeIssues issues (Some found)) k)"
proof (cases "fi_parameters found")
  case (Some m)
  with assms obtain ms where "map_of m k = Some ms" "x \<in> set ms"
    by (cases "map_of m k") (simp_all add: messages_of_def listed_def)
  with push_all_adds [OF map_of_SomeD] Some show ?thesis by (simp add: messages_of_def mergeIssues_def merge_messages_def)
qed (use assms in \<open>simp add: messages_of_def listed_Nil\<close>)

text \<open>Merging what is found for the elements of a list keeps each message.\<close>

lemma merged_keeps:
  "merge_issues_of check es issues = Inr result \<Longrightarrow> x \<in> set (messages_of issues k) \<Longrightarrow> x \<in> set (messages_of result k)"
  by (induction es arbitrary: issues) (auto intro: merge_keeps)

lemma merged_adds:
  "merge_issues_of check es issues = Inr result \<Longrightarrow> e \<in> set es \<Longrightarrow>
     \<exists>found. check (snd e) (fst e) = Inr found \<and> (\<forall>x \<in> set (messages_of found k). x \<in> set (messages_of result k))"
proof (induction es arbitrary: issues)
  case (Cons e' es)
  from Cons.prems(1) obtain found where found: "check (snd e') (fst e') = Inr found"
    "merge_issues_of check es (mergeIssues issues (Some found)) = Inr result" by auto
  show ?case
  proof (cases "e = e'")
    case True
    with found merged_keeps [OF found(2) merge_adds] show ?thesis by blast
  qed (use Cons.IH [OF found(2)] Cons.prems(2) in simp)
qed simp

lemma add_issue_keeps: "x \<in> set (messages_of issues k) \<Longrightarrow> x \<in> set (messages_of (add_parameter_issue name m issues) k)"
  by (auto simp: messages_of_def add_parameter_issue_def listed_push)

lemma check_counts_keeps:
  assumes "x \<in> set (messages_of issues k)"
  shows "x \<in> set (messages_of (check_counts env nodeValues path shown p issues) k)"
proof -
  have "x \<in> set (messages_of (fold (\<lambda>c issues. if h c = [] then issues else add_parameter_issue (pr_name p) (h c) issues) cs issues) k)"
    for h :: "string \<times> node_property list \<Rightarrow> string" and cs using assms
  proof (induction cs arbitrary: issues)
    case (Cons c cs)
    show ?case using Cons.IH [OF Cons.prems] Cons.IH [OF add_issue_keeps [OF Cons.prems]] by simp
  qed simp
  with assms show ?thesis by (simp add: check_counts_def Let_def)
qed

text \<open>The parameters that are checked with one: itself and those below it, with their paths.\<close>

inductive checked_with :: "display_env \<Rightarrow> display_context \<Rightarrow> jval \<Rightarrow> node_property \<Rightarrow> string \<Rightarrow> node_property \<Rightarrow> string \<Rightarrow> bool"
  for env ctx nodeValues q target where
  self: "checked_with env ctx nodeValues q target q target"
| below: "(base, p') \<in> set (child_parameters env nodeValues path
      (displayParameterPath env nodeValues (pr_displayOptions p) path ctx) p) \<Longrightarrow>
    checked_with env ctx nodeValues q target p' base \<Longrightarrow> checked_with env ctx nodeValues q target p path"

text \<open>A required text, date or choice that is displayed and not given.\<close>

definition required_missing :: "display_env \<Rightarrow> display_context \<Rightarrow> jval \<Rightarrow> node_property \<Rightarrow> string \<Rightarrow> bool" where
  "required_missing env ctx nodeValues p path \<longleftrightarrow>
     ru_required (pr_rules p) \<and> pr_multipleValues p = None \<and> pr_type p \<in> {''string'', ''dateTime'', ''options''}
     \<and> displayParameterPath env nodeValues (pr_displayOptions p) path ctx
     \<and> getParameterValueByPath env nodeValues (pr_name p) path \<in> {None, Some (JStr '''')}"

lemma getParameterIssues_Inr:
  assumes "getParameterIssues env checks ctx nodeValues p path = Inr issues"
    and "displayParameterPath env nodeValues (pr_displayOptions p) path ctx = shown"
  obtains own where "check_required env nodeValues path shown p = Inr own"
    and "merge_issues_of (getParameterIssues env checks ctx nodeValues)
      (child_parameters env nodeValues path shown p)
      (check_counts env nodeValues path shown p (check_value env checks nodeValues path shown p own)) = Inr issues"
  using assms by (auto simp: getParameterIssues.simps [of env checks ctx nodeValues p path] Let_def split_beta)

lemma own_issue:
  assumes "required_missing env ctx nodeValues p path" and issues: "getParameterIssues env checks ctx nodeValues p path = Inr issues"
  shows "required_message p \<in> set (messages_of issues (pr_name p))"
proof -
  let ?own = "add_parameter_issue (pr_name p) (required_message p) no_issues"
  have shown: "displayParameterPath env nodeValues (pr_displayOptions p) path ctx = True"
    using assms(1) by (simp add: required_missing_def)
  have missing: "is_missing p (getParameterValueByPath env nodeValues (pr_name p) path) = Inr True"
    using assms(1) by (auto simp: required_missing_def is_missing_def)
  have own: "check_required env nodeValues path True p = Inr ?own"
    using assms(1) by (simp add: required_missing_def check_required_def addToIssuesIfMissing_def missing Let_def)
  have "required_message p \<in> set (messages_of ?own (pr_name p))"
    by (simp add: messages_of_def add_parameter_issue_def listed_push)
  moreover have "pr_type p \<notin> {''resourceLocator'', ''workflowSelector''}" "pr_type p \<noteq> ''resourceMapper''" "pr_type p \<noteq> ''filter''"
    using assms(1) by (auto simp: required_missing_def)
  ultimately have checked: "required_message p \<in> set (messages_of (check_value env checks nodeValues path True p ?own) (pr_name p))"
    by (simp add: check_value_def Let_def add_issue_keeps split: option.split)
  obtain own' where "check_required env nodeValues path True p = Inr own'"
    and result: "merge_issues_of (getParameterIssues env checks ctx nodeValues)
      (child_parameters env nodeValues path True p)
      (check_counts env nodeValues path True p (check_value env checks nodeValues path True p own')) = Inr issues"
    by (rule getParameterIssues_Inr [OF issues shown])
  with own have "own' = ?own" by simp
  with merged_keeps [OF result check_counts_keeps] checked show ?thesis by simp
qed

lemma checked_issue:
  "checked_with env ctx nodeValues q target p path \<Longrightarrow> required_missing env ctx nodeValues q target \<Longrightarrow>
     getParameterIssues env checks ctx nodeValues p path = Inr issues \<Longrightarrow> required_message q \<in> set (messages_of issues (pr_name q))"
proof (induction arbitrary: issues rule: checked_with.induct)
  case self
  then show ?case by (rule own_issue)
next
  case (below base p' path p)
  obtain own where "merge_issues_of (getParameterIssues env checks ctx nodeValues)
      (child_parameters env nodeValues path (displayParameterPath env nodeValues (pr_displayOptions p) path ctx) p) own = Inr issues"
    by (rule getParameterIssues_Inr [OF below.prems(2) refl])
  from merged_adds [OF this below.hyps(1), of "pr_name q"] below.IH [OF below.prems(1)] show ?case by auto
qed


section \<open>Instances\<close>

text \<open>\<^verbatim>\<open>get\<close> for paths of names separated by dots.\<close>

fun split_dots :: "string \<Rightarrow> string \<Rightarrow> string list" where
  "split_dots name [] = [name]"
| "split_dots name (c # cs) = (if c = CHR ''.'' then name # split_dots [] cs else split_dots (name @ [c]) cs)"

definition dotted_env :: display_env where
  "dotted_env = \<lparr>de_get = (\<lambda>v path. foldl value_at v (split_dots [] path)), de_regex = (\<lambda>_ _. False), de_number = (\<lambda>_. None)\<rparr>"

definition no_checks :: value_checks where
  "no_checks = \<lparr>vc_text = (\<lambda>_. []), vc_type = (\<lambda>_ _ _. None), vc_mapper = (\<lambda>_ _. None), vc_filter = (\<lambda>_ _. None)\<rparr>"

definition required_text :: node_property where
  "required_text = Node_property ''t'' ''string'' (JStr '''') None False None None
     (no_rules\<lparr>ru_displayName := ''T'', ru_required := True\<rparr>) []"

definition fixed_of :: "string \<Rightarrow> node_property list \<Rightarrow> node_property" where
  "fixed_of name qs = Node_property name ''fixedCollection'' (JObj []) None False None None no_rules
     [Option_collection ''rule'' qs]"

definition collection_of :: "string \<Rightarrow> node_property list \<Rightarrow> node_property" where
  "collection_of name qs = Node_property name ''collection'' (JObj []) None False None None no_rules (map Option_property qs)"

definition issues_of :: "node_property list \<Rightarrow> data_object \<Rightarrow> string list res" where
  "issues_of props m = map_sum id (\<lambda>r. case r of None \<Rightarrow> [] | Some issues \<Rightarrow> nodeIssuesToString issues None)
     (getNodeParametersIssues dotted_env no_checks plain_context props None ''n'' (JObj m) None)"

definition empty_rule :: data_object where
  "empty_rule = [(''f'', JObj [(''rule'', JObj [(''t'', JStr '''')])])]"


text \<open>The parameters in a collection are looked up beside it, so a value that is given counts as missing.\<close>

lemma collection_child_not_found:
  "issues_of [collection_of ''c'' [required_text]] [(''c'', JObj [(''t'', JStr ''x'')])] = Inr [''Parameter \"T\" is required.'']"
  by code_simp

text \<open>A fixed collection within another one is looked up under a wrong path, and not checked.\<close>

lemma nested_collection_not_checked:
  "issues_of [fixed_of ''f'' [required_text]] empty_rule = Inr [''Parameter \"T\" is required.'']"
  "issues_of [fixed_of ''f'' [fixed_of ''g'' [required_text]]]
     [(''f'', JObj [(''rule'', JObj [(''g'', JObj [(''rule'', JObj [(''t'', JStr '''')])])])])] = Inr []"
  by code_simp+

text \<open>Null as the value of a required resource locator makes the check throw.\<close>

lemma null_locator_throws:
  "isl (issues_of [Node_property ''l'' ''resourceLocator'' (JObj []) None False None None (no_rules\<lparr>ru_required := True\<rparr>) []]
     [(''l'', JNull)])"
  by code_simp

end
