(* ===== verification/WorkflowValidation.thy ===== *)
theory WorkflowValidation
  imports Workflow DisplayOptions
begin

text \<open>
  The validations of \<^verbatim>\<open>packages/workflow/src\<close>: \<^verbatim>\<open>workflow-structure-validation.ts\<close>, which every stored
  or imported workflow passes, \<^verbatim>\<open>workflow-validation.ts\<close> and \<^verbatim>\<open>node-validation.ts\<close>, which are asked before
  a workflow is activated.  The schema is checked by a library: \<^verbatim>\<open>safeParse\<close> is a parameter, with
  the issues it finds or the nodes and connections it returns.
\<close>

section \<open>Structure of a workflow\<close>

datatype path_segment = Path_key string | Path_index nat

datatype issue_code = Schema_issue string | Duplicate_node_name | Unknown_connection_source | Unknown_connection_target

record structure_issue =
  si_code :: issue_code
  si_path :: "path_segment list"
  si_message :: string

record structure_data =
  sx_nodes :: "inode list"
  sx_connections :: iconnections

definition formatWorkflowStructureIssuePath :: "path_segment list \<Rightarrow> string" where
  "formatWorkflowStructureIssuePath path =
     (if length path = 0 then ''workflow''
      else foldl (\<lambda>acc segment. case segment of
          Path_index i \<Rightarrow> acc @ ''['' @ show_nat i @ '']''
        | Path_key k \<Rightarrow> if acc \<noteq> [] then acc @ ''.'' @ k else k) [] path)"

fun formatIssuesDescription :: "structure_issue list \<Rightarrow> string" where
  "formatIssuesDescription [] = []"
| "formatIssuesDescription (issue # issues) =
     formatWorkflowStructureIssuePath (si_path issue) @ '': '' @ si_message issue
     @ (if issues = [] then [] else CHR 0x0A # formatIssuesDescription issues)"

text \<open>The loop over the nodes: the names seen and the issues found.\<close>

definition check_name :: "nat \<times> inode \<Rightarrow> string list \<times> structure_issue list \<Rightarrow> string list \<times> structure_issue list" where
  "check_name entry acc =
     (case (entry, acc) of ((index, node), (nodeNames, issues)) \<Rightarrow>
        if n_name node \<in> set nodeNames
        then (nodeNames, issues @ [\<lparr>si_code = Duplicate_node_name,
          si_path = [Path_key ''nodes'', Path_index index, Path_key ''name''],
          si_message = ''Duplicate node name \"'' @ n_name node @ ''\"''\<rparr>])
        else (sadd (n_name node) nodeNames, issues))"

definition check_target :: "string list \<Rightarrow> string \<Rightarrow> string \<Rightarrow> nat \<Rightarrow> nat \<times> iconnection \<Rightarrow> structure_issue list" where
  "check_target nodeNames sourceNodeName connectionType sourceIndex entry =
     (case entry of (targetIndex, connection) \<Rightarrow>
        if c_node connection \<in> set nodeNames then []
        else [\<lparr>si_code = Unknown_connection_target,
          si_path = [Path_key ''connections'', Path_key sourceNodeName, Path_key connectionType, Path_index sourceIndex,
            Path_index targetIndex, Path_key ''node''],
          si_message = ''Connection target \"'' @ c_node connection @ ''\" does not reference an existing node''\<rparr>])"

definition check_buckets :: "string list \<Rightarrow> string \<Rightarrow> string \<times> node_input_connections \<Rightarrow> structure_issue list" where
  "check_buckets nodeNames sourceNodeName entry =
     (case entry of (connectionType, buckets) \<Rightarrow>
        concat (map (\<lambda>(sourceIndex, bucket).
          concat (map (check_target nodeNames sourceNodeName connectionType sourceIndex) (enumerate 0 (or_else bucket []))))
          (enumerate 0 buckets)))"

definition check_source :: "string list \<Rightarrow> string \<times> inode_connections \<Rightarrow> structure_issue list" where
  "check_source nodeNames entry =
     (case entry of (sourceNodeName, connectionTypes) \<Rightarrow>
        (if sourceNodeName \<in> set nodeNames then []
         else [\<lparr>si_code = Unknown_connection_source, si_path = [Path_key ''connections'', Path_key sourceNodeName],
           si_message = ''Connection source \"'' @ sourceNodeName @ ''\" does not reference an existing node''\<rparr>])
        @ concat (map (check_buckets nodeNames sourceNodeName) connectionTypes))"

definition safeParseWorkflowStructure ::
    "('i \<Rightarrow> structure_issue list + structure_data) \<Rightarrow> 'i \<Rightarrow> structure_issue list + structure_data" where
  "safeParseWorkflowStructure safeParse input =
     (case safeParse input of
        Inl issues \<Rightarrow> Inl issues
      | Inr data \<Rightarrow>
          (case fold check_name (enumerate 0 (sx_nodes data)) ([], []) of (nodeNames, issues) \<Rightarrow>
             let issues = issues @ concat (map (check_source nodeNames) (sx_connections data))
             in if length issues > 0 then Inl issues else Inr data))"

text \<open>The error carries the issues in its description.\<close>

definition parseWorkflowStructure :: "('i \<Rightarrow> structure_issue list + structure_data) \<Rightarrow> 'i \<Rightarrow> structure_data res" where
  "parseWorkflowStructure safeParse input =
     (case safeParseWorkflowStructure safeParse input of
        Inl issues \<Rightarrow> Inl (JsError ''WorkflowStructureValidationError'' ''Invalid workflow structure''
          (Some (formatIssuesDescription issues)))
      | Inr data \<Rightarrow> Inr data)"

section \<open>Activation\<close>

definition isTriggerLikeNode :: "node_type \<Rightarrow> bool" where
  "isTriggerLikeNode nt = (nt_trigger nt \<or> nt_webhook nt \<or> nt_poll nt)"

fun has_trigger_like :: "node_types \<Rightarrow> string list \<Rightarrow> inodes \<Rightarrow> bool" where
  "has_trigger_like types ignoreNodeTypes [] = False"
| "has_trigger_like types ignoreNodeTypes ((nodeName, node) # nodes) =
     (if n_disabled node = Some True then has_trigger_like types ignoreNodeTypes nodes
      else if n_type node \<in> set ignoreNodeTypes then has_trigger_like types ignoreNodeTypes nodes
      else case types (n_type node) (n_typeVersion node) of
          None \<Rightarrow> has_trigger_like types ignoreNodeTypes nodes
        | Some nt \<Rightarrow> if isTriggerLikeNode nt then True else has_trigger_like types ignoreNodeTypes nodes)"

definition validateWorkflowHasTriggerLikeNode :: "inodes \<Rightarrow> node_types \<Rightarrow> string list option \<Rightarrow> string option" where
  "validateWorkflowHasTriggerLikeNode nodes types ignoreNodeTypes =
     (if has_trigger_like types (or_else ignoreNodeTypes []) nodes then None
      else Some ''Workflow cannot be activated because it has no trigger node. At least one trigger, webhook, or polling node is required.'')"

section \<open>Credentials and connections of a node\<close>

record credential_description =
  cd_name :: string
  cd_displayName :: "string option"
  cd_required :: bool
  cd_displayOptions :: "display_options option"

text \<open>Credentials set for a node: an id, or managed by a gateway.\<close>

record node_credential =
  nc_id :: "string option"
  nc_aiGatewayManaged :: bool

datatype credential_problem = Credential_missing | Credential_not_configured

record credential_issue =
  ci_type :: credential_problem
  ci_displayName :: string
  ci_credentialName :: string

definition credential_issues_of ::
    "display_env \<Rightarrow> display_context \<Rightarrow> data_object \<Rightarrow> (string, node_credential) omap \<Rightarrow> credential_description \<Rightarrow>
     credential_issue list" where
  "credential_issues_of env ctx parameters credentials credDesc =
     (let credentialName = cd_name credDesc;
          report = (\<lambda>problem. [\<lparr>ci_type = problem, ci_displayName = or_else (cd_displayName credDesc) credentialName,
             ci_credentialName = credentialName\<rparr>])
      in if \<not> cd_required credDesc then []
         else if \<not> displayParameter env (Some (JObj parameters)) (cd_displayOptions credDesc) ctx None then []
         else case map_of credentials credentialName of
             None \<Rightarrow> report Credential_missing
           | Some nodeCredential \<Rightarrow>
               if or_else (nc_id nodeCredential) [] = [] \<and> \<not> nc_aiGatewayManaged nodeCredential
               then report Credential_not_configured else [])"

definition validateNodeCredentials ::
    "display_env \<Rightarrow> display_context \<Rightarrow> data_object \<Rightarrow> (string, node_credential) omap \<Rightarrow> credential_description list \<Rightarrow>
     credential_issue list" where
  "validateNodeCredentials env ctx parameters credentials credentialDescriptions =
     concat (map (credential_issues_of env ctx parameters credentials) credentialDescriptions)"

definition isNodeConnected :: "string \<Rightarrow> iconnections \<Rightarrow> iconnections \<Rightarrow> bool" where
  "isNodeConnected nodeName connections connectionsByDestination =
     ((case map_of connections nodeName of None \<Rightarrow> False | Some nc \<Rightarrow> length nc > 0)
      \<or> (case map_of connectionsByDestination nodeName of None \<Rightarrow> False | Some nc \<Rightarrow> length nc > 0))"

section \<open>Accepted structures\<close>

lemma check_names:
  "fold check_name (enumerate k ns) (names, issues) = (names', issues') \<Longrightarrow>
     set names' = set names \<union> n_name ` set ns
     \<and> (issues' = [] \<longleftrightarrow> issues = [] \<and> distinct (map n_name ns) \<and> n_name ` set ns \<inter> set names = {})"
proof (induction ns arbitrary: k names issues)
  case (Cons n ns)
  show ?case
  proof (cases "n_name n \<in> set names")
    case True
    with Cons.prems Cons.IH [of "Suc k" names] show ?thesis by (auto simp: check_name_def)
  next
    case False
    with Cons.prems Cons.IH [of "Suc k" "sadd (n_name n) names" issues] show ?thesis by (auto simp: check_name_def)
  qed
qed simp

lemma check_bucket_ok:
  "concat (map (check_target names src ty i) (enumerate k cs)) = [] \<longleftrightarrow> (\<forall>c \<in> set cs. c_node c \<in> set names)"
  by (induction cs arbitrary: k) (auto simp: check_target_def)

lemma check_buckets_ok:
  "check_buckets names src (ty, buckets) = [] \<longleftrightarrow> (\<forall>b \<in> set buckets. \<forall>c \<in> set (or_else b []). c_node c \<in> set names)"
proof -
  have "concat (map (\<lambda>(i, b). concat (map (check_target names src ty i) (enumerate 0 (or_else b [])))) (enumerate k bs)) = []
      \<longleftrightarrow> (\<forall>b \<in> set bs. \<forall>c \<in> set (or_else b []). c_node c \<in> set names)" for k bs
    using check_bucket_ok [of names src ty] by (induction bs arbitrary: k) (auto simp: concat_eq_Nil_conv)
  then show ?thesis by (simp add: check_buckets_def)
qed

definition names_known :: "string list \<Rightarrow> iconnections \<Rightarrow> bool" where
  "names_known names conns \<longleftrightarrow>
     (\<forall>(src, nc) \<in> set conns. src \<in> set names \<and>
        (\<forall>(ty, buckets) \<in> set nc. \<forall>b \<in> set buckets. \<forall>c \<in> set (or_else b []). c_node c \<in> set names))"

lemma check_source_ok: "concat (map (check_source names) conns) = [] \<longleftrightarrow> names_known names conns"
proof -
  have "check_source names entry = [] \<longleftrightarrow> (case entry of (src, nc) \<Rightarrow> src \<in> set names \<and>
      (\<forall>(ty, buckets) \<in> set nc. \<forall>b \<in> set buckets. \<forall>c \<in> set (or_else b []). c_node c \<in> set names))" for entry
    by (cases entry) (simp add: check_source_def concat_eq_Nil_conv split_beta check_buckets_ok [of names _ "fst e" "snd e" for e, simplified])
  then show ?thesis by (simp add: names_known_def concat_eq_Nil_conv)
qed

lemma structure_accepted:
  "safeParseWorkflowStructure safeParse input = Inr data \<longleftrightarrow>
     safeParse input = Inr data \<and> distinct (map n_name (sx_nodes data))
     \<and> names_known (map n_name (sx_nodes data)) (sx_connections data)"
proof (cases "safeParse input")
  case (Inr d)
  obtain names issues where names: "fold check_name (enumerate 0 (sx_nodes d)) ([], []) = (names, issues)" by fastforce
  from check_names [OF this] have ok: "set names = n_name ` set (sx_nodes d)" "issues = [] \<longleftrightarrow> distinct (map n_name (sx_nodes d))"
    by auto
  then have "names_known names (sx_connections d) \<longleftrightarrow> names_known (map n_name (sx_nodes d)) (sx_connections d)"
    by (simp add: names_known_def)
  with Inr names ok(2) check_source_ok [of names "sx_connections d"] show ?thesis
    by (auto simp: safeParseWorkflowStructure_def Let_def)
qed (simp add: safeParseWorkflowStructure_def)

lemma known_connection:
  assumes "names_known names conns" and "c \<in> set (conn_at conns src ty i)"
  shows "src \<in> set names" and "c_node c \<in> set names"
proof -
  from assms(2) obtain nc groups where nc: "map_of conns src = Some nc" "map_of nc ty = Some groups" "c \<in> set (group_at groups i)"
    by (auto simp: conn_at_def typed_inputs_def group_at_def array_get_def split: option.splits)
  then obtain b where b: "b \<in> set groups" "c \<in> set (or_else b [])"
    by (auto simp: group_at_def array_get_def split: option.splits if_splits dest: nth_mem)
  from map_of_SomeD [OF nc(1)] map_of_SomeD [OF nc(2)] b assms(1) show "src \<in> set names" "c_node c \<in> set names"
    by (fastforce simp: names_known_def)+
qed

lemma fold_sadd_distinct: "distinct (ys @ xs) \<Longrightarrow> fold sadd xs ys = ys @ xs"
proof (induction xs arbitrary: ys)
  case (Cons x xs)
  then have "sadd x ys = ys @ [x]" by (simp add: sadd_def)
  with Cons.IH [of "ys @ [x]"] Cons.prems show ?case by simp
qed simp

lemma fold_update_distinct:
  "distinct (map n_name ns) \<Longrightarrow> okeys (fold (\<lambda>n. AList.update (n_name n) n) ns []) = map n_name ns"
  using omap.keys_put_all [of n_name "\<lambda>n. n" ns "[]"] fold_sadd_distinct [of "[]" "map n_name ns"] by simp

text \<open>
  C28. A workflow made of a structure that is accepted has exactly the nodes of the input, each
  under its name, and both of its tables of connections name existing nodes only.
\<close>

theorem accepted_structure_builds_workflow:
  assumes "safeParseWorkflowStructure safeParse input = Inr data" and "proper_keys (sx_connections data)"
    and "wp_nodes ps = sx_nodes data" and "wp_connections ps = sx_connections data"
  shows "let w = new_workflow types getNodeParameters ps in
    okeys (w_nodes w) = map n_name (sx_nodes data)
    \<and> (\<forall>n \<in> set (sx_nodes data). getNode w (n_name n) = Some (default_parameters types getNodeParameters n))
    \<and> (\<forall>src ty i. \<forall>c \<in> set (conn_at (w_connectionsBySourceNode w) src ty i) \<union> set (conn_at (w_connectionsByDestinationNode w) src ty i).
         src \<in> set (okeys (w_nodes w)) \<and> c_node c \<in> set (okeys (w_nodes w)))"
proof -
  let ?w = "new_workflow types getNodeParameters ps" and ?ns = "map (default_parameters types getNodeParameters) (sx_nodes data)"
  from assms(1) have names: "distinct (map n_name (sx_nodes data))"
    and known: "names_known (map n_name (sx_nodes data)) (sx_connections data)" by (simp_all add: structure_accepted)
  have same: "map n_name ?ns = map n_name (sx_nodes data)" by simp
  have keys: "okeys (w_nodes ?w) = map n_name (sx_nodes data)"
    using fold_update_distinct [of ?ns] names unfolding new_workflow_sel assms(3) same by simp
  have "getNode ?w (n_name n) = Some (default_parameters types getNodeParameters n)" if "n \<in> set (sx_nodes data)" for n
  proof -
    have "List.find (\<lambda>m. n_name m = n_name n) (rev ?ns) = Some (default_parameters types getNodeParameters n)"
      using find_unique [of n_name "rev ?ns" "default_parameters types getNodeParameters n"] names that
      by (simp add: rev_map [symmetric] comp_def)
    then show ?thesis unfolding getNode_def new_workflow_sel map_of_fold_nodes assms(3) by simp
  qed
  moreover have "src \<in> set (map n_name (sx_nodes data)) \<and> c_node c \<in> set (map n_name (sx_nodes data))"
    if "c \<in> set (conn_at (mapConnectionsByDestination (sx_connections data)) src ty i)" for src ty i c
  proof -
    have "\<lparr>c_node = src, c_type = ty, c_index = i\<rparr> \<in> set (conn_at (sx_connections data) (c_node c) (c_type c) (c_index c))"
      using that mem_destination_iff [OF assms(2), of "c_node c" "c_type c" "c_index c" src ty i] by simp
    from known_connection [OF known this] show ?thesis by simp
  qed
  ultimately show ?thesis
    using known_connection [OF known] unfolding Let_def keys new_workflow_sel(2,3) assms(4) by blast
qed

definition chain_structure :: structure_data where
  "chain_structure = \<lparr>sx_nodes = [plain_node 1 ''a'' ''t'', plain_node 2 ''b'' ''t''],
     sx_connections = [(''a'', [(Main_t, [Some [\<lparr>c_node = ''b'', c_type = Main_t, c_index = 0\<rparr>], None])])]\<rparr>"

lemma accepted_structure_builds_workflow_witness:
  "safeParseWorkflowStructure Inr chain_structure = Inr chain_structure
    \<and> (let w = new_workflow (\<lambda>_ _. None) (\<lambda>_ _. None) \<lparr>wp_nodes = sx_nodes chain_structure,
           wp_connections = sx_connections chain_structure, wp_active = False, wp_settings = None, wp_pinData = None\<rparr>
       in okeys (w_nodes w) = [''a'', ''b'']
          \<and> conn_at (w_connectionsByDestinationNode w) ''b'' Main_t 0 = [\<lparr>c_node = ''a'', c_type = Main_t, c_index = 0\<rparr>])"
proof -
  let ?ps = "\<lparr>wp_nodes = sx_nodes chain_structure, wp_connections = sx_connections chain_structure, wp_active = False,
      wp_settings = None, wp_pinData = None\<rparr>"
  have ok: "safeParseWorkflowStructure Inr chain_structure = Inr chain_structure" "proper_keys (sx_connections chain_structure)"
    "map n_name (sx_nodes chain_structure) = [''a'', ''b'']"
    "conn_at (mapConnectionsByDestination (sx_connections chain_structure)) ''b'' Main_t 0 = [\<lparr>c_node = ''a'', c_type = Main_t, c_index = 0\<rparr>]"
    by code_simp+
  from accepted_structure_builds_workflow [OF ok(1,2), of ?ps "\<lambda>_ _. None" "\<lambda>_ _. None"]
  show ?thesis using ok by (simp add: Let_def new_workflow_sel(3))
qed

section \<open>Activation\<close>

text \<open>
  A workflow can be activated exactly if one of its nodes is enabled, not of an ignored type and of a
  known type that is a trigger, a webhook or polls.
\<close>

lemma validateWorkflowHasTriggerLikeNode_exact:
  "validateWorkflowHasTriggerLikeNode nodes types ignored = None \<longleftrightarrow>
     (\<exists>(name, n) \<in> set nodes. n_disabled n \<noteq> Some True \<and> n_type n \<notin> set (or_else ignored [])
        \<and> (\<exists>nt. types (n_type n) (n_typeVersion n) = Some nt \<and> isTriggerLikeNode nt))"
proof -
  have "has_trigger_like types ignoreds nodes \<longleftrightarrow> (\<exists>(name, n) \<in> set nodes. n_disabled n \<noteq> Some True \<and> n_type n \<notin> set ignoreds
      \<and> (\<exists>nt. types (n_type n) (n_typeVersion n) = Some nt \<and> isTriggerLikeNode nt))" for ignoreds
    by (induction nodes rule: has_trigger_like.induct) (auto split: option.splits)
  then show ?thesis by (simp add: validateWorkflowHasTriggerLikeNode_def)
qed

text \<open>A node whose outputs are listed, but empty, counts as connected.\<close>

lemma empty_outputs_count_as_connected:
  "isNodeConnected ''a'' [(''a'', [(Main_t, [Some []])])] []"
  "mapConnectionsByDestination [(''a'', [(Main_t, [Some []])])] = []"
  by code_simp+

end
